(* ===== verification/C_Runtime.thy ===== *)
theory C_Runtime
  imports Main
    "HOL-Library.Word"
    "HOL-Library.Monad_Syntax"
    "HOL-Library.Char_ord"
    "HOL-Library.List_Lexorder"
    "HOL-Library.Multiset"
begin

text \<open>
  The part of the C language and its standard library that the modelled sources use, and the
  lemmas every component shares.

  \<^item> \<^emph>\<open>Outcomes.\<close> An operation that can run into undefined behaviour (an out-of-bounds access, a
    read of a missing array element), a failed \<open>assert\<close> or an endless loop has a result of type
    \<open>'a option\<close>, and \<open>None\<close> stands for all of these. \<open>returns x Q\<close> says that \<open>x\<close> is none of them and
    that the value returned satisfies \<open>Q\<close>: total correctness.
  \<^item> \<^emph>\<open>Dynamic memory.\<close> A record \<open>mem\<close> is passed through every operation that allocates. Its
    \<open>script\<close> fixes the answers of the next calls of malloc, realloc and strdup (\<open>True\<close>: the request is
    granted); when it is used up every request within the limit is granted, so the scripts cover every
    pattern of failures of a finite run. \<open>live\<close> counts the blocks allocated and not yet released, so
    a leak is visible as a difference in \<open>live\<close>. \<open>junk\<close> is what fresh memory holds.
  \<^item> \<^emph>\<open>Strings.\<close> A C string is the list of its characters before the terminating NUL.
\<close>

section \<open>Outcomes\<close>

definition returns :: "'a option \<Rightarrow> ('a \<Rightarrow> bool) \<Rightarrow> bool" where
  "returns x Q = (case x of None \<Rightarrow> False | Some y \<Rightarrow> Q y)"

text \<open>\<open>assert\<close> and the checks of the memory model: go on only where the condition holds.\<close>

definition check :: "bool \<Rightarrow> unit option" where
  "check b = (if b then Some () else None)"

section \<open>Dynamic memory\<close>

record mem =
  script :: "bool list"
  live :: int
  junk :: "nat \<Rightarrow> char"

text \<open>No request above \<open>PTRDIFF_MAX\<close> bytes is ever granted.\<close>

definition PTRDIFF_MAX :: nat where
  "PTRDIFF_MAX = 9223372036854775807"

definition SIZE_MODULUS :: nat where
  "SIZE_MODULUS = 18446744073709551616"

definition next_answer :: "mem \<Rightarrow> bool \<times> mem" where
  "next_answer m = (case script m of [] \<Rightarrow> (True, m) | b # bs \<Rightarrow> (b, m\<lparr>script := bs\<rparr>))"

definition malloc :: "mem \<Rightarrow> nat \<Rightarrow> bool \<times> mem" where
  "malloc m n = (case next_answer m of (b, m) \<Rightarrow>
     if b \<and> n \<le> PTRDIFF_MAX then (True, m\<lparr>live := live m + 1\<rparr>) else (False, m))"

definition realloc :: "mem \<Rightarrow> nat \<Rightarrow> bool \<times> mem" where
  "realloc m n = (case next_answer m of (b, m) \<Rightarrow> (b \<and> n \<le> PTRDIFF_MAX, m))"

definition free :: "mem \<Rightarrow> mem" where
  "free m = m\<lparr>live := live m - 1\<rparr>"

definition strdup :: "mem \<Rightarrow> string \<Rightarrow> string option \<times> mem" where
  "strdup m s = (case malloc m (length s + 1) of (b, m) \<Rightarrow> (if b then Some s else None, m))"

text \<open>An allocator that grants every request within the limit.\<close>

definition never_fails :: "mem \<Rightarrow> bool" where
  "never_fails m = (False \<notin> set (script m))"

text \<open>
  Sizes for which no computation of a block size comes near the limit: with such inputs and an
  allocator that refuses nothing, no operation runs out of memory.
\<close>

definition small :: "'a list \<Rightarrow> bool" where
  "small xs \<longleftrightarrow> length xs < 2 ^ 50"

abbreviation mem0 :: mem where
  "mem0 \<equiv> \<lparr>script = [], live = 0, junk = (\<lambda>_. CHR 0x00)\<rparr>"

section \<open>Strings and characters\<close>

definition NUL :: char where
  "NUL = CHR 0x00"

definition no_nul :: "string \<Rightarrow> bool" where
  "no_nul s = (NUL \<notin> set s)"

text \<open>The C string that starts at the head of a sequence of bytes.\<close>

definition c_str :: "char list \<Rightarrow> string" where
  "c_str b = takeWhile (\<lambda>c. c \<noteq> NUL) b"

definition slice :: "'a list \<Rightarrow> nat \<Rightarrow> nat \<Rightarrow> 'a list" where
  "slice s b e = take (e - b) (drop b s)"

fun strcmp :: "string \<Rightarrow> string \<Rightarrow> int" where
  "strcmp [] [] = 0"
| "strcmp [] (y # ys) = - 1"
| "strcmp (x # xs) [] = 1"
| "strcmp (x # xs) (y # ys) =
     (if x = y then strcmp xs ys else if (of_char x :: nat) < of_char y then - 1 else 1)"

definition strncmp :: "string \<Rightarrow> string \<Rightarrow> nat \<Rightarrow> int" where
  "strncmp a b n = strcmp (take n a) (take n b)"

fun is_prefix :: "'a list \<Rightarrow> 'a list \<Rightarrow> bool" where
  "is_prefix [] ys = True"
| "is_prefix (x # xs) [] = False"
| "is_prefix (x # xs) (y # ys) = (x = y \<and> is_prefix xs ys)"

text \<open>\<open>strstr\<close>: the offset of the first occurrence.\<close>

fun strstr :: "string \<Rightarrow> string \<Rightarrow> nat option" where
  "strstr [] needle = (if needle = [] then Some 0 else None)"
| "strstr (x # xs) needle =
     (if is_prefix needle (x # xs) then Some 0 else map_option Suc (strstr xs needle))"

text \<open>The same search from an offset of the string on.\<close>

definition strstr_from :: "string \<Rightarrow> nat \<Rightarrow> string \<Rightarrow> nat option" where
  "strstr_from s i needle = map_option ((+) i) (strstr (drop i s) needle)"

definition strchr :: "string \<Rightarrow> char \<Rightarrow> nat option" where
  "strchr s c = strstr s [c]"

text \<open>Decimal digits, as \<open>%u\<close> prints them, and the conversions \<open>%u\<close> and \<open>%s\<close> of \<open>sprintf\<close>.\<close>

fun show_nat :: "nat \<Rightarrow> string" where
  "show_nat n = (if n < 10 then [char_of (48 + n)] else show_nat (n div 10) @ [char_of (48 + n mod 10)])"

datatype printf_arg = ArgU nat | ArgS string

fun format_string :: "string \<Rightarrow> printf_arg list \<Rightarrow> string" where
  "format_string [] args = []"
| "format_string [c] args = [c]"
| "format_string (c # d # cs) args =
     (if c = CHR ''%'' then
        (case args of
           ArgU n # rest \<Rightarrow> (if d = CHR ''u'' then show_nat n @ format_string cs rest
                            else c # format_string (d # cs) args)
         | ArgS s # rest \<Rightarrow> (if d = CHR ''s'' then s @ format_string cs rest
                            else c # format_string (d # cs) args)
         | [] \<Rightarrow> c # format_string (d # cs) args)
      else c # format_string (d # cs) args)"

text \<open>\<open>sprintf\<close> into a block of \<open>n\<close> bytes; writing past its end is undefined.\<close>

definition sprintf :: "nat \<Rightarrow> string \<Rightarrow> printf_arg list \<Rightarrow> string option" where
  "sprintf n fmt args =
     (let out = format_string fmt args in if length out + 1 \<le> n then Some out else None)"

text \<open>
  The idiom of the error paths: allocate \<open>n\<close> bytes and print a message there if the allocation
  succeeded.
\<close>

definition alloc_message ::
  "mem \<Rightarrow> nat \<Rightarrow> string \<Rightarrow> printf_arg list \<Rightarrow> (string option \<times> mem) option" where
  "alloc_message m n fmt args = (case malloc m n of (b, m) \<Rightarrow>
     if b then do { msg \<leftarrow> sprintf n fmt args; Some (Some msg, m) } else Some (None, m))"

section \<open>Rules for outcomes\<close>

named_theorems returns_rules

lemma returns_simps [simp]:
  "returns (Some y) Q = Q y"
  "returns None Q = False"
  "returns (Option.bind x f) Q = returns x (\<lambda>y. returns (f y) Q)"
  "returns (check b) P = (b \<and> P ())"
  by (cases x; simp add: returns_def check_def)+

lemma returns_iff: "returns x Q \<longleftrightarrow> (\<exists>y. x = Some y \<and> Q y)"
  by (cases x) simp_all

lemma returns_mono: "returns x P \<Longrightarrow> (\<And>y. P y \<Longrightarrow> Q y) \<Longrightarrow> returns x Q"
  by (cases x) simp_all

lemma returns_conjI: "returns x P \<Longrightarrow> returns x Q \<Longrightarrow> returns x (\<lambda>y. P y \<and> Q y)"
  by (cases x) simp_all

lemma returns_bindI:
  "returns x P \<Longrightarrow> (\<And>y. P y \<Longrightarrow> returns (f y) Q) \<Longrightarrow> returns (Option.bind x f) Q"
  by (cases x) simp_all

lemma returns_if [simp]:
  "returns (if b then x else y) Q = (if b then returns x Q else returns y Q)"
  by simp

lemma returns_case_prod [simp]:
  "returns (case p of (a, b) \<Rightarrow> f a b) Q = (case p of (a, b) \<Rightarrow> returns (f a b) Q)"
  by (cases p) simp

lemma returns_case_option [simp]:
  "returns (case z of None \<Rightarrow> x | Some a \<Rightarrow> f a) Q =
     (case z of None \<Rightarrow> returns x Q | Some a \<Rightarrow> returns (f a) Q)"
  by (cases z) simp_all

lemma bind_check [simp]: "Option.bind (check b) f = (if b then f () else None)"
  by (simp add: check_def)

lemma returns_eqD: "returns x Q \<Longrightarrow> x = Some y \<Longrightarrow> Q y"
  by simp

section \<open>Rules for dynamic memory\<close>

lemma malloc_effect:
  "malloc m n = (b, m') \<Longrightarrow>
     live m' = live m + of_bool b \<and> junk m' = junk m \<and> (b \<longrightarrow> n \<le> PTRDIFF_MAX)"
  by (auto simp: malloc_def next_answer_def split: list.splits if_splits)

lemma realloc_effect:
  "realloc m n = (b, m') \<Longrightarrow> live m' = live m \<and> junk m' = junk m \<and> (b \<longrightarrow> n \<le> PTRDIFF_MAX)"
  by (auto simp: realloc_def next_answer_def split: list.splits)

lemma free_effect [simp]:
  "live (free m) = live m - 1" "junk (free m) = junk m" "script (free m) = script m"
  by (simp_all add: free_def)

lemma strdup_effect:
  "strdup m s = (r, m') \<Longrightarrow>
     live m' = live m + of_bool (r \<noteq> None) \<and> junk m' = junk m \<and> (r = None \<or> r = Some s)"
  by (auto simp: strdup_def split: prod.splits if_splits dest: malloc_effect)

lemma malloc_never_fails:
  "never_fails m \<Longrightarrow> n \<le> PTRDIFF_MAX \<Longrightarrow> malloc m n = (b, m') \<Longrightarrow> b \<and> never_fails m'"
  by (auto simp: malloc_def next_answer_def never_fails_def split: list.splits)

lemma realloc_never_fails:
  "never_fails m \<Longrightarrow> n \<le> PTRDIFF_MAX \<Longrightarrow> realloc m n = (b, m') \<Longrightarrow> b \<and> never_fails m'"
  by (auto simp: realloc_def next_answer_def never_fails_def split: list.splits)

lemma strdup_never_fails:
  "never_fails m \<Longrightarrow> length s < PTRDIFF_MAX \<Longrightarrow> strdup m s = (r, m') \<Longrightarrow>
     r = Some s \<and> never_fails m'"
  using malloc_never_fails [of m "length s + 1"]
  by (auto simp: strdup_def split: prod.splits if_splits)

lemma never_fails_free [simp]: "never_fails (free m) = never_fails m"
  by (simp add: never_fails_def)

lemma small_Nil [simp]: "small []"
  by (simp add: small_def)

section \<open>Rules for strings\<close>

lemma strcmp_order [simp]:
  "strcmp a b < 0 \<longleftrightarrow> a < b"
  "strcmp a b = 0 \<longleftrightarrow> a = b"
  "0 < strcmp a b \<longleftrightarrow> b < a"
  by (induction a b rule: strcmp.induct)
    (auto simp: less_char_def of_char_eq_iff[symmetric] not_less le_less)

lemma strcmp_order_le [simp]:
  "strcmp a b \<le> 0 \<longleftrightarrow> a \<le> b"
  "0 \<le> strcmp a b \<longleftrightarrow> b \<le> a"
  by (simp_all add: not_less[symmetric])

lemma is_prefix_iff: "is_prefix xs ys \<longleftrightarrow> take (length xs) ys = xs"
  by (induction xs ys rule: is_prefix.induct) auto

text \<open>\<open>strstr\<close> finds the first occurrence: none lies before it, not even one that overlaps it.\<close>

definition occurs :: "'a list \<Rightarrow> 'a list \<Rightarrow> bool" where
  "occurs w s \<longleftrightarrow> (\<exists>u v. s = u @ w @ v)"

lemma is_prefix_append: "is_prefix w s \<longleftrightarrow> (\<exists>v. s = w @ v)"
  by (induction w s rule: is_prefix.induct) auto

lemma occurs_Cons: "occurs w (x # s) \<longleftrightarrow> is_prefix w (x # s) \<or> occurs w s"
proof
  assume "occurs w (x # s)"
  then obtain u v where "x # s = u @ w @ v" by (auto simp: occurs_def)
  then show "is_prefix w (x # s) \<or> occurs w s"
    by (cases u) (auto simp: occurs_def is_prefix_append)
next
  assume "is_prefix w (x # s) \<or> occurs w s"
  then show "occurs w (x # s)"
    unfolding occurs_def is_prefix_append by (metis append_Cons append_Nil)
qed

lemma strstr_None_iff: "strstr s w = None \<longleftrightarrow> \<not> occurs w s"
proof (induction s w rule: strstr.induct)
  case (1 needle)
  then show ?case by (auto simp: occurs_def)
next
  case (2 x xs needle)
  then show ?case by (auto simp: occurs_Cons)
qed

lemma strstr_Some_first:
  "strstr s w = Some i \<longleftrightarrow> i \<le> length s \<and> is_prefix w (drop i s) \<and> (\<forall>k < i. \<not> is_prefix w (drop k s))"
proof (induction s w arbitrary: i rule: strstr.induct)
  case (1 w)
  then show ?case by (cases w) auto
next
  case (2 x s w)
  show ?case
  proof (cases i)
    case (Suc j)
    have "(\<forall>k < Suc j. \<not> is_prefix w (drop k (x # s))) \<longleftrightarrow>
        \<not> is_prefix w (x # s) \<and> (\<forall>k < j. \<not> is_prefix w (drop k s))"
      by (auto simp: less_Suc_eq_0_disj)
    then show ?thesis using 2 Suc by auto
  qed auto
qed

lemma occurs_before:
  assumes "w \<noteq> []"
  shows "occurs w (butlast (u @ w)) \<longleftrightarrow> (\<exists>k < length u. is_prefix w (drop k (u @ w @ v)))"
proof
  have bl: "butlast (u @ w) = take (length u + length w - 1) (u @ w @ v)"
    using assms by (simp add: butlast_conv_take take_append)
  {
    assume "occurs w (butlast (u @ w))"
    then obtain a b where ab: "butlast (u @ w) = a @ w @ b" by (auto simp: occurs_def)
    have "length u + length w - 1 = length a + (length w + length b)"
      using arg_cong [OF ab, of length] by (simp only: length_butlast length_append)
    then have "length a < length u" using assms length_greater_0_conv [of w] by linarith
    moreover have "u @ w @ v = a @ w @ b @ drop (length u + length w - 1) (u @ w @ v)"
      using ab unfolding bl by (metis append.assoc append_take_drop_id)
    then have "drop (length a) (u @ w @ v) = w @ b @ drop (length u + length w - 1) (u @ w @ v)"
      by (metis append_eq_conv_conj)
    ultimately show "\<exists>k < length u. is_prefix w (drop k (u @ w @ v))"
      unfolding is_prefix_append by blast
  next
    assume "\<exists>k < length u. is_prefix w (drop k (u @ w @ v))"
    then obtain k z where k: "k < length u" "drop k (u @ w @ v) = w @ z" unfolding is_prefix_append by auto
    have "u @ w @ v = take k u @ w @ z"
      using k append_take_drop_id [of k "u @ w @ v"] by simp
    then have "butlast (u @ w) = take k u @ w @ take (length u - 1 - k) z"
      unfolding bl using k(1) assms by (simp add: add.commute)
    then show "occurs w (butlast (u @ w))" unfolding occurs_def by blast
  }
qed

lemma strstr_Some_iff:
  assumes "w \<noteq> []"
  shows "strstr s w = Some i \<longleftrightarrow> (\<exists>u v. s = u @ w @ v \<and> length u = i \<and> \<not> occurs w (butlast (u @ w)))"
proof
  assume "strstr s w = Some i"
  then have i: "i \<le> length s" "is_prefix w (drop i s)" "\<forall>k < i. \<not> is_prefix w (drop k s)"
    by (simp_all add: strstr_Some_first)
  then obtain v where v: "drop i s = w @ v" by (auto simp: is_prefix_append)
  then have s: "s = take i s @ w @ v" by (metis append_take_drop_id)
  have "length (take i s) = i" using i(1) by simp
  moreover have "\<not> occurs w (butlast (take i s @ w))"
    using i(1,3) s occurs_before [OF assms, of "take i s" v] by auto
  ultimately show "\<exists>u v. s = u @ w @ v \<and> length u = i \<and> \<not> occurs w (butlast (u @ w))" using s by blast
next
  assume "\<exists>u v. s = u @ w @ v \<and> length u = i \<and> \<not> occurs w (butlast (u @ w))"
  then obtain u v where u: "s = u @ w @ v" "length u = i" "\<not> occurs w (butlast (u @ w))" by blast
  show "strstr s w = Some i"
    unfolding strstr_Some_first using u(2,3) occurs_before [OF assms, of u v]
    by (auto simp: u(1) is_prefix_append)
qed

section \<open>Rules for formatted messages\<close>

fun arg_length :: "printf_arg \<Rightarrow> nat" where
  "arg_length (ArgU n) = length (show_nat n)"
| "arg_length (ArgS s) = length s"

lemma format_string_length:
  "length (format_string fmt args) \<le> length fmt + sum_list (map arg_length args)"
proof (induction fmt args rule: format_string.induct)
  case (3 c d cs args)
  show ?case
  proof (cases args)
    case (Cons a rest)
    then show ?thesis using 3 by (cases a; cases "c = CHR ''%''"; auto simp del: show_nat.simps)
  qed (use 3 in auto)
qed auto

lemma sprintf_fits:
  "length fmt + sum_list (map arg_length args) < n \<Longrightarrow> sprintf n fmt args = Some (format_string fmt args)"
  using format_string_length [of fmt args] by (simp add: sprintf_def Let_def)

declare show_nat.simps [simp del]

lemma show_nat_length: "n < 10 ^ Suc k \<Longrightarrow> length (show_nat n) \<le> Suc k"
proof (induction k arbitrary: n)
  case 0
  then show ?case by (simp add: show_nat.simps [of n])
next
  case (Suc k)
  then have "n div 10 < 10 ^ Suc k" by (simp add: less_mult_imp_div_less mult.commute)
  from Suc.IH [OF this] show ?case by (simp add: show_nat.simps [of n])
qed

lemma show_nat_word32: "length (show_nat (unat (w :: 32 word))) \<le> 10"
proof -
  have "unat w < 10 ^ Suc 9" using unsigned_less [of w, where 'a = nat] by simp
  from show_nat_length [OF this] show ?thesis by simp
qed

text \<open>A message that fits: what is printed is the formatted text, in a block of its own.\<close>

lemma alloc_message_returns:
  assumes "length fmt + sum_list (map arg_length args) < n"
  shows "returns (alloc_message m n fmt args) (\<lambda>(d, m').
     live m' = live m + of_bool (d \<noteq> None) \<and> (d = None \<or> d = Some (format_string fmt args))
     \<and> (never_fails m \<and> n \<le> PTRDIFF_MAX \<longrightarrow> never_fails m' \<and> d \<noteq> None))"
proof -
  obtain b m' where r: "malloc m n = (b, m')" by fastforce
  show ?thesis
    using assms r malloc_effect [OF r] malloc_never_fails [of m n b m']
    by (auto simp: alloc_message_def sprintf_fits)
qed

end
