(* ===== verification/Grar.thy ===== *)
theory Grar
  imports C_Runtime
begin

text \<open>
  Growing arrays: \<^verbatim>\<open>src/snippets/code_generation/mist_gen.simple/src/mist_engine/src/grar.c\<close>
  and \<^verbatim>\<open>grar.h\<close>.

  A \<open>CGrowingArray\<close> is the list of its elements (the first \<open>size\<close> slots of \<open>data\<close>; \<open>size\<close> is the
  length of the list) with the capacity of the block \<open>data\<close> points to. After \<open>grar_destroy\<close> the
  pointer is NULL and the capacity 0. The sizes are those of a 64-bit \<open>size_t\<close>, with the
  wrap-around of the capacity computation written out; an element is a pointer of 8 bytes.

  \<open>qsort\<close> and \<open>bsearch\<close> of the C library are parameters \<open>qs\<close> and \<open>bs\<close> of the operations that call
  them: where several elements compare equal, the C standard leaves open in which order \<open>qsort\<close>
  leaves them and which of them \<open>bsearch\<close> finds. The locale \<open>libc_search\<close> states what the standard
  promises, and the client lemmas on searching a sorted array are proved in it.
\<close>

section \<open>Data\<close>

datatype 'a grar = Grar (elems: "'a list") (capacity: nat)

definition GRAR_DEFAULT_CAPACITY :: nat where
  "GRAR_DEFAULT_CAPACITY = 16"

definition GRAR_CAP_INC_FACTOR :: nat where
  "GRAR_CAP_INC_FACTOR = 2"

definition SIZEOF_TGAELEM :: nat where
  "SIZEOF_TGAELEM = 8"

definition grar_get_size :: "'a grar \<Rightarrow> nat" where
  "grar_get_size g = length (elems g)"

definition grar_get_element :: "'a grar \<Rightarrow> nat \<Rightarrow> 'a option" where
  "grar_get_element g i = (if i < length (elems g) then Some (elems g ! i) else None)"

text \<open>
  \<open>qsort\<close> hands its comparator the addresses of two array slots. \<open>'a slot\<close> is such an address with
  the element the slot holds at that moment; most comparators look at the elements only.
\<close>

type_synonym 'a slot = "nat \<times> 'a"

type_synonym 'a qsort = "('a slot \<Rightarrow> 'a slot \<Rightarrow> int) \<Rightarrow> 'a list \<Rightarrow> 'a list"

definition by_value :: "('a \<Rightarrow> 'a \<Rightarrow> int) \<Rightarrow> 'a slot \<Rightarrow> 'a slot \<Rightarrow> int" where
  "by_value cf lhs rhs = cf (snd lhs) (snd rhs)"

type_synonym 'a bsearch = "('a \<Rightarrow> int) \<Rightarrow> 'a list \<Rightarrow> nat option"

section \<open>Operations\<close>

definition grar_create :: "mem \<Rightarrow> 'a grar option \<times> mem" where
  "grar_create m =
     (case malloc m (GRAR_DEFAULT_CAPACITY * SIZEOF_TGAELEM) of (b, m) \<Rightarrow>
        (if b then Some (Grar [] GRAR_DEFAULT_CAPACITY) else None, m))"

text \<open>The loop of \<open>grar_reserve\<close>; from capacity 0 it never ends.\<close>

partial_function (option) grar_grow :: "nat \<Rightarrow> nat \<Rightarrow> nat option" where
  "grar_grow cap n =
     (let cap' = (cap * GRAR_CAP_INC_FACTOR) mod SIZE_MODULUS in
      if cap' < n then grar_grow cap' n else Some cap')"

text \<open>
  Where \<open>cap * sizeof (TGAElem)\<close> wraps around, the block is smaller than the capacity recorded
  for it, which leaves the model.
\<close>

definition grar_reserve :: "mem \<Rightarrow> 'a grar \<Rightarrow> nat \<Rightarrow> (bool \<times> 'a grar \<times> mem) option" where
  "grar_reserve m g new_min_capacity =
     (if capacity g \<ge> new_min_capacity then Some (True, g, m)
      else do {
        cap \<leftarrow> grar_grow (capacity g) new_min_capacity;
        _ \<leftarrow> check (cap * SIZEOF_TGAELEM < SIZE_MODULUS);
        (case realloc m (cap * SIZEOF_TGAELEM) of (b, m) \<Rightarrow>
           Some (if b then (True, Grar (elems g) cap, m) else (False, g, m)))
      })"

definition grar_add_element :: "mem \<Rightarrow> 'a grar \<Rightarrow> 'a \<Rightarrow> (bool \<times> 'a grar \<times> mem) option" where
  "grar_add_element m g elem = do {
     (res, g, m) \<leftarrow> grar_reserve m g (length (elems g) + 1);
     if \<not> res then Some (False, g, m)
     else do {
       _ \<leftarrow> check (length (elems g) < capacity g);
       Some (True, Grar (elems g @ [elem]) (capacity g), m)
     }
   }"

definition grar_destroy :: "mem \<Rightarrow> 'a grar \<Rightarrow> 'a grar \<times> mem" where
  "grar_destroy m g = (Grar [] 0, if capacity g = 0 then m else free m)"

text \<open>\<open>dtor = None\<close> is the NULL destructor: the elements are freed.\<close>

definition grar_destroy_with_elements ::
  "mem \<Rightarrow> 'a grar \<Rightarrow> (mem \<Rightarrow> 'a \<Rightarrow> mem) option \<Rightarrow> 'a grar \<times> mem" where
  "grar_destroy_with_elements m g dtor =
     grar_destroy
       (case dtor of
          None \<Rightarrow> foldl (\<lambda>m x. free m) m (elems g)
        | Some d \<Rightarrow> foldl d m (elems g)) g"

definition grar_append_array ::
  "mem \<Rightarrow> 'a grar \<Rightarrow> 'a grar \<Rightarrow> (bool \<times> 'a grar \<times> mem) option" where
  "grar_append_array m g src = do {
     let req_cap = length (elems g) + length (elems src);
     (res, g, m) \<leftarrow> grar_reserve m g req_cap;
     if \<not> res then Some (False, g, m)
     else do {
       _ \<leftarrow> check (length (elems g) + length (elems src) \<le> capacity g);
       Some (True, Grar (elems g @ elems src) (capacity g), m)
     }
   }"

definition grar_clear :: "'a grar \<Rightarrow> 'a grar option" where
  "grar_clear g = do { _ \<leftarrow> check (capacity g \<noteq> 0); Some (Grar [] (capacity g)) }"

definition grar_sort :: "'a qsort \<Rightarrow> 'a grar \<Rightarrow> ('a slot \<Rightarrow> 'a slot \<Rightarrow> int) \<Rightarrow> 'a grar" where
  "grar_sort qs g cf = Grar (qs cf (elems g)) (capacity g)"

definition grar_find :: "'a bsearch \<Rightarrow> 'a grar \<Rightarrow> 'a \<Rightarrow> ('a \<Rightarrow> 'a \<Rightarrow> int) \<Rightarrow> int" where
  "grar_find bs g key cf = (case bs (cf key) (elems g) of None \<Rightarrow> - 1 | Some i \<Rightarrow> int i)"

definition grar_swap :: "'a grar \<Rightarrow> 'a grar \<Rightarrow> 'a grar \<times> 'a grar" where
  "grar_swap lhs rhs = (Grar (elems rhs) (capacity rhs), Grar (elems lhs) (capacity lhs))"

text \<open>Equal pointers, which the comparator tests first, point to equal strings.\<close>

definition grar_string_compare :: "string \<Rightarrow> string \<Rightarrow> int" where
  "grar_string_compare lhs rhs = (if lhs = rhs then 0 else strcmp lhs rhs)"

definition grar_string_sort :: "string qsort \<Rightarrow> string grar \<Rightarrow> string grar" where
  "grar_string_sort qs g = grar_sort qs g (by_value grar_string_compare)"

definition grar_string_find :: "string bsearch \<Rightarrow> string grar \<Rightarrow> string \<Rightarrow> int" where
  "grar_string_find bs g skey = grar_find bs g skey grar_string_compare"

definition grar_string_total_length :: "string grar \<Rightarrow> nat" where
  "grar_string_total_length g = foldl (\<lambda>len elem. len + length elem) 0 (elems g)"

text \<open>
  The loop that callers write to add several elements: it stops at the first failure.
\<close>

fun grar_add_all :: "mem \<Rightarrow> 'a grar \<Rightarrow> 'a list \<Rightarrow> (bool \<times> 'a grar \<times> mem) option" where
  "grar_add_all m g [] = Some (True, g, m)"
| "grar_add_all m g (x # xs) = do {
     (r, g, m) \<leftarrow> grar_add_element m g x;
     if r then grar_add_all m g xs else Some (False, g, m)
   }"

section \<open>Invariant and what an array owns\<close>

text \<open>
  An initialised array: the elements fit into the block and the block is one that \<open>malloc\<close> can
  have granted.
\<close>

definition grar_inv :: "'a grar \<Rightarrow> bool" where
  "grar_inv g \<longleftrightarrow> length (elems g) \<le> capacity g \<and> 0 < capacity g
     \<and> capacity g * SIZEOF_TGAELEM \<le> PTRDIFF_MAX"

text \<open>The number of heap blocks of the array itself.\<close>

definition grar_blocks :: "'a grar \<Rightarrow> int" where
  "grar_blocks g = of_bool (capacity g \<noteq> 0)"

section \<open>What the C library promises\<close>

text \<open>A comparator that orders its arguments, and an array that is partitioned for a key.\<close>

definition consistent_comparator :: "('a \<Rightarrow> 'a \<Rightarrow> int) \<Rightarrow> bool" where
  "consistent_comparator cf \<longleftrightarrow>
     (\<forall>x y. 0 < cf x y \<longleftrightarrow> cf y x < 0) \<and> (\<forall>x y z. cf x y \<le> 0 \<longrightarrow> cf y z \<le> 0 \<longrightarrow> cf x z \<le> 0)"

text \<open>
  A comparator of slots that agrees with \<open>cf0\<close> on the elements and may break ties in any way, by
  the addresses of the slots for example.
\<close>

definition orders_by :: "('a slot \<Rightarrow> 'a slot \<Rightarrow> int) \<Rightarrow> ('a \<Rightarrow> 'a \<Rightarrow> int) \<Rightarrow> bool" where
  "orders_by cf cf0 \<longleftrightarrow> consistent_comparator cf0
     \<and> (\<forall>l r. cf0 (snd l) (snd r) \<noteq> 0 \<longrightarrow> sgn (cf l r) = sgn (cf0 (snd l) (snd r)))"

definition partitioned :: "('a \<Rightarrow> int) \<Rightarrow> 'a list \<Rightarrow> bool" where
  "partitioned c xs \<longleftrightarrow> sorted_wrt (\<lambda>x y. sgn (c y) \<le> sgn (c x)) xs"

locale libc_search =
  fixes qs :: "'a qsort" and bs :: "'a bsearch"
  assumes qsort_mset: "orders_by cf cf0 \<Longrightarrow> mset (qs cf xs) = mset xs"
    and qsort_sorted: "orders_by cf cf0 \<Longrightarrow> sorted_wrt (\<lambda>x y. cf0 x y \<le> 0) (qs cf xs)"
    and bsearch_found: "partitioned c xs \<Longrightarrow> bs c xs = Some i \<Longrightarrow> i < length xs \<and> c (xs ! i) = 0"
    and bsearch_missing: "partitioned c xs \<Longrightarrow> bs c xs = None \<Longrightarrow> x \<in> set xs \<Longrightarrow> c x \<noteq> 0"
begin

lemma qsort_set: "orders_by cf cf0 \<Longrightarrow> set (qs cf xs) = set xs"
  by (metis qsort_mset set_mset_mset)

lemma qsort_length: "orders_by cf cf0 \<Longrightarrow> length (qs cf xs) = length xs"
  by (metis qsort_mset size_mset)

text \<open>Arrays ordered by a string key, the only ones the sources search.\<close>

lemma strcmp_key_consistent: "consistent_comparator (\<lambda>x y. strcmp (key x) (key y))"
  by (auto simp: consistent_comparator_def intro: order_trans)

lemma by_value_orders: "consistent_comparator cf \<Longrightarrow> orders_by (by_value cf) cf"
  by (simp add: orders_by_def by_value_def)

lemma qsort_by_key_sorted:
  "orders_by cf (\<lambda>x y. strcmp (key x) (key y)) \<Longrightarrow> sorted (map key (qs cf xs))"
  using qsort_sorted [of cf "\<lambda>x y. strcmp (key x) (key y)" xs] by (simp add: sorted_map)

lemma partitioned_by_key: "sorted (map key xs) \<Longrightarrow> partitioned (\<lambda>y. strcmp k (key y)) xs"
  unfolding partitioned_def sorted_map
proof (rule sorted_wrt_mono_rel)
  fix x y
  assume "key x \<le> key y"
  then show "sgn (strcmp k (key y)) \<le> sgn (strcmp k (key x))"
    by (cases "k < key y"; cases "k = key y") (auto simp: sgn_if)
qed

lemma find_by_key:
  assumes "sorted (map key xs)"
  shows "case bs (\<lambda>y. strcmp k (key y)) xs of
           None \<Rightarrow> k \<notin> key ` set xs
         | Some i \<Rightarrow> i < length xs \<and> key (xs ! i) = k"
  using bsearch_found [OF partitioned_by_key [OF assms]]
    bsearch_missing [OF partitioned_by_key [OF assms]]
  by (auto split: option.splits)

end

text \<open>
  An implementation with these properties: insertion sort, which compares the new element with
  the one in the next slot, and the binary search of the GNU C library.
\<close>

fun ref_insert :: "('a slot \<Rightarrow> 'a slot \<Rightarrow> int) \<Rightarrow> 'a \<Rightarrow> 'a list \<Rightarrow> 'a list" where
  "ref_insert cf x [] = [x]"
| "ref_insert cf x (y # ys) = (if cf (0, x) (1, y) \<le> 0 then x # y # ys else y # ref_insert cf x ys)"

definition ref_qsort :: "'a qsort" where
  "ref_qsort cf xs = foldr (ref_insert cf) xs []"

function ref_bsearch_loop :: "('a \<Rightarrow> int) \<Rightarrow> 'a list \<Rightarrow> nat \<Rightarrow> nat \<Rightarrow> nat option" where
  "ref_bsearch_loop c xs l u =
     (if l < u then
        let idx = (l + u) div 2 in
        if c (xs ! idx) < 0 then ref_bsearch_loop c xs l idx
        else if c (xs ! idx) > 0 then ref_bsearch_loop c xs (idx + 1) u
        else Some idx
      else None)"
  by pat_completeness auto
termination
  by (relation "measure (\<lambda>(c, xs, l, u). u - l)") auto

declare ref_bsearch_loop.simps [simp del]

definition ref_bsearch :: "'a bsearch" where
  "ref_bsearch c xs = ref_bsearch_loop c xs 0 (length xs)"

lemma mset_ref_insert: "mset (ref_insert cf x ys) = {#x#} + mset ys"
  by (induction ys) auto

lemma sorted_ref_insert:
  assumes "orders_by cf cf0"
  shows "sorted_wrt (\<lambda>x y. cf0 x y \<le> 0) ys \<Longrightarrow> sorted_wrt (\<lambda>x y. cf0 x y \<le> 0) (ref_insert cf x ys)"
proof (induction ys)
  case Nil
  then show ?case by simp
next
  case (Cons y ys)
  have set: "set (ref_insert cf x ys) = insert x (set ys)"
    by (metis mset_ref_insert set_mset_mset set_mset_add_mset_insert add_mset_add_single union_commute)
  have cf: "cf0 x y \<noteq> 0 \<longrightarrow> sgn (cf (0, x) (1, y)) = sgn (cf0 x y)"
    using assms by (auto simp: orders_by_def)
  have sym: "0 < cf0 x y \<longleftrightarrow> cf0 y x < 0" "0 < cf0 y x \<longleftrightarrow> cf0 x y < 0"
    and tr: "cf0 a b \<le> 0 \<Longrightarrow> cf0 b c \<le> 0 \<Longrightarrow> cf0 a c \<le> 0" for a b c
    using assms unfolding orders_by_def consistent_comparator_def by blast+
  have xy: "cf (0, x) (1, y) \<le> 0 \<Longrightarrow> cf0 x y \<le> 0" and yx: "\<not> cf (0, x) (1, y) \<le> 0 \<Longrightarrow> cf0 y x \<le> 0"
    using cf sym by (cases "cf0 x y = 0"; auto simp: sgn_if split: if_splits)+
  show ?case
    using Cons set xy yx tr by (cases "cf (0, x) (1, y) \<le> 0") auto
qed

lemma ref_bsearch_loop_found:
  "ref_bsearch_loop c xs l u = Some i \<Longrightarrow> l \<le> i \<and> i < u \<and> c (xs ! i) = 0"
proof (induction c xs l u rule: ref_bsearch_loop.induct)
  case (1 c xs l u)
  let ?m = "(l + u) div 2"
  have *: "l < u" using "1.prems" by (simp add: ref_bsearch_loop.simps [of c xs l u] split: if_splits)
  then have "l \<le> ?m \<and> ?m < u" by auto
  then show ?case
    using "1.prems" "1.IH" * by (auto simp: ref_bsearch_loop.simps [of c xs l u] Let_def split: if_splits)
qed

lemma partitioned_nth:
  "partitioned c xs \<Longrightarrow> a \<le> b \<Longrightarrow> b < length xs \<Longrightarrow> sgn (c (xs ! b)) \<le> sgn (c (xs ! a))"
  by (cases "a = b") (auto simp: partitioned_def sorted_wrt_iff_nth_less)

lemma ref_bsearch_loop_missing:
  "partitioned c xs \<Longrightarrow> ref_bsearch_loop c xs l u = None \<Longrightarrow> u \<le> length xs \<Longrightarrow> l \<le> i \<Longrightarrow> i < u
     \<Longrightarrow> c (xs ! i) \<noteq> 0"
proof (induction c xs l u rule: ref_bsearch_loop.induct)
  case (1 c xs l u)
  let ?m = "(l + u) div 2"
  have m: "l < u" "?m < length xs" using "1.prems" by auto
  have eq: "ref_bsearch_loop c xs l u = None" by fact
  consider (low) "c (xs ! ?m) < 0" | (high) "c (xs ! ?m) > 0"
    using eq m by (fastforce simp: ref_bsearch_loop.simps [of c xs l u] split: if_splits)
  then show ?case
  proof cases
    case low
    then have rec: "ref_bsearch_loop c xs l ?m = None"
      using eq m by (simp add: ref_bsearch_loop.simps [of c xs l u] Let_def)
    show ?thesis
    proof (cases "i < ?m")
      case True
      then show ?thesis using "1.IH"(1) rec low m "1.prems" by auto
    next
      case False
      then have "sgn (c (xs ! i)) \<le> sgn (c (xs ! ?m))"
        using "1.prems" by (intro partitioned_nth) auto
      then show ?thesis using low by (auto simp: sgn_if split: if_splits)
    qed
  next
    case high
    then have rec: "ref_bsearch_loop c xs (?m + 1) u = None"
      using eq m by (simp add: ref_bsearch_loop.simps [of c xs l u] Let_def)
    show ?thesis
    proof (cases "?m < i")
      case True
      then show ?thesis using "1.IH"(2) rec high m "1.prems" by auto
    next
      case False
      then have "sgn (c (xs ! ?m)) \<le> sgn (c (xs ! i))"
        using m "1.prems" by (intro partitioned_nth) auto
      then show ?thesis using high by (auto simp: sgn_if split: if_splits)
    qed
  qed
qed

interpretation libc_ref: libc_search ref_qsort ref_bsearch
proof
  fix cf :: "'a slot \<Rightarrow> 'a slot \<Rightarrow> int" and cf0 and xs :: "'a list"
  assume cf: "orders_by cf cf0"
  show "mset (ref_qsort cf xs) = mset xs"
    by (induction xs) (simp_all add: ref_qsort_def mset_ref_insert)
  show "sorted_wrt (\<lambda>x y. cf0 x y \<le> 0) (ref_qsort cf xs)"
    by (induction xs) (simp_all add: ref_qsort_def sorted_ref_insert [OF cf])
next
  fix c :: "'a \<Rightarrow> int" and xs :: "'a list" and i
  assume "partitioned c xs" "ref_bsearch c xs = Some i"
  then show "i < length xs \<and> c (xs ! i) = 0"
    using ref_bsearch_loop_found [of c xs 0 "length xs" i] by (simp add: ref_bsearch_def)
next
  fix c :: "'a \<Rightarrow> int" and xs :: "'a list" and x
  assume "partitioned c xs" "ref_bsearch c xs = None" "x \<in> set xs"
  then show "c x \<noteq> 0"
    using ref_bsearch_loop_missing [of c xs 0 "length xs"]
    by (auto simp: ref_bsearch_def in_set_conv_nth)
qed

section \<open>Growth\<close>

lemmas grar_consts =
  GRAR_DEFAULT_CAPACITY_def GRAR_CAP_INC_FACTOR_def SIZEOF_TGAELEM_def PTRDIFF_MAX_def SIZE_MODULUS_def

text \<open>
  The doubling loop ends for every request of at most half the range of \<open>size_t\<close>, with a
  capacity that is large enough and less than twice the request or the old capacity.
\<close>

lemma grar_grow_returns:
  assumes "0 < cap" and "2 * cap < SIZE_MODULUS" and "2 * n \<le> SIZE_MODULUS"
  shows "returns (grar_grow cap n) (\<lambda>c. n \<le> c \<and> 2 * cap \<le> c \<and> c < max (2 * cap + 1) (2 * n))"
  using assms
proof (induction "n - cap" arbitrary: cap rule: less_induct)
  case less
  have eq: "grar_grow cap n = (if 2 * cap < n then grar_grow (2 * cap) n else Some (2 * cap))"
    using less.prems by (subst grar_grow.simps) (simp add: GRAR_CAP_INC_FACTOR_def mult.commute)
  show ?case
  proof (cases "2 * cap < n")
    case True
    have "returns (grar_grow (2 * cap) n)
            (\<lambda>c. n \<le> c \<and> 2 * (2 * cap) \<le> c \<and> c < max (2 * (2 * cap) + 1) (2 * n))"
      by (rule less.hyps) (use True less.prems in auto)
    then show ?thesis
      unfolding eq using True less.prems by (auto elim!: returns_mono)
  next
    case False
    then show ?thesis unfolding eq by simp
  qed
qed

text \<open>From capacity 0, that is after \<open>grar_destroy\<close>, the loop never ends.\<close>

lemma grar_grow_zero:
  assumes "0 < n"
  shows "grar_grow 0 n = None"
proof (rule ccontr)
  assume "grar_grow 0 n \<noteq> None"
  then obtain r where r: "grar_grow 0 n = Some r" by auto
  have "cap = 0 \<longrightarrow> k = n \<longrightarrow> False" if "grar_grow cap k = Some r" for cap k
  proof (rule grar_grow.raw_induct [where P = "\<lambda>cap k r. cap = 0 \<longrightarrow> k = n \<longrightarrow> False", OF _ that])
    fix f :: "nat \<Rightarrow> nat \<Rightarrow> nat option" and cap k r
    assume IH: "\<And>cap k r. f cap k = Some r \<Longrightarrow> cap = 0 \<longrightarrow> k = n \<longrightarrow> False"
      and eq: "(let cap' = cap * GRAR_CAP_INC_FACTOR mod SIZE_MODULUS
                in if cap' < k then f cap' k else Some cap') = Some r"
    show "cap = 0 \<longrightarrow> k = n \<longrightarrow> False"
      using eq IH assms by (auto simp: Let_def split: if_splits)
  qed
  then show False using r by blast
qed

section \<open>Behaviour of the operations\<close>

lemma grar_create_effect:
  "grar_create m = (r, m') \<Longrightarrow>
     live m' = live m + of_bool (r \<noteq> None) \<and> junk m' = junk m
     \<and> (case r of None \<Rightarrow> True | Some g \<Rightarrow> grar_inv g \<and> elems g = [])"
  by (auto simp: grar_create_def grar_inv_def grar_consts split: prod.splits if_splits
      dest: malloc_effect)

lemma grar_reserve_returns:
  assumes "grar_inv g" and "n * SIZEOF_TGAELEM \<le> Suc PTRDIFF_MAX"
  shows "returns (grar_reserve m g n)
    (\<lambda>(r, g', m'). grar_inv g' \<and> elems g' = elems g \<and> live m' = live m \<and> junk m' = junk m
       \<and> (if r then n \<le> capacity g' else g' = g))"
proof (cases "capacity g \<ge> n")
  case True
  then show ?thesis using assms by (simp add: grar_reserve_def)
next
  case False
  have "returns (grar_grow (capacity g) n)
     (\<lambda>c. n \<le> c \<and> 2 * capacity g \<le> c \<and> c < max (2 * capacity g + 1) (2 * n))"
    using assms by (intro grar_grow_returns) (auto simp: grar_inv_def grar_consts)
  then show ?thesis
    unfolding grar_reserve_def using False assms
    by (auto simp: grar_inv_def grar_consts elim!: returns_mono split: prod.splits
        dest!: realloc_effect)
qed

lemma grar_add_element_returns:
  assumes "grar_inv g"
  shows "returns (grar_add_element m g x)
    (\<lambda>(r, g', m'). grar_inv g' \<and> live m' = live m \<and> junk m' = junk m
       \<and> (if r then elems g' = elems g @ [x] else g' = g))"
proof -
  have "(length (elems g) + 1) * SIZEOF_TGAELEM \<le> Suc PTRDIFF_MAX"
    using assms by (auto simp: grar_inv_def grar_consts)
  from grar_reserve_returns [OF assms this] show ?thesis
    unfolding grar_add_element_def
    by (rule returns_bindI) (use assms in \<open>auto simp: grar_inv_def split: if_splits\<close>)
qed

lemma grar_add_element_reserved:
  assumes "grar_inv g" and "length (elems g) < capacity g"
  shows "grar_add_element m g x = Some (True, Grar (elems g @ [x]) (capacity g), m)"
  using assms by (simp add: grar_add_element_def grar_reserve_def)

text \<open>
  \<open>grar_append_array\<close> adds all elements or none; the requirement is that the total size can be a
  capacity at all.
\<close>

lemma grar_append_array_returns:
  assumes "grar_inv g" and "(length (elems g) + length (elems src)) * SIZEOF_TGAELEM \<le> Suc PTRDIFF_MAX"
  shows "returns (grar_append_array m g src)
    (\<lambda>(r, g', m'). grar_inv g' \<and> live m' = live m \<and> junk m' = junk m
       \<and> (if r then elems g' = elems g @ elems src else g' = g))"
  unfolding grar_append_array_def Let_def
  by (rule returns_bindI [OF grar_reserve_returns [OF assms]])
    (use assms in \<open>auto simp: grar_inv_def split: if_splits\<close>)

lemma foldl_free_live [simp]:
  "live (foldl (\<lambda>m x. free m) m xs) = live m - int (length xs)"
  "junk (foldl (\<lambda>m x. free m) m xs) = junk m"
  "script (foldl (\<lambda>m x. free m) m xs) = script m"
  by (induction xs arbitrary: m) simp_all

lemma grar_destroy_effect [simp]:
  "live (snd (grar_destroy m g)) = live m - grar_blocks g"
  "junk (snd (grar_destroy m g)) = junk m"
  "script (snd (grar_destroy m g)) = script m"
  "fst (grar_destroy m g) = Grar [] 0"
  by (simp_all add: grar_destroy_def grar_blocks_def)

lemma grar_destroy_with_elements_effect:
  assumes "\<And>m x. live (d m x) = live m - w x"
  shows "live (snd (grar_destroy_with_elements m g (Some d))) =
           live m - sum_list (map w (elems g)) - grar_blocks g"
proof -
  have "live (foldl d m xs) = live m - sum_list (map w xs)" for xs
    by (induction xs arbitrary: m) (simp_all add: assms)
  then show ?thesis by (simp add: grar_destroy_with_elements_def)
qed

lemma grar_destroy_with_elements_free [simp]:
  "live (snd (grar_destroy_with_elements m g None)) =
     live m - int (length (elems g)) - grar_blocks g"
  "junk (snd (grar_destroy_with_elements m g None)) = junk m"
  "script (snd (grar_destroy_with_elements m g None)) = script m"
  by (simp_all add: grar_destroy_with_elements_def)

lemma grar_blocks_inv [simp]: "grar_inv g \<Longrightarrow> grar_blocks g = 1"
  by (simp add: grar_inv_def grar_blocks_def)

lemma grar_clear_inv: "grar_inv g \<Longrightarrow> grar_clear g = Some (Grar [] (capacity g))"
  by (simp add: grar_clear_def grar_inv_def)

lemma grar_inv_Nil [simp]: "grar_inv g \<Longrightarrow> grar_inv (Grar [] (capacity g))"
  by (simp add: grar_inv_def)

lemma grar_string_total_length_eq: "grar_string_total_length g = sum_list (map length (elems g))"
proof -
  have "foldl (\<lambda>len elem. len + length elem) n xs = n + sum_list (map length xs)"
    for n and xs :: "string list"
    by (induction xs arbitrary: n) simp_all
  then show ?thesis by (simp add: grar_string_total_length_def)
qed

lemma grar_swap_eq [simp]: "grar_swap l r = (r, l)"
  by (simp add: grar_swap_def)

section \<open>The interface of a growing array\<close>

text \<open>
  What the clients rely on: an addition either appends its element or changes nothing, it
  neither leaks nor frees blocks, and while there is reserved space it cannot fail and leaves
  the memory alone.
\<close>

locale growing_array =
  fixes add :: "mem \<Rightarrow> 'g \<Rightarrow> 'a \<Rightarrow> (bool \<times> 'g \<times> mem) option"
    and add_all :: "mem \<Rightarrow> 'g \<Rightarrow> 'a list \<Rightarrow> (bool \<times> 'g \<times> mem) option"
    and els :: "'g \<Rightarrow> 'a list"
    and cap :: "'g \<Rightarrow> nat"
    and ok :: "'g \<Rightarrow> bool"
  assumes add_appends: "ok g \<Longrightarrow> returns (add m g x)
      (\<lambda>(r, g', m'). ok g' \<and> live m' = live m \<and> junk m' = junk m
         \<and> (if r then els g' = els g @ [x] else g' = g))"
    and add_reserved: "ok g \<Longrightarrow> length (els g) < cap g \<Longrightarrow> returns (add m g x)
      (\<lambda>(r, g', m'). r \<and> m' = m \<and> ok g' \<and> cap g' = cap g \<and> els g' = els g @ [x])"
    and add_all_Nil: "add_all m g [] = Some (True, g, m)"
    and add_all_Cons: "add_all m g (x # xs) =
      Option.bind (add m g x) (\<lambda>(r, g, m). if r then add_all m g xs else Some (False, g, m))"
begin

text \<open>A failing addition loop leaves a proper prefix of the new elements.\<close>

lemma add_all_appends:
  "ok g \<Longrightarrow> returns (add_all m g xs)
     (\<lambda>(r, g', m'). ok g' \<and> live m' = live m \<and> junk m' = junk m
        \<and> (\<exists>ys zs. xs = ys @ zs \<and> els g' = els g @ ys \<and> (r \<longleftrightarrow> zs = [])))"
proof (induction xs arbitrary: m g)
  case Nil
  then show ?case by (simp add: add_all_Nil)
next
  case (Cons x xs)
  show ?case
    unfolding add_all_Cons
  proof (rule returns_bindI [OF add_appends [OF Cons.prems]], clarify)
    fix r g' and m' :: mem
    assume g': "ok g'" "live m' = live m" "junk m' = junk m"
      and cond: "if r then els g' = els g @ [x] else g' = g"
    show "returns (if r then add_all m' g' xs else Some (False, g', m'))
      (\<lambda>(r, g', m'). ok g' \<and> live m' = live m \<and> junk m' = junk m
        \<and> (\<exists>ys zs. x # xs = ys @ zs \<and> els g' = els g @ ys \<and> (r \<longleftrightarrow> zs = [])))"
    proof (cases r)
      case True
      with cond have e: "els g' = els g @ [x]" by simp
      have "returns (add_all m' g' xs)
        (\<lambda>(r, g'', m''). ok g'' \<and> live m'' = live m \<and> junk m'' = junk m
        \<and> (\<exists>ys zs. x # xs = ys @ zs \<and> els g'' = els g @ ys \<and> (r \<longleftrightarrow> zs = [])))"
        by (rule returns_mono [OF Cons.IH [OF g'(1), of m']])
          (use g' e in \<open>force simp: Cons_eq_append_conv\<close>)
      with True show ?thesis by simp
    next
      case False
      with cond g' show ?thesis by auto
    qed
  qed
qed

lemma add_all_reserved:
  "ok g \<Longrightarrow> length (els g) + length xs \<le> cap g \<Longrightarrow> returns (add_all m g xs)
     (\<lambda>(r, g', m'). r \<and> m' = m \<and> ok g' \<and> cap g' = cap g \<and> els g' = els g @ xs)"
proof (induction xs arbitrary: g)
  case Nil
  then show ?case by (simp add: add_all_Nil)
next
  case (Cons x xs)
  then have "length (els g) < cap g" by simp
  from add_reserved [OF Cons.prems(1) this, of m x] show ?case
    unfolding add_all_Cons
    by (rule returns_bindI)
      (clarsimp, rule returns_mono [OF Cons.IH], use Cons.prems in \<open>auto\<close>)
qed

end

interpretation grar: growing_array grar_add_element grar_add_all elems capacity grar_inv
proof
  fix g :: "'a grar" and m x
  assume "grar_inv g" and "length (elems g) < capacity g"
  then show "returns (grar_add_element m g x)
      (\<lambda>(r, g', m'). r \<and> m' = m \<and> grar_inv g' \<and> capacity g' = capacity g \<and> elems g' = elems g @ [x])"
    by (simp add: grar_add_element_reserved) (simp add: grar_inv_def)
qed (simp_all add: grar_add_element_returns)

section \<open>Arrays that only ever grew\<close>

text \<open>
  An array that has been filled by additions is not much larger than its contents, so that with an
  allocator that refuses nothing the next addition succeeds.
\<close>

definition grar_ok :: "'a grar \<Rightarrow> bool" where
  "grar_ok g \<longleftrightarrow> grar_inv g \<and> capacity g \<le> max GRAR_DEFAULT_CAPACITY (2 * length (elems g))"

lemma grar_ok_inv [simp]: "grar_ok g \<Longrightarrow> grar_inv g"
  by (simp add: grar_ok_def)

lemma grar_create_ok:
  "grar_create m = (r, m') \<Longrightarrow>
     live m' = live m + of_bool (r \<noteq> None) \<and> (never_fails m \<longrightarrow> never_fails m' \<and> r \<noteq> None)
     \<and> (case r of None \<Rightarrow> True | Some g \<Rightarrow> grar_ok g \<and> elems g = [])"
  using malloc_never_fails [of m "GRAR_DEFAULT_CAPACITY * SIZEOF_TGAELEM"]
  by (auto simp: grar_create_def grar_ok_def grar_inv_def grar_consts split: prod.splits if_splits
      dest: malloc_effect)

lemma grar_reserve_enough:
  assumes "grar_ok g" and "small (elems g)" and "n < 2 ^ 50"
  shows "returns (grar_reserve m g n) (\<lambda>(r, g', m'). never_fails m \<longrightarrow> r \<and> never_fails m')"
proof (cases "n \<le> capacity g")
  case True
  then show ?thesis by (simp add: grar_reserve_def)
next
  case False
  have cap: "0 < capacity g" "capacity g \<le> max GRAR_DEFAULT_CAPACITY (2 * length (elems g))" using assms(1) by (simp_all add: grar_ok_def grar_inv_def)
  have "returns (grar_grow (capacity g) n) (\<lambda>c. n \<le> c \<and> 2 * capacity g \<le> c \<and> c < max (2 * capacity g + 1) (2 * n))"
    using cap assms(2,3) False by (intro grar_grow_returns) (auto simp: grar_consts small_def)
  then obtain c where c: "grar_grow (capacity g) n = Some c" "c \<le> 2 * n" using False by (auto simp: returns_iff)
  obtain b m' where r: "realloc m (c * SIZEOF_TGAELEM) = (b, m')" by fastforce
  have "c * SIZEOF_TGAELEM \<le> PTRDIFF_MAX" "c * SIZEOF_TGAELEM < SIZE_MODULUS" using c(2) assms(3) by (simp_all add: grar_consts)
  then show ?thesis using False c(1) r realloc_never_fails [OF _ _ r] by (auto simp: grar_reserve_def)
qed

lemma grar_add_element_grows:
  assumes "grar_inv g"
  shows "returns (grar_add_element m g x) (\<lambda>(r, g', m'). (grar_ok g \<longrightarrow> grar_ok g')
     \<and> (never_fails m \<and> small (elems g) \<longrightarrow> r \<and> never_fails m'))"
proof (cases "length (elems g) < capacity g")
  case True
  then show ?thesis
    using assms by (auto simp: grar_add_element_reserved grar_ok_def grar_inv_def)
next
  case False
  let ?n = "length (elems g) + 1"
  have cap: "capacity g = length (elems g)" "0 < capacity g" "capacity g * SIZEOF_TGAELEM \<le> PTRDIFF_MAX"
    using False assms by (auto simp: grar_ok_def grar_inv_def)
  have "returns (grar_grow (capacity g) ?n) (\<lambda>c. ?n \<le> c \<and> 2 * capacity g \<le> c \<and> c < max (2 * capacity g + 1) (2 * ?n))"
    using cap by (intro grar_grow_returns) (auto simp: grar_consts)
  then obtain c where c: "grar_grow (capacity g) ?n = Some c" "?n \<le> c" "c < 2 * ?n"
    using cap by (auto simp: returns_iff)
  obtain b m' where r: "realloc m (c * SIZEOF_TGAELEM) = (b, m')" by fastforce
  have "c * SIZEOF_TGAELEM < SIZE_MODULUS" using cap(1,3) c(3) unfolding grar_consts by presburger
  moreover have "c * SIZEOF_TGAELEM \<le> PTRDIFF_MAX" if "small (elems g)"
    using that c by (simp add: grar_consts small_def)
  ultimately show ?thesis
    using r c cap assms realloc_effect [OF r] realloc_never_fails [of m "c * SIZEOF_TGAELEM" b m']
    by (auto simp: grar_add_element_def grar_reserve_def grar_ok_def grar_inv_def)
qed

lemma grar_add_element_inv:
  assumes "grar_inv g"
  shows "returns (grar_add_element m g x) (\<lambda>(r, g', m'). grar_inv g' \<and> live m' = live m
     \<and> (if r then elems g' = elems g @ [x] else g' = g)
     \<and> (never_fails m \<and> small (elems g) \<longrightarrow> r \<and> never_fails m'))"
  by (rule returns_mono [OF returns_conjI [OF grar_add_element_returns grar_add_element_grows]])
    (use assms in auto)

lemma grar_add_element_ok:
  assumes "grar_ok g"
  shows "returns (grar_add_element m g x) (\<lambda>(r, g', m'). grar_ok g' \<and> live m' = live m
     \<and> (if r then elems g' = elems g @ [x] else g' = g)
     \<and> (never_fails m \<and> small (elems g) \<longrightarrow> r \<and> never_fails m'))"
  by (rule returns_mono [OF returns_conjI [OF grar_add_element_returns grar_add_element_grows]])
    (use assms in auto)

section \<open>Properties\<close>

lemma grar_grow_power:
  assumes "0 < cap" and "2 * cap < SIZE_MODULUS" and "2 * n \<le> SIZE_MODULUS"
  shows "\<exists>k. grar_grow cap n = Some (2 ^ Suc k * cap) \<and> n \<le> 2 ^ Suc k * cap \<and> (k = 0 \<or> 2 ^ k * cap < n)"
  using assms
proof (induction "n - cap" arbitrary: cap rule: less_induct)
  case less
  have eq: "grar_grow cap n = (if 2 * cap < n then grar_grow (2 * cap) n else Some (2 * cap))"
    using less.prems by (subst grar_grow.simps) (simp add: GRAR_CAP_INC_FACTOR_def mult.commute)
  show ?case
  proof (cases "2 * cap < n")
    case True
    then obtain k where k: "grar_grow (2 * cap) n = Some (2 ^ Suc k * (2 * cap))"
        "n \<le> 2 ^ Suc k * (2 * cap)" "k = 0 \<or> 2 ^ k * (2 * cap) < n"
      using less.hyps [of "2 * cap"] less.prems by fastforce
    then show ?thesis
      unfolding eq using True by (intro exI [of _ "Suc k"]) (auto simp: mult.assoc mult.left_commute)
  next
    case False
    then show ?thesis unfolding eq by (intro exI [of _ 0]) simp
  qed
qed

text \<open>
  C22: \<open>grar_reserve\<close> ends for every request that fits into the address space. Where it has to grow
  the array it multiplies the capacity by the smallest power of two, at least two, that covers the
  request; where \<open>realloc\<close> refuses, the array is left as it was. The elements never change.
\<close>

theorem grar_reserve_grows:
  assumes "grar_inv g" and "n * SIZEOF_TGAELEM \<le> Suc PTRDIFF_MAX"
  shows "returns (grar_reserve m g n) (\<lambda>(r, g', m').
     grar_inv g' \<and> elems g' = elems g \<and> live m' = live m
     \<and> (if \<not> r then g' = g \<and> capacity g < n
        else if n \<le> capacity g then g' = g
        else \<exists>k. capacity g' = 2 ^ Suc k * capacity g \<and> n \<le> capacity g'
               \<and> (k = 0 \<or> 2 ^ k * capacity g < n)))"
proof (cases "n \<le> capacity g")
  case True
  then show ?thesis using assms by (simp add: grar_reserve_def)
next
  case False
  obtain k where k: "grar_grow (capacity g) n = Some (2 ^ Suc k * capacity g)"
      "n \<le> 2 ^ Suc k * capacity g" "k = 0 \<or> 2 ^ k * capacity g < n"
    using grar_grow_power [of "capacity g" n] assms by (auto simp: grar_inv_def grar_consts)
  have "returns (grar_reserve m g n)
    (\<lambda>(r, g', m'). (if r then capacity g' = 2 ^ Suc k * capacity g else g' = g))"
    using grar_reserve_returns [OF assms, of m] False k(1)
    by (auto simp: grar_reserve_def returns_iff split: if_splits prod.splits)
  from returns_conjI [OF grar_reserve_returns [OF assms, of m] this] show ?thesis
    by (rule returns_mono) (use False k(2,3) in \<open>auto split: if_splits\<close>)
qed

theorem grar_reserve_grows_witness:
  "returns (grar_reserve mem0 (Grar [7, 8::nat] 16) 50) (\<lambda>(r, g', m').
     elems g' = [7, 8] \<and> (r \<longrightarrow> (\<exists>k. capacity g' = 2 ^ Suc k * 16 \<and> 50 \<le> capacity g')))"
  by (rule returns_mono [OF grar_reserve_grows [of "Grar [7, 8::nat] 16" 50 mem0]])
    (auto simp: grar_inv_def grar_consts split: if_splits)

text \<open>
  C23: \<open>grar_append_array\<close> appends all elements of the source array in order or, where memory is
  refused, none of them; no element is lost, nothing is written outside the block and no block
  is leaked. With an allocator that refuses nothing and room for the doubled capacity it succeeds.
\<close>

theorem grar_append_array_all_or_nothing:
  assumes "grar_inv g" and "grar_inv src"
    and "(length (elems g) + length (elems src)) * SIZEOF_TGAELEM \<le> Suc PTRDIFF_MAX"
  shows "returns (grar_append_array m g src) (\<lambda>(r, g', m').
     grar_inv g' \<and> live m' = live m
     \<and> (if r then elems g' = elems g @ elems src else g' = g)
     \<and> (never_fails m \<and> 2 * (capacity g + length (elems g) + length (elems src)) * SIZEOF_TGAELEM \<le> PTRDIFF_MAX
          \<longrightarrow> r))"
proof -
  let ?n = "length (elems g) + length (elems src)"
  have ok: "returns (grar_append_array m g src) (\<lambda>(r, g', m').
      grar_inv g' \<and> live m' = live m \<and> (if r then elems g' = elems g @ elems src else g' = g))"
    using grar_append_array_returns [OF assms(1,3), of m] by (auto elim!: returns_mono)
  have "returns (grar_append_array m g src) (\<lambda>(r, g', m'). r)"
    if nf: "never_fails m" "2 * (capacity g + ?n) * SIZEOF_TGAELEM \<le> PTRDIFF_MAX"
  proof (cases "?n \<le> capacity g")
    case True
    then show ?thesis by (simp add: grar_append_array_def grar_reserve_def)
  next
    case False
    have grow: "returns (grar_grow (capacity g) ?n) (\<lambda>c. ?n \<le> c \<and> c < max (2 * capacity g + 1) (2 * ?n))"
      using assms by (intro returns_mono [OF grar_grow_returns]) (auto simp: grar_inv_def grar_consts)
    then obtain c where c: "grar_grow (capacity g) ?n = Some c" "?n \<le> c" "c \<le> 2 * (capacity g + ?n)"
      by (auto simp: returns_iff)
    have "c * SIZEOF_TGAELEM \<le> PTRDIFF_MAX"
      using le_trans [OF mult_le_mono1 [OF c(3)] nf(2)] .
    moreover obtain b m' where "realloc m (c * SIZEOF_TGAELEM) = (b, m')" by fastforce
    ultimately show ?thesis
      using realloc_never_fails [OF nf(1), of "c * SIZEOF_TGAELEM" b m'] False c
      by (simp add: grar_append_array_def grar_reserve_def grar_consts)
  qed
  then have "returns (grar_append_array m g src) (\<lambda>(r, g', m').
      never_fails m \<and> 2 * (capacity g + ?n) * SIZEOF_TGAELEM \<le> PTRDIFF_MAX \<longrightarrow> r)"
    using ok by (auto simp: returns_iff)
  from returns_conjI [OF ok this] show ?thesis
    by (rule returns_mono) (auto simp: algebra_simps)
qed

theorem grar_append_array_all_or_nothing_witness:
  "returns (grar_append_array mem0 (Grar [1, 2::nat] 2) (Grar [3, 4, 5] 16))
     (\<lambda>(r, g', m'). r \<and> elems g' = [1, 2, 3, 4, 5] \<and> live m' = 0)"
  by (rule returns_mono [OF grar_append_array_all_or_nothing [of "Grar [1, 2::nat] 2" "Grar [3, 4, 5] 16" mem0]])
    (auto simp: grar_inv_def grar_consts never_fails_def split: if_splits)

text \<open>
  C24: an array that has been destroyed cannot be used again: \<open>grar_add_element\<close> then never returns,
  because the capacity it keeps doubling is 0.
\<close>

theorem grar_add_element_after_destroy:
  "grar_add_element m (fst (grar_destroy m g)) x = None"
  by (simp add: grar_add_element_def grar_reserve_def grar_grow_zero)

end
