(* ===== verification/Mist_String.thy ===== *)
theory Mist_String
  imports C_Runtime
begin

unbundle bit_operations_syntax

text \<open>
  String utilities of the template engine:
  \<^verbatim>\<open>src/snippets/code_generation/mist_gen.simple/src/mist_engine/src/mist_string_utils.c\<close> and
  \<^verbatim>\<open>mist_string_utils.h\<close>, with the error codes of \<^verbatim>\<open>mist_errors.h\<close>.

  A \<open>CMistString\<close> is modelled with its buffer: \<open>ms_buf\<close> is the block \<open>buf\<close> points to, byte for byte
  (its length is the field \<open>bsize\<close>), and \<open>ms_str\<close> the offset of \<open>str\<close> in it. Every write is checked
  against the end of the buffer and every string read against a missing NUL. Pointers into one
  string are offsets; a pair \<open>beg\<close>, \<open>end\<close> is a half-open range.

  A pointer that walks downwards past the start of a string (\<open>mist_find_in_range_last_not_of\<close>,
  \<open>mist_is_char_escaped\<close>) is compared there but not dereferenced; the model stops at the same
  comparison.
\<close>

section \<open>Error codes\<close>

datatype EMistErrorCode =
    MIST_OK | MIST_OUT_OF_MEMORY | MIST_OPEN_FILE_FAILED | MIST_READ_FILE_FAILED
  | MIST_WRITE_FILE_FAILED | MIST_READ_DIR_FAILED | MIST_SYNTAX_ERROR | MIST_BAD_NAME
  | MIST_DUP_PARAM | MIST_MISSING_PARAM | MIST_NO_TPL_FILES | MIST_FAILED_TO_LOAD_TEMPLATE
  | MIST_MAIN_TPL_MULTIVALUED | MIST_CREATE_DIR_FAILED | MIST_UNSPECIFIED_ERROR
  | MIST_VERSION_NOT_SUPPORTED | MIST_LIBRARY_NOT_INITIALIZED

section \<open>Bytes in a buffer\<close>

text \<open>Fresh bytes, a checked write, and the string that starts at an offset.\<close>

definition fresh :: "mem \<Rightarrow> nat \<Rightarrow> nat \<Rightarrow> char list" where
  "fresh m i j = map (junk m) [i..<j]"

definition write_at :: "char list \<Rightarrow> nat \<Rightarrow> char list \<Rightarrow> char list option" where
  "write_at b off xs =
     (if off + length xs \<le> length b then Some (take off b @ xs @ drop (off + length xs) b) else None)"

definition string_at :: "char list \<Rightarrow> nat \<Rightarrow> string option" where
  "string_at b off = (if NUL \<in> set (drop off b) then Some (c_str (drop off b)) else None)"

text \<open>What \<open>strncpy (dst, src, n)\<close> writes.\<close>

definition strncpy_bytes :: "string \<Rightarrow> nat \<Rightarrow> char list" where
  "strncpy_bytes src n = (let t = c_str (take n src) in t @ replicate (n - length t) NUL)"

text \<open>Write at the current position and move the position past what was written.\<close>

definition emit :: "char list \<times> nat \<Rightarrow> char list \<Rightarrow> (char list \<times> nat) option" where
  "emit d xs = map_option (\<lambda>b. (b, snd d + length xs)) (write_at (fst d) (snd d) xs)"

section \<open>Searching in ranges\<close>

function find_forward :: "(char \<Rightarrow> bool) \<Rightarrow> string \<Rightarrow> nat \<Rightarrow> nat \<Rightarrow> nat" where
  "find_forward stop s pos end =
     (if pos < end then (if stop (s ! pos) then pos else find_forward stop s (pos + 1) end) else pos)"
  by pat_completeness auto
termination
  by (relation "measure (\<lambda>(stop, s, pos, end). end - pos)") auto

declare find_forward.simps [simp del]

fun find_backward :: "(char \<Rightarrow> bool) \<Rightarrow> string \<Rightarrow> nat \<Rightarrow> nat \<Rightarrow> nat option" where
  "find_backward stop s beg 0 = None"
| "find_backward stop s beg (Suc pos) =
     (if pos < beg then None else if stop (s ! pos) then Some pos else find_backward stop s beg pos)"

definition mist_find_in_range_first_of :: "string \<Rightarrow> nat \<Rightarrow> nat \<Rightarrow> char list \<Rightarrow> nat option" where
  "mist_find_in_range_first_of s beg end syms = do {
     _ \<leftarrow> check (beg \<le> end \<and> end \<le> length s);
     Some (find_forward (\<lambda>c. c \<in> set syms) s beg end)
   }"

definition mist_find_in_range_first_not_of :: "string \<Rightarrow> nat \<Rightarrow> nat \<Rightarrow> char list \<Rightarrow> nat option" where
  "mist_find_in_range_first_not_of s beg end syms = do {
     _ \<leftarrow> check (beg \<le> end \<and> end \<le> length s);
     Some (find_forward (\<lambda>c. c \<notin> set syms) s beg end)
   }"

definition mist_find_in_range_last_not_of :: "string \<Rightarrow> nat \<Rightarrow> nat \<Rightarrow> char list \<Rightarrow> nat option" where
  "mist_find_in_range_last_not_of s beg end syms = do {
     _ \<leftarrow> check (beg \<le> end \<and> end \<le> length s);
     Some (case find_backward (\<lambda>c. c \<notin> set syms) s beg end of None \<Rightarrow> end | Some pos \<Rightarrow> pos)
   }"

text \<open>The whole-string variants return NULL (\<open>None\<close>) where the range functions return the end.\<close>

definition mist_find_first_of :: "string \<Rightarrow> char list \<Rightarrow> nat option option" where
  "mist_find_first_of s syms = do {
     pos \<leftarrow> mist_find_in_range_first_of s 0 (length s) syms;
     Some (if pos \<noteq> length s then Some pos else None)
   }"

definition mist_find_first_not_of :: "string \<Rightarrow> char list \<Rightarrow> nat option option" where
  "mist_find_first_not_of s syms = do {
     pos \<leftarrow> mist_find_in_range_first_not_of s 0 (length s) syms;
     Some (if pos \<noteq> length s then Some pos else None)
   }"

definition mist_find_last_not_of :: "string \<Rightarrow> char list \<Rightarrow> nat option option" where
  "mist_find_last_not_of s syms = do {
     pos \<leftarrow> mist_find_in_range_last_not_of s 0 (length s) syms;
     Some (if pos \<noteq> length s then Some pos else None)
   }"

section \<open>Strings with a buffer\<close>

record CMistString =
  ms_str :: nat
  ms_buf :: "char list"

definition SIZEOF_CMistString :: nat where
  "SIZEOF_CMistString = 24"

definition MIST_INIT_BUFFER_SIZE :: nat where
  "MIST_INIT_BUFFER_SIZE = 16"

text \<open>The \<open>assert\<close> at the head of the methods: \<open>str\<close> points into the buffer.\<close>

definition ms_valid :: "CMistString \<Rightarrow> bool" where
  "ms_valid ms \<longleftrightarrow> ms_str ms < length (ms_buf ms)"

text \<open>
  \<open>x & ~(N - 1)\<close> clears the low bits of \<open>x\<close>: it subtracts \<open>x mod N\<close>. \<open>src\<close> is the string \<open>beg\<close> and
  \<open>end\<close> point into.
\<close>

definition mist_string_create_from_range ::
  "mem \<Rightarrow> string \<Rightarrow> nat \<Rightarrow> nat \<Rightarrow> (CMistString option \<times> mem) option" where
  "mist_string_create_from_range m src beg end = do {
     _ \<leftarrow> check (beg \<le> end \<and> end \<le> length src);
     (case malloc m SIZEOF_CMistString of (b, m) \<Rightarrow>
        if \<not> b then Some (None, m)
        else
          (let len = end - beg;
               x = len + MIST_INIT_BUFFER_SIZE;
               bsize = x - x mod MIST_INIT_BUFFER_SIZE in
           (case malloc m bsize of (b, m) \<Rightarrow>
              if \<not> b then Some (None, free m)
              else do {
                let buf = fresh m 0 bsize;
                (buf, pos) \<leftarrow> (if len > 0 then emit (buf, 0) (strncpy_bytes (drop beg src) len)
                               else Some (buf, 0));
                buf \<leftarrow> write_at buf pos [NUL];
                Some (Some \<lparr>ms_str = 0, ms_buf = buf\<rparr>, m)
              })))
   }"

definition mist_string_create :: "mem \<Rightarrow> string option \<Rightarrow> (CMistString option \<times> mem) option" where
  "mist_string_create m init =
     (let init = (case init of None \<Rightarrow> [] | Some s \<Rightarrow> s) in
      mist_string_create_from_range m init 0 (length init))"

definition mist_string_destroy :: "mem \<Rightarrow> CMistString \<Rightarrow> mem" where
  "mist_string_destroy m ms = free (free m)"

definition mist_string_reserve ::
  "mem \<Rightarrow> CMistString \<Rightarrow> nat \<Rightarrow> (EMistErrorCode \<times> CMistString \<times> mem) option" where
  "mist_string_reserve m ms sz = do {
     _ \<leftarrow> check (ms_valid ms);
     let new_size = sz + 1;
     if new_size > length (ms_buf ms) then
       (case realloc m new_size of (b, m) \<Rightarrow>
          if \<not> b then Some (MIST_OUT_OF_MEMORY, ms, m)
          else Some (MIST_OK, ms\<lparr>ms_buf := ms_buf ms @ fresh m (length (ms_buf ms)) new_size\<rparr>, m))
     else Some (MIST_OK, ms, m)
   }"

definition mist_string_reset :: "CMistString \<Rightarrow> CMistString option" where
  "mist_string_reset ms = do {
     _ \<leftarrow> check (ms_valid ms);
     buf \<leftarrow> write_at (ms_buf ms) 0 [NUL];
     Some \<lparr>ms_str = 0, ms_buf = buf\<rparr>
   }"

definition mist_string_set ::
  "mem \<Rightarrow> CMistString \<Rightarrow> string \<Rightarrow> (EMistErrorCode \<times> CMistString \<times> mem) option" where
  "mist_string_set m ms src = do {
     _ \<leftarrow> check (ms_valid ms);
     let new_size = length src + 1;
     (ec, ms, m) \<leftarrow> mist_string_reserve m ms new_size;
     if ec \<noteq> MIST_OK then Some (ec, ms, m)
     else do {
       buf \<leftarrow> write_at (ms_buf ms) 0 (src @ [NUL]);
       Some (MIST_OK, \<lparr>ms_str = 0, ms_buf = buf\<rparr>, m)
     }
   }"

definition mist_string_append ::
  "mem \<Rightarrow> CMistString \<Rightarrow> CMistString \<Rightarrow> (EMistErrorCode \<times> CMistString \<times> mem) option" where
  "mist_string_append m ms_to ms_what = do {
     _ \<leftarrow> check (ms_valid ms_to);
     _ \<leftarrow> check (ms_valid ms_what);
     s \<leftarrow> string_at (ms_buf ms_to) (ms_str ms_to);
     w \<leftarrow> string_at (ms_buf ms_what) (ms_str ms_what);
     (ec, ms_to, m) \<leftarrow> mist_string_reserve m ms_to (ms_str ms_to + length s + length w + 1);
     if ec \<noteq> MIST_OK then Some (ec, ms_to, m)
     else do {
       buf \<leftarrow> write_at (ms_buf ms_to) (ms_str ms_to + length s) (w @ [NUL]);
       Some (MIST_OK, ms_to\<lparr>ms_buf := buf\<rparr>, m)
     }
   }"

definition mist_string_append_range ::
  "mem \<Rightarrow> CMistString \<Rightarrow> string \<Rightarrow> nat \<Rightarrow> nat \<Rightarrow> (EMistErrorCode \<times> CMistString \<times> mem) option" where
  "mist_string_append_range m ms_to src beg end = do {
     _ \<leftarrow> check (ms_valid ms_to);
     _ \<leftarrow> check (beg \<le> end \<and> end \<le> length src);
     let len = end - beg;
     s \<leftarrow> string_at (ms_buf ms_to) (ms_str ms_to);
     (ec, ms_to, m) \<leftarrow> mist_string_reserve m ms_to (ms_str ms_to + length s + len + 1);
     if ec \<noteq> MIST_OK then Some (ec, ms_to, m)
     else if len > 0 then do {
       buf \<leftarrow> write_at (ms_buf ms_to) (ms_str ms_to + length s) (c_str (slice src beg end) @ [NUL]);
       Some (MIST_OK, ms_to\<lparr>ms_buf := buf\<rparr>, m)
     } else Some (MIST_OK, ms_to, m)
   }"

definition mist_string_sum ::
  "mem \<Rightarrow> CMistString \<Rightarrow> CMistString \<Rightarrow> (CMistString option \<times> mem) option" where
  "mist_string_sum m ms_left ms_right = do {
     _ \<leftarrow> check (ms_valid ms_left);
     _ \<leftarrow> check (ms_valid ms_right);
     (result, m) \<leftarrow> mist_string_create m None;
     (case result of
        None \<Rightarrow> Some (None, m)
      | Some result \<Rightarrow> do {
          l \<leftarrow> string_at (ms_buf ms_left) (ms_str ms_left);
          r \<leftarrow> string_at (ms_buf ms_right) (ms_str ms_right);
          (ec, result, m) \<leftarrow> mist_string_reserve m result (length l + length r + 1);
          if ec \<noteq> MIST_OK then Some (None, mist_string_destroy m result) else do {
          (ec, result, m) \<leftarrow> mist_string_set m result l;
          if ec \<noteq> MIST_OK then Some (None, mist_string_destroy m result) else do {
          (ec, result, m) \<leftarrow> mist_string_append m result ms_right;
          if ec \<noteq> MIST_OK then Some (None, mist_string_destroy m result)
          else Some (Some result, m)
          }}
        })
   }"

definition wspace :: "char list" where
  "wspace = [CHR '' '', CHR 0x09, CHR 0x0A, CHR 0x0D]"

definition mist_string_trim :: "CMistString \<Rightarrow> CMistString option" where
  "mist_string_trim ms = do {
     _ \<leftarrow> check (ms_valid ms);
     s \<leftarrow> string_at (ms_buf ms) (ms_str ms);
     let len = length s;
     if len = 0 then Some ms
     else do {
       beg_new \<leftarrow> mist_find_in_range_first_not_of s 0 len wspace;
       if beg_new = len then do {
         buf \<leftarrow> write_at (ms_buf ms) (ms_str ms) [NUL];
         Some (ms\<lparr>ms_buf := buf\<rparr>)
       } else do {
         end_new \<leftarrow> mist_find_in_range_last_not_of s 0 len wspace;
         buf \<leftarrow> (if end_new \<noteq> len then do {
                   _ \<leftarrow> check (ms_str ms + end_new + 1 < length (ms_buf ms) \<and> end_new + 1 > beg_new);
                   write_at (ms_buf ms) (ms_str ms + end_new + 1) [NUL]
                 } else Some (ms_buf ms));
         Some \<lparr>ms_str = ms_str ms + beg_new, ms_buf = buf\<rparr>
       }
     }
   }"

definition mist_string_swap :: "CMistString \<Rightarrow> CMistString \<Rightarrow> CMistString \<times> CMistString" where
  "mist_string_swap lhs rhs =
     (lhs\<lparr>ms_buf := ms_buf rhs, ms_str := ms_str rhs\<rparr>, rhs\<lparr>ms_buf := ms_buf lhs, ms_str := ms_str lhs\<rparr>)"

text \<open>
  The two loops of \<open>mist_string_replace\<close>: counting the occurrences, and copying with the
  replacement into the buffer of \<open>ts\<close>. \<open>s\<close> is the rest of the string.
\<close>

function replace_count :: "string \<Rightarrow> string \<Rightarrow> nat" where
  "replace_count s what =
     (case strstr s what of
        None \<Rightarrow> 0
      | Some pos \<Rightarrow> if what = [] then 0 else 1 + replace_count (drop (pos + length what) s) what)"
  by pat_completeness auto

function replace_copy ::
  "string \<Rightarrow> string \<Rightarrow> string \<Rightarrow> char list \<times> nat \<Rightarrow> (char list \<times> nat) option" where
  "replace_copy s what with ts =
     (case strstr s what of
        None \<Rightarrow> (if length s \<noteq> 0 then emit ts s else Some ts)
      | Some offs \<Rightarrow>
        if what = [] then None
        else do {
          ts \<leftarrow> (if offs \<noteq> 0 then emit ts (take offs s) else Some ts);
          ts \<leftarrow> (if length with \<noteq> 0 then emit ts with else Some ts);
          replace_copy (drop (offs + length what) s) what with ts
        })"
  by pat_completeness auto

lemma strstr_length: "strstr s w = Some i \<Longrightarrow> i + length w \<le> length s"
proof (induction s w arbitrary: i rule: strstr.induct)
  case (2 x xs needle)
  have "length needle \<le> length (x # xs)" if "is_prefix needle (x # xs)"
  proof -
    have "take (length needle) (x # xs) = needle" using that by (simp add: is_prefix_iff)
    then show ?thesis by (metis length_take min.cobounded1)
  qed
  then show ?case using 2 by (auto split: if_splits)
qed (auto split: if_splits)

termination replace_count
proof (relation "measure (\<lambda>(s, what). length s)", goal_cases)
  case (2 s what pos)
  then show ?case using strstr_length [of s what pos] by (cases what) auto
qed simp

termination replace_copy
proof (relation "measure (\<lambda>(s, what, with, ts). length s)", goal_cases)
  case (2 s what "with" ts pos)
  then show ?case using strstr_length [of s what pos] by (cases what) auto
qed simp

declare replace_count.simps [simp del] replace_copy.simps [simp del]

definition mist_string_replace ::
  "mem \<Rightarrow> CMistString \<Rightarrow> string \<Rightarrow> string \<Rightarrow> (EMistErrorCode \<times> CMistString \<times> mem) option" where
  "mist_string_replace m ms what with = do {
     _ \<leftarrow> check (ms_valid ms);
     _ \<leftarrow> check (what \<noteq> []);
     s \<leftarrow> string_at (ms_buf ms) (ms_str ms);
     let c = replace_count s what;
     if c = 0 then Some (MIST_OK, ms, m)
     else do {
       (ts, m) \<leftarrow> mist_string_create m None;
       (case ts of
          None \<Rightarrow> Some (MIST_OUT_OF_MEMORY, ms, m)
        | Some ts \<Rightarrow> do {
            (ec, ts, m) \<leftarrow> mist_string_reserve m ts (length s - c * length what + c * length with);
            if ec \<noteq> MIST_OK then Some (ec, ms, mist_string_destroy m ts)
            else do {
              (buf, pos) \<leftarrow> replace_copy s what with (ms_buf ts, ms_str ts);
              _ \<leftarrow> check (pos < length buf);
              buf \<leftarrow> write_at buf pos [NUL];
              (case mist_string_swap ms \<lparr>ms_str = 0, ms_buf = buf\<rparr> of (ms, ts) \<Rightarrow>
                 Some (MIST_OK, ms, mist_string_destroy m ts))
            }
          })
     }
   }"

text \<open>
  \<open>mist_string_unescape\<close>: the tables (with the terminating NUL that \<open>sizeof\<close> counts), and the loop
  over the string \<open>s\<close>, whose unwritten segment starts at \<open>beg\<close>.
\<close>

definition ch_what :: "char list" where
  "ch_what = ''tnr'' @ [NUL]"

definition ch_to :: "char list" where
  "ch_to = [CHR 0x09, CHR 0x0A, CHR 0x0D, NUL]"

fun escape_index :: "char \<Rightarrow> char list \<Rightarrow> nat" where
  "escape_index c [] = 0"
| "escape_index c (x # xs) = (if c = x then 0 else Suc (escape_index c xs))"

function unescape_loop ::
  "string \<Rightarrow> nat \<Rightarrow> nat \<Rightarrow> char list \<times> nat \<Rightarrow> (nat \<times> char list \<times> nat) option" where
  "unescape_loop s beg pos res =
     (if pos < length s then
        if s ! pos = CHR 0x5C then do {
          res \<leftarrow> (if pos - beg > 0 then emit res (slice s beg pos) else Some res);
          let pos = pos + 1;
          if pos = length s then do {
            res \<leftarrow> emit res [CHR 0x5C];
            Some (pos, res)
          } else if s ! pos = CHR 0x5C then do {
            res \<leftarrow> emit res [CHR 0x5C];
            unescape_loop s (pos + 1) (pos + 1) res
          } else do {
            let i = escape_index (s ! pos) ch_what;
            if i < length ch_what then do {
              res \<leftarrow> emit res [ch_to ! i];
              unescape_loop s (pos + 1) (pos + 1) res
            } else do {
              res \<leftarrow> emit res [CHR 0x5C];
              unescape_loop s pos pos res
            }
          }
        } else unescape_loop s beg (pos + 1) res
      else Some (beg, res))"
  by pat_completeness auto
termination
  by (relation "measure (\<lambda>(s, beg, pos, res). length s - pos)") auto

declare unescape_loop.simps [simp del]

text \<open>When the reservation fails the source returns without destroying \<open>res\<close>.\<close>

definition mist_string_unescape ::
  "mem \<Rightarrow> CMistString \<Rightarrow> (EMistErrorCode \<times> CMistString \<times> mem) option" where
  "mist_string_unescape m ms = do {
     _ \<leftarrow> check (ms_valid ms);
     s \<leftarrow> string_at (ms_buf ms) (ms_str ms);
     let len = length s;
     if len < 2 then Some (MIST_OK, ms, m)
     else do {
       (res, m) \<leftarrow> mist_string_create m (Some []);
       (case res of
          None \<Rightarrow> Some (MIST_OUT_OF_MEMORY, ms, m)
        | Some res \<Rightarrow> do {
            (ec, res, m) \<leftarrow> mist_string_reserve m res len;
            if ec \<noteq> MIST_OK then Some (ec, ms, m)
            else do {
              (beg, out) \<leftarrow> unescape_loop s 0 0 (ms_buf res, ms_str res);
              (buf, pos) \<leftarrow> (if len - beg > 0 then emit out (slice s beg len) else Some out);
              buf \<leftarrow> write_at buf pos [NUL];
              (case mist_string_swap ms \<lparr>ms_str = 0, ms_buf = buf\<rparr> of (ms, res) \<Rightarrow>
                 Some (ec, ms, mist_string_destroy m res))
            }
          })
     }
   }"

text \<open>\<open>memmove\<close> to the start of the buffer; the buffer itself goes to the caller.\<close>

definition mist_string_detach :: "mem \<Rightarrow> CMistString \<Rightarrow> (char list \<times> mem) option" where
  "mist_string_detach m ms = do {
     _ \<leftarrow> check (ms_valid ms);
     buf \<leftarrow> (if ms_str ms > 0 then write_at (ms_buf ms) 0 (drop (ms_str ms) (ms_buf ms))
            else Some (ms_buf ms));
     Some (buf, free m)
   }"

section \<open>Other functions\<close>

definition ch_allowed :: "nat list" where
  "ch_allowed =
    [0, 0, 0, 0, 0, 0, 0, 0, 0, 0, 0, 0, 0, 0, 0, 0,
     0, 0, 0, 0, 0, 0, 0, 0, 0, 0, 0, 0, 0, 0, 0, 0,
     1, 0, 0, 0, 0, 0, 0, 0, 0, 0, 0, 0, 0, 1, 1, 0,
     1, 1, 1, 1, 1, 1, 1, 1, 1, 1, 0, 0, 0, 0, 0, 0,
     0, 1, 1, 1, 1, 1, 1, 1, 1, 1, 1, 1, 1, 1, 1, 1,
     1, 1, 1, 1, 1, 1, 1, 1, 1, 1, 1, 0, 0, 0, 0, 1,
     0, 1, 1, 1, 1, 1, 1, 1, 1, 1, 1, 1, 1, 1, 1, 1,
     1, 1, 1, 1, 1, 1, 1, 1, 1, 1, 1, 0, 0, 0, 0, 0]"

text \<open>A \<open>char\<close> above 0x7F is negative or large; either way one of the two comparisons catches it.\<close>

definition char_is_bad :: "char \<Rightarrow> bool" where
  "char_is_bad c =
     (let n = (of_char c :: nat) in n \<le> 0x1F \<or> n \<ge> 0x7F \<or> ch_allowed ! n = 0)"

definition mist_name_is_bad :: "string \<Rightarrow> bool" where
  "mist_name_is_bad name =
     (name = [] \<or> hd name = CHR ''.'' \<or> hd name = CHR '' '' \<or> (\<exists>c \<in> set name. char_is_bad c))"

text \<open>The counter is an \<open>unsigned int\<close>.\<close>

definition mist_line_num_for_ptr :: "string \<Rightarrow> nat \<Rightarrow> 32 word option" where
  "mist_line_num_for_ptr src ptr = do {
     _ \<leftarrow> check (ptr \<le> length src);
     Some (foldl (\<lambda>cnt c. if c = CHR 0x0A then cnt + 1 else cnt) 1 (take ptr src))
   }"

definition MAX_NUM_DIGITS :: nat where
  "MAX_NUM_DIGITS = 22"

text \<open>\<open>error_descr\<close> is \<open>None\<close> for a NULL pointer; \<open>Some d\<close> points to a description \<open>d\<close>.\<close>

definition mist_format_parse_error ::
  "mem \<Rightarrow> string option option \<Rightarrow> string \<Rightarrow> 32 word \<Rightarrow> (string option option \<times> mem) option" where
  "mist_format_parse_error m error_descr fmt ln =
     (case error_descr of
        None \<Rightarrow> Some (None, m)
      | Some _ \<Rightarrow>
        if ln > 0 then do {
          (d, m) \<leftarrow> alloc_message m (length fmt + MAX_NUM_DIGITS + 1) fmt [ArgU (unat ln)];
          Some (Some d, m)
        } else (case strdup m fmt of (d, m) \<Rightarrow> Some (Some d, m)))"

definition mist_get_substring :: "mem \<Rightarrow> string \<Rightarrow> nat \<Rightarrow> nat \<Rightarrow> (string option \<times> mem) option" where
  "mist_get_substring m src beg end = do {
     _ \<leftarrow> check (beg \<le> end \<and> end \<le> length src);
     let len = end - beg;
     (case malloc m (len + 1) of (b, m) \<Rightarrow>
        if \<not> b then Some (None, m)
        else Some (Some (c_str (strncpy_bytes (drop beg src) len @ [NUL])), m))
   }"

fun count_backslashes :: "string \<Rightarrow> nat \<Rightarrow> nat" where
  "count_backslashes src 0 = 0"
| "count_backslashes src (Suc pos) =
     (if src ! pos = CHR 0x5C then Suc (count_backslashes src pos) else 0)"

definition mist_is_char_escaped :: "nat \<Rightarrow> string \<Rightarrow> bool option" where
  "mist_is_char_escaped pos src = do {
     _ \<leftarrow> check (pos \<le> length src);
     Some (if pos = 0 then False else odd (count_backslashes src pos))
   }"

function chars_to_spaces_loop :: "string \<Rightarrow> nat \<Rightarrow> nat \<Rightarrow> char list \<Rightarrow> string" where
  "chars_to_spaces_loop s pos end syms =
     (if pos < end then
        let s = s[pos := CHR '' ''] in
        chars_to_spaces_loop s (find_forward (\<lambda>c. c \<in> set syms) s (pos + 1) end) end syms
      else s)"
  by pat_completeness auto

lemma find_forward_ge: "pos \<le> find_forward stop s pos end"
proof (induction stop s pos "end" rule: find_forward.induct)
  case (1 stop s pos "end")
  then show ?case by (cases "pos < end") (auto simp: find_forward.simps [of stop s pos "end"])
qed

termination chars_to_spaces_loop
proof (relation "measure (\<lambda>(s, pos, end, syms). end - pos)", goal_cases)
  case (2 s pos "end" syms x)
  then show ?case
    using find_forward_ge [of "pos + 1" "\<lambda>c. c \<in> set syms" x "end"] by simp
qed simp

declare chars_to_spaces_loop.simps [simp del]

definition mist_chars_to_spaces :: "string \<Rightarrow> nat \<Rightarrow> nat \<Rightarrow> char list \<Rightarrow> string option" where
  "mist_chars_to_spaces s beg end syms = do {
     _ \<leftarrow> check (beg \<le> end \<and> end \<le> length s \<and> syms \<noteq> []);
     if beg = end then Some s
     else do {
       pos \<leftarrow> mist_find_in_range_first_of s beg end syms;
       Some (chars_to_spaces_loop s pos end syms)
     }
   }"

section \<open>Rules for buffers\<close>

lemma no_nul_simps [simp]:
  "no_nul []" "no_nul (c # s) \<longleftrightarrow> c \<noteq> NUL \<and> no_nul s" "no_nul (s @ t) \<longleftrightarrow> no_nul s \<and> no_nul t"
  by (auto simp: no_nul_def)

lemma no_nul_slice [simp]: "no_nul s \<Longrightarrow> no_nul (slice s i j)"
  by (auto simp: no_nul_def slice_def dest: in_set_takeD in_set_dropD)

lemma no_nul_c_str [simp]: "no_nul (c_str b)"
  by (auto simp: no_nul_def c_str_def dest: set_takeWhileD)

lemma c_str_terminated [simp]: "no_nul s \<Longrightarrow> c_str (s @ NUL # r) = s"
  by (induction s) (auto simp: c_str_def)

lemma c_str_no_nul [simp]: "no_nul s \<Longrightarrow> c_str s = s"
  by (induction s) (auto simp: c_str_def)

lemma no_nul_take [simp]: "no_nul s \<Longrightarrow> no_nul (take n s)"
  and no_nul_drop [simp]: "no_nul s \<Longrightarrow> no_nul (drop n s)"
  by (auto simp: no_nul_def dest: in_set_takeD in_set_dropD)

lemma strncpy_bytes_exact: "no_nul s \<Longrightarrow> n \<le> length s \<Longrightarrow> strncpy_bytes s n = take n s"
  by (simp add: strncpy_bytes_def)

lemma slice_take_drop: "slice s i j = take (j - i) (drop i s)"
  by (simp add: slice_def)

lemma length_slice [simp]: "i \<le> j \<Longrightarrow> j \<le> length s \<Longrightarrow> length (slice s i j) = j - i"
  by (simp add: slice_def)

lemma string_at_iff:
  "string_at b off = Some s \<longleftrightarrow> (\<exists>pre post. b = pre @ s @ NUL # post \<and> length pre = off \<and> no_nul s)"
proof
  assume *: "string_at b off = Some s"
  then have nul: "NUL \<in> set (drop off b)" and s: "s = c_str (drop off b)"
    by (auto simp: string_at_def split: if_splits)
  then obtain u v where uv: "drop off b = u @ NUL # v" "NUL \<notin> set u"
    by (metis split_list_first)
  then have "s = u" using s by (simp add: no_nul_def [symmetric])
  moreover have "b = take off b @ u @ NUL # v" using uv by (metis append_take_drop_id)
  moreover have "length (take off b) = off" using nul by (auto simp: min_def dest: in_set_dropD) 
  ultimately show "\<exists>pre post. b = pre @ s @ NUL # post \<and> length pre = off \<and> no_nul s"
    using uv by (auto simp: no_nul_def)
qed (auto simp: string_at_def)

lemma string_at_no_nul: "string_at b off = Some s \<Longrightarrow> no_nul s"
  by (auto simp: string_at_iff)

lemma string_at_bound: "string_at b off = Some s \<Longrightarrow> off + length s < length b"
  by (auto simp: string_at_iff)

lemma string_at_extend: "string_at b off = Some s \<Longrightarrow> string_at (b @ c) off = Some s"
  unfolding string_at_iff by (metis append_Cons append_assoc)

lemma write_at_Some:
  "off + length xs \<le> length b \<Longrightarrow>
     \<exists>b'. write_at b off xs = Some b' \<and> length b' = length b \<and> take off b' = take off b
        \<and> take (off + length xs) b' = take off b @ xs"
  by (simp add: write_at_def)

text \<open>Appending a string in place.\<close>

lemma write_at_append:
  assumes "string_at b off = Some s" and "no_nul w" and "off + length s + length w < length b"
  shows "returns (write_at b (off + length s) (w @ [NUL]))
    (\<lambda>b'. string_at b' off = Some (s @ w) \<and> length b' = length b)"
proof -
  from assms(1) obtain pre post where b: "b = pre @ s @ NUL # post" "length pre = off" "no_nul s"
    by (auto simp: string_at_iff)
  then have "write_at b (off + length s) (w @ [NUL]) =
      Some (pre @ (s @ w) @ NUL # drop (Suc (off + length s + length w)) b)"
    using assms(3) by (simp add: write_at_def)
  then show ?thesis
    using b assms(2,3) by (auto simp: string_at_iff)
qed

text \<open>A buffer that is filled from its start: what has been written so far.\<close>

definition filled :: "char list \<times> nat \<Rightarrow> string \<Rightarrow> nat \<Rightarrow> bool" where
  "filled d out n \<longleftrightarrow> length (fst d) = n \<and> snd d = length out \<and> snd d \<le> n \<and> take (snd d) (fst d) = out"

lemma emit_filled:
  "filled d out n \<Longrightarrow> length out + length xs \<le> n \<Longrightarrow> returns (emit d xs) (\<lambda>d'. filled d' (out @ xs) n)"
  using write_at_Some [of "snd d" xs "fst d"] by (auto simp: emit_def filled_def)

lemma emit_filled_nonempty:
  "filled d out n \<Longrightarrow> length out + length xs \<le> n \<Longrightarrow>
     returns (if 0 < length xs then emit d xs else Some d) (\<lambda>d'. filled d' (out @ xs) n)"
  using emit_filled [of d out n xs] by auto

lemma write_at_finish:
  assumes "filled (b, pos) out n" and "no_nul out" and "length out < n"
  shows "returns (write_at b pos [NUL]) (\<lambda>b'. string_at b' 0 = Some out \<and> length b' = n)"
proof -
  have "take pos b = out" "pos = length out" "length b = n" using assms by (auto simp: filled_def)
  then have "write_at b pos [NUL] = Some ([] @ out @ NUL # drop (Suc pos) b)" "length out < length b"
    using assms(3) by (auto simp: write_at_def)
  then show ?thesis using assms(2) \<open>pos = length out\<close> \<open>length b = n\<close> by (auto simp: string_at_iff)
qed

end
