(* ===== verification/Mist_String_Correct.thy ===== *)
theory Mist_String_Correct
  imports Mist_String
begin

text \<open>
  What the string utilities of \<open>Mist_String\<close> compute, stated on strings: reference functions for
  trimming, replacing and unescaping, and for every method the value it leaves, the blocks it
  allocates and that it stays within its buffer.
\<close>

section \<open>Reference functions\<close>

definition is_ws :: "char \<Rightarrow> bool" where
  "is_ws c \<longleftrightarrow> c \<in> set wspace"

definition rtrim :: "string \<Rightarrow> string" where
  "rtrim s = rev (dropWhile is_ws (rev s))"

definition trim :: "string \<Rightarrow> string" where
  "trim s = rtrim (dropWhile is_ws s)"

function replace_all :: "string \<Rightarrow> string \<Rightarrow> string \<Rightarrow> string" where
  "replace_all s what with =
     (case strstr s what of
        None \<Rightarrow> s
      | Some i \<Rightarrow> if what = [] then s
                 else take i s @ with @ replace_all (drop (i + length what) s) what with)"
  by pat_completeness auto
termination
proof (relation "measure (\<lambda>(s, what, with). length s)", goal_cases)
  case (2 s what "with" pos)
  then show ?case using strstr_length [of s what pos] by (cases what) auto
qed simp

declare replace_all.simps [simp del]

text \<open>Escape sequences: a backslash before anything else than \<open>\ t n r\<close> stands for itself.\<close>

fun unescape :: "string \<Rightarrow> string" where
  "unescape [] = []"
| "unescape [c] = [c]"
| "unescape (c # d # s) =
     (if c = CHR 0x5C then
        (if d = CHR 0x5C then CHR 0x5C # unescape s
         else if d = CHR ''t'' then CHR 0x09 # unescape s
         else if d = CHR ''n'' then CHR 0x0A # unescape s
         else if d = CHR ''r'' then CHR 0x0D # unescape s
         else CHR 0x5C # d # unescape s)
      else c # unescape (d # s))"

section \<open>Searching in ranges\<close>

lemma slice_Cons: "i < j \<Longrightarrow> j \<le> length s \<Longrightarrow> slice s i j = s ! i # slice s (Suc i) j"
  by (simp add: slice_def Cons_nth_drop_Suc [symmetric] Suc_diff_Suc [symmetric])

lemma slice_empty [simp]: "j \<le> i \<Longrightarrow> slice s i j = []"
  by (simp add: slice_def)

lemma slice_snoc: "i \<le> j \<Longrightarrow> j < length s \<Longrightarrow> slice s i (Suc j) = slice s i j @ [s ! j]"
  by (simp add: slice_def Suc_diff_le take_Suc_conv_app_nth)

lemma slice_all [simp]: "slice s 0 (length s) = s"
  by (simp add: slice_def)

lemma slice_drop: "slice s (i + k) j = drop k (slice s i j)"
  by (simp add: slice_def drop_take add.commute)

lemma slice_take: "i + k \<le> j \<Longrightarrow> slice s i (i + k) = take k (slice s i j)"
  by (simp add: slice_def min_def)

lemma slice_split: "i \<le> j \<Longrightarrow> j \<le> k \<Longrightarrow> slice s i k = slice s i j @ slice s j k"
proof -
  assume a: "i \<le> j" "j \<le> k"
  then have "take (k - i) (drop i s) = take (j - i) (drop i s) @ take (k - i - (j - i)) (drop (j - i) (drop i s))"
    by (metis add_diff_inverse_nat append_take_drop_id diff_le_mono linorder_not_less take_add)
  with a show ?thesis by (simp add: slice_def)
qed

lemma find_forward_eq:
  "pos \<le> end \<Longrightarrow> end \<le> length s \<Longrightarrow>
     find_forward stop s pos end = pos + length (takeWhile (\<lambda>c. \<not> stop c) (slice s pos end))"
proof (induction stop s pos "end" rule: find_forward.induct)
  case (1 stop s pos "end")
  then show ?case by (auto simp: find_forward.simps [of stop s pos "end"] slice_Cons)
qed

text \<open>Searching backwards finds the last element of the range that stops the search.\<close>

lemma find_backward_eq:
  "beg \<le> end \<Longrightarrow> end \<le> length s \<Longrightarrow>
     find_backward stop s beg end =
       (let r = dropWhile (\<lambda>c. \<not> stop c) (rev (slice s beg end)) in
        if r = [] then None else Some (beg + length r - 1))"
proof (induction "end")
  case (Suc e)
  show ?case
  proof (cases "beg = Suc e")
    case False
    then have "slice s beg (Suc e) = slice s beg e @ [s ! e]" using Suc by (simp add: slice_snoc)
    then show ?thesis using Suc False by (auto simp: Let_def)
  qed simp
qed simp

lemma is_ws_in: "(\<lambda>c. c \<in> set wspace) = is_ws" "(\<lambda>c. c \<notin> set wspace) = (\<lambda>c. \<not> is_ws c)"
  by (auto simp: is_ws_def fun_eq_iff)

text \<open>The searches the parsers use: for and past whitespace.\<close>

lemma find_first_not_ws:
  "beg \<le> end \<Longrightarrow> end \<le> length s \<Longrightarrow>
     mist_find_in_range_first_not_of s beg end wspace =
       Some (beg + length (takeWhile is_ws (slice s beg end)))"
  by (simp add: mist_find_in_range_first_not_of_def find_forward_eq is_ws_in)

lemma find_first_ws:
  "beg \<le> end \<Longrightarrow> end \<le> length s \<Longrightarrow>
     mist_find_in_range_first_of s beg end wspace =
       Some (beg + length (takeWhile (\<lambda>c. \<not> is_ws c) (slice s beg end)))"
  by (simp add: mist_find_in_range_first_of_def find_forward_eq is_ws_in)

lemma find_last_not_ws:
  "beg \<le> end \<Longrightarrow> end \<le> length s \<Longrightarrow>
     mist_find_in_range_last_not_of s beg end wspace =
       Some (if rtrim (slice s beg end) = [] then end else beg + length (rtrim (slice s beg end)) - 1)"
  by (simp add: mist_find_in_range_last_not_of_def find_backward_eq is_ws_in rtrim_def Let_def)

lemma rtrim_prefix: "\<exists>r. s = rtrim s @ r \<and> (\<forall>c \<in> set r. is_ws c)"
proof -
  have "rev s = takeWhile is_ws (rev s) @ dropWhile is_ws (rev s)" by simp
  then have "s = rtrim s @ rev (takeWhile is_ws (rev s))"
    unfolding rtrim_def by (metis rev_append rev_rev_ident)
  moreover have "\<forall>c \<in> set (rev (takeWhile is_ws (rev s))). is_ws c" by (auto dest: set_takeWhileD)
  ultimately show ?thesis by blast
qed

lemma rtrim_last: "rtrim s \<noteq> [] \<Longrightarrow> \<not> is_ws (last (rtrim s))"
  by (metis hd_dropWhile last_rev rev_is_Nil_conv rtrim_def)

lemma rtrim_Nil_iff: "rtrim s = [] \<longleftrightarrow> (\<forall>c \<in> set s. is_ws c)"
  by (simp add: rtrim_def)

lemma rtrim_snoc_ws: "(\<forall>c \<in> set r. is_ws c) \<Longrightarrow> rtrim (s @ r) = rtrim s"
  unfolding rtrim_def rev_append by (subst dropWhile_append2) auto

lemma rtrim_id: "s \<noteq> [] \<Longrightarrow> \<not> is_ws (last s) \<Longrightarrow> rtrim s = s"
  by (cases s rule: rev_cases) (simp_all add: rtrim_def)

lemma trim_parts:
  "\<exists>l r. s = l @ trim s @ r \<and> (\<forall>c \<in> set l \<union> set r. is_ws c)
     \<and> (trim s \<noteq> [] \<longrightarrow> l = takeWhile is_ws s \<and> \<not> is_ws (hd (trim s)) \<and> \<not> is_ws (last (trim s)))"
proof -
  obtain r where r: "dropWhile is_ws s = trim s @ r" "\<forall>c \<in> set r. is_ws c"
    using rtrim_prefix [of "dropWhile is_ws s"] by (auto simp: trim_def)
  have s: "s = takeWhile is_ws s @ trim s @ r" using r(1) by (metis takeWhile_dropWhile_id)
  have "trim s \<noteq> [] \<Longrightarrow> \<not> is_ws (hd (trim s))"
    using r(1) by (metis append_is_Nil_conv hd_append2 hd_dropWhile)
  moreover have "trim s \<noteq> [] \<Longrightarrow> \<not> is_ws (last (trim s))" unfolding trim_def by (rule rtrim_last)
  ultimately show ?thesis
    using s r(2) set_takeWhileD by (intro exI [of _ "takeWhile is_ws s"] exI [of _ r]) fastforce
qed

section \<open>Strings with a buffer\<close>

definition holds_string :: "CMistString \<Rightarrow> string \<Rightarrow> bool" where
  "holds_string ms s \<longleftrightarrow> string_at (ms_buf ms) (ms_str ms) = Some s"

lemma holds_string_valid: "holds_string ms s \<Longrightarrow> ms_valid ms"
  by (auto simp: holds_string_def ms_valid_def dest: string_at_bound)

lemma holds_string_no_nul: "holds_string ms s \<Longrightarrow> no_nul s"
  by (auto simp: holds_string_def dest: string_at_no_nul)

lemma holds_stringD: "holds_string ms s \<Longrightarrow> string_at (ms_buf ms) (ms_str ms) = Some s"
  by (simp add: holds_string_def)

lemma filled_fresh: "filled (fresh m 0 n, 0) [] n"
  by (simp add: filled_def fresh_def)

text \<open>The last piece of a string and its terminator.\<close>

lemma fill_and_finish:
  assumes "filled d out n" and "no_nul (out @ t)" and "length out + length t < n" and "k = length t"
  shows "\<exists>buf pos b. (if 0 < k then emit d t else Some d) = Some (buf, pos)
    \<and> write_at buf pos [NUL] = Some b \<and> string_at b 0 = Some (out @ t) \<and> length b = n"
proof -
  have "returns (if 0 < length t then emit d t else Some d) (\<lambda>d'. filled d' (out @ t) n)"
    using assms by (intro emit_filled_nonempty) auto
  then obtain buf pos where e: "(if 0 < k then emit d t else Some d) = Some (buf, pos)"
      "filled (buf, pos) (out @ t) n"
    unfolding returns_iff assms(4) by auto
  from write_at_finish [OF e(2)] assms(2,3) e(1) show ?thesis by (auto simp: returns_iff)
qed

lemma create_from_range_returns:
  assumes "no_nul src" and "beg \<le> end" and "end \<le> length src"
  shows "returns (mist_string_create_from_range m src beg end)
    (\<lambda>(r, m'). (case r of
       None \<Rightarrow> live m' = live m
     | Some ms \<Rightarrow> holds_string ms (slice src beg end) \<and> ms_str ms = 0 \<and> live m' = live m + 2)
     \<and> (never_fails m \<and> small src \<longrightarrow> never_fails m' \<and> r \<noteq> None))"
proof -
  let ?x = "end - beg + MIST_INIT_BUFFER_SIZE"
  define n where "n = ?x - ?x mod MIST_INIT_BUFFER_SIZE"
  define t where "t = slice src beg end"
  have room: "end - beg < n"
    using mod_less_divisor [of MIST_INIT_BUFFER_SIZE ?x] unfolding n_def MIST_INIT_BUFFER_SIZE_def
    by linarith
  have "n \<le> ?x" unfolding n_def by simp
  then have size: "small src \<Longrightarrow> n \<le> PTRDIFF_MAX"
    using assms unfolding small_def PTRDIFF_MAX_def MIST_INIT_BUFFER_SIZE_def by simp
  have t: "strncpy_bytes (drop beg src) (end - beg) = t" "length t = end - beg" "no_nul t"
    using assms by (simp_all add: strncpy_bytes_exact slice_def t_def)
  obtain b1 m1 where m1: "malloc m SIZEOF_CMistString = (b1, m1)" by fastforce
  obtain b2 m2 where m2: "malloc m1 n = (b2, m2)" by fastforce
  have "\<exists>buf pos b. (if 0 < end - beg then emit (fresh m2 0 n, 0) t else Some (fresh m2 0 n, 0)) = Some (buf, pos)
      \<and> write_at buf pos [NUL] = Some b \<and> string_at b 0 = Some ([] @ t) \<and> length b = n"
    by (rule fill_and_finish [OF filled_fresh]) (use room t in simp_all)
  then obtain buf pos b where
    c: "(if 0 < end - beg then emit (fresh m2 0 n, 0) t else Some (fresh m2 0 n, 0)) = Some (buf, pos)"
      "write_at buf pos [NUL] = Some b" "string_at b 0 = Some ([] @ t)"
    by blast
  show ?thesis
    unfolding mist_string_create_from_range_def t(1) Let_def n_def [symmetric] t_def [symmetric] m1 prod.case m2 c
    using assms(2,3) malloc_effect [OF m1] malloc_effect [OF m2] c(2,3)
      malloc_never_fails [OF _ _ m1] malloc_never_fails [OF _ _ m2] size
    by (auto simp: holds_string_def SIZEOF_CMistString_def PTRDIFF_MAX_def)
qed

lemma create_returns:
  assumes "no_nul (case init of None \<Rightarrow> [] | Some s \<Rightarrow> s)"
  shows "returns (mist_string_create m init)
    (\<lambda>(r, m'). (case r of
       None \<Rightarrow> live m' = live m
     | Some ms \<Rightarrow> holds_string ms (case init of None \<Rightarrow> [] | Some s \<Rightarrow> s) \<and> ms_str ms = 0 \<and> live m' = live m + 2)
     \<and> (never_fails m \<and> small (case init of None \<Rightarrow> [] | Some s \<Rightarrow> s) \<longrightarrow> never_fails m' \<and> r \<noteq> None))"
  using create_from_range_returns [OF assms, of 0 "length (case init of None \<Rightarrow> [] | Some s \<Rightarrow> s)" m, unfolded slice_all]
  by (simp add: mist_string_create_def Let_def)

lemma destroy_effect [simp]:
  "live (mist_string_destroy m ms) = live m - 2" "never_fails (mist_string_destroy m ms) = never_fails m"
  by (simp_all add: mist_string_destroy_def)

lemma reserve_returns:
  assumes "holds_string ms s"
  shows "returns (mist_string_reserve m ms sz)
    (\<lambda>(ec, ms', m'). live m' = live m
       \<and> (ec = MIST_OK \<and> holds_string ms' s \<and> ms_str ms' = ms_str ms \<and> sz < length (ms_buf ms')
          \<or> ec = MIST_OUT_OF_MEMORY \<and> ms' = ms)
       \<and> (never_fails m \<and> sz \<le> 2 ^ 61 \<longrightarrow> never_fails m' \<and> ec = MIST_OK))"
proof -
  obtain b m' where r: "realloc m (sz + 1) = (b, m')" by fastforce
  show ?thesis
    using assms holds_string_valid [OF assms] r realloc_effect [OF r] realloc_never_fails [OF _ _ r]
    by (auto simp: mist_string_reserve_def Let_def holds_string_def fresh_def string_at_extend PTRDIFF_MAX_def)
qed

text \<open>\<open>strcpy\<close> to the start of a buffer.\<close>

lemma write_at_start:
  assumes "no_nul t" and "length t < length b"
  shows "\<exists>b'. write_at b 0 (t @ [NUL]) = Some b' \<and> string_at b' 0 = Some t \<and> length b' = length b"
  using assms by (auto simp: write_at_def string_at_iff)

lemma reset_returns:
  "holds_string ms s \<Longrightarrow> returns (mist_string_reset ms) (\<lambda>ms'. holds_string ms' [] \<and> ms_str ms' = 0)"
  using write_at_start [of "[]" "ms_buf ms"] holds_string_valid [of ms s]
  by (cases "ms_buf ms") (auto simp: mist_string_reset_def holds_string_def ms_valid_def returns_iff)

text \<open>
  The outcome of a method that changes the value of a string: on failure the string is as it was,
  and in any case no block is allocated or released.
\<close>

definition string_outcome ::
  "CMistString \<Rightarrow> mem \<Rightarrow> string \<Rightarrow> EMistErrorCode \<times> CMistString \<times> mem \<Rightarrow> bool" where
  "string_outcome ms m t r \<longleftrightarrow> (case r of (ec, ms', m') \<Rightarrow> live m' = live m
     \<and> (ec = MIST_OK \<and> holds_string ms' t \<or> ec = MIST_OUT_OF_MEMORY \<and> ms' = ms)
     \<and> (never_fails m \<and> ms_str ms + length t < 2 ^ 60 \<longrightarrow> never_fails m' \<and> ec = MIST_OK))"

lemma set_returns:
  assumes "holds_string ms s" and "no_nul t"
  shows "returns (mist_string_set m ms t) (string_outcome ms m t)"
  unfolding mist_string_set_def Let_def
  using holds_string_valid [OF assms(1)] assms(2)
  by (auto simp: string_outcome_def holds_string_def
      intro!: returns_mono [OF reserve_returns [OF assms(1)]] dest!: write_at_start [OF assms(2) Suc_lessD])

lemma append_in_place:
  assumes "holds_string ms s" and "no_nul w" and "ms_str ms + length s + length w < length (ms_buf ms)"
  shows "returns (write_at (ms_buf ms) (ms_str ms + length s) (w @ [NUL]))
    (\<lambda>b. holds_string (ms\<lparr>ms_buf := b\<rparr>) (s @ w))"
  using write_at_append [OF assms(1) [unfolded holds_string_def] assms(2,3)]
  by (auto simp: holds_string_def elim!: returns_mono)

lemma append_returns:
  assumes "holds_string ms s" and "holds_string ms_what w"
  shows "returns (mist_string_append m ms ms_what) (string_outcome ms m (s @ w))"
  unfolding mist_string_append_def holds_stringD [OF assms(1)] holds_stringD [OF assms(2)]
  using holds_string_valid [OF assms(1)] holds_string_valid [OF assms(2)] holds_string_no_nul [OF assms(2)] assms
  by (auto simp: string_outcome_def intro!: returns_mono [OF reserve_returns [OF assms(1)]]
      returns_mono [OF append_in_place])

lemma append_range_returns:
  assumes "holds_string ms s" and "no_nul src" and "beg \<le> end" and "end \<le> length src"
  shows "returns (mist_string_append_range m ms src beg end) (string_outcome ms m (s @ slice src beg end))"
  unfolding mist_string_append_range_def Let_def holds_stringD [OF assms(1)]
  using holds_string_valid [OF assms(1)] assms
  by (auto simp: string_outcome_def intro!: returns_mono [OF reserve_returns [OF assms(1)]]
      returns_mono [OF append_in_place])

lemma sum_returns:
  assumes "holds_string l s" and "holds_string r t"
  shows "returns (mist_string_sum m l r)
    (\<lambda>(res, m'). case res of None \<Rightarrow> live m' = live m | Some ms \<Rightarrow> holds_string ms (s @ t) \<and> live m' = live m + 2)"
  unfolding mist_string_sum_def holds_stringD [OF assms(1)] holds_stringD [OF assms(2)]
  using holds_string_valid [OF assms(1)] holds_string_valid [OF assms(2)] assms holds_string_no_nul [OF assms(1)]
  by (auto split: option.splits simp: string_outcome_def
      intro!: returns_mono [OF create_returns] returns_mono [OF reserve_returns]
        returns_mono [OF set_returns] returns_mono [OF append_returns])

lemma detach_returns:
  assumes "holds_string ms s"
  shows "returns (mist_string_detach m ms) (\<lambda>(b, m'). string_at b 0 = Some s \<and> live m' = live m - 1)"
proof -
  obtain pre post where b: "ms_buf ms = pre @ s @ NUL # post" "length pre = ms_str ms" "no_nul s"
    using assms by (auto simp: holds_string_def string_at_iff)
  then have "write_at (ms_buf ms) 0 (drop (ms_str ms) (ms_buf ms)) =
      Some ([] @ s @ NUL # post @ drop (length s + Suc (length post)) (ms_buf ms))"
    by (simp add: write_at_def)
  then show ?thesis
    using b assms holds_string_valid [OF assms] unfolding mist_string_detach_def
    by (auto simp: string_at_iff simp del: append_Nil)
qed

section \<open>Trimming\<close>

text \<open>
  What trimming leaves of the bytes of the string: one NUL is written behind the trimmed string,
  nothing moves.
\<close>

fun nul_head :: "char list \<Rightarrow> char list" where
  "nul_head [] = []"
| "nul_head (c # cs) = NUL # cs"

definition trim_lead :: "string \<Rightarrow> nat" where
  "trim_lead s = (if trim s = [] then 0 else length (takeWhile is_ws s))"

definition trim_image :: "string \<Rightarrow> char list" where
  "trim_image s = take (trim_lead s) s @ trim s @ nul_head (drop (trim_lead s + length (trim s)) s)"

lemma length_nul_head [simp]: "length (nul_head s) = length s"
  by (cases s) simp_all

lemma trim_Nil_iff: "trim s = [] \<longleftrightarrow> takeWhile is_ws s = s"
proof -
  have "(\<forall>c \<in> set (dropWhile is_ws s). is_ws c) \<longleftrightarrow> (\<forall>c \<in> set s. is_ws c)"
    by (induction s) auto
  then show ?thesis by (simp add: trim_def rtrim_Nil_iff takeWhile_eq_all_conv)
qed

lemma split_parts: "s = l @ t @ r \<Longrightarrow> s = take (length l) s @ t @ drop (length l + length t) s"
  by simp

lemma trim_split:
  "s = take (trim_lead s) s @ trim s @ drop (trim_lead s + length (trim s)) s"
proof (cases "trim s = []")
  case False
  obtain l r where "s = l @ trim s @ r" "l = takeWhile is_ws s"
    using trim_parts [of s] False by blast
  then show ?thesis using split_parts [of s l "trim s" r] False by (simp only: trim_lead_def if_False)
qed (simp add: trim_lead_def)

lemma length_trim_image [simp]: "length (trim_image s) = length s"
  using arg_cong [OF trim_split [of s], of length] by (simp add: trim_image_def)

lemma rtrim_of_trim: "trim s \<noteq> [] \<Longrightarrow> rtrim s = take (trim_lead s) s @ trim s"
proof -
  assume ne: "trim s \<noteq> []"
  obtain l r where s: "s = l @ trim s @ r" "l = takeWhile is_ws s" "\<forall>c \<in> set r. is_ws c" "\<not> is_ws (last (trim s))"
    using trim_parts [of s] ne by auto
  then have "rtrim s = rtrim (l @ trim s)" by (metis append_assoc rtrim_snoc_ws)
  also have "\<dots> = l @ trim s" using ne s(4) by (intro rtrim_id) auto
  also have "l = take (trim_lead s) s" using ne s(2) by (metis takeWhile_eq_take trim_lead_def length_takeWhile_le)
  finally show ?thesis .
qed

lemma write_nul_at:
  assumes "k \<le> length s"
  shows "write_at (pre @ s @ NUL # post) (length pre + k) [NUL] =
    Some (pre @ take k s @ nul_head (drop k s) @ NUL # post)"
proof -
  obtain u v where uv: "s = u @ v" "length u = k"
    using assms by (metis append_take_drop_id length_take min.absorb2)
  then show ?thesis by (cases v) (simp_all add: write_at_def)
qed

lemma trim_buffer:
  assumes "no_nul s"
  shows "mist_string_trim \<lparr>ms_str = length pre, ms_buf = pre @ s @ NUL # post\<rparr> =
     Some \<lparr>ms_str = length pre + trim_lead s, ms_buf = pre @ trim_image s @ NUL # post\<rparr>"
proof -
  let ?b = "pre @ s @ NUL # post"
  have at: "string_at ?b (length pre) = Some s" using assms by (auto simp: string_at_iff)
  have valid: "ms_valid \<lparr>ms_str = length pre, ms_buf = ?b\<rparr>" by (simp add: ms_valid_def)
  show ?thesis
  proof (cases "trim s = []")
    case True
    then have ws: "length (takeWhile is_ws s) = length s" by (metis trim_Nil_iff)
    have "s \<noteq> [] \<Longrightarrow> write_at ?b (length pre) [NUL] = Some (pre @ nul_head s @ NUL # post)"
      by (cases s) (simp_all add: write_at_def)
    then show ?thesis
      using True at valid ws
      by (cases "s = []") (simp_all add: mist_string_trim_def Let_def find_first_not_ws
          trim_image_def trim_lead_def)
  next
    case False
    then have ne: "s \<noteq> []" "rtrim s \<noteq> []" by (auto simp: trim_Nil_iff rtrim_of_trim)
    define k where "k = trim_lead s + length (trim s)"
    have len: "length (rtrim s) = k" "k \<le> length s" "trim_lead s < k"
      using False arg_cong [OF trim_split [of s], of length] rtrim_of_trim [OF False]
        length_takeWhile_le [of is_ws s]
      by (auto simp: k_def trim_lead_def)
    then have end_ne: "k - Suc 0 \<noteq> length s" by linarith
    have lead: "length (takeWhile is_ws s) = trim_lead s" using False by (simp add: trim_lead_def)
    have img: "take k s @ nul_head (drop k s) = trim_image s"
      using arg_cong [OF trim_split [of s], of "take k"] len(2,3) by (simp add: trim_image_def k_def)
    have "write_at ?b (length pre + k) [NUL] = Some (pre @ trim_image s @ NUL # post)"
      using write_nul_at [OF len(2), of pre post] by (simp add: img [symmetric])
    then show ?thesis
      using at valid ne len lead end_ne
      by (simp add: mist_string_trim_def Let_def find_first_not_ws find_last_not_ws)
  qed
qed

lemma no_nul_trim [simp]: "no_nul s \<Longrightarrow> no_nul (trim s)"
  unfolding trim_def rtrim_def no_nul_def by (metis set_dropWhileD set_rev)

lemma string_at_trimmed:
  assumes "no_nul s"
  shows "string_at (pre @ trim_image s @ NUL # post) (length pre + trim_lead s) = Some (trim s)"
proof -
  obtain q where "nul_head (drop (trim_lead s + length (trim s)) s) @ NUL # post = NUL # q"
    by (cases "drop (trim_lead s + length (trim s)) s") auto
  moreover have "trim_lead s \<le> length s" by (simp add: trim_lead_def length_takeWhile_le)
  ultimately show ?thesis
    using assms unfolding string_at_iff trim_image_def
    by (intro exI [of _ "pre @ take (trim_lead s) s"] exI [of _ q]) simp
qed

lemma trim_returns:
  assumes "holds_string ms s"
  shows "returns (mist_string_trim ms)
    (\<lambda>ms'. holds_string ms' (trim s) \<and> length (ms_buf ms') = length (ms_buf ms))"
proof -
  obtain pre post where b: "ms_buf ms = pre @ s @ NUL # post" "length pre = ms_str ms" "no_nul s"
    using assms by (auto simp: holds_string_def string_at_iff)
  then have "ms = \<lparr>ms_str = length pre, ms_buf = pre @ s @ NUL # post\<rparr>" by simp
  with trim_buffer [OF b(3), of pre post] string_at_trimmed [OF b(3), of pre post] show ?thesis
    by (simp add: holds_string_def)
qed

section \<open>Replacing\<close>

lemma replace_all_length:
  "what \<noteq> [] \<Longrightarrow>
     length (replace_all s what with) + replace_count s what * length what =
       length s + replace_count s what * length with"
proof (induction s what "with" rule: replace_all.induct)
  case (1 s what "with")
  show ?case
  proof (cases "strstr s what")
    case None
    then show ?thesis by (simp add: replace_all.simps [of s] replace_count.simps [of s])
  next
    case (Some i)
    let ?r = "drop (i + length what) s"
    have "length (replace_all ?r what with) + replace_count ?r what * length what =
        length ?r + replace_count ?r what * length with"
      using 1 Some by blast
    then show ?thesis
      using Some 1(2) strstr_length [OF Some]
      by (simp add: replace_all.simps [of s] replace_count.simps [of s])
  qed
qed

lemma replace_count_fits: "what \<noteq> [] \<Longrightarrow> replace_count s what * length what \<le> length s"
proof (induction s what rule: replace_count.induct)
  case (1 s what)
  show ?case
  proof (cases "strstr s what")
    case (Some i)
    then have "replace_count (drop (i + length what) s) what * length what \<le> length (drop (i + length what) s)"
      using 1 by blast
    then show ?thesis using Some strstr_length [OF Some] by (auto simp: replace_count.simps [of s])
  qed (simp add: replace_count.simps [of s])
qed

lemma replace_all_no_nul: "no_nul s \<Longrightarrow> no_nul with \<Longrightarrow> no_nul (replace_all s what with)"
proof (induction s what "with" rule: replace_all.induct)
  case (1 s what "with")
  then show ?case by (cases "strstr s what") (auto simp: replace_all.simps [of s])
qed

lemma replace_copy_returns:
  "what \<noteq> [] \<Longrightarrow> filled d out n \<Longrightarrow> length out + length (replace_all s what with) \<le> n \<Longrightarrow>
     returns (replace_copy s what with d) (\<lambda>d'. filled d' (out @ replace_all s what with) n)"
proof (induction s what "with" arbitrary: d out rule: replace_all.induct)
  case (1 s what "with")
  show ?case
  proof (cases "strstr s what")
    case None
    then show ?thesis
      using 1(3,4) emit_filled_nonempty [of d out n s]
      by (simp add: replace_all.simps [of s] replace_copy.simps [of s])
  next
    case (Some i)
    let ?r = "drop (i + length what) s"
    have eq: "replace_all s what with = take i s @ with @ replace_all ?r what with"
      using Some 1(2) by (simp add: replace_all.simps [of s])
    have i: "length (take i s) = i" using strstr_length [OF Some] by simp
    have pos: "0 < length xs \<longleftrightarrow> length xs \<noteq> 0" for xs :: "char list" by simp
    have one: "returns (if i \<noteq> 0 then emit d (take i s) else Some d) (\<lambda>d1. filled d1 (out @ take i s) n)"
      using emit_filled [of d out n "take i s"] 1(3,4) i eq by (cases "i = 0") auto
    have two: "returns (if length with \<noteq> 0 then emit d1 with else Some d1)
        (\<lambda>d2. filled d2 (out @ take i s @ with) n)" if "filled d1 (out @ take i s) n" for d1
      using emit_filled_nonempty [OF that, of "with"] 1(4) i eq unfolding pos by simp
    have three: "returns (replace_copy ?r what with d2) (\<lambda>d'. filled d' (out @ replace_all s what with) n)"
      if "filled d2 (out @ take i s @ with) n" for d2
      using 1(1) [OF Some 1(2) 1(2) that] 1(4) i eq by simp
    have step: "replace_copy s what with d = do {
        ts \<leftarrow> (if i \<noteq> 0 then emit d (take i s) else Some d);
        ts \<leftarrow> (if length with \<noteq> 0 then emit ts with else Some ts);
        replace_copy ?r what with ts }"
      using Some 1(2) by (subst replace_copy.simps) simp
    show ?thesis
      unfolding step by (intro returns_bindI [OF one] returns_bindI [OF two] three)
  qed
qed

lemma replace_returns:
  assumes "holds_string ms s" and "what \<noteq> []" and "no_nul with"
  shows "returns (mist_string_replace m ms what with) (string_outcome ms m (replace_all s what with))"
proof (cases "replace_count s what = 0")
  case True
  then have "replace_all s what with = s"
    using assms(2) by (auto simp: replace_all.simps [of s] replace_count.simps [of s] split: option.splits)
  then show ?thesis
    using True assms holds_string_valid [OF assms(1)] holds_stringD [OF assms(1)]
    by (simp add: mist_string_replace_def string_outcome_def)
next
  case False
  let ?t = "replace_all s what with" and ?c = "replace_count s what"
  have t: "length s - ?c * length what + ?c * length with = length ?t"
    using replace_all_length [OF assms(2), of s "with"] replace_count_fits [OF assms(2), of s] by simp
  have nn: "no_nul ?t" using replace_all_no_nul holds_string_no_nul [OF assms(1)] assms(3) by blast
  have copy: "returns (replace_copy s what with (ms_buf ts, ms_str ts))
      (\<lambda>(buf, pos). pos < length buf \<and> returns (write_at buf pos [NUL]) (\<lambda>b. string_at b 0 = Some ?t))"
    if "ms_str ts = 0" "length ?t < length (ms_buf ts)" for ts
  proof (rule returns_mono [OF replace_copy_returns [OF assms(2), of _ "[]" "length (ms_buf ts)"]])
    show "filled (ms_buf ts, ms_str ts) [] (length (ms_buf ts))" using that by (simp add: filled_def)
  qed (use that nn in \<open>auto simp: filled_def intro!: returns_mono [OF write_at_finish]\<close>)
  show ?thesis
    unfolding mist_string_replace_def Let_def holds_stringD [OF assms(1)]
    using False assms holds_string_valid [OF assms(1)]
    by (auto simp: t mist_string_swap_def string_outcome_def holds_string_def split: option.splits
        intro!: returns_mono [OF create_returns] returns_mono [OF reserve_returns] returns_mono [OF copy] elim!: returns_mono)
qed

section \<open>Escape sequences\<close>

lemma unescape_plain [simp]: "c \<noteq> CHR 0x5C \<Longrightarrow> unescape (c # s) = c # unescape s"
  by (cases s) simp_all

lemma unescape_no_nul: "no_nul s \<Longrightarrow> no_nul (unescape s)"
  by (induction s rule: unescape.induct) (auto simp: NUL_def)

lemma escape_index_eq:
  "escape_index c ch_what =
     (if c = CHR ''t'' then 0 else if c = CHR ''n'' then 1 else if c = CHR ''r'' then 2
      else if c = NUL then 3 else 4)"
  by (simp add: ch_what_def)

lemma ch_tables: "length ch_what = 4" "ch_to ! 0 = CHR 0x09" "ch_to ! Suc 0 = CHR 0x0A" "ch_to ! 2 = CHR 0x0D"
  by (simp_all add: ch_what_def ch_to_def)

text \<open>
  The loop invariant: what has been written is no longer than what has been read, and together
  with the pending segment and the rest of the input it stands for the whole result.
\<close>

definition unescape_inv :: "string \<Rightarrow> nat \<Rightarrow> string \<Rightarrow> nat \<Rightarrow> char list \<times> nat \<Rightarrow> bool" where
  "unescape_inv s n res beg d \<longleftrightarrow>
     (\<exists>out. filled d out n \<and> length out \<le> beg \<and> beg \<le> length s \<and> out @ res = unescape s)"

lemma unescape_emit:
  assumes "unescape_inv s n (xs @ res) beg d" and "length s < n" and "beg + length xs \<le> beg'" and "beg' \<le> length s"
  shows "returns (emit d xs) (unescape_inv s n res beg')"
proof -
  obtain out where "filled d out n" "length out \<le> beg" "out @ xs @ res = unescape s"
    using assms(1) by (auto simp: unescape_inv_def)
  with emit_filled [of d out n xs] assms(2-4) show ?thesis
    by (auto simp: unescape_inv_def intro!: exI [of _ "out @ xs"] elim!: returns_mono)
qed

lemma unescape_emit_slice:
  assumes "unescape_inv s n (slice s beg pos @ res) beg d" and "length s < n" and "beg \<le> pos" and "pos \<le> length s"
  shows "returns (if pos - beg > 0 then emit d (slice s beg pos) else Some d) (unescape_inv s n res pos)"
  using assms unescape_emit [of s n "slice s beg pos" res beg d pos]
  by (cases "beg = pos") auto

text \<open>One escape sequence, given that the rest of the loop is right.\<close>

lemma unescape_loop_escape:
  assumes s: "no_nul s" "length s < n" "pos < length s" "s ! pos = CHR 0x5C"
    and inv: "unescape_inv s n (unescape (drop pos s)) pos d"
    and rest: "\<And>pos' d'. pos < pos' \<Longrightarrow> pos' \<le> length s \<Longrightarrow> unescape_inv s n (unescape (drop pos' s)) pos' d'
      \<Longrightarrow> returns (unescape_loop s pos' pos' d') Q"
    and last: "\<And>d'. unescape_inv s n [] (length s) d' \<Longrightarrow> Q (length s, d')"
  shows "returns
    (if pos + 1 = length s then do { res \<leftarrow> emit d [CHR 0x5C]; Some (pos + 1, res) }
     else if s ! (pos + 1) = CHR 0x5C
     then do { res \<leftarrow> emit d [CHR 0x5C]; unescape_loop s (pos + 1 + 1) (pos + 1 + 1) res }
     else if escape_index (s ! (pos + 1)) ch_what < length ch_what then do {
       res \<leftarrow> emit d [ch_to ! escape_index (s ! (pos + 1)) ch_what];
       unescape_loop s (pos + 1 + 1) (pos + 1 + 1) res }
     else do { res \<leftarrow> emit d [CHR 0x5C]; unescape_loop s (pos + 1) (pos + 1) res }) Q"
proof (cases "pos + 1 = length s")
  case True
  have "drop pos s = [CHR 0x5C]" using True s by (simp add: Cons_nth_drop_Suc [symmetric])
  with inv have "unescape_inv s n ([CHR 0x5C] @ []) pos d" by simp
  from unescape_emit [OF this s(2), of "length s"] True last show ?thesis
    by (auto elim!: returns_mono)
next
  case False
  let ?c = "s ! (pos + 1)"
  have dr: "drop pos s = CHR 0x5C # ?c # drop (pos + 2) s" "drop (pos + 1) s = ?c # drop (pos + 2) s"
    using False s Cons_nth_drop_Suc [of pos s, symmetric] Cons_nth_drop_Suc [of "pos + 1" s, symmetric]
    by simp_all
  have "pos + 1 < length s" using False s(3) by simp
  then have c: "?c \<noteq> NUL" using s(1) nth_mem [of "pos + 1" s] unfolding no_nul_def by metis
  have two: "returns (do { res \<leftarrow> emit d [x]; unescape_loop s (pos + 2) (pos + 2) res }) Q"
    if "unescape (drop pos s) = [x] @ unescape (drop (pos + 2) s)" for x
    using inv that rest [of "pos + 2"] False s
    by (intro returns_bindI [OF unescape_emit [of s n "[x]" _ pos d "pos + 2"]]) auto
  have one: "returns (do { res \<leftarrow> emit d [CHR 0x5C]; unescape_loop s (pos + 1) (pos + 1) res }) Q"
    if "unescape (drop pos s) = [CHR 0x5C] @ unescape (drop (pos + 1) s)"
    using inv that rest [of "pos + 1"] False s
    by (intro returns_bindI [OF unescape_emit [of s n "[CHR 0x5C]" _ pos d "pos + 1"]]) auto
  have "escape_index ?c ch_what < 4 \<or> escape_index ?c ch_what = 4" by (simp add: escape_index_eq)
  then consider "?c = CHR 0x5C" | "?c \<noteq> CHR 0x5C" "escape_index ?c ch_what < 4" | "escape_index ?c ch_what = 4"
    by blast
  then show ?thesis
    using False c two one
    by cases (auto simp: escape_index_eq ch_tables dr dr(2) [simplified] split: if_splits simp del: returns_simps(3))
qed

lemma unescape_loop_returns:
  assumes "no_nul s" and "length s < n"
  shows "beg \<le> pos \<Longrightarrow> pos \<le> length s \<Longrightarrow>
     unescape_inv s n (slice s beg pos @ unescape (drop pos s)) beg d \<Longrightarrow>
     returns (unescape_loop s beg pos d)
       (\<lambda>(beg', d'). beg' \<le> length s \<and> unescape_inv s n (slice s beg' (length s)) beg' d')"
proof (induction "length s - pos" arbitrary: beg pos d rule: less_induct)
  case less
  note prems = less.prems
  show ?case
  proof (cases "pos < length s")
    case False
    then have "pos = length s" using prems by simp
    then show ?thesis using prems unfolding unescape_loop.simps [of s beg pos] by simp
  next
    case pos: True
    show ?thesis
    proof (cases "s ! pos = CHR 0x5C")
      case False
      have "drop pos s = s ! pos # drop (Suc pos) s" using pos by (simp add: Cons_nth_drop_Suc)
      then have "unescape_inv s n (slice s beg (pos + 1) @ unescape (drop (pos + 1) s)) beg d"
        using prems pos False by (simp add: slice_snoc)
      then show ?thesis
        using less.hyps [of "pos + 1" beg d] prems pos False by (simp add: unescape_loop.simps [of s beg pos])
    next
      case bs: True
      have first: "returns (if pos - beg > 0 then emit d (slice s beg pos) else Some d)
          (unescape_inv s n (unescape (drop pos s)) pos)"
        using prems assms by (intro unescape_emit_slice) auto
      show ?thesis
        unfolding unescape_loop.simps [of s beg pos] if_P [OF pos] if_P [OF bs] Let_def
        by (rule returns_bindI [OF first], rule unescape_loop_escape [OF assms pos bs])
          (use less.hyps in auto)
    qed
  qed
qed

lemma unescape_short: "length s < 2 \<Longrightarrow> unescape s = s"
  by (cases s rule: unescape.cases) auto

lemma unescape_returns:
  assumes "holds_string ms s"
  shows "returns (mist_string_unescape m ms) (\<lambda>(ec, ms', m').
     (ec = MIST_OK \<and> holds_string ms' (unescape s) \<and> live m' = live m
      \<or> ec = MIST_OUT_OF_MEMORY \<and> ms' = ms \<and> (live m' = live m \<or> live m' = live m + 2))
     \<and> (never_fails m \<and> small s \<longrightarrow> never_fails m' \<and> ec = MIST_OK))"
proof (cases "length s < 2")
  case True
  then show ?thesis
    using assms holds_string_valid [OF assms] holds_stringD [OF assms] unescape_short [OF True]
    by (simp add: mist_string_unescape_def)
next
  case False
  have nn: "no_nul s" using holds_string_no_nul [OF assms] .
  have finish: "returns (if length s - beg > 0 then emit d (slice s beg (length s)) else Some d)
      (\<lambda>(buf, pos). returns (write_at buf pos [NUL]) (\<lambda>b. string_at b 0 = Some (unescape s)))"
    if fin: "beg \<le> length s" "unescape_inv s n (slice s beg (length s)) beg d" "length s < n" for beg d n
  proof -
    obtain out where out: "filled d out n" "length out \<le> beg" "out @ slice s beg (length s) = unescape s"
      using fin by (auto simp: unescape_inv_def)
    have "\<exists>buf pos b. (if 0 < length s - beg then emit d (slice s beg (length s)) else Some d) = Some (buf, pos)
        \<and> write_at buf pos [NUL] = Some b \<and> string_at b 0 = Some (out @ slice s beg (length s)) \<and> length b = n"
      by (rule fill_and_finish [OF out(1)]) (use out fin unescape_no_nul [OF nn] in \<open>simp_all\<close>)
    then show ?thesis unfolding out(3) by (auto simp only: returns_simps prod.case)
  qed
  have loop: "returns (unescape_loop s 0 0 (ms_buf res, ms_str res)) (\<lambda>(beg, out).
      returns (if length s - beg > 0 then emit out (slice s beg (length s)) else Some out)
        (\<lambda>(buf, pos). returns (write_at buf pos [NUL]) (\<lambda>b. string_at b 0 = Some (unescape s))))"
    if "ms_str res = 0" "length s < length (ms_buf res)" for res
  proof (rule returns_mono [OF unescape_loop_returns [OF nn that(2), of 0 0]])
    show "unescape_inv s (length (ms_buf res)) (slice s 0 0 @ unescape (drop 0 s)) 0 (ms_buf res, ms_str res)"
      using that by (simp add: unescape_inv_def filled_def)
  qed (auto simp only: le0 prod.case intro!: finish [OF _ _ that(2)])
  show ?thesis
    unfolding mist_string_unescape_def Let_def holds_stringD [OF assms]
    using False holds_string_valid [OF assms]
    by (auto simp: mist_string_swap_def holds_string_def small_def split: option.splits simp del: returns_if
        intro!: returns_mono [OF create_returns] returns_mono [OF reserve_returns] returns_mono [OF loop] elim!: returns_mono)
qed

section \<open>Other functions\<close>

lemma get_substring_returns:
  assumes "no_nul src" and "beg \<le> end" and "end \<le> length src"
  shows "returns (mist_get_substring m src beg end) (\<lambda>(r, m').
     live m' = live m + of_bool (r \<noteq> None) \<and> (r = None \<or> r = Some (slice src beg end))
     \<and> (never_fails m \<and> small src \<longrightarrow> never_fails m' \<and> r \<noteq> None))"
proof -
  obtain b m' where r: "malloc m (end - beg + 1) = (b, m')" by fastforce
  have "small src \<Longrightarrow> end - beg + 1 \<le> PTRDIFF_MAX"
    using assms by (simp add: small_def PTRDIFF_MAX_def)
  moreover have "strncpy_bytes (drop beg src) (end - beg) = slice src beg end"
    using assms by (simp add: strncpy_bytes_exact slice_def)
  ultimately show ?thesis
    using assms r malloc_effect [OF r] malloc_never_fails [of m "end - beg + 1" b m']
    by (auto simp: mist_get_substring_def Let_def)
qed

lemma line_num_eq:
  "ptr \<le> length src \<Longrightarrow>
     mist_line_num_for_ptr src ptr = Some (word_of_nat (1 + count_list (take ptr src) (CHR 0x0A)))"
proof -
  have "foldl (\<lambda>cnt c. if c = CHR 0x0A then cnt + 1 else cnt) w xs = w + word_of_nat (count_list xs (CHR 0x0A))"
    for w :: "32 word" and xs :: string
    by (induction xs arbitrary: w) simp_all
  then show "ptr \<le> length src \<Longrightarrow> ?thesis" by (simp add: mist_line_num_for_ptr_def)
qed

text \<open>The line number a syntax error is reported for.\<close>

definition line_of :: "string \<Rightarrow> nat \<Rightarrow> 32 word" where
  "line_of src ptr = word_of_nat (1 + count_list (take ptr src) (CHR 0x0A))"

lemma line_num_of: "ptr \<le> length src \<Longrightarrow> mist_line_num_for_ptr src ptr = Some (line_of src ptr)"
  by (simp add: line_of_def line_num_eq)

lemma format_parse_error_returns:
  "returns (mist_format_parse_error m (Some d) fmt ln) (\<lambda>(r, m').
     (\<exists>d'. r = Some d' \<and> live m' = live m + of_bool (d' \<noteq> None)
       \<and> (d' = None \<or> d' = Some (if ln > 0 then format_string fmt [ArgU (unat ln)] else fmt))
       \<and> (never_fails m \<and> small fmt \<longrightarrow> never_fails m' \<and> d' \<noteq> None)))"
proof (cases "ln > 0")
  case True
  then show ?thesis
    using show_nat_word32 [of ln]
    by (auto simp: mist_format_parse_error_def MAX_NUM_DIGITS_def small_def PTRDIFF_MAX_def
        intro!: returns_mono [OF alloc_message_returns])
next
  case False
  obtain r m' where r: "strdup m fmt = (r, m')" by fastforce
  show ?thesis
    using False strdup_effect [OF r] strdup_never_fails [OF _ _ r] r
    by (auto simp: mist_format_parse_error_def small_def PTRDIFF_MAX_def)
qed

lemma count_backslashes_eq:
  "pos \<le> length src \<Longrightarrow> count_backslashes src pos = length (takeWhile (\<lambda>c. c = CHR 0x5C) (rev (take pos src)))"
  by (induction pos) (simp_all add: take_Suc_conv_app_nth)

lemma find_forward_props:
  "pos \<le> end \<Longrightarrow> find_forward stop s pos end \<le> end
     \<and> (\<forall>i. pos \<le> i \<and> i < find_forward stop s pos end \<longrightarrow> \<not> stop (s ! i))
     \<and> (find_forward stop s pos end < end \<longrightarrow> stop (s ! find_forward stop s pos end))"
proof (induction stop s pos "end" rule: find_forward.induct)
  case (1 stop s pos "end")
  show ?case
  proof (cases "pos < end \<and> \<not> stop (s ! pos)")
    case True
    then have eq: "find_forward stop s pos end = find_forward stop s (pos + 1) end"
      by (simp add: find_forward.simps [of stop s pos])
    have "\<not> stop (s ! i)" if "pos \<le> i" "i < find_forward stop s (pos + 1) end" for i
      using that 1 True by (cases "i = pos") auto
    with 1 True show ?thesis unfolding eq by auto
  qed (use 1(2) in \<open>auto simp: find_forward.simps [of stop s pos]\<close>)
qed

lemma chars_to_spaces_loop_nth:
  "pos \<le> end \<Longrightarrow> end \<le> length s \<Longrightarrow> (pos < end \<longrightarrow> s ! pos \<in> set syms) \<Longrightarrow>
     length (chars_to_spaces_loop s pos end syms) = length s
     \<and> (\<forall>i. chars_to_spaces_loop s pos end syms ! i =
          (if pos \<le> i \<and> i < end \<and> s ! i \<in> set syms then CHR '' '' else s ! i))"
proof (induction "end - pos" arbitrary: s pos rule: less_induct)
  case less
  show ?case
  proof (cases "pos < end")
    case False
    then show ?thesis using less.prems by (auto simp: chars_to_spaces_loop.simps [of s])
  next
    case True
    define t where "t = s[pos := CHR '' '']"
    define q where "q = find_forward (\<lambda>c. c \<in> set syms) t (pos + 1) end"
    have q: "pos + 1 \<le> q" "q \<le> end" "\<forall>i. pos + 1 \<le> i \<and> i < q \<longrightarrow> t ! i \<notin> set syms" "q < end \<longrightarrow> t ! q \<in> set syms"
      unfolding q_def using find_forward_ge find_forward_props [of "pos + 1" "end" "\<lambda>c. c \<in> set syms" t] True
      by auto
    have step: "chars_to_spaces_loop s pos end syms = chars_to_spaces_loop t q end syms"
      using True by (subst chars_to_spaces_loop.simps) (simp add: t_def q_def Let_def)
    have t: "length t = length s" "t ! i = (if i = pos then CHR '' '' else s ! i)" for i
      using True less.prems by (auto simp: t_def)
    show ?thesis
      unfolding step using less.hyps [of q t] q less.prems True by (auto simp: t)
  qed
qed

section \<open>Properties\<close>

text \<open>
  C32: \<open>mist_string_trim\<close> removes the whitespace at both ends, and only that, in place: the string is
  the old one without a prefix and a suffix of whitespace, and neither end of it is whitespace.
\<close>

theorem mist_string_trim_correct:
  assumes "holds_string ms s"
  shows "returns (mist_string_trim ms) (\<lambda>ms'. \<exists>l t r. s = l @ t @ r \<and> holds_string ms' t
     \<and> (\<forall>c \<in> set l \<union> set r. c \<in> set wspace)
     \<and> (t \<noteq> [] \<longrightarrow> hd t \<notin> set wspace \<and> last t \<notin> set wspace)
     \<and> length (ms_buf ms') = length (ms_buf ms))"
proof (rule returns_mono [OF trim_returns [OF assms]])
  fix ms'
  assume ms': "holds_string ms' (trim s) \<and> length (ms_buf ms') = length (ms_buf ms)"
  obtain l r where "s = l @ trim s @ r" "\<forall>c \<in> set l \<union> set r. is_ws c"
      "trim s \<noteq> [] \<longrightarrow> \<not> is_ws (hd (trim s)) \<and> \<not> is_ws (last (trim s))"
    using trim_parts [of s] by blast
  then show "\<exists>l t r. s = l @ t @ r \<and> holds_string ms' t \<and> (\<forall>c \<in> set l \<union> set r. c \<in> set wspace)
      \<and> (t \<noteq> [] \<longrightarrow> hd t \<notin> set wspace \<and> last t \<notin> set wspace) \<and> length (ms_buf ms') = length (ms_buf ms)"
    using ms' unfolding is_ws_def by blast
qed

theorem mist_string_trim_correct_witness:
  "returns (mist_string_trim \<lparr>ms_str = 0, ms_buf = '' a b '' @ [NUL, NUL]\<rparr>) (\<lambda>ms'. \<exists>l t r. '' a b '' = l @ t @ r
     \<and> holds_string ms' t \<and> (t \<noteq> [] \<longrightarrow> hd t \<notin> set wspace))"
proof -
  have "holds_string \<lparr>ms_str = 0, ms_buf = '' a b '' @ [NUL, NUL]\<rparr> '' a b ''"
    by (simp add: holds_string_def string_at_def c_str_def NUL_def)
  from mist_string_trim_correct [OF this] show ?thesis by (auto elim!: returns_mono)
qed



text \<open>
  C34: \<open>mist_string_unescape\<close> resolves the escape sequences of the string and never overruns the
  buffer it reserves; when memory is refused the string is unchanged.
\<close>

theorem mist_string_unescape_correct:
  assumes "holds_string ms s"
  shows "returns (mist_string_unescape m ms) (\<lambda>(ec, ms', m').
     (ec = MIST_OK \<and> holds_string ms' (unescape s) \<and> live m' = live m
      \<or> ec = MIST_OUT_OF_MEMORY \<and> ms' = ms \<and> (live m' = live m \<or> live m' = live m + 2))
     \<and> (never_fails m \<and> small s \<longrightarrow> never_fails m' \<and> ec = MIST_OK))"
  by (rule unescape_returns [OF assms])

theorem mist_string_unescape_correct_witness:
  "returns (mist_string_unescape mem0 \<lparr>ms_str = 0, ms_buf = [CHR ''a'', CHR 0x5C, CHR ''n'', NUL]\<rparr>)
     (\<lambda>(ec, ms', m'). ec = MIST_OK \<longrightarrow> holds_string ms' [CHR ''a'', CHR 0x0A])"
proof -
  have "holds_string \<lparr>ms_str = 0, ms_buf = [CHR ''a'', CHR 0x5C, CHR ''n'', NUL]\<rparr> [CHR ''a'', CHR 0x5C, CHR ''n'']"
    by (simp add: holds_string_def string_at_def c_str_def NUL_def)
  from mist_string_unescape_correct [OF this, of mem0] show ?thesis by (auto elim!: returns_mono)
qed

text \<open>
  C35: the two blocks of the temporary string are lost when \<open>mist_string_unescape\<close> cannot enlarge its
  buffer.
\<close>

theorem mist_string_unescape_leaks:
  assumes "holds_string ms s" and "16 \<le> length s" and "script m = [True, True, False]"
  shows "\<exists>m'. mist_string_unescape m ms = Some (MIST_OUT_OF_MEMORY, ms, m') \<and> live m' = live m + 2"
  using assms holds_string_valid [OF assms(1)] holds_stringD [OF assms(1)]
  by (simp add: mist_string_unescape_def mist_string_create_def mist_string_create_from_range_def Let_def
      malloc_def next_answer_def SIZEOF_CMistString_def PTRDIFF_MAX_def MIST_INIT_BUFFER_SIZE_def
      mist_string_reserve_def ms_valid_def realloc_def write_at_def fresh_def)

theorem mist_string_unescape_leaks_witness:
  "\<exists>m'. mist_string_unescape (mem0\<lparr>script := [True, True, False]\<rparr>) \<lparr>ms_str = 0, ms_buf = ''0123456789abcdef'' @ [NUL]\<rparr> =
     Some (MIST_OUT_OF_MEMORY, \<lparr>ms_str = 0, ms_buf = ''0123456789abcdef'' @ [NUL]\<rparr>, m') \<and> live m' = 2"
proof -
  have "holds_string \<lparr>ms_str = 0, ms_buf = ''0123456789abcdef'' @ [NUL]\<rparr> ''0123456789abcdef''"
    by (simp add: holds_string_def string_at_def c_str_def NUL_def)
  from mist_string_unescape_leaks [OF this, of "mem0\<lparr>script := [True, True, False]\<rparr>"] show ?thesis by simp
qed

text \<open>
  A sum of strings is their concatenation. \<open>mist_string_sum\<close> builds it in a string of its own or
  returns NULL and releases everything it had allocated; detaching the result gives the caller a
  C string with that value.
\<close>

lemma mist_string_sum_correct:
  assumes "holds_string l s" and "holds_string r t"
  shows "returns (mist_string_sum m l r) (\<lambda>(res, m'). case res of
       None \<Rightarrow> live m' = live m
     | Some ms \<Rightarrow> live m' = live m + 2
         \<and> returns (mist_string_detach m' ms) (\<lambda>(b, m''). string_at b 0 = Some (s @ t) \<and> live m'' = live m + 1))"
  by (rule returns_mono [OF sum_returns [OF assms]])
    (auto split: option.splits intro!: returns_mono [OF detach_returns])

text \<open>The characters the table allows.\<close>

definition name_char :: "nat \<Rightarrow> bool" where
  "name_char n \<longleftrightarrow> n = 0x20 \<or> n = 0x2D \<or> n = 0x2E \<or> n = 0x5F \<or> (0x30 \<le> n \<and> n \<le> 0x39)
     \<or> (0x41 \<le> n \<and> n \<le> 0x5A) \<or> (0x61 \<le> n \<and> n \<le> 0x7A)"

lemma ch_allowed_table: "ch_allowed = map (\<lambda>n. of_bool (name_char n)) [0..<128]"
  by code_simp

lemma char_is_bad_iff: "char_is_bad c \<longleftrightarrow> \<not> name_char (of_char c)"
proof (cases "(of_char c :: nat) < 0x7F")
  case True
  then have "ch_allowed ! of_char c = of_bool (name_char (of_char c))" by (simp add: ch_allowed_table)
  moreover have "(of_char c :: nat) \<le> 0x1F \<Longrightarrow> \<not> name_char (of_char c)" by (simp add: name_char_def)
  ultimately show ?thesis using True by (auto simp: char_is_bad_def Let_def)
qed (auto simp: char_is_bad_def Let_def name_char_def)

text \<open>
  C36: a name is accepted exactly when it is not empty, begins with neither a dot nor a space, and
  consists of Latin letters, digits, the space, the dot, the hyphen and the underscore.
\<close>

theorem mist_name_is_bad_iff:
  "\<not> mist_name_is_bad name \<longleftrightarrow>
     name \<noteq> [] \<and> hd name \<noteq> CHR ''.'' \<and> hd name \<noteq> CHR '' ''
     \<and> set name \<subseteq> {c. c = CHR '' '' \<or> c = CHR ''-'' \<or> c = CHR ''.'' \<or> c = CHR ''_''
         \<or> CHR ''0'' \<le> c \<and> c \<le> CHR ''9'' \<or> CHR ''A'' \<le> c \<and> c \<le> CHR ''Z'' \<or> CHR ''a'' \<le> c \<and> c \<le> CHR ''z''}"
proof -
  have "char_is_bad c \<longleftrightarrow> \<not> (c = CHR '' '' \<or> c = CHR ''-'' \<or> c = CHR ''.'' \<or> c = CHR ''_''
         \<or> CHR ''0'' \<le> c \<and> c \<le> CHR ''9'' \<or> CHR ''A'' \<le> c \<and> c \<le> CHR ''Z'' \<or> CHR ''a'' \<le> c \<and> c \<le> CHR ''z'')" for c
    unfolding char_is_bad_iff name_char_def
    by (simp add: less_eq_char_def of_char_eq_iff [symmetric, where 'a = nat])
  then show ?thesis by (auto simp: mist_name_is_bad_def)
qed

text \<open>
  A position is escaped exactly when an odd number of backslashes stands directly before it.
\<close>

lemma mist_is_char_escaped_iff:
  assumes "pos \<le> length src"
  shows "mist_is_char_escaped pos src =
     Some (odd (length (takeWhile (\<lambda>c. c = CHR 0x5C) (rev (take pos src)))))"
  using assms by (simp add: mist_is_char_escaped_def count_backslashes_eq)

text \<open>
  \<open>mist_chars_to_spaces\<close> replaces every listed symbol of the range by a space and leaves
  everything else as it is.
\<close>

lemma mist_chars_to_spaces_correct:
  assumes "beg \<le> end" and "end \<le> length s" and "syms \<noteq> []"
  shows "returns (mist_chars_to_spaces s beg end syms) (\<lambda>t. length t = length s
     \<and> (\<forall>i < length s. t ! i = (if beg \<le> i \<and> i < end \<and> s ! i \<in> set syms then CHR '' '' else s ! i)))"
proof (cases "beg = end")
  case True
  then show ?thesis using assms by (auto simp: mist_chars_to_spaces_def)
next
  case False
  let ?p = "find_forward (\<lambda>c. c \<in> set syms) s beg end"
  have p: "beg \<le> ?p" "?p \<le> end" "\<And>i. beg \<le> i \<Longrightarrow> i < ?p \<Longrightarrow> s ! i \<notin> set syms" "?p < end \<longrightarrow> s ! ?p \<in> set syms"
    using find_forward_props [OF assms(1), of "\<lambda>c. c \<in> set syms" s] find_forward_ge by auto
  show ?thesis
    using False assms p chars_to_spaces_loop_nth [of ?p "end" s syms]
    by (auto simp: mist_chars_to_spaces_def mist_find_in_range_first_of_def)
qed

text \<open>
  C37: a syntax error message always fits into the block allocated for it, whatever the line
  number; the line number is the number of line feeds before the position plus one, as a 32-bit
  count.
\<close>

theorem mist_parse_error_message:
  assumes "ptr \<le> length src"
  shows "returns (do { ln \<leftarrow> mist_line_num_for_ptr src ptr; mist_format_parse_error m (Some d) fmt ln })
    (\<lambda>(r, m'). \<exists>d'. r = Some d' \<and> live m' = live m + of_bool (d' \<noteq> None)
       \<and> (d' = None \<or> d' = Some (if line_of src ptr > 0 then format_string fmt [ArgU (unat (line_of src ptr))] else fmt))
       \<and> (never_fails m \<and> small fmt \<longrightarrow> never_fails m' \<and> d' \<noteq> None))"
  using format_parse_error_returns [of m d fmt "line_of src ptr"] line_num_of [OF assms] by simp

lemma show_two: "show_nat 2 = ''2''"
  by code_simp

theorem mist_parse_error_message_witness:
  "returns (do { ln \<leftarrow> mist_line_num_for_ptr [CHR ''a'', CHR 0x0A] 2; mist_format_parse_error mem0 (Some None) ''line %u'' ln })
    (\<lambda>(r, m'). \<exists>d'. r = Some d' \<and> (d' = None \<or> d' = Some ''line 2''))"
  using mist_parse_error_message [of 2 "[CHR ''a'', CHR 0x0A]" mem0 None "''line %u''"]
  by (auto simp: line_of_def show_two elim!: returns_mono)

end
