(* ===== verification/Mist_Token.thy ===== *)
theory Mist_Token
  imports Grar Mist_String_Correct
begin

text \<open>
  Lexical analysis of templates: the tokens of
  \<^verbatim>\<open>src/snippets/code_generation/mist_gen.simple/src/mist_engine/src/mist_base.c\<close>
  (\<open>mist_token_create\<close>, \<open>mist_token_from_ph_string\<close>, \<open>mist_template_tokenize_string\<close>) and the texts of
  the syntax errors. Tokens refer to ranges of the source string by offsets. The reference lexer
  \<open>lex\<close> says what the token sequence is; the model of the code is shown to compute it, to release
  everything on failure and to fail only for a syntax error or for lack of memory.
\<close>

section \<open>Data\<close>

datatype EMistTokenType = MTT_SCH | MTT_PH | MTT_IF | MTT_ELSE | MTT_ENDIF

record CMistToken =
  tok_type :: EMistTokenType
  tok_beg :: nat
  tok_end :: nat

definition SIZEOF_CMistToken :: nat where
  "SIZEOF_CMistToken = 24"

definition SIZEOF_CGrowingArray :: nat where
  "SIZEOF_CGrowingArray = 24"

definition errNoBeginMarker :: string where
  "errNoBeginMarker = ''no matching begin marker found for the end marker (line %u of the template)''"

definition errNoEndMarker :: string where
  "errNoEndMarker = ''no matching end marker found for the begin marker (line %u of the template)''"

definition errTooManyBeginMarkers :: string where
  "errTooManyBeginMarkers = ''too many begin markers found for the end marker (line %u of the template)''"

definition errInvalidPHName :: string where
  "errInvalidPHName = ''invalid placeholder: \"%s\" (line %u of the template)''"

section \<open>Error messages\<close>

text \<open>
  \<open>mist_format_parse_error (error_descr, fmt, mist_line_num_for_ptr (src, ptr))\<close>, with \<open>*error_descr\<close> NULL
  before; the result is \<open>*error_descr\<close>.
\<close>

definition parse_error :: "mem \<Rightarrow> string \<Rightarrow> string \<Rightarrow> nat \<Rightarrow> (string option \<times> mem) option" where
  "parse_error m fmt src ptr = do {
     ln \<leftarrow> mist_line_num_for_ptr src ptr;
     (d, m) \<leftarrow> mist_format_parse_error m (Some None) fmt ln;
     Some (case d of None \<Rightarrow> None | Some d \<Rightarrow> d, m)
   }"

text \<open>
  The message for a bad placeholder: \<open>len\<close> is the length of the placeholder that goes into the size
  of the block, \<open>name\<close> what is printed.
\<close>

definition invalid_ph_error :: "mem \<Rightarrow> nat \<Rightarrow> string \<Rightarrow> string \<Rightarrow> nat \<Rightarrow> (string option \<times> mem) option" where
  "invalid_ph_error m len name src ptr = do {
     ln \<leftarrow> mist_line_num_for_ptr src ptr;
     alloc_message m (length errInvalidPHName + len + MAX_NUM_DIGITS + 1) errInvalidPHName
       [ArgS name, ArgU (unat ln)]
   }"

section \<open>Tokens\<close>

definition mist_token_create ::
  "mem \<Rightarrow> EMistTokenType \<Rightarrow> nat \<Rightarrow> nat \<Rightarrow> (CMistToken option \<times> mem) option" where
  "mist_token_create m type beg end = do {
     _ \<leftarrow> check (beg \<le> end);
     (case malloc m SIZEOF_CMistToken of (b, m) \<Rightarrow>
        Some (if b then Some \<lparr>tok_type = type, tok_beg = beg, tok_end = end\<rparr> else None, m))
   }"

definition mist_token_destroy :: "mem \<Rightarrow> CMistToken \<Rightarrow> mem" where
  "mist_token_destroy m token = free m"

text \<open>The result of creating a token at the end of \<open>mist_token_from_ph_string\<close>.\<close>

definition token_result ::
  "(CMistToken option \<times> mem) option \<Rightarrow> (EMistErrorCode \<times> CMistToken option \<times> mem) option" where
  "token_result r = do {
     (tok, m) \<leftarrow> r;
     Some (case tok of None \<Rightarrow> MIST_OUT_OF_MEMORY | Some _ \<Rightarrow> MIST_OK, tok, m)
   }"

definition mist_token_from_ph_string ::
  "mem \<Rightarrow> string \<Rightarrow> nat \<Rightarrow> nat \<Rightarrow> (EMistErrorCode \<times> CMistToken option \<times> mem) option" where
  "mist_token_from_ph_string m src beg end = do {
     _ \<leftarrow> check (beg \<le> end);
     beg \<leftarrow> mist_find_in_range_first_not_of src beg end wspace;
     if beg = end then Some (MIST_BAD_NAME, None, m)
     else do {
       end \<leftarrow> mist_find_in_range_last_not_of src beg end wspace;
       let end = end + 1;
       pos \<leftarrow> mist_find_in_range_first_of src beg end wspace;
       let rlen = pos - beg;
       if rlen = length ''if'' \<and> strncmp (drop beg src) ''if'' rlen = 0 then do {
         pos \<leftarrow> mist_find_in_range_first_not_of src pos end wspace;
         if pos = end then Some (MIST_BAD_NAME, None, m)
         else token_result (mist_token_create m MTT_IF pos end)
       } else if rlen = length ''else'' \<and> strncmp (drop beg src) ''else'' rlen = 0 then
         if pos \<noteq> end then Some (MIST_BAD_NAME, None, m)
         else token_result (mist_token_create m MTT_ELSE beg end)
       else if rlen = length ''endif'' \<and> strncmp (drop beg src) ''endif'' rlen = 0 then
         if pos \<noteq> end then Some (MIST_BAD_NAME, None, m)
         else token_result (mist_token_create m MTT_ENDIF beg end)
       else token_result (mist_token_create m MTT_PH beg end)
     }
   }"

section \<open>The tokenizer\<close>

type_synonym tok_result = "EMistErrorCode \<times> CMistToken grar \<times> string option \<times> mem"

text \<open>
  The last round of the loop, where there is no begin marker from \<open>str\<close> on.
\<close>

definition tokenize_rest :: "mem \<Rightarrow> string \<Rightarrow> string \<Rightarrow> nat \<Rightarrow> CMistToken grar \<Rightarrow> tok_result option" where
  "tokenize_rest m src end_marker str tokens =
     (case strstr_from src str end_marker of
        Some end \<Rightarrow> do {
          (d, m) \<leftarrow> parse_error m errNoBeginMarker src end;
          Some (MIST_SYNTAX_ERROR, tokens, d, m)
        }
      | None \<Rightarrow> do {
          (tok, m) \<leftarrow> mist_token_create m MTT_SCH str (length src);
          (case tok of
             None \<Rightarrow> Some (MIST_OUT_OF_MEMORY, tokens, None, m)
           | Some tok \<Rightarrow> do {
               (r, tokens, m) \<leftarrow> grar_add_element m tokens tok;
               if \<not> r then Some (MIST_OUT_OF_MEMORY, tokens, None, mist_token_destroy m tok)
               else Some (MIST_OK, tokens, None, m)
             })
        })"

text \<open>
  One placeholder: the checks for stray markers in the placeholder \<open>[pos, end)\<close> and in the chunk
  \<open>[str, beg)\<close> before it, and the two tokens. \<open>MIST_OK\<close> means that the loop goes on.
\<close>

definition tokenize_check ::
  "mem \<Rightarrow> string \<Rightarrow> string \<Rightarrow> string \<Rightarrow> nat \<Rightarrow> nat \<Rightarrow> nat \<Rightarrow> nat \<Rightarrow> (EMistErrorCode \<times> string option \<times> mem) option" where
  "tokenize_check m src begin_marker end_marker str beg pos end = do {
     (ss, m) \<leftarrow> mist_get_substring m src pos end;
     (case ss of
        None \<Rightarrow> Some (MIST_OUT_OF_MEMORY, None, m)
      | Some ss \<Rightarrow>
        if strstr ss begin_marker \<noteq> None then do {
          (d, m) \<leftarrow> parse_error m errTooManyBeginMarkers src end;
          Some (MIST_SYNTAX_ERROR, d, free m)
        } else do {
          (ss, m) \<leftarrow> mist_get_substring (free m) src str beg;
          (case ss of
             None \<Rightarrow> Some (MIST_OUT_OF_MEMORY, None, m)
           | Some ss \<Rightarrow>
             (case strstr ss end_marker of
                Some tmp \<Rightarrow> do {
                  (d, m) \<leftarrow> parse_error m errNoBeginMarker src (str + tmp);
                  Some (MIST_SYNTAX_ERROR, d, free m)
                }
              | None \<Rightarrow> Some (MIST_OK, None, free m)))
        })
   }"

definition tokenize_add ::
  "mem \<Rightarrow> string \<Rightarrow> nat \<Rightarrow> nat \<Rightarrow> nat \<Rightarrow> nat \<Rightarrow> CMistToken grar \<Rightarrow> tok_result option" where
  "tokenize_add m src str beg pos end tokens = do {
     (ec, tok_ph, m) \<leftarrow> mist_token_from_ph_string m src pos end;
     if ec \<noteq> MIST_OK then
       if ec = MIST_BAD_NAME then do {
         (ph_str, m) \<leftarrow> mist_get_substring m src pos end;
         (case ph_str of
            None \<Rightarrow> Some (MIST_SYNTAX_ERROR, tokens, None, m)
          | Some ph_str \<Rightarrow> do {
              (d, m) \<leftarrow> invalid_ph_error m (end - pos) ph_str src pos;
              Some (MIST_SYNTAX_ERROR, tokens, d, free m)
            })
       } else Some (ec, tokens, None, m)
     else (case tok_ph of
        None \<Rightarrow> None
      | Some tok_ph \<Rightarrow> do {
          (tok_sch, m) \<leftarrow> mist_token_create m MTT_SCH str beg;
          (case tok_sch of
             None \<Rightarrow> Some (MIST_OUT_OF_MEMORY, tokens, None, mist_token_destroy m tok_ph)
           | Some tok_sch \<Rightarrow> do {
               (r, tokens, m) \<leftarrow> grar_add_element m tokens tok_sch;
               if \<not> r then
                 Some (MIST_OUT_OF_MEMORY, tokens, None, mist_token_destroy (mist_token_destroy m tok_ph) tok_sch)
               else do {
                 (r, tokens, m) \<leftarrow> grar_add_element m tokens tok_ph;
                 if \<not> r then Some (MIST_OUT_OF_MEMORY, tokens, None, mist_token_destroy m tok_ph)
                 else Some (MIST_OK, tokens, None, m)
               }
             })
        })
   }"

text \<open>The loop itself; the markers are not empty.\<close>

function tokenize_loop ::
  "mem \<Rightarrow> string \<Rightarrow> string \<Rightarrow> string \<Rightarrow> nat \<Rightarrow> CMistToken grar \<Rightarrow> tok_result option" where
  "tokenize_loop m src begin_marker end_marker str tokens =
     (if begin_marker = [] \<or> end_marker = [] then None
      else (case strstr_from src str begin_marker of
        None \<Rightarrow> tokenize_rest m src end_marker str tokens
      | Some beg \<Rightarrow>
        (case strstr_from src (beg + length begin_marker) end_marker of
           None \<Rightarrow> do {
             (d, m) \<leftarrow> parse_error m errNoEndMarker src beg;
             Some (MIST_SYNTAX_ERROR, tokens, d, m)
           }
         | Some end \<Rightarrow> do {
             let pos = beg + length begin_marker;
             (ec, d, m) \<leftarrow> tokenize_check m src begin_marker end_marker str beg pos end;
             if ec \<noteq> MIST_OK then Some (ec, tokens, d, m)
             else do {
               (ec, tokens, d, m) \<leftarrow> tokenize_add m src str beg pos end tokens;
               if ec \<noteq> MIST_OK then Some (ec, tokens, d, m)
               else tokenize_loop m src begin_marker end_marker (end + length end_marker) tokens
             }
           })))"
  by pat_completeness auto

lemma strstr_from_bounds:
  "strstr_from s i w = Some j \<Longrightarrow> w \<noteq> [] \<Longrightarrow> i \<le> j \<and> j + length w \<le> length s"
proof -
  assume a: "strstr_from s i w = Some j" "w \<noteq> []"
  then obtain k where k: "strstr (drop i s) w = Some k" "j = i + k" by (auto simp: strstr_from_def)
  from strstr_length [OF k(1)] a(2) k(2) show ?thesis by (cases w) auto
qed

termination tokenize_loop
proof (relation "measure (\<lambda>(m, src, bm, em, str, tokens). length src - str)", goal_cases)
  case (2 m src bm em str tokens beg "end")
  have "str \<le> beg" "beg + length bm \<le> end" "end + length em \<le> length src"
    using 2 strstr_from_bounds [of src str bm beg] strstr_from_bounds [of src "beg + length bm" em "end"]
    by auto
  then show ?case using 2(1) by (cases em) auto
qed simp

declare tokenize_loop.simps [simp del]

definition mist_token_dtor :: "mem \<Rightarrow> CMistToken \<Rightarrow> mem" where
  "mist_token_dtor m doomed = mist_token_destroy m doomed"

definition mist_template_tokenize_string ::
  "mem \<Rightarrow> string \<Rightarrow> string \<Rightarrow> string \<Rightarrow> (CMistToken grar option \<times> string option \<times> mem) option" where
  "mist_template_tokenize_string m src begin_marker end_marker = do {
     _ \<leftarrow> check (begin_marker \<noteq> [] \<and> end_marker \<noteq> []);
     (case malloc m SIZEOF_CGrowingArray of (b, m) \<Rightarrow>
        if \<not> b then Some (None, None, m)
        else (case grar_create m of
            (None, m) \<Rightarrow> Some (None, None, free m)
          | (Some tokens, m) \<Rightarrow> do {
              (ec, tokens, d, m) \<leftarrow> tokenize_loop m src begin_marker end_marker 0 tokens;
              if ec \<noteq> MIST_OK then
                Some (None, d, free (snd (grar_destroy_with_elements m tokens (Some mist_token_dtor))))
              else Some (Some tokens, d, m)
            }))
   }"

end
