(* ===== verification/Mist_Lex.thy ===== *)
theory Mist_Lex
  imports Mist_Token
begin

text \<open>
  The reference lexer for templates and the proof that the tokenizer of \<open>Mist_Token\<close> implements it.

  \<open>ph_token\<close> classifies what stands between a pair of markers, \<open>lex\<close> splits a string into chunks and
  placeholders. Neither knows about memory or buffers; \<open>lex_message\<close> is the text a lexical error is
  reported with.
\<close>

section \<open>The reference lexer\<close>

abbreviation token :: "EMistTokenType \<Rightarrow> nat \<Rightarrow> nat \<Rightarrow> CMistToken" where
  "token type beg end \<equiv> \<lparr>tok_type = type, tok_beg = beg, tok_end = end\<rparr>"

text \<open>
  A placeholder by its text without the whitespace around it: the keyword is what precedes the
  first whitespace; \<open>if\<close> needs an expression, \<open>else\<close> and \<open>endif\<close> must stand alone.
\<close>

definition ph_token :: "string \<Rightarrow> nat \<Rightarrow> nat \<Rightarrow> CMistToken option" where
  "ph_token src beg end =
     (let s = slice src beg end; b = beg + length (takeWhile is_ws s); t = trim s; e = b + length t;
          w = takeWhile (\<lambda>c. \<not> is_ws c) t; c = dropWhile is_ws (drop (length w) t) in
      if t = [] then None
      else if w = ''if'' then (if c = [] then None else Some (token MTT_IF (e - length c) e))
      else if w = ''else'' then (if w \<noteq> t then None else Some (token MTT_ELSE b e))
      else if w = ''endif'' then (if w \<noteq> t then None else Some (token MTT_ENDIF b e))
      else Some (token MTT_PH b e))"

datatype lex_error = Lone_end nat | No_end nat | Too_many nat | Bad_ph nat nat

function lex :: "string \<Rightarrow> string \<Rightarrow> string \<Rightarrow> nat \<Rightarrow> lex_error + CMistToken list" where
  "lex src bm em str =
     (if bm = [] \<or> em = [] then Inr []
      else (case strstr_from src str bm of
        None \<Rightarrow> (case strstr_from src str em of
            Some e \<Rightarrow> Inl (Lone_end e)
          | None \<Rightarrow> Inr [token MTT_SCH str (length src)])
      | Some beg \<Rightarrow>
        (case strstr_from src (beg + length bm) em of
           None \<Rightarrow> Inl (No_end beg)
         | Some e \<Rightarrow>
           if strstr (slice src (beg + length bm) e) bm \<noteq> None then Inl (Too_many e)
           else (case strstr (slice src str beg) em of
              Some k \<Rightarrow> Inl (Lone_end (str + k))
            | None \<Rightarrow>
              (case ph_token src (beg + length bm) e of
                 None \<Rightarrow> Inl (Bad_ph (beg + length bm) e)
               | Some t \<Rightarrow>
                 (case lex src bm em (e + length em) of
                    Inl err \<Rightarrow> Inl err
                  | Inr ts \<Rightarrow> Inr (token MTT_SCH str beg # t # ts)))))))"
  by pat_completeness auto
termination
proof (relation "measure (\<lambda>(src, bm, em, str). length src - str)", goal_cases)
  case (2 src bm em str beg "end" t)
  have "str \<le> beg" "beg + length bm \<le> end" "end + length em \<le> length src"
    using 2 strstr_from_bounds [of src str bm beg] strstr_from_bounds [of src "beg + length bm" em "end"]
    by auto
  then show ?case using 2(1) by (cases em) auto
qed simp

declare lex.simps [simp del]

definition line_message :: "string \<Rightarrow> string \<Rightarrow> nat \<Rightarrow> string" where
  "line_message fmt src ptr =
     (if line_of src ptr > 0 then format_string fmt [ArgU (unat (line_of src ptr))] else fmt)"

definition invalid_ph_message :: "string \<Rightarrow> string \<Rightarrow> nat \<Rightarrow> string" where
  "invalid_ph_message name src ptr = format_string errInvalidPHName [ArgS name, ArgU (unat (line_of src ptr))]"

fun lex_message :: "string \<Rightarrow> lex_error \<Rightarrow> string" where
  "lex_message src (Lone_end p) = line_message errNoBeginMarker src p"
| "lex_message src (No_end p) = line_message errNoEndMarker src p"
| "lex_message src (Too_many p) = line_message errTooManyBeginMarkers src p"
| "lex_message src (Bad_ph b e) = invalid_ph_message (slice src b e) src b"

section \<open>Messages and tokens\<close>

text \<open>
  The description of an error: a block of its own with the text \<open>msg\<close>, or NULL where memory ran out.
\<close>

definition described :: "string option \<Rightarrow> string \<Rightarrow> bool" where
  "described d msg \<longleftrightarrow> d = None \<or> d = Some msg"

lemma small_messages [simp]:
  "small errNoBeginMarker" "small errNoEndMarker" "small errTooManyBeginMarkers" "small errInvalidPHName"
  by (simp_all add: small_def errNoBeginMarker_def errNoEndMarker_def errTooManyBeginMarkers_def
      errInvalidPHName_def)

lemma parse_error_returns:
  assumes "ptr \<le> length src"
  shows "returns (parse_error m fmt src ptr) (\<lambda>(d, m').
     described d (line_message fmt src ptr) \<and> live m' = live m + of_bool (d \<noteq> None)
     \<and> (never_fails m \<and> small fmt \<longrightarrow> never_fails m' \<and> d \<noteq> None))"
  using format_parse_error_returns [of m None fmt "line_of src ptr"] line_num_of [OF assms]
  by (auto simp: parse_error_def described_def line_message_def elim!: returns_mono)

lemma invalid_ph_error_returns:
  assumes "ptr \<le> length src" and "length name \<le> len"
  shows "returns (invalid_ph_error m len name src ptr) (\<lambda>(d, m').
     described d (invalid_ph_message name src ptr) \<and> live m' = live m + of_bool (d \<noteq> None)
     \<and> (never_fails m \<and> len < 2 ^ 50 \<longrightarrow> never_fails m' \<and> d \<noteq> None))"
proof -
  have fits: "length errInvalidPHName + sum_list (map arg_length [ArgS name, ArgU (unat (line_of src ptr))])
      < length errInvalidPHName + len + MAX_NUM_DIGITS + 1"
    using assms(2) show_nat_word32 [of "line_of src ptr"] by (simp add: MAX_NUM_DIGITS_def)
  have "length errInvalidPHName + len + MAX_NUM_DIGITS + 1 \<le> PTRDIFF_MAX" if "len < 2 ^ 50"
    using that by (simp add: errInvalidPHName_def MAX_NUM_DIGITS_def PTRDIFF_MAX_def)
  with alloc_message_returns [OF fits, of m] line_num_of [OF assms(1)] show ?thesis
    by (auto simp: invalid_ph_error_def described_def invalid_ph_message_def elim!: returns_mono)
qed

lemma token_create_returns:
  assumes "beg \<le> end"
  shows "returns (mist_token_create m type beg end) (\<lambda>(t, m').
     live m' = live m + of_bool (t \<noteq> None) \<and> (t = None \<or> t = Some (token type beg end))
     \<and> (never_fails m \<longrightarrow> never_fails m' \<and> t \<noteq> None))"
proof -
  obtain b m' where r: "malloc m SIZEOF_CMistToken = (b, m')" by fastforce
  show ?thesis
    using assms r malloc_effect [OF r] malloc_never_fails [OF _ _ r]
    by (auto simp: mist_token_create_def SIZEOF_CMistToken_def PTRDIFF_MAX_def)
qed

lemma token_destroy_effect [simp]:
  "live (mist_token_destroy m t) = live m - 1" "never_fails (mist_token_destroy m t) = never_fails m"
  by (simp_all add: mist_token_destroy_def)

text \<open>What \<open>mist_token_from_ph_string\<close> returns for a classification.\<close>

definition ph_outcome ::
  "mem \<Rightarrow> CMistToken option \<Rightarrow> EMistErrorCode \<times> CMistToken option \<times> mem \<Rightarrow> bool" where
  "ph_outcome m t r \<longleftrightarrow> (case r of (ec, tok, m') \<Rightarrow>
     (case t of
        None \<Rightarrow> ec = MIST_BAD_NAME \<and> tok = None \<and> m' = m
      | Some t \<Rightarrow> ec = MIST_OK \<and> tok = Some t \<and> live m' = live m + 1
               \<or> ec = MIST_OUT_OF_MEMORY \<and> tok = None \<and> live m' = live m)
     \<and> (never_fails m \<longrightarrow> never_fails m' \<and> ec \<noteq> MIST_OUT_OF_MEMORY))"

lemma token_result_returns:
  "beg \<le> end \<Longrightarrow> returns (token_result (mist_token_create m type beg end)) (ph_outcome m (Some (token type beg end)))"
  by (auto simp: token_result_def ph_outcome_def intro!: returns_mono [OF token_create_returns] split: option.splits)

lemma keyword_test:
  assumes "w = take n t" and "n \<le> length t" and "take (length t) d = t" and "length w = n"
  shows "(n = length k \<and> strncmp d k n = 0) \<longleftrightarrow> w = k"
proof -
  have "take n d = w" using assms by (metis min.absorb1 take_take)
  then show ?thesis using assms(4) by (auto simp: strncmp_def)
qed

lemma token_from_ph_string_returns:
  assumes "beg \<le> end" and "end \<le> length src"
  shows "returns (mist_token_from_ph_string m src beg end) (ph_outcome m (ph_token src beg end))"
proof -
  define s where "s = slice src beg end"
  define b where "b = beg + length (takeWhile is_ws s)"
  define t where "t = trim s"
  define e where "e = b + length t"
  define w where "w = takeWhile (\<lambda>c. \<not> is_ws c) t"
  define c where "c = dropWhile is_ws (drop (length w) t)"
  have len: "length s = end - beg" using assms by (simp add: s_def)
  have b: "beg \<le> b" "b \<le> end" using length_takeWhile_le [of is_ws s] len assms by (auto simp: b_def)
  have sb: "slice src b end = dropWhile is_ws s"
    unfolding b_def slice_drop s_def [symmetric] dropWhile_eq_drop ..
  have t: "rtrim (slice src b end) = t" by (simp add: sb t_def trim_def)
  obtain r where r: "slice src b end = t @ r" using rtrim_prefix [of "slice src b end"] t by auto
  have e: "e \<le> end" using arg_cong [OF r, of length] b assms by (simp add: e_def)
  have st: "slice src b e = t" using slice_take [of b "length t" "end" src] e r by (simp add: e_def)
  have b_end: "b = end \<longleftrightarrow> t = []"
  proof
    show "b = end" if "t = []"
      using that len assms unfolding b_def t_def by (metis le_add_diff_inverse trim_Nil_iff)
  qed (use t in \<open>simp add: rtrim_def\<close>)
  have w: "w = take (length w) t" "length w \<le> length t"
    unfolding w_def by (simp_all add: takeWhile_eq_take [symmetric] length_takeWhile_le)
  have key: "(length w = length k \<and> strncmp (drop b src) k (length w) = 0) \<longleftrightarrow> w = k" for k
    using keyword_test [OF w, of "drop b src" k] st by (simp add: slice_def e_def)
  have pos_e: "b + length w = e \<longleftrightarrow> w = t" using w by (metis add_left_cancel e_def take_all_iff)
  have sw: "slice src (b + length w) e = drop (length w) t" by (simp add: slice_drop st)
  have "length (takeWhile is_ws (drop (length w) t)) + length c = length t - length w"
    unfolding c_def by (metis length_append length_drop takeWhile_dropWhile_id)
  then have pe: "b + length w + length (takeWhile is_ws (drop (length w) t)) = e - length c"
    using w(2) by (simp add: e_def)
  have "length c \<le> length t"
    using length_dropWhile_le [of is_ws "drop (length w) t"] by (simp add: c_def)
  then have ce: "e - length c = e \<longleftrightarrow> c = []" "e - length c \<le> e" "b + length w \<le> e"
    using w(2) by (cases c; simp add: e_def)+
  note finds = find_first_not_ws [OF assms] find_last_not_ws [OF b(2) assms(2)]
    find_first_ws [of b e src] find_first_not_ws [of "b + length w" e src]
  have spec: "ph_token src beg end =
      (if t = [] then None
      else if w = ''if'' then (if c = [] then None else Some (token MTT_IF (e - length c) e))
      else if w = ''else'' then (if w \<noteq> t then None else Some (token MTT_ELSE b e))
      else if w = ''endif'' then (if w \<noteq> t then None else Some (token MTT_ENDIF b e))
      else Some (token MTT_PH b e))"
    unfolding ph_token_def Let_def s_def [symmetric] b_def [symmetric] t_def [symmetric] e_def [symmetric]
      w_def [symmetric] c_def [symmetric] ..
  show ?thesis
  proof (cases "t = []")
    case True
    then show ?thesis
      using assms b_end unfolding spec mist_token_from_ph_string_def finds(1)
      by (simp add: ph_outcome_def b_def s_def)
  next
    case False
    then have ne: "b \<noteq> end" "b + length t - 1 + 1 = e" "b \<le> e" "e \<le> length src"
      using b_end e assms by (auto simp: e_def Suc_le_eq)
    have find: "mist_find_in_range_first_not_of src beg end wspace = Some b"
      "mist_find_in_range_last_not_of src b end wspace = Some (b + length t - 1)"
      "mist_find_in_range_first_of src b e wspace = Some (b + length w)"
      "mist_find_in_range_first_not_of src (b + length w) e wspace = Some (e - length c)"
      using finds ne ce False by (simp_all only: s_def [symmetric] b_def [symmetric] t st w_def [symmetric] sw pe if_False simp_thms)
    have run: "mist_token_from_ph_string m src beg end =
        (if w = ''if'' then if e - length c = e then Some (MIST_BAD_NAME, None, m)
           else token_result (mist_token_create m MTT_IF (e - length c) e)
         else if w = ''else'' then if b + length w \<noteq> e then Some (MIST_BAD_NAME, None, m)
           else token_result (mist_token_create m MTT_ELSE b e)
         else if w = ''endif'' then if b + length w \<noteq> e then Some (MIST_BAD_NAME, None, m)
           else token_result (mist_token_create m MTT_ENDIF b e)
         else token_result (mist_token_create m MTT_PH b e))"
      unfolding mist_token_from_ph_string_def Let_def find bind.bind_lunit ne(2) add_diff_cancel_left' key
      using assms(1) ne(1) by simp
    have bad: "ph_outcome m None (MIST_BAD_NAME, None, m)" by (simp add: ph_outcome_def)
    show ?thesis
      unfolding spec run ce(1) pos_e if_not_P [OF False]
      by (simp add: bad token_result_returns ne(3))
  qed
qed

section \<open>The tokenizer implements the reference lexer\<close>

text \<open>
  The outcome of a step that may fail: \<open>MIST_OK\<close> without an error description, out of memory, or the
  syntax error with the message \<open>msg\<close>. Where no allocation is refused only the last is a failure, and
  it is described.
\<close>

definition step_outcome ::
  "string \<Rightarrow> mem \<Rightarrow> string option \<Rightarrow> EMistErrorCode \<Rightarrow> string option \<Rightarrow> mem \<Rightarrow> bool" where
  "step_outcome src m msg ec d m' \<longleftrightarrow>
     (case msg of
        None \<Rightarrow> d = None \<and> (ec = MIST_OK \<or> ec = MIST_OUT_OF_MEMORY)
      | Some msg \<Rightarrow> ec = MIST_SYNTAX_ERROR \<and> described d msg \<or> ec = MIST_OUT_OF_MEMORY \<and> d = None)
     \<and> (never_fails m \<and> small src \<longrightarrow>
          never_fails m' \<and> ec \<noteq> MIST_OUT_OF_MEMORY \<and> (ec = MIST_SYNTAX_ERROR \<longrightarrow> d \<noteq> None))"

lemma step_outcome_OK [simp]:
  "step_outcome src m (Some msg) MIST_OK d m' = False"
  "step_outcome src m None MIST_OK d m' \<longleftrightarrow> d = None \<and> (never_fails m \<and> small src \<longrightarrow> never_fails m')"
  by (auto simp: step_outcome_def)

text \<open>Steps in sequence, and a lack of memory whatever the rest would have been.\<close>

lemma step_outcome_trans:
  "step_outcome src m None MIST_OK d1 m1 \<Longrightarrow> step_outcome src m1 msg ec d m' \<Longrightarrow> step_outcome src m msg ec d m'"
  by (auto simp: step_outcome_def)

lemma step_outcome_any:
  "step_outcome src m None ec d m' \<Longrightarrow> ec \<noteq> MIST_OK \<Longrightarrow> step_outcome src m msg ec d m'"
  by (cases msg) (auto simp: step_outcome_def)

lemma tokenize_check_returns:
  assumes "no_nul src" and "str \<le> beg" and "beg \<le> pos" and "pos \<le> end" and "end \<le> length src"
  shows "returns (tokenize_check m src bm em str beg pos end) (\<lambda>(ec, d, m').
     live m' = live m + of_bool (d \<noteq> None)
     \<and> step_outcome src m
         (if strstr (slice src pos end) bm \<noteq> None then Some (line_message errTooManyBeginMarkers src end)
          else map_option (\<lambda>k. line_message errNoBeginMarker src (str + k)) (strstr (slice src str beg) em))
         ec d m')"
proof -
  have "beg \<le> length src" using assms by simp
  note second = get_substring_returns [OF assms(1,2) this] and first = get_substring_returns [OF assms(1,4,5)]
  consider "strstr (slice src pos end) bm \<noteq> None"
    | "strstr (slice src pos end) bm = None" "strstr (slice src str beg) em = None"
    | k where "strstr (slice src pos end) bm = None" "strstr (slice src str beg) em = Some k"
    by blast
  then show ?thesis
  proof cases
    case 1
    then show ?thesis
      unfolding tokenize_check_def using assms
      by (auto simp: step_outcome_def intro!: returns_mono [OF first] returns_mono [OF parse_error_returns])
  next
    case 2
    then show ?thesis
      unfolding tokenize_check_def
      by (auto simp: step_outcome_def intro!: returns_mono [OF first] returns_mono [OF second])
  next
    case 3
    then have "str + k \<le> length src" using strstr_length [OF 3(2)] assms by simp
    with 3 show ?thesis
      unfolding tokenize_check_def
      by (auto simp: step_outcome_def intro!: returns_mono [OF first] returns_mono [OF second]
          returns_mono [OF parse_error_returns])
  qed
qed

lemma tokenize_rest_returns:
  assumes "grar_ok tokens" and "str \<le> length src" and "length (elems tokens) \<le> str" and "em \<noteq> []"
  shows "returns (tokenize_rest m src em str tokens) (\<lambda>(ec, g, d, m'). grar_ok g
     \<and> (\<exists>ts. elems g = elems tokens @ ts \<and> live m' = live m + int (length ts) + of_bool (d \<noteq> None)
          \<and> (ec = MIST_OK \<longrightarrow> ts = [token MTT_SCH str (length src)]))
     \<and> step_outcome src m (map_option (line_message errNoBeginMarker src) (strstr_from src str em)) ec d m')"
proof (cases "strstr_from src str em")
  case None
  show ?thesis
    unfolding tokenize_rest_def None
    using assms
    by (auto simp: step_outcome_def small_def split: option.splits if_splits
        intro!: returns_mono [OF token_create_returns] returns_mono [OF grar_add_element_ok])
next
  case (Some e)
  then have "e \<le> length src" using strstr_from_bounds [OF Some assms(4)] by simp
  then show ?thesis
    unfolding tokenize_rest_def Some
    using assms(1) by (auto simp: step_outcome_def intro!: returns_mono [OF parse_error_returns])
qed

lemma tokenize_add_returns:
  assumes "no_nul src" and "grar_ok tokens" and "str \<le> beg" and "beg < pos" and "pos \<le> end" and "end \<le> length src"
    and "length (elems tokens) \<le> str"
  shows "returns (tokenize_add m src str beg pos end tokens) (\<lambda>(ec, g, d, m'). grar_ok g
     \<and> (\<exists>ts. elems g = elems tokens @ ts \<and> live m' = live m + int (length ts) + of_bool (d \<noteq> None)
          \<and> (ec = MIST_OK \<longrightarrow> (\<exists>t. ph_token src pos end = Some t \<and> ts = [token MTT_SCH str beg, t])))
     \<and> step_outcome src m
         (if ph_token src pos end = None then Some (lex_message src (Bad_ph pos end)) else None) ec d m')"
proof (cases "ph_token src pos end")
  case None
  have "pos \<le> length src" "end - pos < 2 ^ 50 \<or> \<not> small src" using assms by (auto simp: small_def)
  then show ?thesis
    unfolding tokenize_add_def
    using assms None
    by (auto simp: ph_outcome_def step_outcome_def described_def split: option.splits
        intro!: returns_mono [OF token_from_ph_string_returns] returns_mono [OF get_substring_returns]
          returns_mono [OF invalid_ph_error_returns])
next
  case (Some t)
  then show ?thesis
    unfolding tokenize_add_def
    using assms
    by (auto simp: ph_outcome_def step_outcome_def small_def split: option.splits if_splits
        intro!: returns_mono [OF token_from_ph_string_returns] returns_mono [OF token_create_returns]
          returns_mono [OF grar_add_element_ok])
qed

text \<open>The outcome of the loop against the result of the reference lexer.\<close>

definition lex_outcome ::
  "string \<Rightarrow> lex_error + CMistToken list \<Rightarrow> CMistToken grar \<Rightarrow> mem \<Rightarrow> tok_result \<Rightarrow> bool" where
  "lex_outcome src r tokens m res \<longleftrightarrow> (case res of (ec, g, d, m') \<Rightarrow> grar_ok g
     \<and> (\<exists>ts. elems g = elems tokens @ ts \<and> live m' = live m + int (length ts) + of_bool (d \<noteq> None)
          \<and> (ec = MIST_OK \<longrightarrow> r = Inr ts))
     \<and> step_outcome src m (case r of Inl e \<Rightarrow> Some (lex_message src e) | Inr _ \<Rightarrow> None) ec d m')"

lemma lex_outcome_fail:
  assumes "grar_ok g" and "elems g = elems tokens @ ts" and "live m' = live m + int (length ts) + of_bool (d \<noteq> None)"
    and "step_outcome src m None ec d m'" and "ec \<noteq> MIST_OK"
  shows "lex_outcome src r tokens m (ec, g, d, m')"
  using assms step_outcome_any by (auto simp: lex_outcome_def)

text \<open>The rest of a round after the two tokens have been added, or not.\<close>

lemma tokenize_after_add:
  assumes g: "grar_ok g" "elems g = elems tokens @ ts" and live: "live m' = live m + int (length ts) + of_bool (d \<noteq> None)"
    and ok: "ec = MIST_OK \<longrightarrow> (\<exists>t. ph = Some t \<and> ts = [sch, t])"
    and st: "step_outcome src m (if ph = None then Some (lex_message src err) else None) ec d m'"
    and rest: "ec = MIST_OK \<Longrightarrow> returns (loop m' g) (lex_outcome src next g m')"
  shows "returns (if ec \<noteq> MIST_OK then Some (ec, g, d, m') else loop m' g)
    (lex_outcome src (case ph of None \<Rightarrow> Inl err
       | Some t \<Rightarrow> (case next of Inl err \<Rightarrow> Inl err | Inr ts \<Rightarrow> Inr (sch # t # ts))) tokens m)"
proof (cases "ec = MIST_OK")
  case False
  then show ?thesis
    using lex_outcome_fail [OF g live] g live st by (cases ph) (auto simp: lex_outcome_def)
next
  case True
  then obtain t where t: "ph = Some t" "ts = [sch, t]" using ok by auto
  have d: "d = None" and st': "step_outcome src m None MIST_OK d m'" using st True t by auto
  show ?thesis
    using rest [OF True] True
    by (auto elim!: returns_mono simp: lex_outcome_def t g d live split: sum.splits
        dest: step_outcome_trans [OF st'])
qed

lemma tokenize_round:
  assumes "no_nul src" and "grar_ok tokens" and "str \<le> beg" "beg < pos" "pos \<le> e" "e \<le> length src"
    and "length (elems tokens) \<le> str"
    and chk: "strstr (slice src pos e) bm = None" "strstr (slice src str beg) em = None"
    and rest: "\<And>g m'. grar_ok g \<Longrightarrow> length (elems g) = length (elems tokens) + 2 \<Longrightarrow>
      returns (loop m' g) (lex_outcome src next g m')"
  shows "returns (do {
        (ec, d, m) \<leftarrow> tokenize_check m src bm em str beg pos e;
        if ec \<noteq> MIST_OK then Some (ec, tokens, d, m)
        else do {
          (ec, tokens, d, m) \<leftarrow> tokenize_add m src str beg pos e tokens;
          if ec \<noteq> MIST_OK then Some (ec, tokens, d, m) else loop m tokens
        }
      })
    (lex_outcome src (case ph_token src pos e of None \<Rightarrow> Inl (Bad_ph pos e)
       | Some t \<Rightarrow> (case next of Inl err \<Rightarrow> Inl err | Inr ts \<Rightarrow> Inr (token MTT_SCH str beg # t # ts))) tokens m)"
    (is "returns _ (lex_outcome src ?R tokens m)")
proof (rule returns_bindI [OF tokenize_check_returns [OF assms(1,3) less_imp_le [OF assms(4)] assms(5,6)]], clarify)
  fix ec d m1
  assume live1: "live m1 = live m + of_bool (d \<noteq> None)"
    and "step_outcome src m (if strstr (slice src pos e) bm \<noteq> None then Some (line_message errTooManyBeginMarkers src e)
      else map_option (\<lambda>k. line_message errNoBeginMarker src (str + k)) (strstr (slice src str beg) em)) ec d m1"
  then have st1: "step_outcome src m None ec d m1" using chk by simp
  show "returns (if ec \<noteq> MIST_OK then Some (ec, tokens, d, m1)
      else do {
        (ec, tokens, d, m) \<leftarrow> tokenize_add m1 src str beg pos e tokens;
        if ec \<noteq> MIST_OK then Some (ec, tokens, d, m) else loop m tokens }) (lex_outcome src ?R tokens m)"
  proof (cases "ec = MIST_OK")
    case False
    then show ?thesis using lex_outcome_fail [of tokens tokens "[]"] assms(2) live1 st1 by simp
  next
    case True
    then have d: "d = None" and st1: "step_outcome src m None MIST_OK d m1" using st1 by auto
    have "returns (tokenize_add m1 src str beg pos e tokens) (\<lambda>(ec, g, d, m2).
        returns (if ec \<noteq> MIST_OK then Some (ec, g, d, m2) else loop m2 g) (lex_outcome src ?R tokens m))"
    proof (rule returns_mono [OF tokenize_add_returns [OF assms(1-7)]], clarify, rule tokenize_after_add)
      fix ec2 g d2 m2 ts
      assume g: "elems g = elems tokens @ ts" "grar_ok g"
        and ok: "ec2 = MIST_OK \<longrightarrow> (\<exists>t. ph_token src pos e = Some t \<and> ts = [token MTT_SCH str beg, t])"
        and live: "live m2 = live m1 + int (length ts) + of_bool (d2 \<noteq> None)"
        and st2: "step_outcome src m1 (if ph_token src pos e = None then Some (lex_message src (Bad_ph pos e)) else None) ec2 d2 m2"
      show "step_outcome src m (if ph_token src pos e = None then Some (lex_message src (Bad_ph pos e)) else None) ec2 d2 m2"
        by (rule step_outcome_trans [OF st1 st2])
      show "live m2 = live m + int (length ts) + of_bool (d2 \<noteq> None)" using live live1 d by simp
      show "returns (loop m2 g) (lex_outcome src next g m2)" if "ec2 = MIST_OK" using that g ok by (intro rest) auto
    qed
    then show ?thesis using True by simp
  qed
qed

lemma tokenize_loop_returns:
  assumes "no_nul src" and "bm \<noteq> []" and "em \<noteq> []"
  shows "grar_ok tokens \<Longrightarrow> str \<le> length src \<Longrightarrow> length (elems tokens) \<le> str \<Longrightarrow>
    returns (tokenize_loop m src bm em str tokens) (lex_outcome src (lex src bm em str) tokens m)"
proof (induction "length src - str" arbitrary: m str tokens rule: less_induct)
  case less
  note prems = less.prems
  show ?case
  proof (cases "strstr_from src str bm")
    case None
    show ?thesis
      unfolding tokenize_loop.simps [of m src bm em str] lex.simps [of src bm em str] None
      using assms prems
      by (auto simp: lex_outcome_def split: option.splits intro!: returns_mono [OF tokenize_rest_returns])
  next
    case (Some beg)
    note beg = strstr_from_bounds [OF Some assms(2)]
    let ?pos = "beg + length bm"
    show ?thesis
    proof (cases "strstr_from src ?pos em")
      case None
      show ?thesis
        unfolding tokenize_loop.simps [of m src bm em str] lex.simps [of src bm em str] Some
        using None assms prems beg
        by (auto simp: lex_outcome_def step_outcome_def intro!: returns_mono [OF parse_error_returns])
    next
      case ee: (Some e)
      note e = strstr_from_bounds [OF ee assms(3)]
      have bounds: "str \<le> beg" "beg < ?pos" "?pos \<le> e" "e \<le> length src" "length (elems tokens) + 2 \<le> e + length em"
        using beg e prems assms(2,3) by (auto simp: Suc_le_eq neq_Nil_conv)
      then have lt: "length src - (e + length em) < length src - str" using e by linarith
      note run = tokenize_loop.simps [of m src bm em str] lex.simps [of src bm em str] Some
      note chk = tokenize_check_returns [OF assms(1) bounds(1) less_imp_le [OF bounds(2)] bounds(3,4), of m bm em]
      show ?thesis
      proof (cases "strstr (slice src ?pos e) bm = None \<and> strstr (slice src str beg) em = None")
        case True
        then have good: "strstr (slice src ?pos e) bm = None" "strstr (slice src str beg) em = None" by auto
        have rest: "returns (tokenize_loop m1 src bm em (e + length em) g)
            (lex_outcome src (lex src bm em (e + length em)) g m1)"
          if "grar_ok g" "length (elems g) = length (elems tokens) + 2" for m1 g
          using that e bounds lt by (intro less.hyps) auto
        show ?thesis
          unfolding run
          using tokenize_round [OF assms(1) prems(1) bounds(1-4) prems(3) good, where loop = "\<lambda>m g. tokenize_loop m src bm em (e + length em) g"] rest
            ee assms(2,3) good by (simp add: Let_def)
      next
        case False
        then show ?thesis
          unfolding run using ee assms prems
          by (auto simp: Let_def lex_outcome_def split: option.splits intro!: returns_mono [OF chk])
      qed
    qed
  qed
qed

section \<open>The language of templates\<close>

text \<open>
  Which token sequences a template spells, without reference to a search: from the offset \<open>i\<close> on the
  source is a last chunk free of markers, or a chunk, a begin marker, a placeholder, an end marker
  and a rest that spells the remaining tokens. No marker begins inside a chunk, and none of a
  placeholder's markers begins inside it, not even where it would overlap the marker that ends it.
\<close>

inductive spelled :: "string \<Rightarrow> string \<Rightarrow> string \<Rightarrow> nat \<Rightarrow> CMistToken list \<Rightarrow> bool" for src bm em where
  last: "\<not> occurs bm (drop i src) \<Longrightarrow> \<not> occurs em (drop i src)
    \<Longrightarrow> spelled src bm em i [token MTT_SCH i (length src)]"
| more: "drop i src = chunk @ bm @ ph @ em @ rest
    \<Longrightarrow> \<not> occurs bm (butlast (chunk @ bm)) \<Longrightarrow> \<not> occurs em chunk
    \<Longrightarrow> \<not> occurs em (butlast (ph @ em)) \<Longrightarrow> \<not> occurs bm ph
    \<Longrightarrow> b = i + length chunk \<Longrightarrow> p = b + length bm \<Longrightarrow> e = p + length ph
    \<Longrightarrow> ph_token src p e = Some t
    \<Longrightarrow> spelled src bm em (e + length em) ts
    \<Longrightarrow> spelled src bm em i (token MTT_SCH i b # t # ts)"

lemma strstr_from_Some_iff:
  assumes "w \<noteq> []"
  shows "strstr_from s i w = Some j \<longleftrightarrow>
    (\<exists>u v. drop i s = u @ w @ v \<and> j = i + length u \<and> \<not> occurs w (butlast (u @ w)))"
  by (auto simp: strstr_from_def strstr_Some_iff [OF assms])

lemma slice_of_drop: "drop i s = u @ v @ w \<Longrightarrow> slice s (i + length u) (i + length u + length v) = v"
  by (simp add: slice_def drop_drop [symmetric] add.commute [of i])

lemma lex_spelled:
  assumes "bm \<noteq> []" and "em \<noteq> []"
  shows "lex src bm em i = Inr ts \<Longrightarrow> spelled src bm em i ts"
proof (induction "length src - i" arbitrary: i ts rule: less_induct)
  case less
  show ?case
  proof (cases "strstr_from src i bm")
    case None
    then have "strstr_from src i em = None" and ts: "ts = [token MTT_SCH i (length src)]"
      using less.prems assms by (auto simp: lex.simps [of src bm em i] split: option.splits)
    with None show ?thesis
      unfolding ts by (intro spelled.last) (simp_all add: strstr_from_def strstr_None_iff)
  next
    case (Some b)
    then obtain chunk v where v: "drop i src = chunk @ bm @ v" "b = i + length chunk" "\<not> occurs bm (butlast (chunk @ bm))"
      unfolding strstr_from_Some_iff [OF assms(1)] by blast
    define p where "p = b + length bm"
    have dp: "drop p src = v"
      using arg_cong [OF v(1), of "drop (length chunk + length bm)"] by (simp add: p_def v(2) add.commute add.left_commute)
    obtain e where e: "strstr_from src p em = Some e"
      using less.prems assms Some by (auto simp: lex.simps [of src bm em i] p_def split: option.splits)
    then obtain ph rest where r: "v = ph @ em @ rest" "e = p + length ph" "\<not> occurs em (butlast (ph @ em))"
      unfolding strstr_from_Some_iff [OF assms(2)] dp by blast
    have slices: "slice src p e = ph" "slice src i b = chunk"
      using slice_of_drop [of p src "[]" ph] slice_of_drop [of i src "[]" chunk] dp v(1,2) r(1,2) by simp_all
    obtain t ts' where t: "strstr ph bm = None" "strstr chunk em = None" "ph_token src p e = Some t"
        "lex src bm em (e + length em) = Inr ts'" "ts = token MTT_SCH i b # t # ts'"
      using less.prems assms Some e slices
      by (auto simp: lex.simps [of src bm em i] p_def [symmetric] split: option.splits if_splits sum.splits)
    have "length src - (e + length em) < length src - i"
      using strstr_from_bounds [OF Some assms(1)] strstr_from_bounds [OF e assms(2)] assms(1) by (cases bm) (auto simp: p_def)
    from less.hyps [OF this t(4)] show ?thesis
      unfolding t(5) using v r t(1-3) by (intro spelled.more [of i src chunk bm ph em rest]) (auto simp: strstr_None_iff p_def)
  qed
qed

lemma spelled_lex:
  assumes "bm \<noteq> []" and "em \<noteq> []"
  shows "spelled src bm em i ts \<Longrightarrow> lex src bm em i = Inr ts"
proof (induction rule: spelled.induct)
  case (last i)
  then show ?case using assms by (simp add: lex.simps [of src bm em i] strstr_from_def strstr_None_iff [symmetric])
next
  case (more i chunk ph rest b p e t ts)
  have dp: "drop p src = ph @ em @ rest"
    using arg_cong [OF more(1), of "drop (length chunk + length bm)"] more(6,7) by (simp add: add.commute add.left_commute)
  have "strstr_from src i bm = Some b" "strstr_from src p em = Some e"
    unfolding strstr_from_Some_iff [OF assms(1)] strstr_from_Some_iff [OF assms(2)] dp more(1) using more by blast+
  moreover have "slice src p e = ph" "slice src i b = chunk"
    using slice_of_drop [of p src "[]" ph] slice_of_drop [of i src "[]" chunk] dp more(1,6,7,8) by simp_all
  ultimately show ?case
    using assms more by (simp add: lex.simps [of src bm em i] strstr_None_iff [symmetric])
qed

lemma lex_iff_spelled: "bm \<noteq> [] \<Longrightarrow> em \<noteq> [] \<Longrightarrow> lex src bm em i = Inr ts \<longleftrightarrow> spelled src bm em i ts"
  using lex_spelled spelled_lex by blast

section \<open>Properties\<close>

lemma token_dtor_live:
  "live (snd (grar_destroy_with_elements m g (Some mist_token_dtor))) = live m - int (length (elems g)) - grar_blocks g"
  using grar_destroy_with_elements_effect [of mist_token_dtor "\<lambda>_. 1" m g]
  by (simp add: mist_token_dtor_def sum_list_triv)

lemma token_dtor_never_fails [simp]:
  "never_fails (snd (grar_destroy_with_elements m g (Some mist_token_dtor))) = never_fails m"
proof -
  have "never_fails (foldl mist_token_dtor m xs) = never_fails m" for xs
    by (induction xs arbitrary: m) (simp_all add: mist_token_dtor_def)
  then show ?thesis by (simp add: grar_destroy_with_elements_def never_fails_def)
qed

text \<open>What the tokenizer returns for a result of the reference lexer.\<close>

lemma tokenize_string_returns:
  assumes "no_nul src" and "bm \<noteq> []" and "em \<noteq> []"
  shows "returns (mist_template_tokenize_string m src bm em) (\<lambda>(r, d, m').
     (case r of
        Some g \<Rightarrow> lex src bm em 0 = Inr (elems g) \<and> d = None \<and> grar_ok g \<and> live m' = live m + 2 + int (length (elems g))
      | None \<Rightarrow> live m' = live m + of_bool (d \<noteq> None)
          \<and> (case lex src bm em 0 of Inl e \<Rightarrow> described d (lex_message src e) | Inr _ \<Rightarrow> d = None))
     \<and> (never_fails m \<and> small src \<longrightarrow>
          never_fails m' \<and> (r = None \<longleftrightarrow> (\<exists>e. lex src bm em 0 = Inl e)) \<and> (r = None \<longrightarrow> d \<noteq> None)))"
proof -
  obtain b m1 where m1: "malloc m SIZEOF_CGrowingArray = (b, m1)" by fastforce
  obtain r :: "CMistToken grar option" and m2 where m2: "grar_create m1 = (r, m2)" by fastforce
  note mem = malloc_effect [OF m1] grar_create_ok [OF m2] malloc_never_fails [OF _ _ m1]
  note loop = tokenize_loop_returns [OF assms]
  show ?thesis
    unfolding mist_template_tokenize_string_def
    using assms(2,3) m1 m2 mem
    by (auto simp: lex_outcome_def step_outcome_def token_dtor_live described_def SIZEOF_CGrowingArray_def PTRDIFF_MAX_def
        split: option.splits sum.splits if_splits intro!: returns_mono [OF loop])
qed

text \<open>
  C30: the tokenizer recognises exactly the language of templates. With memory for it,
  \<open>mist_template_tokenize_string\<close> returns an array for precisely the strings that spell a token
  sequence, and the array is that sequence; otherwise it returns NULL with an error description.
  Whatever allocation fails, an array is only ever returned with the right tokens, and a failure
  leaves no block behind but the description.
\<close>

theorem mist_template_tokenize_string_correct:
  assumes "no_nul src" and "bm \<noteq> []" and "em \<noteq> []"
  shows "returns (mist_template_tokenize_string m src bm em) (\<lambda>(r, d, m').
     (case r of
        Some g \<Rightarrow> spelled src bm em 0 (elems g) \<and> d = None \<and> live m' = live m + 2 + int (length (elems g))
      | None \<Rightarrow> live m' = live m + of_bool (d \<noteq> None))
     \<and> (never_fails m \<and> small src \<longrightarrow>
          (case r of Some g \<Rightarrow> True | None \<Rightarrow> d \<noteq> None \<and> (\<forall>ts. \<not> spelled src bm em 0 ts))))"
  by (rule returns_mono [OF tokenize_string_returns [OF assms]])
    (auto simp: lex_iff_spelled [OF assms(2,3), symmetric] split: option.splits)

theorem mist_template_tokenize_string_correct_witness:
  "returns (mist_template_tokenize_string mem0 ''a<$ b $>c'' ''<$'' ''$>'') (\<lambda>(r, d, m').
     case r of Some g \<Rightarrow> spelled ''a<$ b $>c'' ''<$'' ''$>'' 0 (elems g) | None \<Rightarrow> live m' = of_bool (d \<noteq> None))"
  using mist_template_tokenize_string_correct [of "''a<$ b $>c''" "''<$''" "''$>''" mem0]
  by (auto simp: NUL_def split: option.splits elim!: returns_mono)

text \<open>
  C31: a lexical error is reported for the right place: with memory for it, the description is the
  message of the first error in the order of the source, with the line of the offending marker or
  placeholder, and it always fits into the block allocated for it.
\<close>

theorem mist_template_tokenize_string_errors:
  assumes "no_nul src" and "bm \<noteq> []" and "em \<noteq> []" and "never_fails m" and "small src"
  shows "returns (mist_template_tokenize_string m src bm em) (\<lambda>(r, d, m').
     case lex src bm em 0 of
       Inl e \<Rightarrow> r = None \<and> d = Some (lex_message src e) \<and> live m' = live m + 1
     | Inr ts \<Rightarrow> d = None \<and> map_option elems r = Some ts)"
  by (rule returns_mono [OF tokenize_string_returns [OF assms(1-3)]])
    (use assms(4,5) in \<open>auto simp: described_def split: option.splits sum.splits\<close>)

theorem mist_template_tokenize_string_errors_witness:
  "returns (mist_template_tokenize_string mem0 ''a $> b'' ''<$'' ''$>'') (\<lambda>(r, d, m').
     r = None \<and> d = Some ''no matching begin marker found for the end marker (line 1 of the template)'')"
proof -
  have one: "show_nat (Suc 0) = ''1''" by code_simp
  have lex: "lex ''a $> b'' ''<$'' ''$>'' 0 = Inl (Lone_end 2)" by code_simp
  have "no_nul ''a $> b''" "never_fails mem0" "small ''a $> b''"
    by (simp_all add: NUL_def never_fails_def small_def)
  from mist_template_tokenize_string_errors [OF this(1) _ _ this(2,3), of "''<$''" "''$>''"] show ?thesis
    by (auto simp: lex line_message_def line_of_def errNoBeginMarker_def one elim!: returns_mono)
qed

end
