(* ===== verification/Mist_Template.thy ===== *)
theory Mist_Template
  imports Mist_Lex
begin

text \<open>
  Templates and placeholders, and the parser that builds them:
  \<^verbatim>\<open>src/snippets/code_generation/mist_gen.simple/src/mist_engine/src/mist_base.c\<close> from
  \<open>mist_placeholder_create\<close> to \<open>mist_match_endif\<close> (with \<open>mist_parse_cond_expr\<close>).

  A \<open>CMistTemplate*\<close> is modelled as \<open>'a tptr\<close>: NULL, a reference to a template of the group by its
  index, or a template the structure that holds the pointer owns. A plain placeholder and one with
  join refer to a template of the group; a conditional owns the template of its results and its two
  branches and refers to the condition.

  The parsing functions take the elements of the token array and the index \<open>istart\<close> and return the
  error code, what they built, the new index, \<open>*error_descr\<close> and the memory. They are mutually
  recursive with the nesting of conditionals: the functions below \<open>mist_parse_template\<close> take it as
  their first argument \<open>tpl\<close>, and \<open>mist_parse_template\<close> ties the knot. The index a loop continues from
  is the result of a recursive call, so the model has fuel, which bounds the nesting and the rounds
  of each loop; \<open>Mist_Parse\<close> shows that \<open>parse_fuel\<close>, one unit more than there are tokens, is enough.
\<close>

section \<open>Data\<close>

datatype EMistPlaceholderType = MPH_PLAIN | MPH_JOIN | MPH_COND

datatype 'a tptr = Null | Ref nat | Own 'a

datatype CMistTemplate =
  Template (t_name: string) (t_vals: "string grar") (t_sch: "string grar")
    (t_ph: "CMistPlaceholder grar") (t_is_evaluated: bool)
and CMistPlaceholder =
  Placeholder (p_type: EMistPlaceholderType) (p_name: string) (p_tpl: "CMistTemplate tptr")
    (p_sep: "string option") (p_tpl_cond: "CMistTemplate tptr") (p_tpl_then: "CMistTemplate tptr")
    (p_tpl_else: "CMistTemplate tptr") (p_is_concat: bool)

definition SIZEOF_CMistPlaceholder :: nat where
  "SIZEOF_CMistPlaceholder = 64"

definition SIZEOF_CMistTemplate :: nat where
  "SIZEOF_CMistTemplate = 88"

definition errIfWithoutEndif :: string where
  "errIfWithoutEndif = ''found \"if\" without matching \"endif\" (line %u of the template)''"

definition errElseWithoutEndif :: string where
  "errElseWithoutEndif = ''found \"else\" without matching \"endif\" (line %u of the template)''"

definition errElseWithoutIf :: string where
  "errElseWithoutIf = ''found \"else\" without matching \"if\" (line %u of the template)''"

definition errEndifWithoutIf :: string where
  "errEndifWithoutIf = ''found \"endif\" without matching \"if\" (line %u of the template)''"

section \<open>Creation, destruction, values\<close>

definition mist_placeholder_create ::
  "mem \<Rightarrow> string \<Rightarrow> string option \<Rightarrow> (CMistPlaceholder option \<times> mem) option" where
  "mist_placeholder_create m name separator = do {
     _ \<leftarrow> check (\<not> mist_name_is_bad name);
     (case malloc m SIZEOF_CMistPlaceholder of (b, m) \<Rightarrow>
        if \<not> b then Some (None, m)
        else (case strdup m name of
            (None, m) \<Rightarrow> Some (None, free m)
          | (Some name, m) \<Rightarrow>
            (case separator of
               Some separator \<Rightarrow>
                 (case strdup m separator of
                    (None, m) \<Rightarrow> Some (None, free (free m))
                  | (Some sep, m) \<Rightarrow>
                    Some (Some (Placeholder MPH_JOIN name Null (Some sep) Null Null Null False), m))
             | None \<Rightarrow> Some (Some (Placeholder MPH_PLAIN name Null None Null Null Null False), m))))
   }"

text \<open>
  Destruction. The destructor \<open>grar_destroy_with_elements\<close> calls for the placeholders is
  \<open>mist_placeholder_destroy\<close> (by way of \<open>mist_placeholder_dtor\<close>). Only a conditional owns what its
  pointers refer to.
\<close>

lemma size_grar_elem: "x \<in> set (elems g) \<Longrightarrow> f x < size_grar f g"
  by (cases g) (auto dest: size_list_estimation' [OF _ le_refl, of _ _ f] simp: less_Suc_eq_le)

function (sequential) mist_template_destroy :: "mem \<Rightarrow> CMistTemplate \<Rightarrow> mem"
  and mist_placeholder_destroy :: "mem \<Rightarrow> CMistPlaceholder \<Rightarrow> mem"
  and mist_owned_destroy :: "mem \<Rightarrow> CMistTemplate tptr \<Rightarrow> mem" where
  "mist_template_destroy m (Template name vals sch ph ev) =
     (let m = free m;
          m = snd (grar_destroy_with_elements m vals None);
          m = snd (grar_destroy_with_elements m sch None);
          m = snd (grar_destroy (foldl mist_placeholder_destroy m (elems ph)) ph)
      in free m)"
| "mist_placeholder_destroy m (Placeholder type name tpl sep tpl_cond tpl_then tpl_else is_concat) =
     (let m = (if type = MPH_COND
               then mist_owned_destroy (mist_owned_destroy (mist_owned_destroy m tpl) tpl_then) tpl_else
               else m);
          m = free m;
          m = (if sep = None then m else free m)
      in free m)"
| "mist_owned_destroy m (Own mt) = mist_template_destroy m mt"
| "mist_owned_destroy m _ = m"
  by pat_completeness auto
termination
  by (relation "measure (\<lambda>x. case x of
        Inl (m, t) \<Rightarrow> 2 * size t
      | Inr (Inl (m, p)) \<Rightarrow> 2 * size p
      | Inr (Inr (m, q)) \<Rightarrow> 2 * size_tptr size q + 1)")
    (auto dest!: size_grar_elem [where f = size])

definition mist_template_create :: "mem \<Rightarrow> string \<Rightarrow> (CMistTemplate option \<times> mem) option" where
  "mist_template_create m name = do {
     _ \<leftarrow> check (\<not> mist_name_is_bad name);
     (case malloc m SIZEOF_CMistTemplate of (b, m) \<Rightarrow>
        if \<not> b then Some (None, m)
        else (case strdup m name of
            (None, m) \<Rightarrow> Some (None, free m)
          | (Some name, m) \<Rightarrow>
            (case grar_create m of
               (None, m) \<Rightarrow> Some (None, free (free m))
             | (Some vals, m) \<Rightarrow>
               (case grar_create m of
                  (None, m) \<Rightarrow> Some (None, free (free (snd (grar_destroy m vals))))
                | (Some sch, m) \<Rightarrow>
                  (case grar_create m of
                     (None, m) \<Rightarrow> Some (None, free (free (snd (grar_destroy (snd (grar_destroy m sch)) vals))))
                   | (Some ph, m) \<Rightarrow> Some (Some (Template name vals sch ph False), m))))))
   }"

definition mist_template_clear_values :: "mem \<Rightarrow> CMistTemplate \<Rightarrow> (CMistTemplate \<times> mem) option" where
  "mist_template_clear_values m mt = do {
     let m = foldl (\<lambda>m s. free m) m (elems (t_vals mt));
     vals \<leftarrow> grar_clear (t_vals mt);
     Some (Template (t_name mt) vals (t_sch mt) (t_ph mt) False, m)
   }"

definition mist_template_add_value ::
  "mem \<Rightarrow> CMistTemplate \<Rightarrow> string \<Rightarrow> (EMistErrorCode \<times> CMistTemplate \<times> mem) option" where
  "mist_template_add_value m mt val = (case strdup m val of
       (None, m) \<Rightarrow> Some (MIST_OUT_OF_MEMORY, mt, m)
     | (Some elem, m) \<Rightarrow> do {
         (r, vals, m) \<leftarrow> grar_add_element m (t_vals mt) elem;
         let mt = Template (t_name mt) vals (t_sch mt) (t_ph mt) (t_is_evaluated mt);
         if \<not> r then Some (MIST_OUT_OF_MEMORY, mt, free m) else Some (MIST_OK, mt, m)
       })"

section \<open>Expressions in placeholders\<close>

text \<open>The name in a condition, and whether the condition is \<open>concat (name)\<close>.\<close>

definition mist_parse_cond_expr ::
  "mem \<Rightarrow> string \<Rightarrow> nat \<Rightarrow> nat \<Rightarrow> (string option \<times> bool \<times> mem) option" where
  "mist_parse_cond_expr m src beg end = do {
     _ \<leftarrow> check (beg < end);
     first \<leftarrow> mist_find_in_range_first_not_of src beg end wspace;
     _ \<leftarrow> check (first = beg);
     last \<leftarrow> mist_find_in_range_last_not_of src beg end wspace;
     _ \<leftarrow> check (last + 1 = end);
     let nend = end - 1;
     let len = end - beg;
     if src ! nend \<noteq> CHR '')'' \<or> len < length ''concat'' + 3 \<or> strncmp (drop beg src) ''concat'' (length ''concat'') \<noteq> 0
     then do { (name, m) \<leftarrow> mist_get_substring m src beg end; Some (name, False, m) }
     else do {
       nbeg \<leftarrow> mist_find_in_range_first_not_of src (beg + length ''concat'') nend wspace;
       if src ! nbeg \<noteq> CHR ''(''
       then do { (name, m) \<leftarrow> mist_get_substring m src beg end; Some (name, False, m) }
       else do {
         _ \<leftarrow> check (nbeg < nend);
         nbeg \<leftarrow> mist_find_in_range_first_not_of src (nbeg + 1) nend wspace;
         if nbeg = nend
         then do { (name, m) \<leftarrow> mist_get_substring m src beg end; Some (name, False, m) }
         else do {
           nend \<leftarrow> mist_find_in_range_last_not_of src nbeg nend wspace;
           let nend = nend + 1;
           (name, m) \<leftarrow> mist_get_substring m src nbeg nend;
           Some (name, True, m)
         }
       }
     }
   }"

text \<open>
  The end of \<open>mist_parse_placeholder\<close>: \<open>name\<close> is the offset of the name in the buffer of \<open>expr\<close>.
\<close>

definition placeholder_finish ::
  "mem \<Rightarrow> CMistString \<Rightarrow> nat \<Rightarrow> CMistString option
     \<Rightarrow> (EMistErrorCode \<times> CMistPlaceholder option \<times> mem) option" where
  "placeholder_finish m expr name sep = do {
     nm \<leftarrow> string_at (ms_buf expr) name;
     if mist_name_is_bad nm then
       (let m = (case sep of None \<Rightarrow> m | Some sep \<Rightarrow> mist_string_destroy m sep) in
        Some (MIST_BAD_NAME, None, mist_string_destroy m expr))
     else do {
       separator \<leftarrow> (case sep of None \<Rightarrow> Some None
                    | Some sep \<Rightarrow> map_option Some (string_at (ms_buf sep) (ms_str sep)));
       (pp, m) \<leftarrow> mist_placeholder_create m nm separator;
       let ec = (if pp = None then MIST_OUT_OF_MEMORY else MIST_OK);
       let m = (case sep of None \<Rightarrow> m | Some sep \<Rightarrow> mist_string_destroy m sep);
       Some (ec, pp, mist_string_destroy m expr)
     }
   }"

text \<open>
  The part of \<open>mist_parse_placeholder\<close> for a join directive, whose colon is at \<open>pos\<close>: the directive,
  its argument (which starts at the string of \<open>expr\<close>), and the separator in it.
\<close>

definition placeholder_separator ::
  "mem \<Rightarrow> CMistString \<Rightarrow> nat \<Rightarrow> nat \<Rightarrow> (EMistErrorCode \<times> CMistPlaceholder option \<times> mem) option" where
  "placeholder_separator m expr name len = do {
     buf \<leftarrow> write_at (ms_buf expr) (ms_str expr + len - 1) [NUL];
     let expr = \<lparr>ms_str = ms_str expr + 1, ms_buf = buf\<rparr>;
     init \<leftarrow> string_at (ms_buf expr) (ms_str expr);
     (sep, m) \<leftarrow> mist_string_create m (Some init);
     (case sep of
        None \<Rightarrow> Some (MIST_OUT_OF_MEMORY, None, mist_string_destroy m expr)
      | Some sep \<Rightarrow> do {
          (ec, sep, m) \<leftarrow> mist_string_unescape m sep;
          if ec \<noteq> MIST_OK then Some (ec, None, mist_string_destroy (mist_string_destroy m sep) expr)
          else placeholder_finish m expr name (Some sep)
        })
   }"

definition placeholder_argument ::
  "mem \<Rightarrow> CMistString \<Rightarrow> nat \<Rightarrow> (EMistErrorCode \<times> CMistPlaceholder option \<times> mem) option" where
  "placeholder_argument m expr name = do {
     expr \<leftarrow> mist_string_trim expr;
     arg \<leftarrow> string_at (ms_buf expr) (ms_str expr);
     let len = length arg;
     if ms_buf expr ! ms_str expr \<noteq> CHR ''('' \<or> ms_buf expr ! (ms_str expr + len - 1) \<noteq> CHR '')''
     then Some (MIST_BAD_NAME, None, mist_string_destroy m expr)
     else placeholder_separator m expr name len
   }"

definition placeholder_join ::
  "mem \<Rightarrow> CMistString \<Rightarrow> nat \<Rightarrow> nat \<Rightarrow> (EMistErrorCode \<times> CMistPlaceholder option \<times> mem) option" where
  "placeholder_join m expr name pos = do {
     buf \<leftarrow> write_at (ms_buf expr) pos [NUL];
     expr \<leftarrow> mist_string_trim (expr\<lparr>ms_buf := buf\<rparr>);
     expr \<leftarrow> mist_string_trim (expr\<lparr>ms_str := pos + 1\<rparr>);
     directive \<leftarrow> string_at (ms_buf expr) (ms_str expr);
     if ms_buf expr ! ms_str expr = NUL \<or> strncmp directive ''join'' (length ''join'') \<noteq> 0
     then Some (MIST_BAD_NAME, None, mist_string_destroy m expr)
     else placeholder_argument m (expr\<lparr>ms_str := ms_str expr + length ''join''\<rparr>) name
   }"

definition mist_parse_placeholder ::
  "mem \<Rightarrow> CMistToken list \<Rightarrow> nat \<Rightarrow> string
     \<Rightarrow> (EMistErrorCode \<times> CMistPlaceholder option \<times> nat \<times> mem) option" where
  "mist_parse_placeholder m tokens istart src = do {
     _ \<leftarrow> check (istart < length tokens);
     let t = tokens ! istart;
     _ \<leftarrow> check (tok_type t = MTT_PH);
     let istart = istart + 1;
     (expr, m) \<leftarrow> mist_string_create_from_range m src (tok_beg t) (tok_end t);
     (case expr of
        None \<Rightarrow> Some (MIST_OUT_OF_MEMORY, None, istart, m)
      | Some expr \<Rightarrow> do {
          expr \<leftarrow> mist_string_trim expr;
          let name = ms_str expr;
          s \<leftarrow> string_at (ms_buf expr) (ms_str expr);
          (ec, pp, m) \<leftarrow> (case strchr s (CHR '':'') of
               None \<Rightarrow> placeholder_finish m expr name None
             | Some k \<Rightarrow> placeholder_join m expr name (ms_str expr + k));
          Some (ec, pp, istart, m)
        })
   }"

section \<open>Matching tokens\<close>

definition mist_match_string_chunk ::
  "mem \<Rightarrow> CMistToken list \<Rightarrow> nat \<Rightarrow> CMistTemplate \<Rightarrow> string
     \<Rightarrow> (EMistErrorCode \<times> CMistTemplate \<times> nat \<times> mem) option" where
  "mist_match_string_chunk m tokens istart mt src = do {
     _ \<leftarrow> check (istart < length tokens);
     let t = tokens ! istart;
     _ \<leftarrow> check (tok_type t = MTT_SCH);
     let istart = istart + 1;
     (sch, m) \<leftarrow> mist_get_substring m src (tok_beg t) (tok_end t);
     (case sch of
        None \<Rightarrow> Some (MIST_OUT_OF_MEMORY, mt, istart, m)
      | Some sch \<Rightarrow> do {
          (r, schs, m) \<leftarrow> grar_add_element m (t_sch mt) sch;
          let mt = Template (t_name mt) (t_vals mt) schs (t_ph mt) (t_is_evaluated mt);
          if \<not> r then Some (MIST_OUT_OF_MEMORY, mt, istart, free m)
          else Some (MIST_OK, mt, istart, m)
        })
   }"

type_synonym ph_result = "EMistErrorCode \<times> CMistPlaceholder option \<times> nat \<times> string option \<times> mem"

definition mist_match_if :: "mem \<Rightarrow> CMistToken list \<Rightarrow> nat \<Rightarrow> string \<Rightarrow> ph_result option" where
  "mist_match_if m tokens istart src = do {
     _ \<leftarrow> check (istart < length tokens);
     let t = tokens ! istart;
     _ \<leftarrow> check (tok_type t = MTT_IF);
     let istart = istart + 1;
     (name, is_concat, m) \<leftarrow> mist_parse_cond_expr m src (tok_beg t) (tok_end t);
     (case name of
        None \<Rightarrow> Some (MIST_OUT_OF_MEMORY, None, istart, None, m)
      | Some name \<Rightarrow>
        if mist_name_is_bad name then do {
          (d, m) \<leftarrow> invalid_ph_error m (tok_end t - tok_beg t) name src (tok_beg t);
          Some (MIST_SYNTAX_ERROR, None, istart, d, free m)
        } else do {
          (pp, m) \<leftarrow> mist_placeholder_create m name None;
          (case pp of
             None \<Rightarrow> Some (MIST_OUT_OF_MEMORY, None, istart, None, free m)
           | Some pp \<Rightarrow> do {
               (tpl, m) \<leftarrow> mist_template_create m name;
               let m = free m;
               (case tpl of
                  None \<Rightarrow> Some (MIST_OUT_OF_MEMORY, None, istart, None,
                            mist_placeholder_destroy m
                              (Placeholder MPH_COND (p_name pp) Null (p_sep pp) Null Null Null is_concat))
                | Some tpl \<Rightarrow> Some (MIST_OK,
                    Some (Placeholder MPH_COND (p_name pp) (Own tpl) (p_sep pp) Null Null Null is_concat),
                    istart, None, m))
             })
        })
   }"

definition mist_match_else :: "CMistToken list \<Rightarrow> nat \<Rightarrow> (EMistErrorCode \<times> nat) option" where
  "mist_match_else tokens istart = do {
     _ \<leftarrow> check (istart < length tokens);
     _ \<leftarrow> check (tok_type (tokens ! istart) = MTT_ELSE);
     Some (MIST_OK, istart + 1)
   }"

definition mist_match_endif :: "CMistToken list \<Rightarrow> nat \<Rightarrow> (EMistErrorCode \<times> nat) option" where
  "mist_match_endif tokens istart = do {
     _ \<leftarrow> check (istart < length tokens);
     _ \<leftarrow> check (tok_type (tokens ! istart) = MTT_ENDIF);
     Some (MIST_OK, istart + 1)
   }"

section \<open>The parser\<close>

type_synonym tpl_result = "EMistErrorCode \<times> CMistTemplate option \<times> nat \<times> string option \<times> mem"

text \<open>
  \<open>empty_else_branch\<close> is the part of \<open>mist_parse_conditional\<close> that creates an empty branch where there is no
  \<open>else\<close>: the conditional is completed, or destroyed where memory ran out.
\<close>

definition empty_else_branch ::
  "mem \<Rightarrow> CMistPlaceholder \<Rightarrow> (EMistErrorCode \<times> CMistPlaceholder option \<times> mem) option" where
  "empty_else_branch m pp = do {
     (tpl_else, m) \<leftarrow> mist_template_create m ''else_branch'';
     (case strdup m [] of (sch, m) \<Rightarrow>
        (case (tpl_else, sch) of
           (Some te, Some s) \<Rightarrow> do {
             (r, schs, m) \<leftarrow> grar_add_element m (t_sch te) s;
             let te = Template (t_name te) (t_vals te) schs (t_ph te) (t_is_evaluated te);
             let pp = Placeholder (p_type pp) (p_name pp) (p_tpl pp) (p_sep pp) (p_tpl_cond pp) (p_tpl_then pp) (Own te) (p_is_concat pp);
             if \<not> r then Some (MIST_OUT_OF_MEMORY, None, free (mist_placeholder_destroy m pp))
             else Some (MIST_OK, Some pp, m)
           }
         | (te, s) \<Rightarrow>
           (let pp = Placeholder (p_type pp) (p_name pp) (p_tpl pp) (p_sep pp) (p_tpl_cond pp) (p_tpl_then pp)
                       (case te of None \<Rightarrow> Null | Some te \<Rightarrow> Own te) (p_is_concat pp);
                m = mist_placeholder_destroy m pp in
            Some (MIST_OUT_OF_MEMORY, None, if s = None then m else free m))))
   }"

type_synonym tpl_parser = "mem \<Rightarrow> CMistToken list \<Rightarrow> nat \<Rightarrow> string \<Rightarrow> string \<Rightarrow> tpl_result option"

text \<open>
  The else-branch of a conditional whose then-branch ends before the token \<open>istart\<close>. The result holds
  the conditional, or \<open>None\<close> where it has been destroyed, and the token that should be \<open>endif\<close>.
\<close>

definition conditional_else ::
  "tpl_parser \<Rightarrow> mem \<Rightarrow> CMistToken list \<Rightarrow> nat \<Rightarrow> CMistPlaceholder \<Rightarrow> string \<Rightarrow>
     (EMistErrorCode \<times> CMistPlaceholder option \<times> CMistToken \<times> nat \<times> string option \<times> mem) option" where
  "conditional_else tpl m tokens istart pp src =
     (let t = tokens ! istart in
      if tok_type t = MTT_ELSE then do {
        (ec, istart) \<leftarrow> mist_match_else tokens istart;
        if ec \<noteq> MIST_OK then Some (ec, None, t, istart, None, mist_placeholder_destroy m pp)
        else do {
          _ \<leftarrow> check (istart < length tokens);
          (ec, tpl_else, istart, d, m) \<leftarrow> tpl m tokens istart ''else_branch'' src;
          let pp = Placeholder (p_type pp) (p_name pp) (p_tpl pp) (p_sep pp) (p_tpl_cond pp) (p_tpl_then pp)
                     (case tpl_else of None \<Rightarrow> Null | Some t \<Rightarrow> Own t) (p_is_concat pp);
          if ec \<noteq> MIST_OK then Some (ec, None, t, istart, d, mist_placeholder_destroy m pp)
          else if istart \<ge> length tokens then do {
            (d, m) \<leftarrow> parse_error m errElseWithoutEndif src (tok_beg t);
            Some (MIST_SYNTAX_ERROR, None, t, istart, d, mist_placeholder_destroy m pp)
          } else Some (MIST_OK, Some pp, tokens ! istart, istart, d, m)
        }
      } else do {
        (ec, pp, m) \<leftarrow> empty_else_branch m pp;
        Some (ec, pp, t, istart, None, m)
      })"

text \<open>The end of a conditional.\<close>

definition conditional_endif ::
  "mem \<Rightarrow> CMistToken list \<Rightarrow> nat \<Rightarrow> CMistPlaceholder \<Rightarrow> CMistToken \<Rightarrow> CMistToken \<Rightarrow> string \<Rightarrow> ph_result option" where
  "conditional_endif m tokens istart pp t t_if src =
     (if tok_type t = MTT_ENDIF then do {
        (ec, istart) \<leftarrow> mist_match_endif tokens istart;
        if ec \<noteq> MIST_OK then Some (ec, None, istart, None, mist_placeholder_destroy m pp)
        else Some (MIST_OK, Some pp, istart, None, m)
      } else do {
        _ \<leftarrow> check (tok_type t = MTT_ELSE);
        (d, m) \<leftarrow> parse_error m errIfWithoutEndif src (tok_beg t_if);
        Some (MIST_SYNTAX_ERROR, None, istart, d, mist_placeholder_destroy m pp)
      })"

definition mist_parse_conditional ::
  "tpl_parser \<Rightarrow> mem \<Rightarrow> CMistToken list \<Rightarrow> nat \<Rightarrow> string \<Rightarrow> ph_result option" where
  "mist_parse_conditional tpl m tokens istart src = do {
     _ \<leftarrow> check (istart < length tokens);
     let t_if = tokens ! istart;
     (ec, pp, istart, d, m) \<leftarrow> mist_match_if m tokens istart src;
     if ec \<noteq> MIST_OK then Some (ec, pp, istart, d, m)
     else (case pp of
        None \<Rightarrow> None
      | Some pp \<Rightarrow> do {
          _ \<leftarrow> check (istart < length tokens);
          (ec, tpl_then, istart, d, m) \<leftarrow> tpl m tokens istart ''then_branch'' src;
          let pp = Placeholder (p_type pp) (p_name pp) (p_tpl pp) (p_sep pp) (p_tpl_cond pp)
                     (case tpl_then of None \<Rightarrow> Null | Some t \<Rightarrow> Own t) (p_tpl_else pp) (p_is_concat pp);
          if ec \<noteq> MIST_OK then Some (ec, None, istart, d, mist_placeholder_destroy m pp)
          else if istart \<ge> length tokens then do {
            (d, m) \<leftarrow> parse_error m errIfWithoutEndif src (tok_beg t_if);
            Some (MIST_SYNTAX_ERROR, None, istart, d, mist_placeholder_destroy m pp)
          } else do {
            (ec, pp, t, istart, d, m) \<leftarrow> conditional_else tpl m tokens istart pp src;
            (case pp of
               None \<Rightarrow> Some (ec, None, istart, d, m)
             | Some pp \<Rightarrow> conditional_endif m tokens istart pp t t_if src)
          }
        })
   }"

definition mist_parse_ph_expression ::
  "tpl_parser \<Rightarrow> mem \<Rightarrow> CMistToken list \<Rightarrow> nat \<Rightarrow> string \<Rightarrow> ph_result option" where
  "mist_parse_ph_expression tpl m tokens istart src = do {
     _ \<leftarrow> check (istart < length tokens);
     let t = tokens ! istart;
     if tok_type t = MTT_IF then do {
       (ec, pp, istart, d, m) \<leftarrow> mist_parse_conditional tpl m tokens istart src;
       _ \<leftarrow> check (pp \<noteq> None \<or> ec \<noteq> MIST_OK);
       Some (ec, pp, istart, d, m)
     } else if tok_type t = MTT_PH then do {
       (ec, pp, istart, m) \<leftarrow> mist_parse_placeholder m tokens istart src;
       _ \<leftarrow> check (pp \<noteq> None \<or> ec \<noteq> MIST_OK);
       if ec = MIST_BAD_NAME then do {
         (ph_str, m) \<leftarrow> mist_get_substring m src (tok_beg t) (tok_end t);
         (case ph_str of
            None \<Rightarrow> Some (MIST_SYNTAX_ERROR, pp, istart, None, m)
          | Some ph_str \<Rightarrow> do {
              (d, m) \<leftarrow> invalid_ph_error m (tok_end t - tok_beg t) ph_str src (tok_beg t);
              Some (MIST_SYNTAX_ERROR, pp, istart, d, free m)
            })
       } else Some (ec, pp, istart, None, m)
     } else do {
       _ \<leftarrow> check (tok_type t = MTT_ELSE \<or> tok_type t = MTT_ENDIF);
       Some (MIST_OK, None, istart, None, m)
     }
   }"

text \<open>The loop of \<open>mist_parse_template\<close>.\<close>

primrec parse_template_loop ::
  "tpl_parser \<Rightarrow> nat \<Rightarrow> mem \<Rightarrow> CMistToken list \<Rightarrow> nat \<Rightarrow> CMistTemplate \<Rightarrow> string
     \<Rightarrow> (EMistErrorCode \<times> CMistTemplate \<times> nat \<times> string option \<times> mem) option" where
  "parse_template_loop tpl 0 m tokens istart pt src = None"
| "parse_template_loop tpl (Suc n) m tokens istart pt src =
     (if istart < length tokens then do {
        (ec, ph, istart, d, m) \<leftarrow> mist_parse_ph_expression tpl m tokens istart src;
        if ec \<noteq> MIST_OK then Some (ec, pt, istart, d, m)
        else do {
          _ \<leftarrow> check (istart < length tokens);
          let t = tokens ! istart;
          if tok_type t = MTT_ELSE \<or> tok_type t = MTT_ENDIF then do {
            _ \<leftarrow> check (ph = None);
            Some (MIST_OK, pt, istart, d, m)
          } else (case ph of
             None \<Rightarrow> None
           | Some ph \<Rightarrow> do {
               (r, phs, m) \<leftarrow> grar_add_element m (t_ph pt) ph;
               let pt = Template (t_name pt) (t_vals pt) (t_sch pt) phs (t_is_evaluated pt);
               if \<not> r then Some (MIST_OUT_OF_MEMORY, pt, istart, d, m)
               else do {
                 (ec, pt, istart, m) \<leftarrow> mist_match_string_chunk m tokens istart pt src;
                 if ec \<noteq> MIST_OK then Some (ec, pt, istart, None, m)
                 else parse_template_loop tpl n m tokens istart pt src
               }
             })
        }
      } else Some (MIST_OK, pt, istart, None, m))"

primrec mist_parse_template :: "nat \<Rightarrow> tpl_parser" where
  "mist_parse_template 0 m tokens istart name src = None"
| "mist_parse_template (Suc n) m tokens istart name src = do {
     _ \<leftarrow> check (istart < length tokens);
     (pt, m) \<leftarrow> mist_template_create m name;
     (case pt of
        None \<Rightarrow> Some (MIST_OUT_OF_MEMORY, None, istart, None, m)
      | Some pt \<Rightarrow> do {
          (ec, pt, istart, m) \<leftarrow> mist_match_string_chunk m tokens istart pt src;
          if ec \<noteq> MIST_OK then Some (ec, None, istart, None, mist_template_destroy m pt)
          else do {
            (ec, pt, istart, d, m) \<leftarrow> parse_template_loop (mist_parse_template n) n m tokens istart pt src;
            if ec \<noteq> MIST_OK then Some (ec, None, istart, d, mist_template_destroy m pt)
            else Some (MIST_OK, Some pt, istart, d, m)
          }
        })
   }"

text \<open>Enough fuel for any sequence of tokens.\<close>

definition parse_fuel :: "CMistToken list \<Rightarrow> nat" where
  "parse_fuel tokens = length tokens + 1"

definition mist_template_from_string ::
  "mem \<Rightarrow> string \<Rightarrow> string \<Rightarrow> string \<Rightarrow> string
     \<Rightarrow> (EMistErrorCode \<times> CMistTemplate option \<times> string option \<times> mem) option" where
  "mist_template_from_string m name src begin_marker end_marker = do {
     _ \<leftarrow> check (begin_marker \<noteq> [] \<and> end_marker \<noteq> []);
     (tokens, d, m) \<leftarrow> mist_template_tokenize_string m src begin_marker end_marker;
     (case tokens of
        None \<Rightarrow> Some (MIST_FAILED_TO_LOAD_TEMPLATE, None, d, m)
      | Some tokens \<Rightarrow> do {
          let toks = elems tokens;
          let ntok = length toks;
          _ \<leftarrow> check (ntok \<ge> 1);
          (ec, mt, istart, d, m) \<leftarrow> mist_parse_template (parse_fuel toks) m toks 0 name src;
          _ \<leftarrow> check (istart \<le> ntok);
          (ec, d, m) \<leftarrow>
            (if ec = MIST_OK \<and> istart < ntok then do {
               let t = toks ! istart;
               _ \<leftarrow> check (tok_type t = MTT_ELSE \<or> tok_type t = MTT_ENDIF);
               (d, m) \<leftarrow> parse_error m (if tok_type t = MTT_ELSE then errElseWithoutIf else errEndifWithoutIf)
                         src (tok_beg t);
               Some (MIST_SYNTAX_ERROR, d, m)
             } else Some (ec, d, m));
          if ec \<noteq> MIST_OK then
            (let m = (case mt of None \<Rightarrow> m | Some mt \<Rightarrow> mist_template_destroy m mt);
                 m = free (snd (grar_destroy_with_elements m tokens (Some mist_token_dtor))) in
             Some (MIST_FAILED_TO_LOAD_TEMPLATE, None, d, m))
          else Some (ec, mt, d, free (snd (grar_destroy_with_elements m tokens (Some mist_token_dtor))))
        })
   }"

end
