(* ===== verification/Mist_Eval.thy ===== *)
theory Mist_Eval
  imports Mist_Template
begin

text \<open>
  Evaluation of templates:
  \<^verbatim>\<open>src/snippets/code_generation/mist_gen.simple/src/mist_engine/src/mist_base.c\<close> from
  \<open>mist_template_evaluate\<close> to \<open>mist_copy_placeholder_values\<close>.

  The templates of the group are a list \<open>G\<close>, and a pointer to a template is a \<open>tptr\<close>: \<open>Ref i\<close> points to the
  element \<open>i\<close> of the list, \<open>Own t\<close> to a template that only the placeholder holding the pointer refers to.
  \<open>deref\<close> reads the template a pointer refers to and \<open>store\<close> writes it back; a function that changes a
  template through a pointer returns the list and the pointer. \<open>mist_template_evaluate\<close> sets the flag and
  clears the values in the list before it goes on to the placeholders, and writes the placeholders and
  the values when it is done with them: in between, the other functions only look at the flag and at the
  values.

  The evaluation of a template evaluates those it refers to. The flag is set first, so that
  references in a circle end; the model has fuel for the depth of the calls, and \<open>Mist_Values\<close> shows how
  much is enough.
\<close>

section \<open>Pointers\<close>

type_synonym group = "CMistTemplate list"

fun deref :: "group \<Rightarrow> CMistTemplate tptr \<Rightarrow> CMistTemplate option" where
  "deref G Null = None"
| "deref G (Ref i) = (if i < length G then Some (G ! i) else None)"
| "deref G (Own t) = Some t"

fun store :: "group \<Rightarrow> CMistTemplate tptr \<Rightarrow> CMistTemplate \<Rightarrow> group \<times> CMistTemplate tptr" where
  "store G (Ref i) t = (G[i := t], Ref i)"
| "store G (Own u) t = (G, Own t)"
| "store G Null t = (G, Null)"

text \<open>Assignments to a single member.\<close>

definition with_vals :: "CMistTemplate \<Rightarrow> string grar \<Rightarrow> CMistTemplate" where
  "with_vals mt vals = Template (t_name mt) vals (t_sch mt) (t_ph mt) (t_is_evaluated mt)"

definition with_evaluated :: "CMistTemplate \<Rightarrow> CMistTemplate" where
  "with_evaluated mt = Template (t_name mt) (t_vals mt) (t_sch mt) (t_ph mt) True"

definition with_placeholders :: "CMistTemplate \<Rightarrow> CMistPlaceholder list \<Rightarrow> CMistTemplate" where
  "with_placeholders mt phs =
     Template (t_name mt) (t_vals mt) (t_sch mt) (Grar phs (capacity (t_ph mt))) (t_is_evaluated mt)"

definition clear_values_at ::
  "mem \<Rightarrow> group \<Rightarrow> CMistTemplate tptr \<Rightarrow> (group \<times> CMistTemplate tptr \<times> mem) option" where
  "clear_values_at m G q = do {
     mt \<leftarrow> deref G q;
     (mt, m) \<leftarrow> mist_template_clear_values m mt;
     _ \<leftarrow> check (elems (t_vals mt) = []);
     let (G, q) = store G q mt;
     Some (G, q, m)
   }"

section \<open>Sizes\<close>

text \<open>Sizes are computed modulo $2^{64}$.\<close>

definition mist_placeholder_max_length :: "group \<Rightarrow> CMistPlaceholder \<Rightarrow> nat option" where
  "mist_placeholder_max_length G ph = do {
     tpl \<leftarrow> deref G (p_tpl ph);
     _ \<leftarrow> check (t_is_evaluated tpl);
     let vals = elems (t_vals tpl);
     let nvals = length vals;
     if nvals = 0 then Some 0
     else if p_type ph = MPH_JOIN then do {
       sep \<leftarrow> p_sep ph;
       Some ((grar_string_total_length (t_vals tpl) + (nvals - 1) * length sep) mod SIZE_MODULUS)
     } else Some (foldl (\<lambda>len v. if len < length v then length v else len) 0 vals)
   }"

fun max_length_loop :: "group \<Rightarrow> nat \<Rightarrow> CMistPlaceholder list \<Rightarrow> nat option" where
  "max_length_loop G len [] = Some len"
| "max_length_loop G len (ph # phs) = do {
     n \<leftarrow> mist_placeholder_max_length G ph;
     max_length_loop G ((len + n) mod SIZE_MODULUS) phs
   }"

definition mist_template_max_length :: "group \<Rightarrow> CMistTemplate \<Rightarrow> nat option" where
  "mist_template_max_length G mt = max_length_loop G (grar_string_total_length (t_sch mt)) (elems (t_ph mt))"

fun num_values_loop :: "group \<Rightarrow> nat \<Rightarrow> CMistPlaceholder list \<Rightarrow> nat option" where
  "num_values_loop G num [] = Some num"
| "num_values_loop G num (ph # phs) = do {
     tpl \<leftarrow> deref G (p_tpl ph);
     let nvals = length (elems (t_vals tpl));
     num_values_loop G (if p_type ph \<noteq> MPH_JOIN \<and> num < nvals then nvals else num) phs
   }"

definition mist_template_num_values :: "group \<Rightarrow> CMistTemplate \<Rightarrow> nat option" where
  "mist_template_num_values G mt = num_values_loop G 1 (elems (t_ph mt))"

section \<open>Copying\<close>

text \<open>
  The values under construction: for each its buffer and the current position in it (the elements
  of the array \<open>pos\<close>). Writing past the end of a buffer is undefined (\<open>emit\<close>).
\<close>

type_synonym buffers = "(char list \<times> nat) list"

text \<open>\<open>strncpy\<close> of a C string with its own length, skipped for the empty string.\<close>

definition put :: "char list \<times> nat \<Rightarrow> string \<Rightarrow> (char list \<times> nat) option" where
  "put d s = (if length s \<noteq> 0 then emit d (strncpy_bytes s (length s)) else Some d)"

fun join_loop :: "char list \<times> nat \<Rightarrow> string \<Rightarrow> string list \<Rightarrow> (char list \<times> nat) option" where
  "join_loop d sep [] = Some d"
| "join_loop d sep (v # vs) = do {
     d \<leftarrow> put d sep;
     d \<leftarrow> put d v;
     join_loop d sep vs
   }"

definition mist_placeholder_join_values ::
  "group \<Rightarrow> CMistPlaceholder \<Rightarrow> char list \<times> nat \<Rightarrow> (char list \<times> nat) option" where
  "mist_placeholder_join_values G ph buf = do {
     tpl \<leftarrow> deref G (p_tpl ph);
     _ \<leftarrow> check (p_type ph = MPH_JOIN \<and> \<not> p_is_concat ph);
     sep \<leftarrow> p_sep ph;
     (case elems (t_vals tpl) of
        [] \<Rightarrow> Some buf
      | v # vs \<Rightarrow> do {
          buf \<leftarrow> put buf v;
          join_loop buf sep vs
        })
   }"

definition mist_copy_string :: "buffers \<Rightarrow> string \<Rightarrow> buffers option" where
  "mist_copy_string pos str = do {
     _ \<leftarrow> check (pos \<noteq> []);
     those (map (\<lambda>d. put d str) pos)
   }"

text \<open>
  The loops of \<open>mist_copy_placeholder_values\<close> without join: the first positions get a value each, the
  others the last value (of length \<open>len\<close>).
\<close>

fun copy_each :: "buffers \<Rightarrow> string list \<Rightarrow> (buffers \<times> buffers) option" where
  "copy_each pos [] = Some ([], pos)"
| "copy_each [] (v # vs) = None"
| "copy_each (d # pos) (v # vs) = do {
     d \<leftarrow> put d v;
     (ds, rest) \<leftarrow> copy_each pos vs;
     Some (d # ds, rest)
   }"

definition mist_copy_placeholder_values ::
  "group \<Rightarrow> buffers \<Rightarrow> CMistPlaceholder \<Rightarrow> buffers option" where
  "mist_copy_placeholder_values G pos ph = do {
     _ \<leftarrow> check (pos \<noteq> []);
     tpl \<leftarrow> deref G (p_tpl ph);
     let vals = elems (t_vals tpl);
     if vals = [] then Some pos
     else if p_type ph = MPH_JOIN then do {
       tpos \<leftarrow> mist_placeholder_join_values G ph (hd pos);
       let len = snd tpos - snd (hd pos);
       rest \<leftarrow> (if len > 0
               then those (map (\<lambda>d. emit d (strncpy_bytes (drop (snd (hd pos)) (fst tpos)) len)) (tl pos))
               else Some (tl pos));
       Some (tpos # rest)
     } else do {
       _ \<leftarrow> check (length pos \<ge> length vals);
       (first, rest) \<leftarrow> copy_each pos vals;
       rest \<leftarrow> (if length (last vals) > 0 then those (map (\<lambda>d. put d (last vals)) rest) else Some rest);
       Some (first @ rest)
     }
   }"

section \<open>Construction of the values\<close>

text \<open>
  The second half of \<open>mist_template_evaluate\<close>. The temporary array \<open>tga\<close> holds the buffers, which are
  named by their index. Where a block for a buffer is refused, \<open>tga\<close> and its buffers are left as they are, and
  only \<open>pos\<close> is released.
\<close>

fun alloc_buffers :: "mem \<Rightarrow> nat grar \<Rightarrow> nat \<Rightarrow> nat \<Rightarrow> nat \<Rightarrow> (bool \<times> nat grar \<times> mem) option" where
  "alloc_buffers m tga i 0 bytes = Some (True, tga, m)"
| "alloc_buffers m tga i (Suc n) bytes = (case malloc m bytes of (b, m) \<Rightarrow>
     if \<not> b then Some (False, tga, free m)
     else do {
       (r, tga, m) \<leftarrow> grar_add_element m tga i;
       if \<not> r then do {
         let m = free (free m);
         let (tga, m) = grar_destroy_with_elements m tga None;
         Some (False, tga, m)
       } else alloc_buffers m tga (i + 1) n bytes
     })"

fun copy_loop :: "group \<Rightarrow> buffers \<Rightarrow> CMistPlaceholder list \<Rightarrow> string list \<Rightarrow> buffers option" where
  "copy_loop G pos [] schs = Some pos"
| "copy_loop G pos (ph # phs) [] = None"
| "copy_loop G pos (ph # phs) (s # schs) = do {
     pos \<leftarrow> mist_copy_placeholder_values G pos ph;
     pos \<leftarrow> mist_copy_string pos s;
     copy_loop G pos phs schs
   }"

definition finish_values :: "buffers \<Rightarrow> string list option" where
  "finish_values pos = those (map (\<lambda>(b, p). do { b \<leftarrow> write_at b p [NUL]; string_at b 0 }) pos)"

definition construct_values ::
  "mem \<Rightarrow> group \<Rightarrow> CMistTemplate \<Rightarrow> (EMistErrorCode \<times> CMistTemplate \<times> mem) option" where
  "construct_values m G mt = do {
     nvals \<leftarrow> mist_template_num_values G mt;
     max_len \<leftarrow> mist_template_max_length G mt;
     _ \<leftarrow> check (nvals \<noteq> 0);
     (case malloc m (nvals * 8 mod SIZE_MODULUS) of (b, m) \<Rightarrow>
        if \<not> b then Some (MIST_OUT_OF_MEMORY, mt, m)
        else (case grar_create m of
            (None, m) \<Rightarrow> Some (MIST_OUT_OF_MEMORY, mt, free m)
          | (Some tga, m) \<Rightarrow> do {
              let bytes = (max_len + 1) mod SIZE_MODULUS;
              (r, tga, m) \<leftarrow> alloc_buffers m tga 0 nvals bytes;
              if \<not> r then Some (MIST_OUT_OF_MEMORY, mt, m)
              else do {
                let pos = map (\<lambda>i. (fresh m 0 bytes, 0)) (elems tga);
                (case elems (t_sch mt) of
                   [] \<Rightarrow> None
                 | s # schs \<Rightarrow> do {
                     pos \<leftarrow> mist_copy_string pos s;
                     pos \<leftarrow> copy_loop G pos (elems (t_ph mt)) schs;
                     vals \<leftarrow> finish_values pos;
                     let (vals, old) = grar_swap (t_vals mt) (Grar vals (capacity tga));
                     _ \<leftarrow> check (elems old = []);
                     let m = snd (grar_destroy (free m) old);
                     Some (MIST_OK, with_vals mt vals, m)
                   })
              }
            }))
   }"

section \<open>Conditionals\<close>

text \<open>Evaluation of a template by its address; the code that is not yet defined is an argument.\<close>

type_synonym evaluator =
  "mem \<Rightarrow> group \<Rightarrow> CMistTemplate tptr \<Rightarrow> (EMistErrorCode \<times> group \<times> CMistTemplate tptr \<times> mem) option"

text \<open>Add a copy of each of the strings to the results, stop at the first failure.\<close>

fun add_copies :: "mem \<Rightarrow> CMistTemplate \<Rightarrow> string list \<Rightarrow> (EMistErrorCode \<times> CMistTemplate \<times> mem) option" where
  "add_copies m mt [] = Some (MIST_OK, mt, m)"
| "add_copies m mt (v # vs) = do {
     (ec, mt, m) \<leftarrow> mist_template_add_value m mt v;
     if ec \<noteq> MIST_OK then Some (ec, mt, m) else add_copies m mt vs
   }"

text \<open>
  The first pass of a conditional that is not a concat-expression: evaluate the branches the
  conditions select; \<open>k\<close> conditions are left.
\<close>

primrec select_branches ::
  "evaluator \<Rightarrow> nat \<Rightarrow> mem \<Rightarrow> group \<Rightarrow> CMistTemplate tptr \<Rightarrow> CMistTemplate tptr \<Rightarrow> CMistTemplate tptr \<Rightarrow> nat \<Rightarrow> nat
     \<Rightarrow> (EMistErrorCode \<times> group \<times> CMistTemplate tptr \<times> CMistTemplate tptr \<times> nat \<times> mem) option" where
  "select_branches ev 0 m G tpl_cond tpl_then tpl_else c ntotal = Some (MIST_OK, G, tpl_then, tpl_else, ntotal, m)"
| "select_branches ev (Suc k) m G tpl_cond tpl_then tpl_else c ntotal = do {
     cond \<leftarrow> deref G tpl_cond;
     _ \<leftarrow> check (c < length (elems (t_vals cond)));
     let cexpr = (elems (t_vals cond) ! c \<noteq> []);
     (ec, G, branch, m) \<leftarrow> ev m G (if cexpr then tpl_then else tpl_else);
     let tpl_then = (if cexpr then branch else tpl_then);
     let tpl_else = (if cexpr then tpl_else else branch);
     if ec \<noteq> MIST_OK then Some (ec, G, tpl_then, tpl_else, ntotal, m)
     else do {
       bt \<leftarrow> deref G branch;
       let nvals = length (elems (t_vals bt));
       select_branches ev k m G tpl_cond tpl_then tpl_else (c + 1) (if nvals > ntotal then nvals else ntotal)
     }
   }"

text \<open>The second pass: the values of the conditional; \<open>k\<close> values are left, \<open>i\<close> is the number of the next one.\<close>

primrec cond_values ::
  "nat \<Rightarrow> mem \<Rightarrow> CMistTemplate \<Rightarrow> string list \<Rightarrow> CMistTemplate \<Rightarrow> CMistTemplate \<Rightarrow> nat \<Rightarrow> nat \<Rightarrow> bool
     \<Rightarrow> (EMistErrorCode \<times> CMistTemplate \<times> mem) option" where
  "cond_values 0 m mt cond tpl_then tpl_else i c cexpr = Some (MIST_OK, mt, m)"
| "cond_values (Suc k) m mt cond tpl_then tpl_else i c cexpr = do {
     let branch = (if cexpr then tpl_then else tpl_else);
     _ \<leftarrow> check (t_is_evaluated branch);
     let nvals = length (elems (t_vals branch));
     _ \<leftarrow> check (nvals \<ge> 1);
     let elem = (if i < nvals then i else nvals - 1);
     (ec, mt, m) \<leftarrow> mist_template_add_value m mt (elems (t_vals branch) ! elem);
     if ec \<noteq> MIST_OK then Some (ec, mt, m)
     else (let (c, cexpr) = (if c + 1 < length cond then (c + 1, cond ! (c + 1) \<noteq> []) else (c, cexpr)) in
       cond_values k m mt cond tpl_then tpl_else (i + 1) c cexpr)
   }"

text \<open>
  The rest of a conditional once the condition has been evaluated; \<open>tpl\<close> is where the results go.
\<close>

type_synonym cond_result =
  "EMistErrorCode \<times> group \<times> CMistTemplate \<times> CMistTemplate tptr \<times> CMistTemplate tptr \<times> mem"

definition evaluate_concat ::
  "evaluator \<Rightarrow> mem \<Rightarrow> group \<Rightarrow> string list \<Rightarrow> CMistTemplate \<Rightarrow> CMistTemplate tptr \<Rightarrow> CMistTemplate tptr \<Rightarrow> cond_result option" where
  "evaluate_concat ev m G cond mt tpl_then tpl_else = do {
     let cexpr = (\<exists>v \<in> set cond. v \<noteq> []);
     (ec, G, branch, m) \<leftarrow> ev m G (if cexpr then tpl_then else tpl_else);
     let tpl_then = (if cexpr then branch else tpl_then);
     let tpl_else = (if cexpr then tpl_else else branch);
     if ec \<noteq> MIST_OK then Some (ec, G, mt, tpl_then, tpl_else, m)
     else do {
       bt \<leftarrow> deref G branch;
       _ \<leftarrow> check (length (elems (t_vals bt)) \<ge> 1);
       (ec, mt, m) \<leftarrow> add_copies m mt (elems (t_vals bt));
       Some (ec, G, mt, tpl_then, tpl_else, m)
     }
   }"

definition evaluate_each ::
  "evaluator \<Rightarrow> mem \<Rightarrow> group \<Rightarrow> CMistTemplate tptr \<Rightarrow> CMistTemplate \<Rightarrow> CMistTemplate tptr \<Rightarrow> CMistTemplate tptr \<Rightarrow> cond_result option" where
  "evaluate_each ev m G tpl_cond mt tpl_then tpl_else = do {
     ct \<leftarrow> deref G tpl_cond;
     let ncond = length (elems (t_vals ct));
     (ec, G, tpl_then, tpl_else, ntotal, m) \<leftarrow> select_branches ev ncond m G tpl_cond tpl_then tpl_else 0 ncond;
     if ec \<noteq> MIST_OK then Some (ec, G, mt, tpl_then, tpl_else, m)
     else do {
       _ \<leftarrow> check (ntotal \<ge> 1);
       ct \<leftarrow> deref G tpl_cond;
       tt \<leftarrow> deref G tpl_then;
       te \<leftarrow> deref G tpl_else;
       _ \<leftarrow> check (elems (t_vals ct) \<noteq> []);
       (ec, mt, m) \<leftarrow> cond_values ntotal m mt (elems (t_vals ct)) tt te 0 0 (hd (elems (t_vals ct)) \<noteq> []);
       Some (ec, G, mt, tpl_then, tpl_else, m)
     }
   }"

definition mist_placeholder_evaluate ::
  "evaluator \<Rightarrow> mem \<Rightarrow> group \<Rightarrow> CMistPlaceholder \<Rightarrow> (EMistErrorCode \<times> group \<times> CMistPlaceholder \<times> mem) option" where
  "mist_placeholder_evaluate ev m G ph = (case ph of
     Placeholder type name tpl sep tpl_cond tpl_then tpl_else is_concat \<Rightarrow> do {
       _ \<leftarrow> check (tpl \<noteq> Null);
       if type = MPH_COND then do {
         _ \<leftarrow> check (tpl_cond \<noteq> Null \<and> tpl_then \<noteq> Null \<and> tpl_else \<noteq> Null);
         (G, tpl, m) \<leftarrow> clear_values_at m G tpl;
         (G, tpl_then, m) \<leftarrow> clear_values_at m G tpl_then;
         (G, tpl_else, m) \<leftarrow> clear_values_at m G tpl_else;
         (ec, G, tpl_cond, m) \<leftarrow> ev m G tpl_cond;
         if ec \<noteq> MIST_OK then Some (ec, G, Placeholder type name tpl sep tpl_cond tpl_then tpl_else is_concat, m)
         else do {
           ct \<leftarrow> deref G tpl_cond;
           _ \<leftarrow> check (length (elems (t_vals ct)) \<ge> 1);
           mt \<leftarrow> deref G tpl;
           (ec, G, mt, tpl_then, tpl_else, m) \<leftarrow>
             (if is_concat then evaluate_concat ev m G (elems (t_vals ct)) mt tpl_then tpl_else
              else evaluate_each ev m G tpl_cond mt tpl_then tpl_else);
           let (G, tpl) = store G tpl (if ec = MIST_OK then with_evaluated mt else mt);
           Some (ec, G, Placeholder type name tpl sep tpl_cond tpl_then tpl_else is_concat, m)
         }
       } else do {
         (ec, G, tpl, m) \<leftarrow> ev m G tpl;
         Some (ec, G, Placeholder type name tpl sep tpl_cond tpl_then tpl_else is_concat, m)
       }
     })"

section \<open>Templates\<close>

text \<open>A template without chunks is an attribute; without a value it gets the empty string as its only one.\<close>

definition evaluate_attribute :: "mem \<Rightarrow> CMistTemplate \<Rightarrow> (EMistErrorCode \<times> CMistTemplate \<times> mem) option" where
  "evaluate_attribute m mt =
     (if elems (t_vals mt) = [] then do {
        (ec, mt, m) \<leftarrow> mist_template_add_value m mt [];
        if ec \<noteq> MIST_OK then Some (ec, mt, m) else Some (MIST_OK, with_evaluated mt, m)
      } else Some (MIST_OK, with_evaluated mt, m))"

text \<open>The first pass over the placeholders; at an error the rest of them stay as they are.\<close>

fun evaluate_placeholders ::
  "evaluator \<Rightarrow> mem \<Rightarrow> group \<Rightarrow> CMistPlaceholder list \<Rightarrow> (EMistErrorCode \<times> group \<times> CMistPlaceholder list \<times> mem) option" where
  "evaluate_placeholders ev m G [] = Some (MIST_OK, G, [], m)"
| "evaluate_placeholders ev m G (ph # phs) = do {
     (ec, G, ph, m) \<leftarrow> mist_placeholder_evaluate ev m G ph;
     if ec \<noteq> MIST_OK then Some (ec, G, ph # phs, m)
     else do {
       (ec, G, phs, m) \<leftarrow> evaluate_placeholders ev m G phs;
       Some (ec, G, ph # phs, m)
     }
   }"

primrec mist_template_evaluate :: "nat \<Rightarrow> evaluator" where
  "mist_template_evaluate 0 m G q = None"
| "mist_template_evaluate (Suc n) m G q = do {
     mt \<leftarrow> deref G q;
     if t_is_evaluated mt then Some (MIST_OK, G, q, m)
     else if elems (t_sch mt) = [] then do {
       _ \<leftarrow> check (elems (t_ph mt) = []);
       (ec, mt, m) \<leftarrow> evaluate_attribute m mt;
       let (G, q) = store G q mt;
       Some (ec, G, q, m)
     } else do {
       _ \<leftarrow> check (length (elems (t_sch mt)) = length (elems (t_ph mt)) + 1);
       (mt, m) \<leftarrow> mist_template_clear_values m mt;
       let mt = with_evaluated mt;
       let (G, q) = store G q mt;
       (ec, G, phs, m) \<leftarrow> evaluate_placeholders (mist_template_evaluate n) m G (elems (t_ph mt));
       let mt = with_placeholders mt phs;
       let (G, q) = store G q mt;
       if ec \<noteq> MIST_OK then Some (ec, G, q, m)
       else do {
         (ec, mt, m) \<leftarrow> construct_values m G mt;
         let (G, q) = store G q mt;
         Some (ec, G, q, m)
       }
     }
   }"

end
