(* ===== verification/Smap.thy ===== *)
theory Smap
  imports Grar
begin

text \<open>
  String maps: \<^verbatim>\<open>src/snippets/code_generation/mist_gen.simple/src/mist_engine/src/smap.c\<close> and
  \<^verbatim>\<open>smap.h\<close>. A map is a growing array of (key, value) pairs that is sorted by key when a lookup
  needs it; \<open>is_sorted\<close> is the field \<open>sorted\<close> of the source. Several pairs may have the same key.

  Every pair owns three blocks (the structure and its two strings), the map owns its structure
  and the block of the array.
\<close>

section \<open>Data\<close>

record TStringPair =
  sp_key :: string
  sp_val :: string

record CStringMap =
  container :: "TStringPair grar"
  is_sorted :: bool

definition SIZEOF_TStringPair :: nat where
  "SIZEOF_TStringPair = 16"

definition SIZEOF_CStringMap :: nat where
  "SIZEOF_CStringMap = 32"

section \<open>Operations\<close>

definition string_pair_dtor :: "mem \<Rightarrow> TStringPair \<Rightarrow> mem" where
  "string_pair_dtor m doomed = free (free (free m))"

text \<open>Equal pointers, which the source tests first, point to equal keys.\<close>

definition string_pair_compare :: "TStringPair \<Rightarrow> TStringPair \<Rightarrow> int" where
  "string_pair_compare l r =
     (if l = r \<or> sp_key l = sp_key r then 0 else strcmp (sp_key l) (sp_key r))"

text \<open>
  The comparator for sorting, on the addresses of two array slots and the pairs they refer to.
  It breaks ties by the addresses of the slots in the array that is being rearranged, so it fixes
  the order of the keys only: nothing is known of the order of pairs with equal keys.
\<close>

definition string_pair_compare_sort :: "TStringPair slot \<Rightarrow> TStringPair slot \<Rightarrow> int" where
  "string_pair_compare_sort lhs rhs =
     (let res = string_pair_compare (snd lhs) (snd rhs) in
      if res = 0 then (if fst lhs = fst rhs then 0 else if fst lhs < fst rhs then - 1 else 1)
      else res)"

definition smap_create :: "mem \<Rightarrow> CStringMap option \<times> mem" where
  "smap_create m = (case malloc m SIZEOF_CStringMap of (b, m) \<Rightarrow>
     if \<not> b then (None, m)
     else (case grar_create m of
         (None, m) \<Rightarrow> (None, free m)
       | (Some g, m) \<Rightarrow> (Some \<lparr>container = g, is_sorted = False\<rparr>, m)))"

definition smap_add_element ::
  "mem \<Rightarrow> CStringMap \<Rightarrow> string \<Rightarrow> string \<Rightarrow> (bool \<times> CStringMap \<times> mem) option" where
  "smap_add_element m smap key val = (case malloc m SIZEOF_TStringPair of (b, m) \<Rightarrow>
     if \<not> b then Some (False, smap, m)
     else (case strdup m key of
         (None, m) \<Rightarrow> Some (False, smap, free m)
       | (Some k, m) \<Rightarrow>
         (case strdup m val of
             (None, m) \<Rightarrow> Some (False, smap, free (free m))
           | (Some v, m) \<Rightarrow> do {
               (res, g, m) \<leftarrow> grar_add_element m (container smap) \<lparr>sp_key = k, sp_val = v\<rparr>;
               if \<not> res
               then Some (False, smap\<lparr>container := g\<rparr>, string_pair_dtor m \<lparr>sp_key = k, sp_val = v\<rparr>)
               else Some (True, smap\<lparr>container := g, is_sorted := False\<rparr>, m)
             })))"

definition smap_destroy :: "mem \<Rightarrow> CStringMap \<Rightarrow> mem" where
  "smap_destroy m smap =
     free (snd (grar_destroy_with_elements m (container smap) (Some string_pair_dtor)))"

text \<open>The test at the head of the operations that need a sorted container.\<close>

definition smap_sort :: "TStringPair qsort \<Rightarrow> CStringMap \<Rightarrow> CStringMap" where
  "smap_sort qs smap =
     (if is_sorted smap then smap
      else \<lparr>container = grar_sort qs (container smap) string_pair_compare_sort, is_sorted = True\<rparr>)"

definition smap_lookup ::
  "TStringPair qsort \<Rightarrow> TStringPair bsearch \<Rightarrow> CStringMap \<Rightarrow> string \<Rightarrow> string option \<times> CStringMap" where
  "smap_lookup qs bs smap skey =
     (let smap = smap_sort qs smap; base = elems (container smap) in
      (case bs (string_pair_compare \<lparr>sp_key = skey, sp_val = []\<rparr>) base of
         None \<Rightarrow> (None, smap)
       | Some p \<Rightarrow> (Some (sp_val (base ! p)), smap)))"

definition smap_clear :: "mem \<Rightarrow> CStringMap \<Rightarrow> (CStringMap \<times> mem) option" where
  "smap_clear m smap = do {
     let m = foldl string_pair_dtor m (elems (container smap));
     g \<leftarrow> grar_clear (container smap);
     Some (\<lparr>container = g, is_sorted = False\<rparr>, m)
   }"

definition smap_get_size :: "CStringMap \<Rightarrow> nat" where
  "smap_get_size smap = grar_get_size (container smap)"

definition smap_as_array :: "CStringMap \<Rightarrow> TStringPair list" where
  "smap_as_array smap = elems (container smap)"

text \<open>The loop over the sorted array: the first key equal to its predecessor.\<close>

fun first_repeated_key :: "TStringPair list \<Rightarrow> string option" where
  "first_repeated_key (p # q # ps) =
     (if strcmp (sp_key q) (sp_key p) = 0 then Some (sp_key q) else first_repeated_key (q # ps))"
| "first_repeated_key _ = None"

definition smap_check_duplicate_keys ::
  "TStringPair qsort \<Rightarrow> CStringMap \<Rightarrow> string option \<times> CStringMap" where
  "smap_check_duplicate_keys qs smap =
     (let smap = smap_sort qs smap in (first_repeated_key (elems (container smap)), smap))"

definition smap_set_value ::
  "mem \<Rightarrow> TStringPair qsort \<Rightarrow> TStringPair bsearch \<Rightarrow> CStringMap \<Rightarrow> string \<Rightarrow> string
     \<Rightarrow> (bool \<times> CStringMap \<times> mem) option" where
  "smap_set_value m qs bs smap key val =
     (let smap = smap_sort qs smap; base = elems (container smap) in
      case strdup m key of
        (None, m) \<Rightarrow> Some (False, smap, m)
      | (Some k, m) \<Rightarrow>
        (let p = bs (string_pair_compare \<lparr>sp_key = k, sp_val = []\<rparr>) base; m = free m in
         case p of
           None \<Rightarrow> smap_add_element m smap key val
         | Some i \<Rightarrow> do {
             _ \<leftarrow> check (i < length base \<and> strcmp (sp_key (base ! i)) key = 0);
             (case strdup m val of
                (None, m) \<Rightarrow> Some (False, smap, m)
              | (Some v, m) \<Rightarrow>
                Some (True,
                  smap\<lparr>container := Grar (base[i := (base ! i)\<lparr>sp_val := v\<rparr>]) (capacity (container smap))\<rparr>,
                  free m))
           }))"

text \<open>
  The merge loop of \<open>smap_update\<close>. \<open>old\<close> and \<open>upd\<close> are the elements of the two arrays from the
  indices \<open>i\<close> and \<open>k\<close> on; the slots before them have been set to NULL. The result is the array
  \<open>ga_res\<close>, or \<open>None\<close> where an addition failed and \<open>ga_res\<close> was destroyed.
\<close>

function smap_update_loop ::
  "mem \<Rightarrow> TStringPair list \<Rightarrow> TStringPair list \<Rightarrow> TStringPair grar
     \<Rightarrow> (TStringPair grar option \<times> mem) option" where
  "smap_update_loop m old [] ga_res = Some (Some ga_res, m)"
| "smap_update_loop m old (sp # upd) ga_res = do {
     let before = takeWhile (\<lambda>p. string_pair_compare p sp < 0) old;
     let old = drop (length before) old;
     (r, ga_res, m) \<leftarrow> grar_add_all m ga_res before;
     if \<not> r then Some (None, snd (grar_destroy m ga_res)) else do {
     let same = takeWhile (\<lambda>p. string_pair_compare p sp = 0) old;
     let old = drop (length same) old;
     let m = foldl string_pair_dtor m same;
     let new = takeWhile (\<lambda>p. string_pair_compare p sp = 0) (sp # upd);
     let upd = drop (length new) (sp # upd);
     (r, ga_res, m) \<leftarrow> grar_add_all m ga_res new;
     if \<not> r then Some (None, snd (grar_destroy m ga_res)) else
     if upd = [] then do {
       (r, ga_res, m) \<leftarrow> grar_add_all m ga_res old;
       if \<not> r then Some (None, snd (grar_destroy m ga_res)) else Some (Some ga_res, m)
     } else if old = [] then do {
       (r, ga_res, m) \<leftarrow> grar_add_all m ga_res upd;
       if \<not> r then Some (None, snd (grar_destroy m ga_res)) else Some (Some ga_res, m)
     } else smap_update_loop m old upd ga_res
     }
   }"
  by pat_completeness auto
termination
  by (relation "measure (\<lambda>(m, old, upd, g). length upd)") (auto simp: string_pair_compare_def)

text \<open>
  After a failure inside the loop elements of both maps have been moved away and their slots are
  NULL (\<open>Upd_unusable\<close>); after an earlier failure the maps are intact.
\<close>

datatype upd_result = Upd_ok CStringMap CStringMap | Upd_failed CStringMap CStringMap | Upd_unusable

definition smap_update ::
  "mem \<Rightarrow> TStringPair qsort \<Rightarrow> CStringMap \<Rightarrow> CStringMap \<Rightarrow> (upd_result \<times> mem) option" where
  "smap_update m qs smap upd =
     (let smap = smap_sort qs smap; upd = smap_sort qs upd;
          old_size = grar_get_size (container smap); upd_size = grar_get_size (container upd) in
      if upd_size = 0 then Some (Upd_ok smap upd, m)
      else if old_size = 0 then
        (case grar_swap (container smap) (container upd) of (a, b) \<Rightarrow>
           Some (Upd_ok (smap\<lparr>container := a\<rparr>) (upd\<lparr>container := b\<rparr>), m))
      else case grar_create m of
        (None, m) \<Rightarrow> Some (Upd_failed smap upd, m)
      | (Some ga_res, m) \<Rightarrow> do {
          (r, ga_res, m) \<leftarrow> grar_reserve m ga_res (old_size + upd_size);
          if \<not> r then Some (Upd_failed smap upd, snd (grar_destroy m ga_res)) else do {
          (res, m) \<leftarrow> smap_update_loop m (elems (container smap)) (elems (container upd)) ga_res;
          (case res of
             None \<Rightarrow> Some (Upd_unusable, m)
           | Some ga_res \<Rightarrow> do {
               ga_old \<leftarrow> grar_clear (container smap);
               ga_upd \<leftarrow> grar_clear (container upd);
               (case grar_swap ga_old ga_res of (ga_old, ga_res) \<Rightarrow>
                  Some (Upd_ok (smap\<lparr>container := ga_old\<rparr>) (upd\<lparr>container := ga_upd\<rparr>),
                        snd (grar_destroy m ga_res)))
             })
          }
        })"

section \<open>Invariant, abstraction and what a map owns\<close>

definition smap_keys :: "CStringMap \<Rightarrow> string list" where
  "smap_keys smap = map sp_key (elems (container smap))"

definition smap_inv :: "CStringMap \<Rightarrow> bool" where
  "smap_inv smap \<longleftrightarrow> grar_inv (container smap) \<and> (is_sorted smap \<longrightarrow> sorted (smap_keys smap))"

text \<open>The finite map a string map without repeated keys stands for.\<close>

definition smap_map :: "CStringMap \<Rightarrow> string \<Rightarrow> string option" where
  "smap_map smap = map_of (map (\<lambda>p. (sp_key p, sp_val p)) (elems (container smap)))"

definition smap_blocks :: "CStringMap \<Rightarrow> int" where
  "smap_blocks smap = 1 + grar_blocks (container smap) + 3 * int (length (elems (container smap)))"

section \<open>Comparators\<close>

lemma string_pair_compare_eq: "string_pair_compare = (\<lambda>l r. strcmp (sp_key l) (sp_key r))"
  by (auto simp: string_pair_compare_def fun_eq_iff)

lemmas smap_defs = smap_inv_def smap_keys_def smap_map_def smap_blocks_def

lemma smap_map_Some_iff:
  "distinct (smap_keys sm) \<Longrightarrow>
     smap_map sm k = Some v \<longleftrightarrow> (\<exists>p \<in> set (elems (container sm)). sp_key p = k \<and> sp_val p = v)"
  by (auto simp: smap_defs comp_def map_of_eq_Some_iff image_iff)

lemma smap_map_cong:
  assumes "distinct (smap_keys sm)" and "distinct (smap_keys sm')"
    and "set (elems (container sm)) = set (elems (container sm'))"
  shows "smap_map sm = smap_map sm'"
proof (rule ext)
  fix k
  show "smap_map sm k = smap_map sm' k"
    using smap_map_Some_iff [OF assms(1), of k] smap_map_Some_iff [OF assms(2), of k] assms(3)
    by (metis option.exhaust)
qed

lemma smap_keys_mset:
  "mset (elems (container sm)) = mset (elems (container sm')) \<Longrightarrow>
     mset (smap_keys sm) = mset (smap_keys sm')"
  by (simp add: smap_keys_def)

lemma distinct_keys_mset:
  "mset (elems (container sm)) = mset (elems (container sm')) \<Longrightarrow>
     distinct (smap_keys sm) = distinct (smap_keys sm')"
  by (metis smap_keys_mset mset_eq_imp_distinct_iff)

lemma map_of_update_at:
  "i < length ps \<Longrightarrow> distinct (map sp_key ps) \<Longrightarrow>
     map_of (map (\<lambda>p. (sp_key p, sp_val p)) (ps[i := (ps ! i)\<lparr>sp_val := v\<rparr>])) a =
       (if a = sp_key (ps ! i) then Some v else map_of (map (\<lambda>p. (sp_key p, sp_val p)) ps) a)"
proof (induction ps arbitrary: i)
  case (Cons p ps)
  have "sp_key (ps ! j) \<noteq> sp_key p" if "j < length ps" for j
    using Cons.prems imageI [OF nth_mem [OF that], of sp_key] by auto
  then show ?case using Cons by (cases i) auto
qed simp

lemma keys_update_at:
  "map sp_key (ps[i := (ps ! i)\<lparr>sp_val := v\<rparr>]) = map sp_key ps"
  by (induction ps arbitrary: i) (auto split: nat.splits)

section \<open>Creation, addition, destruction\<close>

lemma foldl_string_pair_dtor [simp]:
  "live (foldl string_pair_dtor m ps) = live m - 3 * int (length ps)"
  "junk (foldl string_pair_dtor m ps) = junk m"
  by (induction ps arbitrary: m) (simp_all add: string_pair_dtor_def)

lemma smap_create_effect:
  "smap_create m = (r, m') \<Longrightarrow>
     (case r of None \<Rightarrow> live m' = live m
      | Some sm \<Rightarrow> smap_inv sm \<and> elems (container sm) = [] \<and> live m' = live m + smap_blocks sm)"
  by (auto simp: smap_create_def smap_defs split: prod.splits if_splits option.splits
      dest!: malloc_effect grar_create_effect)

lemma smap_add_element_returns:
  assumes "smap_inv sm"
  shows "returns (smap_add_element m sm k v)
    (\<lambda>(r, sm', m'). smap_inv sm' \<and> live m' - live m = smap_blocks sm' - smap_blocks sm
       \<and> (if r then elems (container sm') = elems (container sm) @ [\<lparr>sp_key = k, sp_val = v\<rparr>]
          else sm' = sm))"
proof -
  have inv: "grar_inv (container sm)" using assms by (simp add: smap_inv_def)
  show ?thesis
    unfolding smap_add_element_def string_pair_dtor_def
    using assms
    by (auto split: prod.splits option.splits simp: smap_defs
        dest!: malloc_effect strdup_effect
        intro!: returns_mono [OF grar_add_element_returns [OF inv]])
qed

lemma smap_clear_effect:
  "smap_inv sm \<Longrightarrow> returns (smap_clear m sm)
     (\<lambda>(sm', m'). smap_inv sm' \<and> elems (container sm') = []
        \<and> live m' - live m = smap_blocks sm' - smap_blocks sm)"
  by (simp add: smap_clear_def grar_clear_inv smap_defs)

lemma smap_destroy_effect: "live (smap_destroy m sm) = live m - smap_blocks sm"
  using grar_destroy_with_elements_effect [of string_pair_dtor "\<lambda>_. 3" m "container sm"]
  by (simp add: smap_destroy_def smap_defs string_pair_dtor_def sum_list_triv)

text \<open>With memory to spare, an addition succeeds.\<close>

lemma smap_add_element_enough:
  assumes "smap_inv sm"
  shows "returns (smap_add_element m sm k v) (\<lambda>(r, sm', m'). never_fails m \<and> small (elems (container sm)) \<and> small k \<and> small v \<longrightarrow> r \<and> never_fails m')"
proof -
  have inv: "grar_inv (container sm)" using assms by (simp add: smap_inv_def)
  obtain b m1 where 1: "malloc m SIZEOF_TStringPair = (b, m1)" by fastforce
  obtain dk m2 where 2: "strdup m1 k = (dk, m2)" by fastforce
  obtain dv m3 where 3: "strdup m2 v = (dv, m3)" by fastforce
  have nf: "never_fails m \<Longrightarrow> b \<and> never_fails m1" "never_fails m1 \<Longrightarrow> small k \<Longrightarrow> dk = Some k \<and> never_fails m2" "never_fails m2 \<Longrightarrow> small v \<Longrightarrow> dv = Some v \<and> never_fails m3"
    using malloc_never_fails [OF _ _ 1] strdup_never_fails [OF _ _ 2] strdup_never_fails [OF _ _ 3]
    by (auto simp: SIZEOF_TStringPair_def PTRDIFF_MAX_def small_def)
  show ?thesis
    using 1 2 3 nf unfolding smap_add_element_def
    by (auto split: option.split intro!: returns_mono [OF grar_add_element_inv [OF inv]])
qed

section \<open>Sorting, lookup and update under the promises of the C library\<close>

locale smap_libc = libc_search qs bs for qs :: "TStringPair qsort" and bs :: "TStringPair bsearch"
begin

lemma pair_comparator: "orders_by string_pair_compare_sort (\<lambda>l r. strcmp (sp_key l) (sp_key r))"
  using strcmp_key_consistent [of sp_key]
  by (simp add: orders_by_def string_pair_compare_sort_def string_pair_compare_eq)

lemma smap_sort_mset: "mset (elems (container (smap_sort qs sm))) = mset (elems (container sm))"
  by (simp add: smap_sort_def grar_sort_def qsort_mset [OF pair_comparator])

lemma smap_sort_inv:
  assumes "smap_inv sm"
  shows "smap_inv (smap_sort qs sm)" and "is_sorted (smap_sort qs sm)"
    and "sorted (smap_keys (smap_sort qs sm))"
  using assms qsort_by_key_sorted [OF pair_comparator] qsort_length [OF pair_comparator]
  by (simp_all add: smap_sort_def grar_sort_def smap_defs grar_inv_def)

lemma smap_sort_blocks: "smap_blocks (smap_sort qs sm) = smap_blocks sm"
  by (simp add: smap_sort_def grar_sort_def smap_defs grar_blocks_def qsort_length [OF pair_comparator])

lemma smap_sort_distinct: "distinct (smap_keys (smap_sort qs sm)) = distinct (smap_keys sm)"
  by (rule distinct_keys_mset) (rule smap_sort_mset)

lemma smap_sort_set: "set (elems (container (smap_sort qs sm))) = set (elems (container sm))"
  by (metis smap_sort_mset set_mset_mset)

lemma smap_sort_map:
  assumes "distinct (smap_keys sm)"
  shows "smap_map (smap_sort qs sm) = smap_map sm"
  by (rule smap_map_cong) (simp_all add: assms smap_sort_distinct smap_sort_set)

text \<open>The search in the sorted container.\<close>

lemma smap_search:
  assumes "smap_inv sm"
  shows "case bs (string_pair_compare \<lparr>sp_key = k, sp_val = w\<rparr>) (elems (container (smap_sort qs sm))) of
           None \<Rightarrow> k \<notin> set (smap_keys sm)
         | Some i \<Rightarrow> i < length (elems (container (smap_sort qs sm)))
             \<and> sp_key (elems (container (smap_sort qs sm)) ! i) = k"
proof -
  have "sorted (map sp_key (elems (container (smap_sort qs sm))))"
    using smap_sort_inv(3) [OF assms] by (simp add: smap_keys_def)
  from find_by_key [OF this, of k] show ?thesis
    by (auto simp: string_pair_compare_eq smap_keys_def smap_sort_set split: option.splits)
qed

lemma smap_lookup_any:
  assumes "smap_inv sm" and "smap_lookup qs bs sm k = (r, sm')"
  shows "sm' = smap_sort qs sm"
    and "case r of None \<Rightarrow> k \<notin> set (smap_keys sm)
         | Some v \<Rightarrow> \<exists>p \<in> set (elems (container sm)). sp_key p = k \<and> sp_val p = v"
proof -
  show "sm' = smap_sort qs sm"
    using assms(2) by (auto simp: smap_lookup_def Let_def split: option.splits)
  show "case r of None \<Rightarrow> k \<notin> set (smap_keys sm)
        | Some v \<Rightarrow> \<exists>p \<in> set (elems (container sm)). sp_key p = k \<and> sp_val p = v"
  proof (cases "bs (string_pair_compare \<lparr>sp_key = k, sp_val = []\<rparr>) (elems (container (smap_sort qs sm)))")
    case None
    then show ?thesis
      using assms(2) smap_search [OF assms(1), of k "[]"] by (auto simp: smap_lookup_def Let_def)
  next
    case (Some i)
    let ?b = "elems (container (smap_sort qs sm))"
    have i: "i < length ?b" "sp_key (?b ! i) = k" and r: "r = Some (sp_val (?b ! i))"
      using Some assms(2) smap_search [OF assms(1), of k "[]"] by (auto simp: smap_lookup_def Let_def)
    then show ?thesis using nth_mem [OF i(1)] by (auto simp: smap_sort_set)
  qed
qed

lemma smap_lookup_map:
  assumes "smap_inv sm" and "distinct (smap_keys sm)"
  shows "fst (smap_lookup qs bs sm k) = smap_map sm k"
proof -
  obtain r sm' where rs: "smap_lookup qs bs sm k = (r, sm')" by (cases "smap_lookup qs bs sm k")
  note any = smap_lookup_any(2) [OF assms(1) rs]
  show ?thesis
  proof (cases r)
    case None
    then have "smap_map sm k = None" using any by (auto simp: smap_defs map_of_eq_None_iff)
    then show ?thesis using rs None by simp
  next
    case (Some v)
    then have "smap_map sm k = Some v" using any by (simp add: smap_map_Some_iff [OF assms(2)])
    then show ?thesis using rs Some by simp
  qed
qed

lemma first_repeated_key_sorted:
  "sorted (map sp_key ps) \<Longrightarrow>
     (case first_repeated_key ps of
        None \<Rightarrow> distinct (map sp_key ps)
      | Some k \<Rightarrow> 2 \<le> count_list (map sp_key ps) k)"
proof (induction ps rule: first_repeated_key.induct)
  case (1 p q ps)
  show ?case
  proof (cases "sp_key q = sp_key p")
    case True
    then show ?thesis by simp
  next
    case False
    then have lt: "\<And>x. x \<in> set (map sp_key (q # ps)) \<Longrightarrow> sp_key p < x"
      using 1 by force
    then have "sp_key p \<notin> set (map sp_key (q # ps))" by blast
    then show ?thesis
      using 1 False by (auto split: option.splits)
  qed
qed simp_all

lemma smap_check_duplicate_keys_any:
  assumes "smap_inv sm" and "smap_check_duplicate_keys qs sm = (r, sm')"
  shows "case r of None \<Rightarrow> distinct (smap_keys sm) | Some k \<Rightarrow> 2 \<le> count_list (smap_keys sm) k"
proof -
  have eq: "count_list (smap_keys (smap_sort qs sm)) k = count_list (smap_keys sm) k" for k
    by (metis count_mset smap_keys_mset smap_sort_mset)
  show ?thesis
    using first_repeated_key_sorted [of "elems (container (smap_sort qs sm))"]
      smap_sort_inv(3) [OF assms(1)] assms(2) smap_sort_distinct [of sm] eq
    by (auto simp: smap_check_duplicate_keys_def Let_def smap_keys_def split: option.splits)
qed

lemma smap_set_value_returns:
  assumes "smap_inv sm" and "distinct (smap_keys sm)"
  shows "returns (smap_set_value m qs bs sm k v)
    (\<lambda>(r, sm', m'). smap_inv sm' \<and> distinct (smap_keys sm')
       \<and> smap_map sm' = (if r then (smap_map sm)(k \<mapsto> v) else smap_map sm)
       \<and> live m' - live m = smap_blocks sm' - smap_blocks sm)"
proof -
  let ?s = "smap_sort qs sm"
  let ?b = "elems (container ?s)"
  note s = smap_sort_inv [OF assms(1)]
  have map: "smap_map ?s = smap_map sm" and d: "distinct (smap_keys ?s)"
    using assms(2) by (simp_all add: smap_sort_map smap_sort_distinct)
  have new: "returns (smap_add_element m1 ?s k v)
      (\<lambda>(r, sm', m'). smap_inv sm' \<and> distinct (smap_keys sm')
       \<and> smap_map sm' = (if r then (smap_map sm)(k \<mapsto> v) else smap_map sm)
       \<and> live m' - live m1 = smap_blocks sm' - smap_blocks sm)"
    if "k \<notin> set (smap_keys sm)" for m1
  proof -
    have none: "smap_map sm k = None" and notin: "k \<notin> set (smap_keys ?s)"
      using that by (auto simp: smap_defs map_of_eq_None_iff smap_sort_set)
    show ?thesis
      by (rule returns_mono [OF smap_add_element_returns [OF s(1)]])
        (use none notin map d in \<open>auto simp: smap_sort_blocks smap_keys_def smap_map_def fun_eq_iff
           map_add_def split: if_splits option.splits\<close>)
  qed
  have found: "smap_inv sm' \<and> distinct (smap_keys sm') \<and> smap_map sm' = (smap_map sm)(k \<mapsto> v)
      \<and> smap_blocks sm' = smap_blocks sm"
    if "i < length ?b" "sp_key (?b ! i) = k"
      and "sm' = ?s\<lparr>container := Grar (?b[i := (?b ! i)\<lparr>sp_val := v\<rparr>]) (capacity (container ?s))\<rparr>"
    for i sm'
    using that s d map smap_sort_blocks [of sm]
    by (auto simp: smap_defs keys_update_at map_of_update_at grar_inv_def grar_blocks_def fun_eq_iff)
  let ?p = "bs (string_pair_compare \<lparr>sp_key = k, sp_val = []\<rparr>) ?b"
  obtain dk m1 where dk: "strdup m k = (dk, m1)" by (cases "strdup m k")
  obtain dv m2 where dv: "strdup (free m1) v = (dv, m2)" by (cases "strdup (free m1) v")
  note mem = strdup_effect [OF dk] strdup_effect [OF dv]
  show ?thesis
  proof (cases "dk = None")
    case True
    then show ?thesis
      using dk mem s(1) d map by (simp add: smap_set_value_def Let_def smap_sort_blocks)
  next
    case False
    then have k: "dk = Some k" using mem by auto
    show ?thesis
    proof (cases ?p)
      case None
      then have "k \<notin> set (smap_keys sm)" using smap_search [OF assms(1), of k "[]"] by simp
      from new [OF this, of "free m1"] show ?thesis
        using None k dk mem by (simp add: smap_set_value_def Let_def)
    next
      case (Some i)
      then have i: "i < length ?b" "sp_key (?b ! i) = k"
        using smap_search [OF assms(1), of k "[]"] by simp_all
      show ?thesis
        using Some k dk dv mem i s(1) d map found [OF i refl]
        by (cases dv) (auto simp: smap_set_value_def Let_def smap_sort_blocks)
    qed
  qed
qed

end

section \<open>The merge of two sorted maps\<close>

text \<open>How one round of the loop splits the two arrays around the first key of \<open>upd\<close>.\<close>

lemma takeWhile_less_key:
  fixes old :: "TStringPair list" and sp :: TStringPair
  assumes "sorted (map sp_key old)"
  defines "before \<equiv> takeWhile (\<lambda>p. string_pair_compare p sp < 0) old"
  defines "rest \<equiv> drop (length before) old"
  defines "same \<equiv> takeWhile (\<lambda>p. string_pair_compare p sp = 0) rest"
  defines "after \<equiv> drop (length same) rest"
  shows "old = before @ same @ after"
    and "\<forall>p \<in> set before. sp_key p < sp_key sp"
    and "\<forall>p \<in> set same. sp_key p = sp_key sp"
    and "\<forall>p \<in> set after. sp_key sp < sp_key p"
proof -
  have rest: "rest = dropWhile (\<lambda>p. string_pair_compare p sp < 0) old"
    by (simp add: rest_def before_def dropWhile_eq_drop)
  have after: "after = dropWhile (\<lambda>p. string_pair_compare p sp = 0) rest"
    by (simp add: after_def same_def dropWhile_eq_drop)
  show split: "old = before @ same @ after"
    unfolding after same_def rest before_def by simp
  show "\<forall>p \<in> set before. sp_key p < sp_key sp"
    by (auto simp: before_def string_pair_compare_eq dest: set_takeWhileD)
  show "\<forall>p \<in> set same. sp_key p = sp_key sp"
    by (auto simp: same_def string_pair_compare_eq dest: set_takeWhileD)
  have sorted_rest: "sorted (map sp_key rest)"
    using assms(1) by (simp add: rest_def drop_map [symmetric] sorted_wrt_drop)
  have ge: "\<forall>p \<in> set rest. sp_key sp \<le> sp_key p"
    using sorted_rest hd_dropWhile [of "\<lambda>p. string_pair_compare p sp < 0" old, folded rest]
    by (cases rest) (auto simp: string_pair_compare_eq not_less intro: order_trans)
  have sorted_after: "sorted (map sp_key after)" and sub: "set after \<subseteq> set rest"
    using sorted_rest by (auto simp: after_def drop_map [symmetric] sorted_wrt_drop dest: in_set_dropD)
  show "\<forall>p \<in> set after. sp_key sp < sp_key p"
  proof (cases after)
    case (Cons a as)
    then have "sp_key a \<noteq> sp_key sp"
      using hd_dropWhile [of "\<lambda>p. string_pair_compare p sp = 0" rest, folded after]
      by (simp add: string_pair_compare_eq)
    moreover have "sp_key sp \<le> sp_key a" using ge sub Cons by simp
    ultimately have "sp_key sp < sp_key a" by simp
    then show ?thesis using sorted_after Cons by (auto intro: less_le_trans)
  qed simp
qed

lemma grar_add_all_eq:
  assumes "grar_inv g" and "length (elems g) + length xs \<le> capacity g"
  shows "grar_add_all m g xs = Some (True, Grar (elems g @ xs) (capacity g), m)"
  using grar.add_all_reserved [OF assms, of m] by (auto simp: returns_iff) (metis grar.expand grar.sel)

text \<open>
  With enough space reserved no addition in the loop fails; the result holds the pairs of \<open>old\<close>
  whose key is not in \<open>upd\<close> and all pairs of \<open>upd\<close>, in the order of the keys, and exactly the
  replaced pairs have been destroyed.
\<close>

lemma smap_update_loop_returns:
  assumes "grar_inv g" and "upd \<noteq> []" and "sorted (map sp_key old)" and "sorted (map sp_key upd)"
    and "length (elems g) + length old + length upd \<le> capacity g"
  shows "returns (smap_update_loop m old upd g)
    (\<lambda>(r, m'). \<exists>g' R. r = Some g' \<and> grar_inv g' \<and> elems g' = elems g @ R \<and> sorted (map sp_key R)
       \<and> mset R = mset (filter (\<lambda>p. sp_key p \<notin> sp_key ` set upd) old) + mset upd
       \<and> live m' = live m - 3 * int (length (filter (\<lambda>p. sp_key p \<in> sp_key ` set upd) old)))"
  using assms
proof (induction "length upd" arbitrary: m old upd g rule: less_induct)
  case (less upd0)
  then obtain sp upd where upd0: "upd0 = sp # upd" by (cases upd0) auto
  define before where "before = takeWhile (\<lambda>p. string_pair_compare p sp < 0) old"
  define rest where "rest = drop (length before) old"
  define same where "same = takeWhile (\<lambda>p. string_pair_compare p sp = 0) rest"
  define after where "after = drop (length same) rest"
  define new where "new = takeWhile (\<lambda>p. string_pair_compare p sp = 0) (sp # upd)"
  define upd2 where "upd2 = drop (length new) (sp # upd)"
  have g: "grar_inv g" and so: "sorted (map sp_key old)" and su: "sorted (map sp_key (sp # upd))"
    and cap: "length (elems g) + length old + length (sp # upd) \<le> capacity g"
    using less.prems upd0 by auto
  note o = takeWhile_less_key [OF so, of sp, folded before_def, folded rest_def, folded same_def,
      folded after_def]
  have "takeWhile (\<lambda>p. string_pair_compare p sp < 0) (sp # upd) = []"
    by (simp add: string_pair_compare_eq)
  note u = takeWhile_less_key [OF su, of sp, unfolded this, simplified drop_0 list.size(3),
      folded new_def, folded upd2_def, simplified append_Nil]
  have len: "length old = length before + length same + length after"
    "length (sp # upd) = length new + length upd2"
    using arg_cong [OF o(1), of length] arg_cong [OF u(1), of length] by simp_all
  let ?g1 = "Grar (elems g @ before @ new) (capacity g)"
  let ?m1 = "foldl string_pair_dtor m same"
  have inv1: "grar_inv ?g1" using g cap len by (simp add: grar_inv_def)
  have adds: "grar_add_all m g before = Some (True, Grar (elems g @ before) (capacity g), m)"
    "grar_add_all ?m1 (Grar (elems g @ before) (capacity g)) new = Some (True, ?g1, ?m1)"
    "length (elems ?g1) + length xs \<le> capacity g \<Longrightarrow>
       grar_add_all ?m1 ?g1 xs = Some (True, Grar (elems g @ before @ new @ xs) (capacity g), ?m1)" for xs
    using grar_add_all_eq [OF g, of before m] grar_add_all_eq [OF inv1, of xs ?m1]
      grar_add_all_eq [of "Grar (elems g @ before) (capacity g)" new ?m1] cap len g
    by (auto simp: grar_inv_def)
  have sorted_parts: "sorted (map sp_key before)" "sorted (map sp_key after)" "sorted (map sp_key upd2)"
  proof -
    have "sorted (map sp_key (before @ same @ after))" using so o(1) by (rule subst [rotated])
    then show "sorted (map sp_key before)" "sorted (map sp_key after)"
      by (simp_all only: map_append sorted_append)
    have "sorted (map sp_key (new @ upd2))" using su u(1) by (rule subst [rotated])
    then show "sorted (map sp_key upd2)"
      by (simp only: map_append sorted_append)
  qed
  have "set (sp # upd) = set new \<union> set upd2" using arg_cong [OF u(1), of set] by simp
  moreover have "sp_key ` set new = {sp_key sp}"
  proof -
    have "sp \<in> set new" by (simp add: new_def string_pair_compare_eq)
    then have "sp_key sp \<in> sp_key ` set new" by (rule imageI)
    then show ?thesis using u(3) by blast
  qed
  ultimately have keys: "sp_key ` set (sp # upd) = insert (sp_key sp) (sp_key ` set upd2)"
    by (simp add: image_Un)
  have not_before: "\<forall>p \<in> set before. sp_key p \<notin> sp_key ` set upd2"
    using o(2) u(4) by (force dest: order.strict_trans)
  have filters:
    "filter (\<lambda>p. sp_key p \<notin> sp_key ` set (sp # upd)) old =
       before @ filter (\<lambda>p. sp_key p \<notin> sp_key ` set upd2) after"
    "filter (\<lambda>p. sp_key p \<in> sp_key ` set (sp # upd)) old =
       same @ filter (\<lambda>p. sp_key p \<in> sp_key ` set upd2) after"
  proof -
    have "filter P old = filter P before @ filter P same @ filter P after" for P
      using arg_cong [OF o(1), of "filter P"] by simp
    note split = this
    have ne: "\<forall>p \<in> set before \<union> set after. sp_key p \<noteq> sp_key sp" using o(2,4) by auto
    have "filter (\<lambda>p. sp_key p \<notin> insert (sp_key sp) (sp_key ` set upd2)) before = before"
      "filter (\<lambda>p. sp_key p \<in> insert (sp_key sp) (sp_key ` set upd2)) before = []"
      "filter (\<lambda>p. sp_key p \<notin> insert (sp_key sp) (sp_key ` set upd2)) same = []"
      "filter (\<lambda>p. sp_key p \<in> insert (sp_key sp) (sp_key ` set upd2)) same = same"
      using ne not_before o(3) by (auto simp: filter_id_conv filter_empty_conv)
    moreover have "filter (\<lambda>p. sp_key p \<notin> insert (sp_key sp) (sp_key ` set upd2)) after =
        filter (\<lambda>p. sp_key p \<notin> sp_key ` set upd2) after"
      "filter (\<lambda>p. sp_key p \<in> insert (sp_key sp) (sp_key ` set upd2)) after =
        filter (\<lambda>p. sp_key p \<in> sp_key ` set upd2) after"
      using ne by (auto intro: filter_cong)
    ultimately show "filter (\<lambda>p. sp_key p \<notin> sp_key ` set (sp # upd)) old =
       before @ filter (\<lambda>p. sp_key p \<notin> sp_key ` set upd2) after"
      "filter (\<lambda>p. sp_key p \<in> sp_key ` set (sp # upd)) old =
       same @ filter (\<lambda>p. sp_key p \<in> sp_key ` set upd2) after"
      unfolding keys split by simp_all
  qed
  text \<open>What the rest of the loop has to deliver.\<close>
  have tail: "sorted (map sp_key (before @ new @ R)) \<and>
      mset (before @ new @ R) =
        mset (filter (\<lambda>p. sp_key p \<notin> sp_key ` set (sp # upd)) old) + mset (sp # upd)"
    if "sorted (map sp_key R)"
      and R: "mset R = mset (filter (\<lambda>p. sp_key p \<notin> sp_key ` set upd2) after) + mset upd2" for R
  proof -
    have "set R \<subseteq> set after \<union> set upd2"
      using arg_cong [OF R, of set_mset] by auto
    then have gt: "\<forall>p \<in> set R. sp_key sp < sp_key p" using o(4) u(4) by blast
    have "map sp_key new = replicate (length new) (sp_key sp)"
      using u(3) by (simp add: map_replicate_const [symmetric])
    then have "sorted (map sp_key new)" by simp
    with that sorted_parts gt o(2) u(3) have "sorted (map sp_key (before @ new @ R))"
      by (auto simp: sorted_append intro: less_imp_le order.strict_trans)
    moreover have "mset (sp # upd) = mset new + mset upd2" by (subst u(1)) simp
    ultimately show ?thesis using R filters by simp
  qed
  have caps: "length (elems ?g1) + length after \<le> capacity g" "length (elems ?g1) + length upd2 \<le> capacity g"
    using cap len by simp_all
  have round: "smap_update_loop m old (sp # upd) g =
      (if upd2 = [] then Some (Some (Grar (elems g @ before @ new @ after) (capacity g)), ?m1)
       else if after = [] then Some (Some (Grar (elems g @ before @ new @ upd2) (capacity g)), ?m1)
       else smap_update_loop ?m1 after upd2 ?g1)"
    unfolding smap_update_loop.simps(2) Let_def before_def [symmetric] rest_def [symmetric]
      same_def [symmetric] after_def [symmetric] new_def [symmetric] upd2_def [symmetric]
    by (simp add: adds(1,2) adds(3) [OF caps(1)] adds(3) [OF caps(2)] del: smap_update_loop.simps)
  have inv2: "grar_inv (Grar (elems g @ before @ new @ after) (capacity g))"
    "grar_inv (Grar (elems g @ before @ new @ upd2) (capacity g))"
    using g caps by (simp_all add: grar_inv_def)
  consider (finished) "upd2 = []" | (moved) "upd2 \<noteq> []" "after = []" | (again) "upd2 \<noteq> []" "after \<noteq> []"
    by blast
  then show ?case
  proof cases
    case finished
    show ?thesis
      unfolding upd0 round filters(2) using finished tail [of after] sorted_parts inv2 by simp
  next
    case moved
    show ?thesis
      unfolding upd0 round filters(2) using moved tail [of upd2] sorted_parts inv2 by simp
  next
    case again
    have "returns (smap_update_loop ?m1 after upd2 ?g1)
      (\<lambda>(r, m'). \<exists>g' R. r = Some g' \<and> grar_inv g' \<and> elems g' = elems ?g1 @ R \<and> sorted (map sp_key R)
         \<and> mset R = mset (filter (\<lambda>p. sp_key p \<notin> sp_key ` set upd2) after) + mset upd2
         \<and> live m' = live ?m1 - 3 * int (length (filter (\<lambda>p. sp_key p \<in> sp_key ` set upd2) after)))"
    proof (rule less.hyps)
      have "new \<noteq> []" by (simp add: new_def string_pair_compare_eq)
      then show "length upd2 < length upd0" using len(2) upd0 by (cases new) auto
    qed (use inv1 again sorted_parts cap len in simp_all)
    then show ?thesis
      unfolding upd0 round filters(2) if_not_P [OF again(1)] if_not_P [OF again(2)]
    proof (rule returns_mono, clarify)
      fix m' :: mem and g' R
      assume R: "sorted (map sp_key R)"
        "mset R = mset (filter (\<lambda>p. sp_key p \<notin> sp_key ` set upd2) after) + mset upd2"
        and g': "grar_inv g'" "elems g' = elems ?g1 @ R"
        and live: "live m' = live ?m1 - 3 * int (length (filter (\<lambda>p. sp_key p \<in> sp_key ` set upd2) after))"
      show "\<exists>g'' R. Some g' = Some g'' \<and> grar_inv g'' \<and> elems g'' = elems g @ R \<and> sorted (map sp_key R)
         \<and> mset R = mset (filter (\<lambda>p. sp_key p \<notin> sp_key ` set (sp # upd)) old) + mset (sp # upd)
         \<and> live m' = live m -
             3 * int (length (same @ filter (\<lambda>p. sp_key p \<in> sp_key ` set upd2) after))"
        using tail [OF R] g' live by (intro exI [of _ g'] exI [of _ "before @ new @ R"]) simp
    qed
  qed
qed

text \<open>
  What \<open>smap_update\<close> promises of the two maps: the pairs of \<open>upd\<close> replace those with the same
  keys, and \<open>upd\<close> is emptied.
\<close>

definition smap_updated :: "CStringMap \<Rightarrow> CStringMap \<Rightarrow> CStringMap \<Rightarrow> CStringMap \<Rightarrow> bool" where
  "smap_updated sm upd sm' upd' \<longleftrightarrow>
     smap_inv sm' \<and> is_sorted sm' \<and> smap_inv upd' \<and> elems (container upd') = []
     \<and> mset (elems (container sm')) =
         mset (filter (\<lambda>p. sp_key p \<notin> set (smap_keys upd)) (elems (container sm)))
           + mset (elems (container upd))"

context smap_libc
begin

lemma smap_sort_updated:
  "smap_updated (smap_sort qs sm) (smap_sort qs upd) sm' upd' = smap_updated sm upd sm' upd'"
  using smap_sort_mset [of sm] smap_sort_mset [of upd]
  by (simp add: smap_updated_def smap_keys_def smap_sort_set mset_filter)

lemma smap_updated_trivial:
  assumes "smap_inv s" "is_sorted s" "smap_inv u" "is_sorted u"
  shows "elems (container u) = [] \<Longrightarrow> smap_updated s u s u"
    and "elems (container s) = [] \<Longrightarrow>
      smap_updated s u (s\<lparr>container := container u\<rparr>) (u\<lparr>container := container s\<rparr>)"
  using assms by (auto simp: smap_updated_def smap_defs)

lemma smap_update_merged:
  assumes s: "smap_inv s" "is_sorted s" and u: "smap_inv u" "is_sorted u" "elems (container u) \<noteq> []"
    and g: "grar_inv g" "elems g = []"
      "length (elems (container s)) + length (elems (container u)) \<le> capacity g"
  shows "returns (smap_update_loop m (elems (container s)) (elems (container u)) g)
    (\<lambda>(r, m'). \<exists>g'. r = Some g' \<and> grar_inv g'
       \<and> smap_updated s u (s\<lparr>container := g'\<rparr>) (u\<lparr>container := Grar [] (capacity (container u))\<rparr>)
       \<and> live m' - live m = 3 * int (length (elems g')) - 3 * int (length (elems (container s)))
           - 3 * int (length (elems (container u))))"
proof -
  let ?os = "elems (container s)" and ?us = "elems (container u)"
  let ?in = "\<lambda>p. sp_key p \<in> sp_key ` set ?us"
  have count: "int (length ?os) = int (length (filter ?in ?os)) + int (length (filter (\<lambda>p. \<not> ?in p) ?os))"
    using sum_length_filter_compl [of ?in ?os] by linarith
  have sorted: "sorted (map sp_key ?os)" "sorted (map sp_key ?us)" and gu: "grar_inv (container u)"
    using s u by (simp_all add: smap_inv_def smap_keys_def)
  have size: "int (length R) = int (length (filter (\<lambda>p. \<not> ?in p) ?os)) + int (length ?us)"
    if "mset R = mset (filter (\<lambda>p. \<not> ?in p) ?os) + mset ?us" for R
    using arg_cong [OF that, of size] by (simp only: size_union size_mset of_nat_add)
  show ?thesis
    by (rule returns_mono [OF smap_update_loop_returns [OF g(1) u(3) sorted]])
      (use g gu s(2) count in \<open>auto simp: smap_updated_def smap_inv_def smap_keys_def size [unfolded mset_filter]\<close>)
qed

lemma smap_update_returns:
  assumes inv: "smap_inv sm" "smap_inv upd"
    and size: "(smap_get_size sm + smap_get_size upd) * SIZEOF_TGAELEM \<le> Suc PTRDIFF_MAX"
  shows "returns (smap_update m qs sm upd)
    (\<lambda>(r, m'). case r of
       Upd_ok sm' upd' \<Rightarrow> smap_updated sm upd sm' upd'
         \<and> live m' - live m = smap_blocks sm' + smap_blocks upd' - smap_blocks sm - smap_blocks upd
     | Upd_failed sm' upd' \<Rightarrow> sm' = smap_sort qs sm \<and> upd' = smap_sort qs upd \<and> live m' = live m
     | Upd_unusable \<Rightarrow> False)"
proof -
  define s where "s = smap_sort qs sm"
  define u where "u = smap_sort qs upd"
  have s: "smap_inv s" "is_sorted s" "smap_blocks s = smap_blocks sm"
    and u: "smap_inv u" "is_sorted u" "smap_blocks u = smap_blocks upd"
    and upd: "\<And>a b. smap_updated s u a b = smap_updated sm upd a b"
    unfolding s_def u_def
    by (simp_all add: smap_sort_inv inv smap_sort_blocks smap_sort_updated)
  have grars: "grar_inv (container s)" "grar_inv (container u)"
    using s u by (simp_all add: smap_inv_def)
  have len: "length (elems (container s)) = smap_get_size sm" "length (elems (container u)) = smap_get_size upd"
    unfolding s_def u_def
    using arg_cong [OF smap_sort_mset, of size] by (simp_all add: smap_get_size_def grar_get_size_def)
  have blocks: "smap_blocks (s\<lparr>container := g\<rparr>) = 2 + 3 * int (length (elems g))" if "grar_inv g" for g s
    using that by (simp add: smap_blocks_def)
  have old_blocks: "smap_blocks sm = 2 + 3 * int (length (elems (container s)))"
    "smap_blocks upd = 2 + 3 * int (length (elems (container u)))"
    using grars s(3) u(3) by (simp_all add: smap_blocks_def)
  consider (e1) "elems (container u) = []" | (e2) "elems (container u) \<noteq> []" "elems (container s) = []"
    | (ne) "elems (container u) \<noteq> []" "elems (container s) \<noteq> []"
    by blast
  then show ?thesis
  proof cases
    case e1
    then show ?thesis
      using s u smap_updated_trivial(1) [OF s(1,2) u(1,2)] upd
      by (simp add: smap_update_def s_def [symmetric] u_def [symmetric] grar_get_size_def)
  next
    case e2
    then show ?thesis
      using s u smap_updated_trivial(2) [OF s(1,2) u(1,2)] upd blocks grars
      by (simp add: smap_update_def s_def [symmetric] u_def [symmetric] grar_get_size_def smap_blocks_def)
  next
    case ne
    obtain r :: "TStringPair grar option" and m1 where c: "grar_create m = (r, m1)" by fastforce
    note ce = grar_create_effect [OF c]
    show ?thesis
    proof (cases r)
      case None
      then show ?thesis
        using c ce ne by (simp add: smap_update_def s_def [symmetric] u_def [symmetric] grar_get_size_def)
    next
      case (Some ga)
      then have ga: "grar_inv ga" "elems ga = []" and m1: "live m1 = live m + 1" using ce by auto
      show ?thesis
        using c ne Some size
        by (simp add: smap_update_def s_def [symmetric] u_def [symmetric] grar_get_size_def,
            intro returns_mono [OF grar_reserve_returns [OF ga(1)]])
          (auto intro!: returns_mono [OF smap_update_merged [OF s(1,2) u(1,2)]]
             simp: m1 ga grar_clear_inv grars blocks upd old_blocks len)
    qed
  qed
qed

end

interpretation smap_ref: smap_libc ref_qsort ref_bsearch
  by unfold_locales

section \<open>The life of a map\<close>

text \<open>
  The states a client can bring a map into: \<open>smap_run qs bs base sm m\<close> says that some sequence of
  the operations, each with any outcome of the allocator, started with \<open>base\<close> live blocks and has
  led to the map \<open>sm\<close> and the memory \<open>m\<close>. The second map of \<open>smap_update\<close> is destroyed after it, as
  every caller does.
\<close>

inductive smap_run ::
  "TStringPair qsort \<Rightarrow> TStringPair bsearch \<Rightarrow> int \<Rightarrow> CStringMap \<Rightarrow> mem \<Rightarrow> bool"
  for qs bs where
  create: "live m = base \<Longrightarrow> smap_create m = (Some sm, m') \<Longrightarrow> smap_run qs bs base sm m'"
| add: "smap_run qs bs base sm m \<Longrightarrow> smap_add_element m sm k v = Some (r, sm', m')
    \<Longrightarrow> smap_run qs bs base sm' m'"
| set: "smap_run qs bs base sm m \<Longrightarrow> distinct (smap_keys sm)
    \<Longrightarrow> smap_set_value m qs bs sm k v = Some (r, sm', m') \<Longrightarrow> smap_run qs bs base sm' m'"
| lookup: "smap_run qs bs base sm m \<Longrightarrow> smap_lookup qs bs sm k = (r, sm') \<Longrightarrow> smap_run qs bs base sm' m"
| duplicates: "smap_run qs bs base sm m \<Longrightarrow> smap_check_duplicate_keys qs sm = (r, sm')
    \<Longrightarrow> smap_run qs bs base sm' m"
| clear: "smap_run qs bs base sm m \<Longrightarrow> smap_clear m sm = Some (sm', m') \<Longrightarrow> smap_run qs bs base sm' m'"
| update: "smap_run qs bs base sm m \<Longrightarrow> smap_run qs bs (live m) upd m2
    \<Longrightarrow> (smap_get_size sm + smap_get_size upd) * SIZEOF_TGAELEM \<le> Suc PTRDIFF_MAX
    \<Longrightarrow> smap_update m2 qs sm upd = Some (Upd_ok sm' upd', m3)
    \<Longrightarrow> smap_run qs bs base sm' (smap_destroy m3 upd')"

context smap_libc
begin

lemma smap_run_inv:
  "smap_run qs bs base sm m \<Longrightarrow> smap_inv sm \<and> live m = base + smap_blocks sm"
proof (induction rule: smap_run.induct)
  case (create m base sm m')
  then show ?case using smap_create_effect [of m "Some sm" m'] by simp
next
  case (add base sm m k v r sm' m')
  then show ?case using smap_add_element_returns [of sm m k v] by auto
next
  case (set base sm m k v r sm' m')
  then show ?case using smap_set_value_returns [of sm m k v] by auto
next
  case (lookup base sm m k r sm')
  then show ?case using smap_lookup_any(1) [of sm k r sm'] by (auto simp: smap_sort_inv smap_sort_blocks)
next
  case (duplicates base sm m r sm')
  then show ?case
    by (auto simp: smap_check_duplicate_keys_def Let_def smap_sort_inv smap_sort_blocks)
next
  case (clear base sm m sm' m')
  then show ?case using smap_clear_effect [of sm m] by auto
next
  case (update base sm m upd m2 sm' upd' m3)
  then show ?case
    using smap_update_returns [of sm upd m2] by (simp add: smap_destroy_effect smap_updated_def)
qed

end

section \<open>Properties\<close>

text \<open>
  What the properties assume of \<open>qsort\<close> and \<open>bsearch\<close> is \<open>libc_search\<close>, the promises of the C
  standard; \<open>smap_ref\<close> shows that they can be kept.
\<close>

lemma smap_libcI: "libc_search qs bs \<Longrightarrow> smap_libc qs bs"
  by (rule smap_libc.intro)


abbreviation two_pairs :: CStringMap where
  "two_pairs \<equiv>
     \<lparr>container = Grar [\<lparr>sp_key = ''b'', sp_val = ''2''\<rparr>, \<lparr>sp_key = ''a'', sp_val = ''1''\<rparr>] 16,
      is_sorted = False\<rparr>"

lemma two_pairs_inv: "smap_inv two_pairs" "distinct (smap_keys two_pairs)"
  by (simp_all add: smap_inv_def smap_keys_def grar_inv_def grar_consts)


text \<open>
  C26: \<open>smap_set_value\<close> either updates the finite map at the key, or fails and leaves it; it never
  repeats a key, and the blocks it allocates are exactly those the map then owns.
\<close>

theorem smap_set_value_correct:
  assumes "libc_search qs bs" and "smap_inv sm" and "distinct (smap_keys sm)"
  shows "returns (smap_set_value m qs bs sm k v)
    (\<lambda>(r, sm', m'). smap_inv sm' \<and> distinct (smap_keys sm')
       \<and> smap_map sm' = (if r then (smap_map sm)(k \<mapsto> v) else smap_map sm)
       \<and> live m' - live m = smap_blocks sm' - smap_blocks sm)"
  using smap_libc.smap_set_value_returns [OF smap_libcI] assms by blast

theorem smap_set_value_correct_witness:
  "returns (smap_set_value mem0 ref_qsort ref_bsearch two_pairs ''a'' ''3'')
     (\<lambda>(r, sm', m'). smap_map sm' ''a'' = (if r then Some ''3'' else Some ''1'')
        \<and> smap_map sm' ''b'' = Some ''2'')"
  by (rule returns_mono [OF smap_set_value_correct [OF libc_ref.libc_search_axioms two_pairs_inv]])
    (auto simp: smap_map_def)

text \<open>
  C27: \<open>smap_check_duplicate_keys\<close> returns NULL exactly when no key is repeated, and otherwise a key
  that occurs at least twice.
\<close>

theorem smap_check_duplicate_keys_correct:
  assumes "libc_search qs bs" and "smap_inv sm"
  shows "case fst (smap_check_duplicate_keys qs sm) of
      None \<Rightarrow> distinct (smap_keys sm)
    | Some k \<Rightarrow> 2 \<le> count_list (smap_keys sm) k"
  using smap_libc.smap_check_duplicate_keys_any [OF smap_libcI [OF assms(1)] assms(2), of _ "snd (smap_check_duplicate_keys qs sm)"]
  by (cases "smap_check_duplicate_keys qs sm") simp

theorem smap_check_duplicate_keys_correct_witness:
  "case fst (smap_check_duplicate_keys ref_qsort two_pairs) of
      None \<Rightarrow> distinct (smap_keys two_pairs)
    | Some k \<Rightarrow> 2 \<le> count_list (smap_keys two_pairs) k"
  by (rule smap_check_duplicate_keys_correct [OF libc_ref.libc_search_axioms two_pairs_inv(1)])

text \<open>
  C28: \<open>smap_update\<close> merges the two maps: the result holds the pairs of the second map and the pairs
  of the first whose keys the second does not have, sorted, the second map ends up empty, and the
  replaced pairs, and only they, have been destroyed. It fails only before it has moved anything.
\<close>

theorem smap_update_correct:
  assumes "libc_search qs bs" and "smap_inv sm" and "smap_inv upd"
    and "(smap_get_size sm + smap_get_size upd) * SIZEOF_TGAELEM \<le> Suc PTRDIFF_MAX"
  shows "returns (smap_update m qs sm upd)
    (\<lambda>(r, m'). case r of
       Upd_ok sm' upd' \<Rightarrow> smap_updated sm upd sm' upd'
         \<and> live m' - live m = smap_blocks sm' + smap_blocks upd' - smap_blocks sm - smap_blocks upd
     | Upd_failed sm' upd' \<Rightarrow> sm' = smap_sort qs sm \<and> upd' = smap_sort qs upd \<and> live m' = live m
     | Upd_unusable \<Rightarrow> False)"
  using smap_libc.smap_update_returns [OF smap_libcI] assms by blast

theorem smap_update_correct_witness:
  "returns (smap_update mem0 ref_qsort two_pairs two_pairs) (\<lambda>(r, m'). r \<noteq> Upd_unusable)"
  by (rule returns_mono [OF smap_update_correct [OF libc_ref.libc_search_axioms two_pairs_inv(1) two_pairs_inv(1)]])
    (auto simp: smap_get_size_def grar_get_size_def grar_consts)



end
