(* ===== verification/Mist_Group.thy ===== *)
theory Mist_Group
  imports Mist_Eval Smap
begin

text \<open>
  Groups of templates:
  \<^verbatim>\<open>src/snippets/code_generation/mist_gen.simple/src/mist_engine/src/mist_base.c\<close>, \<open>mist_template_compare\<close> to
  \<open>mist_tg_connect_templates_for_template\<close> and the functions on \<open>CMistTemplateGroup\<close>.

  The array \<open>tpl\<close> of a group owns its templates, so that the group is the growing array of the templates
  themselves; a reference \<open>Ref i\<close> points to the element \<open>i\<close>. References are made only after the array has
  got its final order. \<open>qs\<close>, \<open>qstr\<close> and \<open>bs\<close> are \<open>qsort\<close> on the templates, \<open>qsort\<close> on strings and \<open>bsearch\<close> on the
  templates. The array of the names of attributes holds pointers to the names of placeholders, which it
  does not own.
\<close>

section \<open>Data\<close>

record CMistTemplateGroup =
  tg_tpl :: "CMistTemplate grar"
  tg_main :: "CMistTemplate tptr"

definition SIZEOF_CMistTemplateGroup :: nat where
  "SIZEOF_CMistTemplateGroup = 32"

definition errMainTplMultivalued :: string where
  "errMainTplMultivalued = ''multi-valued top-level template in \"%s\" template group''"

definition errInvalidTemplateName :: string where
  "errInvalidTemplateName = ''invalid name of a template: \"%s\"''"

definition errNoMainTemplate :: string where
  "errNoMainTemplate = ''the main template (\"%s\") is missing from the template group''"

definition mist_template_compare :: "CMistTemplate \<Rightarrow> CMistTemplate \<Rightarrow> int" where
  "mist_template_compare l r = strcmp (t_name l) (t_name r)"

text \<open>The template used as the key of a search: only its name is set.\<close>

definition fake_template :: "string \<Rightarrow> CMistTemplate" where
  "fake_template name = Template name (Grar [] 0) (Grar [] 0) (Grar [] 0) False"

definition find_template :: "CMistTemplate bsearch \<Rightarrow> CMistTemplate grar \<Rightarrow> string \<Rightarrow> int" where
  "find_template bs tpl name = grar_find bs tpl (fake_template name) mist_template_compare"

section \<open>Attributes\<close>

text \<open>
  \<open>mist_tg_collect_attrs_for_template\<close>: the names of the placeholders, those in the branches of conditionals
  included, that name no template of the group. \<open>collect_placeholders\<close> is its loop, \<open>collect_branch\<close> the
  recursive call for a branch.
\<close>

lemma size_grar_elems: "size_list f (elems g) < size_grar f g"
  by (cases g) simp

function (sequential) mist_tg_collect_attrs_for_template ::
    "CMistTemplate bsearch \<Rightarrow> CMistTemplate grar \<Rightarrow> mem \<Rightarrow> CMistTemplate \<Rightarrow> string grar \<Rightarrow> (EMistErrorCode \<times> string grar \<times> mem) option"
  and collect_placeholders ::
    "CMistTemplate bsearch \<Rightarrow> CMistTemplate grar \<Rightarrow> mem \<Rightarrow> CMistPlaceholder list \<Rightarrow> string grar \<Rightarrow> (EMistErrorCode \<times> string grar \<times> mem) option"
  and collect_branch ::
    "CMistTemplate bsearch \<Rightarrow> CMistTemplate grar \<Rightarrow> mem \<Rightarrow> CMistTemplate tptr \<Rightarrow> string grar \<Rightarrow> (EMistErrorCode \<times> string grar \<times> mem) option" where
  "mist_tg_collect_attrs_for_template bs tpl m (Template name vals sch ph ev) attrs =
     collect_placeholders bs tpl m (elems ph) attrs"
| "collect_placeholders bs tpl m [] attrs = Some (MIST_OK, attrs, m)"
| "collect_placeholders bs tpl m (Placeholder type name t sep tpl_cond tpl_then tpl_else is_concat # phs) attrs = do {
     (r, attrs, m) \<leftarrow> (if find_template bs tpl name = - 1 then grar_add_element m attrs name else Some (True, attrs, m));
     if \<not> r then Some (MIST_OUT_OF_MEMORY, attrs, m)
     else if type = MPH_COND then do {
       (ec, attrs, m) \<leftarrow> collect_branch bs tpl m tpl_then attrs;
       if ec \<noteq> MIST_OK then Some (ec, attrs, m)
       else do {
         (ec, attrs, m) \<leftarrow> collect_branch bs tpl m tpl_else attrs;
         if ec \<noteq> MIST_OK then Some (ec, attrs, m)
         else collect_placeholders bs tpl m phs attrs
       }
     } else collect_placeholders bs tpl m phs attrs
   }"
| "collect_branch bs tpl m (Own t) attrs = mist_tg_collect_attrs_for_template bs tpl m t attrs"
| "collect_branch bs tpl m _ attrs = None"
  by pat_completeness auto
termination
  by (relation "measure (\<lambda>x. case x of
        Inl (bs, tpl, m, t, a) \<Rightarrow> 2 * size t
      | Inr (Inl (bs, tpl, m, ps, a)) \<Rightarrow> 2 * size_list size ps
      | Inr (Inr (bs, tpl, m, q, a)) \<Rightarrow> 2 * size_tptr size q + 1)")
    (auto simp: size_grar_elems less_SucI)

text \<open>The loop over the templates of the group.\<close>

fun collect_templates ::
  "CMistTemplate bsearch \<Rightarrow> CMistTemplate grar \<Rightarrow> mem \<Rightarrow> CMistTemplate list \<Rightarrow> string grar \<Rightarrow> (EMistErrorCode \<times> string grar \<times> mem) option" where
  "collect_templates bs tpl m [] attrs = Some (MIST_OK, attrs, m)"
| "collect_templates bs tpl m (t # ts) attrs = do {
     (ec, attrs, m) \<leftarrow> mist_tg_collect_attrs_for_template bs tpl m t attrs;
     if ec \<noteq> MIST_OK then Some (ec, attrs, m)
     else collect_templates bs tpl m ts attrs
   }"

text \<open>A template for each of the sorted names, repeated names skipped.\<close>

function add_attr_templates ::
  "mem \<Rightarrow> CMistTemplate grar \<Rightarrow> string list \<Rightarrow> (EMistErrorCode \<times> CMistTemplate grar \<times> mem) option" where
  "add_attr_templates m tpl [] = Some (MIST_OK, tpl, m)"
| "add_attr_templates m tpl (a # as) = do {
     (tp, m) \<leftarrow> mist_template_create m a;
     (case tp of
        None \<Rightarrow> Some (MIST_OUT_OF_MEMORY, tpl, m)
      | Some tp \<Rightarrow> do {
          (r, tpl, m) \<leftarrow> grar_add_element m tpl tp;
          if \<not> r then Some (MIST_OUT_OF_MEMORY, tpl, mist_template_destroy m tp)
          else add_attr_templates m tpl (dropWhile (\<lambda>b. strcmp (t_name tp) b = 0) as)
        })
   }"
  by pat_completeness auto
termination
  by (relation "measure (\<lambda>(m, tpl, as). length as)") (auto simp: less_Suc_eq_le length_dropWhile_le)

definition mist_tg_create_attrs ::
  "CMistTemplate qsort \<Rightarrow> string qsort \<Rightarrow> CMistTemplate bsearch \<Rightarrow> mem \<Rightarrow> CMistTemplate grar
     \<Rightarrow> (EMistErrorCode \<times> CMistTemplate grar \<times> mem) option" where
  "mist_tg_create_attrs qs qstr bs m tpl = do {
     let tpl = grar_sort qs tpl (by_value mist_template_compare);
     (case grar_create m of
        (None, m) \<Rightarrow> Some (MIST_OUT_OF_MEMORY, tpl, m)
      | (Some attrs, m) \<Rightarrow> do {
          _ \<leftarrow> check (elems tpl \<noteq> []);
          (ec, attrs, m) \<leftarrow> collect_templates bs tpl m (elems tpl) attrs;
          if ec \<noteq> MIST_OK then Some (ec, tpl, snd (grar_destroy m attrs))
          else do {
            let attrs = (if elems attrs \<noteq> [] then grar_string_sort qstr attrs else attrs);
            (ec, tpl, m) \<leftarrow> add_attr_templates m tpl (elems attrs);
            Some (ec, tpl, snd (grar_destroy m attrs))
          }
        })
   }"

section \<open>Connections\<close>

text \<open>
  \<open>mist_tg_connect_templates_for_template\<close>, which sets the pointers of the placeholders and changes no name, so
  that the searches give the same in every state of the array.
\<close>

function (sequential) mist_tg_connect_templates_for_template ::
    "CMistTemplate bsearch \<Rightarrow> CMistTemplate grar \<Rightarrow> CMistTemplate \<Rightarrow> CMistTemplate option"
  and connect_placeholders ::
    "CMistTemplate bsearch \<Rightarrow> CMistTemplate grar \<Rightarrow> CMistPlaceholder list \<Rightarrow> CMistPlaceholder list option"
  and connect_branch ::
    "CMistTemplate bsearch \<Rightarrow> CMistTemplate grar \<Rightarrow> CMistTemplate tptr \<Rightarrow> CMistTemplate tptr option" where
  "mist_tg_connect_templates_for_template bs tpl (Template name vals sch ph ev) = do {
     phs \<leftarrow> connect_placeholders bs tpl (elems ph);
     Some (Template name vals sch (Grar phs (capacity ph)) ev)
   }"
| "connect_placeholders bs tpl [] = Some []"
| "connect_placeholders bs tpl (Placeholder type name t sep tpl_cond tpl_then tpl_else is_concat # phs) = do {
     let ind = find_template bs tpl name;
     _ \<leftarrow> check (ind \<noteq> - 1 \<and> nat ind < length (elems tpl));
     ph \<leftarrow> (if type = MPH_COND then do {
              tpl_then \<leftarrow> connect_branch bs tpl tpl_then;
              tpl_else \<leftarrow> connect_branch bs tpl tpl_else;
              Some (Placeholder type name t sep (Ref (nat ind)) tpl_then tpl_else is_concat)
            } else Some (Placeholder type name (Ref (nat ind)) sep tpl_cond tpl_then tpl_else is_concat));
     phs \<leftarrow> connect_placeholders bs tpl phs;
     Some (ph # phs)
   }"
| "connect_branch bs tpl (Own t) = map_option Own (mist_tg_connect_templates_for_template bs tpl t)"
| "connect_branch bs tpl _ = None"
  by pat_completeness auto
termination
  by (relation "measure (\<lambda>x. case x of
        Inl (bs, tpl, t) \<Rightarrow> 2 * size t
      | Inr (Inl (bs, tpl, ps)) \<Rightarrow> 2 * size_list size ps
      | Inr (Inr (bs, tpl, q)) \<Rightarrow> 2 * size_tptr size q + 1)")
    (auto simp: size_grar_elems less_SucI)

definition mist_tg_connect_templates :: "CMistTemplate bsearch \<Rightarrow> CMistTemplate grar \<Rightarrow> CMistTemplate grar option" where
  "mist_tg_connect_templates bs tpl = do {
     _ \<leftarrow> check (elems tpl \<noteq> []);
     ts \<leftarrow> those (map (mist_tg_connect_templates_for_template bs tpl) (elems tpl));
     Some (Grar ts (capacity tpl))
   }"

section \<open>Creation and destruction\<close>

definition mist_tg_destroy_impl :: "mem \<Rightarrow> CMistTemplate grar \<Rightarrow> mem" where
  "mist_tg_destroy_impl m tpl = free (snd (grar_destroy_with_elements m tpl (Some mist_template_destroy)))"

text \<open>
  The loop of \<open>mist_tg_create_impl\<close> over the sources; \<open>i\<close> is the index of the first name. The result says
  whether all have been loaded; otherwise \<open>bad_index\<close> is set as the code sets it, and the group is still
  to be destroyed.
\<close>

fun load_templates ::
  "mem \<Rightarrow> CMistTemplate grar \<Rightarrow> nat \<Rightarrow> string list \<Rightarrow> string list \<Rightarrow> string \<Rightarrow> string
     \<Rightarrow> (bool \<times> nat option \<times> string option \<times> CMistTemplate grar \<times> mem) option" where
  "load_templates m tpl i [] strings bm em = Some (True, None, None, tpl, m)"
| "load_templates m tpl i (name # names) [] bm em = None"
| "load_templates m tpl i (name # names) (str # strings) bm em =
     (if mist_name_is_bad name then do {
        (d, m) \<leftarrow> alloc_message m (length errInvalidTemplateName + length name + 1) errInvalidTemplateName [ArgS name];
        Some (False, Some i, d, tpl, m)
      } else do {
        (ec, tp, d, m) \<leftarrow> mist_template_from_string m name str bm em;
        if ec \<noteq> MIST_OK then Some (False, Some i, d, tpl, m)
        else (case tp of
           None \<Rightarrow> None
         | Some tp \<Rightarrow> do {
             _ \<leftarrow> check (\<not> mist_name_is_bad (t_name tp));
             (r, tpl, m) \<leftarrow> grar_add_element m tpl tp;
             if \<not> r then Some (False, None, d, tpl, mist_template_destroy m tp)
             else load_templates m tpl (i + 1) names strings bm em
           })
      })"

text \<open>The rest of \<open>mist_tg_create_impl\<close>, once the templates have been loaded.\<close>

definition finish_group ::
  "CMistTemplate qsort \<Rightarrow> string qsort \<Rightarrow> CMistTemplate bsearch \<Rightarrow> mem \<Rightarrow> string \<Rightarrow> CMistTemplate grar
     \<Rightarrow> (CMistTemplateGroup option \<times> string option \<times> mem) option" where
  "finish_group qs qstr bs m name_main tpl = do {
     (ec, tpl, m) \<leftarrow> mist_tg_create_attrs qs qstr bs m tpl;
     if ec \<noteq> MIST_OK then Some (None, None, mist_tg_destroy_impl m tpl)
     else do {
       let tpl = grar_sort qs tpl (by_value mist_template_compare);
       (case strdup m name_main of
          (None, m) \<Rightarrow> Some (None, None, mist_tg_destroy_impl m tpl)
        | (Some name, m) \<Rightarrow> do {
            let ind = find_template bs tpl name;
            if ind < 0 then do {
              (d, m) \<leftarrow> alloc_message m (length errNoMainTemplate + length name_main + 1) errNoMainTemplate [ArgS name_main];
              Some (None, d, mist_tg_destroy_impl (free m) tpl)
            } else do {
              let m = free m;
              _ \<leftarrow> check (nat ind < length (elems tpl));
              tpl \<leftarrow> mist_tg_connect_templates bs tpl;
              Some (Some \<lparr>tg_tpl = tpl, tg_main = Ref (nat ind)\<rparr>, None, m)
            }
          })
     }
   }"

text \<open>\<open>bad_index\<close> is \<open>None\<close> where the code leaves \<open>(size_t)(-1)\<close>.\<close>

definition mist_tg_create_impl ::
  "CMistTemplate qsort \<Rightarrow> string qsort \<Rightarrow> CMistTemplate bsearch \<Rightarrow> mem \<Rightarrow> string \<Rightarrow> string grar \<Rightarrow> string grar \<Rightarrow> string \<Rightarrow> string
     \<Rightarrow> (CMistTemplateGroup option \<times> nat option \<times> string option \<times> mem) option" where
  "mist_tg_create_impl qs qstr bs m name_main tpl_names tpl_strings begin_marker end_marker = do {
     _ \<leftarrow> check (name_main \<noteq> [] \<and> begin_marker \<noteq> [] \<and> end_marker \<noteq> []);
     _ \<leftarrow> check (elems tpl_names \<noteq> [] \<and> length (elems tpl_names) = length (elems tpl_strings));
     (case malloc m SIZEOF_CMistTemplateGroup of (b, m) \<Rightarrow>
        if \<not> b then Some (None, None, None, m)
        else (case grar_create m of
            (None, m) \<Rightarrow> Some (None, None, None, free m)
          | (Some tpl, m) \<Rightarrow> do {
              (r, bad_index, d, tpl, m) \<leftarrow> load_templates m tpl 0 (elems tpl_names) (elems tpl_strings) begin_marker end_marker;
              if \<not> r then Some (None, bad_index, d, mist_tg_destroy_impl m tpl)
              else do {
                (tg, d, m) \<leftarrow> finish_group qs qstr bs m name_main tpl;
                Some (tg, None, d, m)
              }
            }))
   }"

definition mist_tg_create_single_impl ::
  "CMistTemplate qsort \<Rightarrow> string qsort \<Rightarrow> CMistTemplate bsearch \<Rightarrow> mem \<Rightarrow> string \<Rightarrow> string \<Rightarrow> string \<Rightarrow> string
     \<Rightarrow> (CMistTemplateGroup option \<times> string option \<times> mem) option" where
  "mist_tg_create_single_impl qs qstr bs m name str begin_marker end_marker = do {
     _ \<leftarrow> check (name \<noteq> [] \<and> begin_marker \<noteq> [] \<and> end_marker \<noteq> []);
     (case grar_create m of
        (None, m) \<Rightarrow> Some (None, None, m)
      | (Some tpl_names, m) \<Rightarrow> do {
          (r, tpl_names, m) \<leftarrow> grar_add_element m tpl_names name;
          if \<not> r then Some (None, None, snd (grar_destroy m tpl_names))
          else (case grar_create m of
             (None, m) \<Rightarrow> Some (None, None, snd (grar_destroy m tpl_names))
           | (Some tpl_strings, m) \<Rightarrow> do {
               (r, tpl_strings, m) \<leftarrow> grar_add_element m tpl_strings str;
               if \<not> r then Some (None, None, snd (grar_destroy (snd (grar_destroy m tpl_strings)) tpl_names))
               else do {
                 (tg, bad_index, d, m) \<leftarrow> mist_tg_create_impl qs qstr bs m name tpl_names tpl_strings begin_marker end_marker;
                 Some (tg, d, snd (grar_destroy (snd (grar_destroy m tpl_strings)) tpl_names))
               }
             })
        })
   }"

section \<open>Values\<close>

definition mist_tg_add_value_impl ::
  "CMistTemplate bsearch \<Rightarrow> mem \<Rightarrow> CMistTemplateGroup \<Rightarrow> string \<Rightarrow> string \<Rightarrow> (EMistErrorCode \<times> CMistTemplateGroup \<times> mem) option" where
  "mist_tg_add_value_impl bs m mtg name val = (case strdup m name of
       (None, m) \<Rightarrow> Some (MIST_OUT_OF_MEMORY, mtg, m)
     | (Some name, m) \<Rightarrow> do {
         let ind = find_template bs (tg_tpl mtg) name;
         let m = free m;
         if ind \<noteq> - 1 then do {
           _ \<leftarrow> check (nat ind < length (elems (tg_tpl mtg)));
           (ec, tp, m) \<leftarrow> mist_template_add_value m (elems (tg_tpl mtg) ! nat ind) val;
           Some (ec, mtg\<lparr>tg_tpl := Grar ((elems (tg_tpl mtg))[nat ind := tp]) (capacity (tg_tpl mtg))\<rparr>, m)
         } else Some (MIST_OK, mtg, m)
       })"

definition without_flag :: "CMistTemplate \<Rightarrow> CMistTemplate" where
  "without_flag mt = Template (t_name mt) (t_vals mt) (t_sch mt) (t_ph mt) False"

text \<open>\<open>n\<close> is the fuel for the evaluation; \<open>Some vals\<close> is the address of the values of the main template.\<close>

definition mist_tg_evaluate_impl ::
  "nat \<Rightarrow> mem \<Rightarrow> CMistTemplateGroup \<Rightarrow> (string grar option \<times> CMistTemplateGroup \<times> mem) option" where
  "mist_tg_evaluate_impl n m mtg = do {
     _ \<leftarrow> check (elems (tg_tpl mtg) \<noteq> [] \<and> tg_main mtg \<noteq> Null);
     let tpl = map without_flag (elems (tg_tpl mtg));
     (ec, tpl, main, m) \<leftarrow> mist_template_evaluate n m tpl (tg_main mtg);
     let mtg = \<lparr>tg_tpl = Grar tpl (capacity (tg_tpl mtg)), tg_main = main\<rparr>;
     if ec \<noteq> MIST_OK then Some (None, mtg, m)
     else do {
       mt \<leftarrow> deref tpl main;
       Some (Some (t_vals mt), mtg, m)
     }
   }"

fun clear_templates :: "mem \<Rightarrow> CMistTemplate list \<Rightarrow> (CMistTemplate list \<times> mem) option" where
  "clear_templates m [] = Some ([], m)"
| "clear_templates m (t # ts) = do {
     (t, m) \<leftarrow> mist_template_clear_values m t;
     (ts, m) \<leftarrow> clear_templates m ts;
     Some (without_flag t # ts, m)
   }"

definition mist_tg_clear_values_impl :: "mem \<Rightarrow> CMistTemplateGroup \<Rightarrow> (CMistTemplateGroup \<times> mem) option" where
  "mist_tg_clear_values_impl m mtg = do {
     _ \<leftarrow> check (elems (tg_tpl mtg) \<noteq> []);
     (ts, m) \<leftarrow> clear_templates m (elems (tg_tpl mtg));
     Some (mtg\<lparr>tg_tpl := Grar ts (capacity (tg_tpl mtg))\<rparr>, m)
   }"

fun set_values_loop ::
  "CMistTemplate bsearch \<Rightarrow> mem \<Rightarrow> CMistTemplateGroup \<Rightarrow> TStringPair list \<Rightarrow> (EMistErrorCode \<times> CMistTemplateGroup \<times> mem) option" where
  "set_values_loop bs m mtg [] = Some (MIST_OK, mtg, m)"
| "set_values_loop bs m mtg (p # ps) = do {
     (ec, mtg, m) \<leftarrow> mist_tg_add_value_impl bs m mtg (sp_key p) (sp_val p);
     if ec \<noteq> MIST_OK then Some (ec, mtg, m) else set_values_loop bs m mtg ps
   }"

definition mist_tg_set_values_impl ::
  "CMistTemplate bsearch \<Rightarrow> mem \<Rightarrow> CMistTemplateGroup \<Rightarrow> CStringMap \<Rightarrow> (EMistErrorCode \<times> CMistTemplateGroup \<times> mem) option" where
  "mist_tg_set_values_impl bs m mtg sm = set_values_loop bs m mtg (smap_as_array sm)"

text \<open>The path is a string of the group; \<open>None\<close> is NULL.\<close>

definition mist_tg_generate_path_string_impl ::
  "CMistTemplate bsearch \<Rightarrow> nat \<Rightarrow> mem \<Rightarrow> CMistTemplateGroup \<Rightarrow> CStringMap
     \<Rightarrow> (string option \<times> string option \<times> CMistTemplateGroup \<times> mem) option" where
  "mist_tg_generate_path_string_impl bs n m path_tg params = do {
     (ec, path_tg, m) \<leftarrow> mist_tg_set_values_impl bs m path_tg params;
     if ec \<noteq> MIST_OK then Some (None, None, path_tg, m)
     else do {
       (vals, path_tg, m) \<leftarrow> mist_tg_evaluate_impl n m path_tg;
       (case vals of
          None \<Rightarrow> Some (None, None, path_tg, m)
        | Some vals \<Rightarrow> do {
            _ \<leftarrow> check (length (elems vals) > 0);
            if length (elems vals) \<noteq> 1 then do {
              mt \<leftarrow> deref (elems (tg_tpl path_tg)) (tg_main path_tg);
              (d, m) \<leftarrow> alloc_message m (length errMainTplMultivalued + length (t_name mt) + 1) errMainTplMultivalued [ArgS (t_name mt)];
              Some (None, d, path_tg, m)
            } else do {
              path \<leftarrow> grar_get_element vals 0;
              _ \<leftarrow> check (path \<noteq> []);
              Some (Some path, None, path_tg, m)
            }
          })
     }
   }"

end
