(* ===== verification/Mist_Expr.thy ===== *)
theory Mist_Expr
  imports Mist_Template
begin

text \<open>
  The abstract syntax of templates, the structures that stand for it, and the two kinds of expressions
  in placeholders.

  A template is to the user a tree \<open>tmpl\<close>: a chunk of text, then placeholders each followed by a chunk.
  \<open>rep_t\<close> says which structures of the program stand for a tree, \<open>tpl_blocks\<close> how many blocks they
  own. \<open>ph_expr\<close> and \<open>cond_expr\<close> read the expressions of plain placeholders and of conditions from
  their text; \<open>mist_parse_placeholder\<close> and \<open>mist_parse_cond_expr\<close>, which work in place on a buffer, are
  shown to implement them.
\<close>

section \<open>Abstract syntax\<close>

datatype tmpl = Tmpl string "(phx \<times> string) list"
  and phx = Ph string "string option" | Cond string bool tmpl tmpl

text \<open>The two kinds of expressions, on their text.\<close>

definition ph_expr :: "string \<Rightarrow> (string \<times> string option) option" where
  "ph_expr s =
     (let t = trim s in
      case strchr t (CHR '':'') of
        None \<Rightarrow> if mist_name_is_bad t then None else Some (t, None)
      | Some k \<Rightarrow>
        (let name = rtrim (take k t); d = trim (drop (k + 1) t); a = trim (drop 4 d) in
         if \<not> is_prefix ''join'' d \<or> a = [] \<or> hd a \<noteq> CHR ''('' \<or> last a \<noteq> CHR '')'' \<or> mist_name_is_bad name then None
         else Some (name, Some (unescape (butlast (tl a))))))"

definition cond_expr :: "string \<Rightarrow> string \<times> bool" where
  "cond_expr s =
     (let r = dropWhile is_ws (butlast (drop 6 s)); n = trim (tl r) in
      if is_prefix ''concat'' s \<and> last s = CHR '')'' \<and> 9 \<le> length s \<and> r \<noteq> [] \<and> hd r = CHR ''('' \<and> n \<noteq> []
      then (n, True) else (s, False))"

section \<open>The structures of the program\<close>

text \<open>The number of blocks a template owns; what destruction releases.\<close>

function (sequential) tpl_blocks :: "CMistTemplate \<Rightarrow> int"
  and ph_blocks :: "CMistPlaceholder \<Rightarrow> int"
  and own_blocks :: "CMistTemplate tptr \<Rightarrow> int" where
  "tpl_blocks (Template name vals sch ph ev) =
     2 + grar_blocks vals + int (length (elems vals)) + grar_blocks sch + int (length (elems sch))
       + grar_blocks ph + sum_list (map ph_blocks (elems ph))"
| "ph_blocks (Placeholder type name tpl sep tpl_cond tpl_then tpl_else is_concat) =
     2 + of_bool (sep \<noteq> None)
       + (if type = MPH_COND then own_blocks tpl + own_blocks tpl_then + own_blocks tpl_else else 0)"
| "own_blocks (Own mt) = tpl_blocks mt"
| "own_blocks _ = 0"
  by pat_completeness auto
termination
  by (relation "measure (\<lambda>x. case x of
        Inl t \<Rightarrow> 2 * size t
      | Inr (Inl p) \<Rightarrow> 2 * size p
      | Inr (Inr q) \<Rightarrow> 2 * size_tptr size q + 1)")
    (auto dest!: size_grar_elem [where f = size])

lemma foldl_live:
  "(\<And>m x. x \<in> set xs \<Longrightarrow> live (f m x) = live m - w x) \<Longrightarrow> live (foldl f m xs) = live m - sum_list (map w xs)"
proof (induction xs arbitrary: m)
  case (Cons x xs)
  then have "live (foldl f (f m x) xs) = live (f m x) - sum_list (map w xs)" by simp
  then show ?case using Cons.prems [of x m] by simp
qed simp

lemma foldl_never_fails:
  "(\<And>m x. x \<in> set xs \<Longrightarrow> never_fails (f m x) = never_fails m) \<Longrightarrow> never_fails (foldl f m xs) = never_fails m"
  by (induction xs arbitrary: m) auto

lemma grar_destroy_never_fails [simp]:
  "never_fails (snd (grar_destroy m g)) = never_fails m"
  "never_fails (snd (grar_destroy_with_elements m g None)) = never_fails m"
  by (simp_all add: never_fails_def)

lemma destroy_live:
  "live (mist_template_destroy m t) = live m - tpl_blocks t"
  "live (mist_placeholder_destroy m p) = live m - ph_blocks p"
  "live (mist_owned_destroy m q) = live m - own_blocks q"
  by (induction m t and m p and m q rule: mist_template_destroy_mist_placeholder_destroy_mist_owned_destroy.induct)
    (simp_all add: Let_def foldl_live [where w = ph_blocks])

lemma destroy_never_fails [simp]:
  "never_fails (mist_template_destroy m t) = never_fails m"
  "never_fails (mist_placeholder_destroy m p) = never_fails m"
  "never_fails (mist_owned_destroy m q) = never_fails m"
  by (induction m t and m p and m q rule: mist_template_destroy_mist_placeholder_destroy_mist_owned_destroy.induct)
    (simp_all add: Let_def foldl_never_fails)

text \<open>
  The destructor of templates releases what \<open>grar_destroy_with_elements\<close> with the destructor of
  placeholders does.
\<close>

lemma mist_template_destroy_eq:
  "mist_template_destroy m (Template name vals sch ph ev) =
     free (snd (grar_destroy_with_elements
       (snd (grar_destroy_with_elements (snd (grar_destroy_with_elements (free m) vals None)) sch None))
       ph (Some mist_placeholder_destroy)))"
  by (simp add: grar_destroy_with_elements_def Let_def)

text \<open>Which structures stand for a tree: freshly parsed, without values and not yet connected.\<close>

fun rep_t :: "tmpl \<Rightarrow> CMistTemplate \<Rightarrow> bool" and rep_p :: "phx \<Rightarrow> CMistPlaceholder \<Rightarrow> bool" where
  "rep_t (Tmpl c items) t \<longleftrightarrow>
     grar_ok (t_vals t) \<and> elems (t_vals t) = [] \<and> \<not> t_is_evaluated t
     \<and> grar_ok (t_sch t) \<and> elems (t_sch t) = c # map snd items
     \<and> grar_ok (t_ph t) \<and> list_all2 rep_p (map fst items) (elems (t_ph t))"
| "rep_p (Ph name sep) p \<longleftrightarrow>
     p = Placeholder (if sep = None then MPH_PLAIN else MPH_JOIN) name Null sep Null Null Null False"
| "rep_p (Cond name is_concat T E) p \<longleftrightarrow>
     (\<exists>r t e. p = Placeholder MPH_COND name (Own r) None Null (Own t) (Own e) is_concat
        \<and> t_name r = name \<and> grar_ok (t_vals r) \<and> elems (t_vals r) = [] \<and> grar_ok (t_sch r) \<and> elems (t_sch r) = []
        \<and> grar_ok (t_ph r) \<and> elems (t_ph r) = [] \<and> \<not> t_is_evaluated r
        \<and> rep_t T t \<and> rep_t E e)"

section \<open>Creation\<close>

lemma strdup_small:
  assumes "strdup m s = (r, m')"
  shows "live m' = live m + of_bool (r \<noteq> None) \<and> (r = None \<or> r = Some s)
    \<and> (never_fails m \<and> small s \<longrightarrow> never_fails m' \<and> r \<noteq> None)"
  using strdup_effect [OF assms] strdup_never_fails [OF _ _ assms] by (auto simp: small_def PTRDIFF_MAX_def)

lemma malloc_small:
  assumes "malloc m n = (b, m')" and "n \<le> 1000"
  shows "live m' = live m + of_bool b \<and> (never_fails m \<longrightarrow> never_fails m' \<and> b)"
  using malloc_effect [OF assms(1)] malloc_never_fails [OF _ _ assms(1)] assms(2) by (auto simp: PTRDIFF_MAX_def)

lemmas alloc_simps = strdup_small malloc_small grar_create_ok

lemma placeholder_create_returns:
  assumes "\<not> mist_name_is_bad name"
  shows "returns (mist_placeholder_create m name sep) (\<lambda>(pp, m').
     (pp = None \<and> live m' = live m
      \<or> pp = Some (Placeholder (if sep = None then MPH_PLAIN else MPH_JOIN) name Null sep Null Null Null False)
        \<and> live m' = live m + 2 + of_bool (sep \<noteq> None))
     \<and> (never_fails m \<and> small name \<and> (\<forall>s. sep = Some s \<longrightarrow> small s) \<longrightarrow> never_fails m' \<and> pp \<noteq> None))"
proof -
  obtain b m1 where m1: "malloc m SIZEOF_CMistPlaceholder = (b, m1)" by fastforce
  obtain nm m2 where m2: "strdup m1 name = (nm, m2)" by fastforce
  obtain sp m3 where m3: "strdup m2 (the sep) = (sp, m3)" by fastforce
  have "SIZEOF_CMistPlaceholder \<le> 1000" by (simp add: SIZEOF_CMistPlaceholder_def)
  note mem = malloc_small [OF m1 this] strdup_small [OF m2] strdup_small [OF m3]
  show ?thesis
    unfolding mist_placeholder_create_def using assms m1 m2 m3 mem
    by (auto split: option.splits)
qed

lemma template_create_returns:
  assumes "\<not> mist_name_is_bad name"
  shows "returns (mist_template_create m name) (\<lambda>(pt, m').
     (case pt of
        None \<Rightarrow> live m' = live m
      | Some t \<Rightarrow> live m' = live m + tpl_blocks t \<and> t_name t = name \<and> \<not> t_is_evaluated t
          \<and> grar_ok (t_vals t) \<and> elems (t_vals t) = [] \<and> grar_ok (t_sch t) \<and> elems (t_sch t) = []
          \<and> grar_ok (t_ph t) \<and> elems (t_ph t) = [])
     \<and> (never_fails m \<and> small name \<longrightarrow> never_fails m' \<and> pt \<noteq> None))"
proof -
  obtain b m1 where m1: "malloc m SIZEOF_CMistTemplate = (b, m1)" by fastforce
  obtain nm m2 where m2: "strdup m1 name = (nm, m2)" by fastforce
  obtain g1 :: "string grar option" and m3 where m3: "grar_create m2 = (g1, m3)" by fastforce
  obtain g2 :: "string grar option" and m4 where m4: "grar_create m3 = (g2, m4)" by fastforce
  obtain g3 :: "CMistPlaceholder grar option" and m5 where m5: "grar_create m4 = (g3, m5)" by fastforce
  have "SIZEOF_CMistTemplate \<le> 1000" by (simp add: SIZEOF_CMistTemplate_def)
  note mem = malloc_small [OF m1 this] strdup_small [OF m2] grar_create_ok [OF m3] grar_create_ok [OF m4]
    grar_create_ok [OF m5]
  show ?thesis
    unfolding mist_template_create_def using assms m1 m2 m3 m4 m5 mem
    by (cases b; cases nm; cases g1; cases g2; cases g3; simp add: grar_blocks_inv)
qed

section \<open>Expressions\<close>

lemma slice_nth: "i + k < j \<Longrightarrow> j \<le> length s \<Longrightarrow> slice s i j ! k = s ! (i + k)"
  by (simp add: slice_def)

lemma last_slice: "i < j \<Longrightarrow> j \<le> length s \<Longrightarrow> last (slice s i j) = s ! (j - 1)"
  by (subst last_conv_nth) (auto simp: slice_def)

lemma strncmp_prefix: "n = length k \<Longrightarrow> strncmp s k n = 0 \<longleftrightarrow> is_prefix k s"
  by (auto simp: strncmp_def is_prefix_iff)

lemma is_prefix_slice:
  "i \<le> j \<Longrightarrow> j \<le> length s \<Longrightarrow> length k \<le> j - i \<Longrightarrow> is_prefix k (slice s i j) \<longleftrightarrow> is_prefix k (drop i s)"
  by (simp add: is_prefix_iff slice_def)

text \<open>A range that neither begins nor ends with whitespace.\<close>

definition trimmed :: "string \<Rightarrow> bool" where
  "trimmed s \<longleftrightarrow> s \<noteq> [] \<and> \<not> is_ws (hd s) \<and> \<not> is_ws (last s)"

lemma trimmed_rtrim: "trimmed s \<Longrightarrow> rtrim s = s"
  by (simp add: trimmed_def rtrim_id)

lemma trimmed_takeWhile: "trimmed s \<Longrightarrow> takeWhile is_ws s = []"
  by (cases s) (auto simp: trimmed_def)

text \<open>Searching past the whitespace at the start of a range, and what it leaves.\<close>

lemma skip_ws:
  assumes "i \<le> j" and "j \<le> length s"
  shows "\<exists>k. mist_find_in_range_first_not_of s i j wspace = Some k \<and> i \<le> k \<and> k \<le> j
    \<and> slice s k j = dropWhile is_ws (slice s i j) \<and> (k = j \<longleftrightarrow> dropWhile is_ws (slice s i j) = [])"
proof -
  define k where "k = i + length (takeWhile is_ws (slice s i j))"
  have k: "slice s k j = dropWhile is_ws (slice s i j)"
    unfolding k_def slice_drop dropWhile_eq_drop ..
  have le: "k \<le> j" using length_takeWhile_le [of is_ws "slice s i j"] assms by (simp add: k_def)
  then have "k = j \<longleftrightarrow> slice s k j = []" using assms by (auto simp: slice_def)
  then show ?thesis
    using find_first_not_ws [OF assms] k le unfolding k_def [symmetric] by (intro exI [of _ k]) (simp add: k_def)
qed

lemma skip_back_ws:
  assumes "i \<le> j" and "j \<le> length s" and "rtrim (slice s i j) \<noteq> []"
  shows "\<exists>k. mist_find_in_range_last_not_of s i j wspace = Some k \<and> i < k + 1 \<and> k + 1 \<le> j
    \<and> slice s i (k + 1) = rtrim (slice s i j)"
proof -
  let ?n = "length (rtrim (slice s i j))"
  obtain r where r: "slice s i j = rtrim (slice s i j) @ r" using rtrim_prefix by blast
  have n: "?n \<le> j - i" using arg_cong [OF r, of length] assms by simp
  have pos: "0 < ?n" using assms(3) by simp
  have "slice s i (i + ?n) = rtrim (slice s i j)"
    using slice_take [of i ?n j s] n assms(1) r by (metis append_eq_conv_conj le_diff_conv2 add.commute)
  moreover have "i + ?n - 1 + 1 = i + ?n" using pos by simp
  ultimately show ?thesis
    using find_last_not_ws [OF assms(1,2)] assms(1,3) n pos by (intro exI [of _ "i + ?n - 1"]) auto
qed

lemma concat6: "length ''concat'' = 6"
  by simp

lemma parse_cond_expr_returns:
  assumes nn: "no_nul src" and be: "beg < end" "end \<le> length src" and tr: "trimmed (slice src beg end)"
  shows "returns (mist_parse_cond_expr m src beg end) (\<lambda>(name, is_concat, m').
     live m' = live m + of_bool (name \<noteq> None)
     \<and> (name \<noteq> None \<longrightarrow> (the name, is_concat) = cond_expr (slice src beg end))
     \<and> (never_fails m \<and> small src \<longrightarrow> never_fails m' \<and> name \<noteq> None))"
    (is "returns _ (?Q (cond_expr (slice src beg end)))")
proof -
  define s where "s = slice src beg end"
  define e where "e = end - 1"
  have len: "length s = end - beg" and e: "beg \<le> e" "e \<le> length src" "e < end" "end - Suc 0 = e" "Suc e = end"
    using be by (simp_all add: s_def e_def)
  have ends: "mist_find_in_range_first_not_of src beg end wspace = Some beg"
    "mist_find_in_range_last_not_of src beg end wspace = Some e"
    using be tr len trimmed_rtrim [OF tr] trimmed_takeWhile [OF tr]
    by (simp_all add: find_first_not_ws find_last_not_ws trimmed_def e_def)
  have sub: "returns (do { (name, m) \<leftarrow> mist_get_substring m src i j; Some (name, c, m) }) (?Q (slice src i j, c))"
    if "i \<le> j" "j \<le> length src" for i j c
    using nn that by (auto intro!: returns_mono [OF get_substring_returns])
  note plain = sub [OF less_imp_le [OF be(1)] be(2), of False, folded s_def]
  define long where "long \<longleftrightarrow> \<not> (src ! e \<noteq> CHR '')'' \<or> end - beg < 9 \<or> strncmp (drop beg src) ''concat'' 6 \<noteq> 0)"
  have long_iff: "long \<longleftrightarrow> is_prefix ''concat'' s \<and> last s = CHR '')'' \<and> 9 \<le> length s"
    using be len last_slice [OF be] is_prefix_slice [of beg "end" src "''concat''"] strncmp_prefix [of 6 "''concat''" "drop beg src"]
    by (auto simp: long_def s_def e_def)
  show ?thesis
  proof (cases long)
    case False
    then have "cond_expr s = (s, False)" using long_iff by (auto simp: cond_expr_def Let_def)
    then show ?thesis
      using plain False e be ends unfolding long_def mist_parse_cond_expr_def s_def [symmetric] concat6
      by (simp add: Let_def)
  next
    case True
    define r where "r = dropWhile is_ws (butlast (drop 6 s))"
    have spec: "cond_expr s = (if r \<noteq> [] \<and> hd r = CHR ''('' \<and> trim (tl r) \<noteq> [] then (trim (tl r), True) else (s, False))"
      using True unfolding long_iff cond_expr_def Let_def r_def [symmetric] by auto
    have six: "beg + 6 \<le> e" using True unfolding long_def e_def by linarith
    have "slice src beg e = butlast s"
      using slice_snoc [of beg e src] e be by (simp add: s_def)
    then have r: "dropWhile is_ws (slice src (beg + 6) e) = r"
      unfolding r_def slice_drop by (simp add: drop_butlast)
    obtain k where k: "mist_find_in_range_first_not_of src (beg + 6) e wspace = Some k" "k \<le> e"
        "slice src k e = r" "k = e \<longleftrightarrow> r = []"
      using skip_ws [OF six e(2)] r by auto
    have paren: "src ! k = CHR ''('' \<longleftrightarrow> r \<noteq> [] \<and> hd r = CHR ''(''"
    proof (cases "r = []")
      case True
      then show ?thesis using k(4) \<open>long\<close> by (simp add: long_def)
    next
      case False
      then have "k < e" using k by auto
      then show ?thesis using False slice_Cons [of k e src] k(3) e(2) by auto
    qed
    have run: "mist_parse_cond_expr m src beg end =
        (if src ! k \<noteq> CHR ''('' then do { (name, m) \<leftarrow> mist_get_substring m src beg end; Some (name, False, m) }
         else do {
           _ \<leftarrow> check (k < e);
           nbeg \<leftarrow> mist_find_in_range_first_not_of src (k + 1) e wspace;
           if nbeg = e then do { (name, m) \<leftarrow> mist_get_substring m src beg end; Some (name, False, m) }
           else do {
             nend \<leftarrow> mist_find_in_range_last_not_of src nbeg e wspace;
             (name, m) \<leftarrow> mist_get_substring m src nbeg (nend + 1);
             Some (name, True, m) } })"
      using True be ends e k(1) unfolding long_def mist_parse_cond_expr_def concat6 Let_def e_def [symmetric] by simp
    show ?thesis
    proof (cases "r \<noteq> [] \<and> hd r = CHR ''(''")
      case False
      then have "cond_expr s = (s, False)" "src ! k \<noteq> CHR ''(''" using paren spec by auto
      then show ?thesis using plain unfolding run s_def [symmetric] by simp
    next
      case par: True
      then have ke: "k < e" using k by auto
      then have tl: "slice src (k + 1) e = tl r" using slice_Cons [of k e src] k(3) e(2) by (metis Suc_eq_plus1 list.sel(3))
      obtain j where j: "mist_find_in_range_first_not_of src (k + 1) e wspace = Some j" "k + 1 \<le> j" "j \<le> e"
          "slice src j e = dropWhile is_ws (tl r)" "j = e \<longleftrightarrow> dropWhile is_ws (tl r) = []"
        using skip_ws [of "k + 1" e src] ke e(2) tl by auto
      show ?thesis
      proof (cases "trim (tl r) = []")
        case True
        then have "j = e" using j(5) trim_Nil_iff [of "tl r"] by (simp add: dropWhile_eq_Nil_conv takeWhile_eq_all_conv)
        moreover have "cond_expr s = (s, False)" "src ! k = CHR ''(''" using par paren spec True by auto
        ultimately show ?thesis using plain ke j(1) unfolding run s_def [symmetric] by simp
      next
        case False
        have "rtrim (slice src j e) \<noteq> []" using False j(4) by (simp add: trim_def)
        from skip_back_ws [OF j(3) e(2) this] obtain z where z:
            "mist_find_in_range_last_not_of src j e wspace = Some z" "j < z + 1" "z + 1 \<le> e" "slice src j (z + 1) = trim (tl r)"
          using j(4) by (auto simp: trim_def)
        have "j \<noteq> e" using z by simp
        moreover have "cond_expr s = (trim (tl r), True)" "src ! k = CHR ''(''" using par paren spec False by auto
        ultimately show ?thesis
          using ke j(1) z sub [of j "z + 1" True] e(2) unfolding run s_def [symmetric] by simp
      qed
    qed
  qed
qed

text \<open>A step of the parser of placeholders: trim what begins at some offset of the buffer.\<close>

lemma trim_step:
  assumes "no_nul s"
  shows "\<exists>q. mist_string_trim \<lparr>ms_str = length pre, ms_buf = pre @ s @ NUL # post\<rparr> =
     Some \<lparr>ms_str = length (pre @ take (trim_lead s) s),
       ms_buf = (pre @ take (trim_lead s) s) @ trim s @ NUL # q\<rparr>"
proof -
  obtain q where "nul_head (drop (trim_lead s + length (trim s)) s) @ NUL # post = NUL # q"
    by (cases "drop (trim_lead s + length (trim s)) s") auto
  moreover have "trim_lead s \<le> length s" by (simp add: trim_lead_def length_takeWhile_le)
  ultimately show ?thesis
    unfolding trim_buffer [OF assms] by (intro exI [of _ q]) (simp add: trim_image_def)
qed

lemma trim_no_lead: "s = [] \<or> \<not> is_ws (hd s) \<Longrightarrow> trim s = rtrim s \<and> take (trim_lead s) s = []"
  by (cases s) (auto simp: trim_def trim_lead_def)

lemma trim_hd: "trim s = [] \<or> \<not> is_ws (hd (trim s))"
  using trim_parts [of s] by blast

lemma string_at_intro: "no_nul s \<Longrightarrow> string_at (pre @ s @ NUL # q) (length pre) = Some s"
  by (auto simp: string_at_iff)

text \<open>
  The outcome of parsing an expression, where \<open>n\<close> blocks were live; \<open>ph_parsed\<close> adds that memory does
  not run out where the allocator refuses nothing and the sizes are small (\<open>sm\<close>).
\<close>

definition ph_built :: "(string \<times> string option) option \<Rightarrow> int \<Rightarrow> EMistErrorCode \<Rightarrow> CMistPlaceholder option \<Rightarrow> int \<Rightarrow> bool" where
  "ph_built e n ec pp n' \<longleftrightarrow>
     ec = MIST_OK \<and> (\<exists>name sep p. e = Some (name, sep) \<and> pp = Some p \<and> \<not> mist_name_is_bad name
          \<and> rep_p (Ph name sep) p \<and> n' = n + ph_blocks p)
      \<or> ec = MIST_BAD_NAME \<and> e = None \<and> pp = None \<and> n' = n
      \<or> ec = MIST_OUT_OF_MEMORY \<and> pp = None \<and> n \<le> n'"

definition ph_parsed ::
  "(string \<times> string option) option \<Rightarrow> mem \<Rightarrow> bool \<Rightarrow> EMistErrorCode \<times> CMistPlaceholder option \<times> mem \<Rightarrow> bool" where
  "ph_parsed e m sm r \<longleftrightarrow> (case r of (ec, pp, m') \<Rightarrow> ph_built e (live m) ec pp (live m')
     \<and> (never_fails m \<and> sm \<longrightarrow> never_fails m' \<and> ec \<noteq> MIST_OUT_OF_MEMORY))"

lemmas ph_parsed_defs = ph_parsed_def ph_built_def

lemma placeholder_finish_returns:
  assumes nm: "string_at (ms_buf expr) name = Some nm"
    and sep: "case sep of None \<Rightarrow> sepv = None | Some ms \<Rightarrow> \<exists>v. holds_string ms v \<and> sepv = Some v"
    and sm: "sm \<Longrightarrow> small nm \<and> (\<forall>v. sepv = Some v \<longrightarrow> small v)"
  shows "returns (placeholder_finish m expr name sep)
     (ph_parsed (if mist_name_is_bad nm then None else Some (nm, sepv)) (m\<lparr>live := live m - 2 - 2 * of_bool (sep \<noteq> None)\<rparr>) sm)"
proof -
  have at: "(case sep of None \<Rightarrow> Some None | Some sep \<Rightarrow> map_option Some (string_at (ms_buf sep) (ms_str sep))) = Some sepv"
    using sep by (auto split: option.splits simp: holds_string_def)
  have destroy: "live (case sep of None \<Rightarrow> m' | Some sep \<Rightarrow> mist_string_destroy m' sep) = live m' - 2 * of_bool (sep \<noteq> None)"
    "never_fails (case sep of None \<Rightarrow> m' | Some sep \<Rightarrow> mist_string_destroy m' sep) = never_fails m'" for m'
    by (simp_all split: option.splits)
  have nf: "never_fails (m\<lparr>live := x\<rparr>) = never_fails m" for x by (simp add: never_fails_def)
  show ?thesis
  proof (cases "mist_name_is_bad nm")
    case True
    then show ?thesis unfolding placeholder_finish_def using nm destroy nf by (simp add: ph_parsed_defs Let_def)
  next
    case False
    show ?thesis unfolding placeholder_finish_def nm at Let_def
      using False sm destroy nf
      by (auto intro!: returns_mono [OF placeholder_create_returns] simp: ph_parsed_defs)
  qed
qed

definition join_expr :: "string \<Rightarrow> string \<Rightarrow> (string \<times> string option) option" where
  "join_expr n dd =
     (let d = trim dd; a = trim (drop 4 d) in
      if \<not> is_prefix ''join'' d \<or> a = [] \<or> hd a \<noteq> CHR ''('' \<or> last a \<noteq> CHR '')'' \<or> mist_name_is_bad (rtrim n) then None
      else Some (rtrim n, Some (unescape (butlast (tl a)))))"

lemma join4: "length ''join'' = 4"
  by simp

lemma small_shorter: "small s \<Longrightarrow> length t \<le> length s \<Longrightarrow> small t"
  by (simp add: small_def)

lemma length_trim: "length (trim s) \<le> length s"
  using arg_cong [OF trim_split [of s], of length] by simp

lemma length_rtrim: "length (rtrim s) \<le> length s"
  using rtrim_prefix [of s] by (metis le_add1 length_append)

lemma length_unescape: "length (unescape s) \<le> length s"
  by (induction s rule: unescape.induct) auto

lemma no_nul_rtrim: "no_nul s \<Longrightarrow> no_nul (rtrim s)"
  using rtrim_prefix [of s] by (metis no_nul_def UnCI set_append)

lemma no_nul_ends: "no_nul s \<Longrightarrow> no_nul (tl s)" "no_nul s \<Longrightarrow> no_nul (butlast s)" "no_nul s \<Longrightarrow> no_nul (drop k s)"
  by (cases s; auto simp: no_nul_def dest: in_set_butlastD in_set_dropD)+

text \<open>The argument of the directive: the separator is created from it, without the parentheses.\<close>

lemma placeholder_separator_returns:
  assumes at: "\<And>x. string_at (pre @ x) name = Some nm" and a: "no_nul a" "a \<noteq> []" "hd a = CHR ''(''" "last a = CHR '')''"
    and sm: "sm \<Longrightarrow> small nm \<and> small a"
    and expr: "expr = \<lparr>ms_str = length (pre @ u), ms_buf = (pre @ u) @ a @ NUL # q\<rparr>"
  shows "returns (placeholder_separator m expr name (length a)) (ph_parsed (if mist_name_is_bad nm then None else Some (nm, Some (unescape (butlast (tl a))))) (m\<lparr>live := live m - 2\<rparr>) sm)"
proof -
  define b where "b = butlast (tl a)"
  have "a = butlast a @ [last a]" using a(2) by (rule append_butlast_last_id [symmetric])
  moreover have "butlast a \<noteq> []" using a by (cases a) (auto split: if_splits)
  then have "butlast a = hd a # b" using a by (cases a) (auto simp: b_def)
  ultimately have ab: "a = CHR ''('' # b @ [CHR '')'']" using a by simp
  have nb: "no_nul b" using a(1) by (simp add: ab no_nul_def)
  have wr: "write_at (ms_buf expr) (ms_str expr + length a - 1) [NUL] =
      Some ((pre @ u @ [CHR ''('']) @ b @ NUL # NUL # q)"
    using write_nul_at [of "Suc (length b)" "CHR ''('' # b @ [CHR '')'']" "pre @ u" q] by (simp add: expr ab)
  have init: "string_at ((pre @ u @ [CHR ''('']) @ b @ NUL # NUL # q) (ms_str expr + 1) = Some b"
    using string_at_intro [OF nb, of "pre @ u @ [CHR ''('']" "NUL # q"] by (simp add: expr)
  have name: "string_at (pre @ u @ CHR ''('' # b @ NUL # NUL # q) name = Some nm"
    using at by simp
  have smb: "sm \<Longrightarrow> small b \<and> small (unescape b)"
    using sm length_unescape [of b] by (auto simp: ab small_def)
  have finish: "returns (placeholder_finish m' \<lparr>ms_str = ms_str expr + 1, ms_buf = (pre @ u @ [CHR ''('']) @ b @ NUL # NUL # q\<rparr> name (Some sep))
      (ph_parsed (if mist_name_is_bad nm then None else Some (nm, Some (unescape b))) (m'\<lparr>live := live m' - 4\<rparr>) sm)"
    if "holds_string sep (unescape b)" for sep m'
    using placeholder_finish_returns [of "\<lparr>ms_str = ms_str expr + 1, ms_buf = (pre @ u @ [CHR ''('']) @ b @ NUL # NUL # q\<rparr>" name nm "Some (unescape b)" "Some sep" sm m']
      that name sm smb by simp
  have nf: "never_fails (m\<lparr>live := x\<rparr>) = never_fails m" for m x by (simp add: never_fails_def)
  define E where "E = \<lparr>ms_str = ms_str expr + 1, ms_buf = (pre @ u @ [CHR ''('']) @ b @ NUL # NUL # q\<rparr>"
  define e where "e = (if mist_name_is_bad nm then None else Some (nm, Some (unescape b)))"
  have unesc: "returns (do {
        (ec, sep, m) \<leftarrow> mist_string_unescape m1 sep;
        if ec \<noteq> MIST_OK then Some (ec, None, mist_string_destroy (mist_string_destroy m sep) E)
        else placeholder_finish m E name (Some sep) }) (ph_parsed e (m\<lparr>live := live m - 2\<rparr>) sm)"
    if sep: "holds_string sep b" "live m1 = live m + 2" "never_fails m \<and> sm \<longrightarrow> never_fails m1" for sep m1
    using smb sep(2,3) nf
    by (auto simp: ph_parsed_defs intro!: returns_mono [OF unescape_returns [OF sep(1)]]
        returns_mono [OF finish [folded E_def e_def]] split: option.splits)
  show ?thesis
    unfolding placeholder_separator_def wr Let_def b_def [symmetric] Option.bind.bind_lunit CMistString.simps init E_def [symmetric] e_def [symmetric]
    using nb smb nf
    by (auto simp: ph_parsed_defs split: option.splits
        intro!: returns_mono [OF create_returns] returns_mono [OF unesc [simplified]])
qed

lemma bad_join_returns:
  "e = None \<Longrightarrow> returns (Some (MIST_BAD_NAME, None, mist_string_destroy m expr)) (ph_parsed e (m\<lparr>live := live m - 2\<rparr>) sm)"
  by (simp add: ph_parsed_defs never_fails_def mist_string_destroy_def)

lemma strncmp_join: "strncmp s ''join'' 4 = 0 \<longleftrightarrow> is_prefix ''join'' s"
  by (rule strncmp_prefix) simp

lemma buffer_head: "((pre @ s @ NUL # q) ! length pre) = (if s = [] then NUL else hd s)"
  by (cases s) simp_all

lemma buffer_last: "s \<noteq> [] \<Longrightarrow> (pre @ s @ NUL # q) ! (length pre + length s - 1) = last s"
  by (cases s rule: rev_cases) (simp_all add: nth_append)

lemma placeholder_argument_returns:
  assumes at: "\<And>x. string_at (pre @ x) name = Some nm" and r: "no_nul r" and sm: "sm \<Longrightarrow> small nm \<and> small r"
  shows "returns (placeholder_argument m \<lparr>ms_str = length (pre @ u), ms_buf = (pre @ u) @ r @ NUL # q\<rparr> name)
     (ph_parsed (let a = trim r in
        if a = [] \<or> hd a \<noteq> CHR ''('' \<or> last a \<noteq> CHR '')'' \<or> mist_name_is_bad nm then None
        else Some (nm, Some (unescape (butlast (tl a))))) (m\<lparr>live := live m - 2\<rparr>) sm)"
proof -
  define a where "a = trim r"
  obtain v q' where t: "mist_string_trim \<lparr>ms_str = length (pre @ u), ms_buf = (pre @ u) @ r @ NUL # q\<rparr> =
      Some \<lparr>ms_str = length (pre @ u @ v), ms_buf = (pre @ u @ v) @ a @ NUL # q'\<rparr>"
    using trim_step [OF r, of "pre @ u" q] unfolding a_def append_assoc by blast
  have a: "no_nul a" "length a \<le> length r" using r by (simp_all add: a_def length_trim)
  define E where "E = \<lparr>ms_str = length (pre @ u @ v), ms_buf = (pre @ u @ v) @ a @ NUL # q'\<rparr>"
  have E: "string_at (ms_buf E) (ms_str E) = Some a" "ms_buf E ! ms_str E = (if a = [] then NUL else hd a)"
    "a \<noteq> [] \<Longrightarrow> ms_buf E ! (ms_str E + length a - 1) = last a"
    using string_at_intro [OF a(1)] buffer_head [of "pre @ u @ v" a q'] buffer_last [of a "pre @ u @ v" q']
    unfolding E_def CMistString.simps by blast+
  have bad: "(ms_buf E ! ms_str E \<noteq> CHR ''('' \<or> ms_buf E ! (ms_str E + length a - 1) \<noteq> CHR '')'')
      \<longleftrightarrow> a = [] \<or> hd a \<noteq> CHR ''('' \<or> last a \<noteq> CHR '')''"
    using E(2,3) by (cases "a = []") (simp_all add: NUL_def)
  have sep: "returns (placeholder_separator m E name (length a))
      (ph_parsed (if mist_name_is_bad nm then None else Some (nm, Some (unescape (butlast (tl a))))) (m\<lparr>live := live m - 2\<rparr>) sm)"
    if "a \<noteq> []" "hd a = CHR ''(''" "last a = CHR '')''"
    by (rule placeholder_separator_returns [OF at a(1) that _ E_def]) (use sm a(2) in \<open>auto simp: small_def\<close>)
  show ?thesis
    unfolding placeholder_argument_def t E_def [symmetric] Option.bind.bind_lunit E(1) Let_def bad a_def [symmetric]
    using sep bad_join_returns by auto
qed

lemma placeholder_join_returns:
  assumes nn: "no_nul (n @ CHR '':'' # dd)" and hd: "\<not> is_ws (hd (n @ CHR '':'' # dd))"
    and sm: "sm \<Longrightarrow> small (n @ CHR '':'' # dd)"
  shows "returns (placeholder_join m \<lparr>ms_str = length u, ms_buf = u @ (n @ CHR '':'' # dd) @ NUL # q\<rparr> (length u) (length u + length n))
     (ph_parsed (join_expr n dd) (m\<lparr>live := live m - 2\<rparr>) sm)"
proof -
  have n: "no_nul n" "no_nul dd" "trim n = rtrim n" "trim_lead n = 0"
    using nn hd trim_no_lead [of n] by (cases n; auto simp: no_nul_def trim_lead_def)+
  have colon: "write_at (u @ (n @ CHR '':'' # dd) @ NUL # q) (length u + length n) [NUL] = Some (u @ n @ NUL # dd @ NUL # q)"
    using write_nul_at [of "length n" "n @ CHR '':'' # dd" u q] by simp
  obtain q1 where q1: "nul_head (drop (length (rtrim n)) n) @ [NUL] = NUL # q1"
    by (cases "drop (length (rtrim n)) n") auto
  define pre where "pre = u @ rtrim n @ NUL # q1"
  have t1: "mist_string_trim \<lparr>ms_str = length u, ms_buf = u @ n @ NUL # dd @ NUL # q\<rparr> =
      Some \<lparr>ms_str = length u, ms_buf = pre @ dd @ NUL # q\<rparr>"
    using trim_buffer [OF n(1), of u "dd @ NUL # q"] q1 n(3,4)
    by (simp add: trim_image_def pre_def flip: append_assoc) (metis append_Cons append_assoc append_Nil)
  have len: "length pre = length u + length n + 1"
    using arg_cong [OF q1, of length] length_rtrim [of n] by (simp add: pre_def)
  have at: "string_at (pre @ x) (length u) = Some (rtrim n)" for x
    using string_at_intro [OF no_nul_rtrim [OF n(1)], of u "q1 @ x"] by (simp add: pre_def)
  obtain u2 q2 where t2: "mist_string_trim \<lparr>ms_str = length pre, ms_buf = pre @ dd @ NUL # q\<rparr> =
      Some \<lparr>ms_str = length (pre @ u2), ms_buf = (pre @ u2) @ trim dd @ NUL # q2\<rparr>"
    using trim_step [OF n(2), of pre q] by blast
  define d where "d = trim dd"
  have d: "no_nul d" using n(2) by (simp add: d_def)
  have at_d: "string_at ((pre @ u2) @ d @ NUL # q2) (length (pre @ u2)) = Some d" by (rule string_at_intro [OF d])
  define E2 where "E2 = \<lparr>ms_str = length (pre @ u2), ms_buf = (pre @ u2) @ d @ NUL # q2\<rparr>"
  have start: "(ms_buf E2 ! ms_str E2 = NUL \<or> strncmp d ''join'' 4 \<noteq> 0) \<longleftrightarrow> \<not> is_prefix ''join'' d"
    using d unfolding strncmp_join E2_def by (cases d) (auto simp: no_nul_def nth_append)
  have "mist_string_trim \<lparr>ms_str = length u + length n + 1, ms_buf = pre @ dd @ NUL # q\<rparr> = Some E2"
    using t2 unfolding len [symmetric] E2_def d_def .
  then have run: "placeholder_join m \<lparr>ms_str = length u, ms_buf = u @ (n @ CHR '':'' # dd) @ NUL # q\<rparr> (length u) (length u + length n) =
      (if \<not> is_prefix ''join'' d then Some (MIST_BAD_NAME, None, mist_string_destroy m E2)
       else placeholder_argument m (E2\<lparr>ms_str := ms_str E2 + 4\<rparr>) (length u))"
    unfolding placeholder_join_def CMistString.simps CMistString.update_convs colon Option.bind.bind_lunit t1 join4
    using at_d start by (simp add: E2_def)
  show ?thesis
  proof (cases "is_prefix ''join'' d")
    case False
    then have "join_expr n dd = None" by (simp add: join_expr_def d_def)
    then show ?thesis using False bad_join_returns unfolding run by simp
  next
    case True
    then obtain r where r: "d = ''join'' @ r" by (auto simp: is_prefix_append)
    then have nr: "no_nul r" "drop 4 d = r" using d by (simp_all add: no_nul_def)
    have e: "E2\<lparr>ms_str := ms_str E2 + 4\<rparr> = \<lparr>ms_str = length (pre @ u2 @ ''join''), ms_buf = (pre @ u2 @ ''join'') @ r @ NUL # q2\<rparr>"
      by (simp add: E2_def r)
    have "sm \<Longrightarrow> small (rtrim n) \<and> small r"
      using sm length_rtrim [of n] length_trim [of dd] r by (auto simp: d_def small_def)
    from placeholder_argument_returns [OF at nr(1) this, where m = m and u = "u2 @ ''join''" and q = q2]
    have "returns (placeholder_argument m (E2\<lparr>ms_str := ms_str E2 + 4\<rparr>) (length u)) (ph_parsed (join_expr n dd) (m\<lparr>live := live m - 2\<rparr>) sm)"
      using True nr(2) unfolding e join_expr_def Let_def d_def [symmetric] by (simp only: append_assoc simp_thms)
    then show ?thesis using True unfolding run by simp
  qed
qed

lemma strchr_None: "strchr s c = None \<longleftrightarrow> c \<notin> set s"
  by (auto simp: strchr_def strstr_None_iff occurs_def in_set_conv_decomp)

lemma strchr_Some: "strchr s c = Some k \<Longrightarrow> k < length s \<and> s = take k s @ c # drop (k + 1) s"
  by (auto simp: strchr_def strstr_Some_iff)

lemma ph_expr_None: "strchr (trim s) (CHR '':'') = None \<Longrightarrow> ph_expr s = (if mist_name_is_bad (trim s) then None else Some (trim s, None))"
  by (simp add: ph_expr_def Let_def)

lemma ph_expr_Some: "strchr (trim s) (CHR '':'') = Some k \<Longrightarrow> ph_expr s = join_expr (take k (trim s)) (drop (k + 1) (trim s))"
  by (simp add: ph_expr_def join_expr_def Let_def)

lemma parse_placeholder_returns:
  assumes nn: "no_nul src" and t: "i < length toks" "tok_type (toks ! i) = MTT_PH"
    and be: "tok_beg (toks ! i) \<le> tok_end (toks ! i)" "tok_end (toks ! i) \<le> length src"
  shows "returns (mist_parse_placeholder m toks i src) (\<lambda>(ec, pp, i', m'). i' = i + 1
     \<and> ph_parsed (ph_expr (slice src (tok_beg (toks ! i)) (tok_end (toks ! i)))) m (small src) (ec, pp, m'))"
proof -
  define s where "s = slice src (tok_beg (toks ! i)) (tok_end (toks ! i))"
  define t where "t = trim s"
  have len: "length s \<le> length src" using be by (simp add: s_def)
  have ns: "no_nul s" "no_nul t" using nn by (simp_all add: s_def t_def)
  have smt: "small src \<Longrightarrow> small t" using length_trim [of s] len by (simp add: small_def t_def)
  have nf: "never_fails (m\<lparr>live := x\<rparr>) = never_fails m" for m x by (simp add: never_fails_def)
  define B where "B = (\<lambda>expr m1. do {
          expr \<leftarrow> mist_string_trim expr;
          let name = ms_str expr;
          s \<leftarrow> string_at (ms_buf expr) (ms_str expr);
          (ec, pp, m) \<leftarrow> (case strchr s (CHR '':'') of
               None \<Rightarrow> placeholder_finish m1 expr name None
             | Some k \<Rightarrow> placeholder_join m1 expr name (ms_str expr + k));
          Some (ec, pp, i + 1, m) })"
  have body: "returns (B expr m1) (\<lambda>(ec, pp, i', m'). i' = i + 1 \<and> ph_parsed (ph_expr s) (m1\<lparr>live := live m1 - 2\<rparr>) (small src) (ec, pp, m'))"
    if expr: "holds_string expr s" "ms_str expr = 0" for expr m1
  proof -
    obtain q0 where q0: "expr = \<lparr>ms_str = length ([] :: string), ms_buf = [] @ s @ NUL # q0\<rparr>"
      using expr by (cases expr) (auto simp: holds_string_def string_at_iff)
    obtain u q where tr: "mist_string_trim expr = Some \<lparr>ms_str = length u, ms_buf = u @ t @ NUL # q\<rparr>"
      using trim_step [OF ns(1), of "[]" q0] unfolding q0 t_def append_Nil by blast
    have at: "string_at (u @ t @ NUL # q) (length u) = Some t" by (rule string_at_intro [OF ns(2)])
    show ?thesis
    proof (cases "strchr t (CHR '':'')")
      case None
      then show ?thesis
        using placeholder_finish_returns [of "\<lparr>ms_str = length u, ms_buf = u @ t @ NUL # q\<rparr>" "length u" t None None "small src" m1] at smt
        by (auto simp: B_def tr Let_def ph_expr_None t_def [symmetric] elim!: returns_mono)
    next
      case (Some k)
      then have tk: "k < length t" "t = take k t @ CHR '':'' # drop (k + 1) t" using strchr_Some by auto
      have "\<not> is_ws (hd t)" using trim_hd [of s] tk(1) by (auto simp: t_def)
      then have "returns (placeholder_join m1 \<lparr>ms_str = length u, ms_buf = u @ t @ NUL # q\<rparr> (length u) (length u + k))
          (ph_parsed (join_expr (take k t) (drop (k + 1) t)) (m1\<lparr>live := live m1 - 2\<rparr>) (small src))"
        using placeholder_join_returns [of "take k t" "drop (k + 1) t" "small src" m1 u q, folded tk(2)] ns(2) smt tk(1)
        by simp
      then show ?thesis
        using Some at by (auto simp: B_def tr Let_def ph_expr_Some t_def [symmetric] elim!: returns_mono)
    qed
  qed
  have shift: "ph_parsed e (m1\<lparr>live := live m\<rparr>) sm r \<Longrightarrow> never_fails m \<and> sm \<longrightarrow> never_fails m1 \<Longrightarrow> ph_parsed e m sm r"
    for e m1 sm r using nf by (auto simp: ph_parsed_def)
  have run: "mist_parse_placeholder m toks i src = do {
      (expr, m1) \<leftarrow> mist_string_create_from_range m src (tok_beg (toks ! i)) (tok_end (toks ! i));
      (case expr of None \<Rightarrow> Some (MIST_OUT_OF_MEMORY, None, i + 1, m1) | Some expr \<Rightarrow> B expr m1) }"
    unfolding mist_parse_placeholder_def B_def Let_def using t by simp
  show ?thesis
    unfolding run s_def [symmetric]
  proof (rule returns_bindI [OF create_from_range_returns [OF nn be]], clarify, goal_cases)
    case (1 expr m1)
    then show ?case
    proof (cases expr)
      case None
      then show ?thesis using 1 by (auto simp: ph_parsed_defs)
    next
      case (Some ms)
      with 1 have "holds_string ms s" "ms_str ms = 0" by (simp_all add: s_def)
      moreover have "live m1 = live m + 2" "never_fails m \<and> small src \<longrightarrow> never_fails m1" using 1 Some by simp_all
      ultimately show ?thesis
        unfolding Some option.case by (intro returns_mono [OF body]) (auto intro!: shift)
    qed
  qed
qed

end
