(* ===== verification/Mist_Parse.thy ===== *)
theory Mist_Parse
  imports Mist_Expr
begin

text \<open>
  The grammar of templates over tokens and the proof that the recursive descent parser of
  \<open>Mist_Template\<close> implements it.

  The relations \<open>pT\<close>, \<open>pI\<close> and \<open>pP\<close> give the tree that a sequence of tokens stands for, or the error;
  they are deterministic. The parser is shown to return, with the fuel it is given, the structures
  for that tree or the description of that error.
\<close>

section \<open>The grammar\<close>

abbreviation text_of :: "string \<Rightarrow> CMistToken \<Rightarrow> string" where
  "text_of src t \<equiv> slice src (tok_beg t) (tok_end t)"

datatype parse_err =
    Bad_expr nat nat
  | Bad_cond string nat
  | If_no_endif nat
  | Else_no_endif nat
  | Else_no_if nat
  | Endif_no_if nat

fun parse_message :: "string \<Rightarrow> parse_err \<Rightarrow> string" where
  "parse_message src (Bad_expr b e) = invalid_ph_message (slice src b e) src b"
| "parse_message src (Bad_cond name b) = invalid_ph_message name src b"
| "parse_message src (If_no_endif b) = line_message errIfWithoutEndif src b"
| "parse_message src (Else_no_endif b) = line_message errElseWithoutEndif src b"
| "parse_message src (Else_no_if b) = line_message errElseWithoutIf src b"
| "parse_message src (Endif_no_if b) = line_message errEndifWithoutIf src b"

text \<open>
  \<open>pT src ts r\<close>: a template is read from the tokens \<open>ts\<close> with the result \<open>r\<close>, a tree and the tokens behind it
  or the error. \<open>pI\<close> reads the rest of a template after a chunk, \<open>pP\<close> one placeholder.
\<close>

inductive pT :: "string \<Rightarrow> CMistToken list \<Rightarrow> parse_err + (tmpl \<times> CMistToken list) \<Rightarrow> bool"
  and pI :: "string \<Rightarrow> CMistToken list \<Rightarrow> parse_err + ((phx \<times> string) list \<times> CMistToken list) \<Rightarrow> bool"
  and pP :: "string \<Rightarrow> CMistToken list \<Rightarrow> parse_err + (phx \<times> CMistToken list) \<Rightarrow> bool" for src where
  T_ok: "tok_type t = MTT_SCH \<Longrightarrow> pI src ts (Inr (items, rest)) \<Longrightarrow> pT src (t # ts) (Inr (Tmpl (text_of src t) items, rest))"
| T_err: "tok_type t = MTT_SCH \<Longrightarrow> pI src ts (Inl e) \<Longrightarrow> pT src (t # ts) (Inl e)"
| I_end: "pI src [] (Inr ([], []))"
| I_stop: "tok_type t = MTT_ELSE \<or> tok_type t = MTT_ENDIF \<Longrightarrow> pI src (t # ts) (Inr ([], t # ts))"
| I_ok: "pP src ts (Inr (p, s # rest)) \<Longrightarrow> tok_type s = MTT_SCH \<Longrightarrow> pI src rest (Inr (items, rest'))
    \<Longrightarrow> pI src ts (Inr ((p, text_of src s) # items, rest'))"
| I_err: "pP src ts (Inr (p, s # rest)) \<Longrightarrow> tok_type s = MTT_SCH \<Longrightarrow> pI src rest (Inl e) \<Longrightarrow> pI src ts (Inl e)"
| I_ph: "pP src ts (Inl e) \<Longrightarrow> pI src ts (Inl e)"
| P_ok: "tok_type t = MTT_PH \<Longrightarrow> ph_expr (text_of src t) = Some (name, sep) \<Longrightarrow> pP src (t # ts) (Inr (Ph name sep, ts))"
| P_bad: "tok_type t = MTT_PH \<Longrightarrow> ph_expr (text_of src t) = None
    \<Longrightarrow> pP src (t # ts) (Inl (Bad_expr (tok_beg t) (tok_end t)))"
| If_bad: "tok_type t = MTT_IF \<Longrightarrow> cond_expr (text_of src t) = (name, c) \<Longrightarrow> mist_name_is_bad name
    \<Longrightarrow> pP src (t # ts) (Inl (Bad_cond name (tok_beg t)))"
| If_then_err: "tok_type t = MTT_IF \<Longrightarrow> cond_expr (text_of src t) = (name, c) \<Longrightarrow> \<not> mist_name_is_bad name
    \<Longrightarrow> pT src ts (Inl e) \<Longrightarrow> pP src (t # ts) (Inl e)"
| If_end: "tok_type t = MTT_IF \<Longrightarrow> cond_expr (text_of src t) = (name, c) \<Longrightarrow> \<not> mist_name_is_bad name
    \<Longrightarrow> pT src ts (Inr (T, [])) \<Longrightarrow> pP src (t # ts) (Inl (If_no_endif (tok_beg t)))"
| If_ok: "tok_type t = MTT_IF \<Longrightarrow> cond_expr (text_of src t) = (name, c) \<Longrightarrow> \<not> mist_name_is_bad name
    \<Longrightarrow> pT src ts (Inr (T, s # rest)) \<Longrightarrow> tok_type s = MTT_ENDIF
    \<Longrightarrow> pP src (t # ts) (Inr (Cond name c T (Tmpl [] []), rest))"
| Else_err: "tok_type t = MTT_IF \<Longrightarrow> cond_expr (text_of src t) = (name, c) \<Longrightarrow> \<not> mist_name_is_bad name
    \<Longrightarrow> pT src ts (Inr (T, s # rest)) \<Longrightarrow> tok_type s = MTT_ELSE \<Longrightarrow> pT src rest (Inl e)
    \<Longrightarrow> pP src (t # ts) (Inl e)"
| Else_end: "tok_type t = MTT_IF \<Longrightarrow> cond_expr (text_of src t) = (name, c) \<Longrightarrow> \<not> mist_name_is_bad name
    \<Longrightarrow> pT src ts (Inr (T, s # rest)) \<Longrightarrow> tok_type s = MTT_ELSE \<Longrightarrow> pT src rest (Inr (E, []))
    \<Longrightarrow> pP src (t # ts) (Inl (Else_no_endif (tok_beg s)))"
| Else_else: "tok_type t = MTT_IF \<Longrightarrow> cond_expr (text_of src t) = (name, c) \<Longrightarrow> \<not> mist_name_is_bad name
    \<Longrightarrow> pT src ts (Inr (T, s # rest)) \<Longrightarrow> tok_type s = MTT_ELSE \<Longrightarrow> pT src rest (Inr (E, z # rest')) \<Longrightarrow> tok_type z = MTT_ELSE
    \<Longrightarrow> pP src (t # ts) (Inl (If_no_endif (tok_beg t)))"
| Else_ok: "tok_type t = MTT_IF \<Longrightarrow> cond_expr (text_of src t) = (name, c) \<Longrightarrow> \<not> mist_name_is_bad name
    \<Longrightarrow> pT src ts (Inr (T, s # rest)) \<Longrightarrow> tok_type s = MTT_ELSE \<Longrightarrow> pT src rest (Inr (E, z # rest')) \<Longrightarrow> tok_type z = MTT_ENDIF
    \<Longrightarrow> pP src (t # ts) (Inr (Cond name c T E, rest'))"

text \<open>The sequences of tokens the tokenizer makes: chunks and placeholders alternate, a chunk comes first and last.\<close>

definition tok_ok :: "string \<Rightarrow> CMistToken \<Rightarrow> bool" where
  "tok_ok src t \<longleftrightarrow> tok_beg t \<le> tok_end t \<and> tok_end t \<le> length src \<and> (tok_type t = MTT_IF \<longrightarrow> trimmed (text_of src t))"

fun chunk_first :: "string \<Rightarrow> CMistToken list \<Rightarrow> bool" and ph_first :: "string \<Rightarrow> CMistToken list \<Rightarrow> bool" where
  "chunk_first src [] = False"
| "chunk_first src (t # ts) = (tok_ok src t \<and> tok_type t = MTT_SCH \<and> ph_first src ts)"
| "ph_first src [] = True"
| "ph_first src (t # ts) = (tok_ok src t \<and> tok_type t \<noteq> MTT_SCH \<and> chunk_first src ts)"

definition stops :: "string \<Rightarrow> CMistToken list \<Rightarrow> bool" where
  "stops src ts \<longleftrightarrow> ph_first src ts \<and> (ts = [] \<or> tok_type (hd ts) = MTT_ELSE \<or> tok_type (hd ts) = MTT_ENDIF)"

inductive_cases pT_ConsE: "pT src (t # ts) r"
inductive_cases pI_NilE: "pI src [] r"
inductive_cases pI_ConsE: "pI src (t # ts) r"
inductive_cases pP_NilE: "pP src [] r"
inductive_cases pP_ConsE: "pP src (t # ts) r"
inductive_cases pIE: "pI src ts r"

lemma pP_head: "pP src ts r \<Longrightarrow> \<exists>t ts'. ts = t # ts' \<and> (tok_type t = MTT_PH \<or> tok_type t = MTT_IF)"
  by (erule pP.cases) auto

lemma pI_inversion:
  assumes "pP src ts r" and "pI src ts q" and "\<And>r1. pP src ts r1 \<Longrightarrow> r1 = r"
  shows "(\<exists>e. r = Inl e \<and> q = Inl e)
    \<or> (\<exists>p s rest. r = Inr (p, s # rest)
         \<and> ((\<exists>items rest'. pI src rest (Inr (items, rest')) \<and> q = Inr ((p, text_of src s) # items, rest'))
            \<or> (\<exists>e. pI src rest (Inl e) \<and> q = Inl e)))"
  using assms(2)
proof cases
  case I_end
  then show ?thesis using pP_head [OF assms(1)] by simp
next
  case I_stop
  then show ?thesis using pP_head [OF assms(1)] by auto
qed (use assms(3) in blast)+

lemma parse_deterministic:
  "pT src ts r \<Longrightarrow> pT src ts r1 \<Longrightarrow> r1 = r"
  "pI src ts q \<Longrightarrow> pI src ts q1 \<Longrightarrow> q1 = q"
  "pP src ts p \<Longrightarrow> pP src ts p1 \<Longrightarrow> p1 = p"
proof (induction arbitrary: r1 and q1 and p1 rule: pT_pI_pP.inducts)
  case (T_ok t ts items rest)
  from T_ok.prems show ?case by (rule pT_ConsE) (auto dest: T_ok.IH(2))
next
  case (T_err t ts e)
  from T_err.prems show ?case by (rule pT_ConsE) (auto dest: T_err.IH(2))
next
  case I_end
  then show ?case by (rule pI_NilE) (auto dest: pP_head)
next
  case (I_stop t ts)
  from I_stop.prems I_stop.hyps show ?case by (elim pI_ConsE) (auto dest: pP_head)
next
  case (I_ok ts p s rest items rest')
  show ?case using pI_inversion [OF I_ok.IH(1) I_ok.prems I_ok.IH(2)] by (auto dest: I_ok.IH(4))
next
  case (I_err ts p s rest e)
  show ?case using pI_inversion [OF I_err.IH(1) I_err.prems I_err.IH(2)] by (auto dest: I_err.IH(4))
next
  case (I_ph ts e)
  show ?case using pI_inversion [OF I_ph.IH(1) I_ph.prems I_ph.IH(2)] by auto
next
  case (If_then_err t name c ts e)
  from If_then_err.prems show ?case
    by (rule pP_ConsE) (use If_then_err.hyps If_then_err.IH(1) in \<open>auto dest: If_then_err.IH(3)\<close>)
next
  case (If_end t name c ts T)
  from If_end.prems show ?case by (rule pP_ConsE) (use If_end.hyps If_end.IH(1) in \<open>auto dest: If_end.IH(3)\<close>)
next
  case (If_ok t name c ts T s rest)
  from If_ok.prems show ?case by (rule pP_ConsE) (use If_ok.hyps If_ok.IH(1) in \<open>auto dest: If_ok.IH(3)\<close>)
next
  case (Else_err t name c ts T s rest e)
  from Else_err.prems show ?case by (rule pP_ConsE) (use Else_err.hyps Else_err.IH(1) in \<open>auto dest!: Else_err.IH(3) dest: Else_err.IH(5)\<close>)
next
  case (Else_end t name c ts T s rest E)
  from Else_end.prems show ?case by (rule pP_ConsE) (use Else_end.hyps Else_end.IH(1) in \<open>auto dest!: Else_end.IH(3) dest: Else_end.IH(5)\<close>)
next
  case (Else_else t name c ts T s rest E z rest')
  from Else_else.prems show ?case by (rule pP_ConsE) (use Else_else.hyps Else_else.IH(1) in \<open>auto dest!: Else_else.IH(3) dest: Else_else.IH(5)\<close>)
next
  case (Else_ok t name c ts T s rest E z rest')
  from Else_ok.prems show ?case by (rule pP_ConsE) (use Else_ok.hyps Else_ok.IH(1) in \<open>auto dest!: Else_ok.IH(3) dest: Else_ok.IH(5)\<close>)
qed (erule pP_ConsE; simp)+

section \<open>The parser\<close>

lemma chunk_first_drop:
  assumes "chunk_first src (drop i toks)"
  shows "i < length toks" "drop i toks = toks ! i # drop (Suc i) toks" "tok_ok src (toks ! i)"
    "tok_type (toks ! i) = MTT_SCH" "ph_first src (drop (Suc i) toks)"
proof -
  show i: "i < length toks" using assms by (cases "drop i toks") (auto simp: not_le [symmetric])
  then show d: "drop i toks = toks ! i # drop (Suc i) toks" by (simp add: Cons_nth_drop_Suc)
  show "tok_ok src (toks ! i)" "tok_type (toks ! i) = MTT_SCH" "ph_first src (drop (Suc i) toks)"
    using assms unfolding d by simp_all
qed

lemma ph_first_drop:
  assumes "ph_first src (drop i toks)" and "i < length toks"
  shows "drop i toks = toks ! i # drop (Suc i) toks" "tok_ok src (toks ! i)"
    "tok_type (toks ! i) \<noteq> MTT_SCH" "chunk_first src (drop (Suc i) toks)"
proof -
  show d: "drop i toks = toks ! i # drop (Suc i) toks" using assms(2) by (simp add: Cons_nth_drop_Suc)
  show "tok_ok src (toks ! i)" "tok_type (toks ! i) \<noteq> MTT_SCH" "chunk_first src (drop (Suc i) toks)"
    using assms(1) unfolding d by simp_all
qed

lemma small_if_messages [simp]:
  "small errIfWithoutEndif" "small errElseWithoutEndif" "small errElseWithoutIf" "small errEndifWithoutIf"
  by (simp_all add: small_def errIfWithoutEndif_def errElseWithoutEndif_def errElseWithoutIf_def errEndifWithoutIf_def)

lemma names_good [simp]:
  "\<not> mist_name_is_bad ''then_branch''" "\<not> mist_name_is_bad ''else_branch''"
  "small ''then_branch''" "small ''else_branch''"
  by (simp_all add: mist_name_is_bad_def char_is_bad_iff name_char_def small_def)

text \<open>A template under construction, and what is added to it.\<close>

definition under_way :: "CMistTemplate \<Rightarrow> bool" where
  "under_way t \<longleftrightarrow> grar_ok (t_vals t) \<and> elems (t_vals t) = [] \<and> \<not> t_is_evaluated t \<and> grar_ok (t_sch t) \<and> grar_ok (t_ph t)"

definition grown :: "CMistTemplate \<Rightarrow> CMistTemplate \<Rightarrow> string list \<Rightarrow> CMistPlaceholder list \<Rightarrow> bool" where
  "grown t t' cs ps \<longleftrightarrow> under_way t' \<and> t_name t' = t_name t
     \<and> elems (t_sch t') = elems (t_sch t) @ cs \<and> elems (t_ph t') = elems (t_ph t) @ ps"

lemma under_way_blocks:
  "under_way t \<Longrightarrow> tpl_blocks t = 5 + int (length (elems (t_sch t))) + sum_list (map ph_blocks (elems (t_ph t)))"
  by (cases t) (simp add: under_way_def)

lemma grown_blocks:
  "under_way t \<Longrightarrow> grown t t' cs ps \<Longrightarrow> tpl_blocks t' = tpl_blocks t + int (length cs) + sum_list (map ph_blocks ps)"
  by (simp add: under_way_blocks grown_def)

lemma grown_refl: "under_way t \<Longrightarrow> grown t t [] []"
  by (simp add: grown_def)

lemma grown_trans: "grown t t1 cs ps \<Longrightarrow> grown t1 t2 cs' ps' \<Longrightarrow> grown t t2 (cs @ cs') (ps @ ps')"
  by (simp add: grown_def)

lemma match_string_chunk_returns:
  assumes nn: "no_nul src" and ch: "chunk_first src (drop i toks)" and t: "under_way t" "length (elems (t_sch t)) \<le> i"
  shows "returns (mist_match_string_chunk m toks i t src) (\<lambda>(ec, t', i', m'). i' = Suc i
     \<and> (ec = MIST_OK \<and> grown t t' [text_of src (toks ! i)] [] \<and> live m' = live m + 1
        \<or> ec = MIST_OUT_OF_MEMORY \<and> grown t t' [] [] \<and> live m' = live m)
     \<and> (never_fails m \<and> small src \<and> small toks \<longrightarrow> never_fails m' \<and> ec = MIST_OK))"
proof -
  note c = chunk_first_drop [OF ch]
  have be: "tok_beg (toks ! i) \<le> tok_end (toks ! i)" "tok_end (toks ! i) \<le> length src" using c(3) by (simp_all add: tok_ok_def)
  have g: "grar_ok (t_sch t)" using t by (simp add: under_way_def)
  have "small toks \<Longrightarrow> small (elems (t_sch t))" using t(2) c(1) by (simp add: small_def)
  then show ?thesis
    unfolding mist_match_string_chunk_def Let_def using c t nn be g
    by (auto simp: grown_def under_way_def split: option.splits
        intro!: returns_mono [OF get_substring_returns] returns_mono [OF grar_add_element_ok])
qed

text \<open>
  The outcome of a parsing function for a relation \<open>R\<close> of the grammar at the token \<open>i\<close>: it returned what
  represents the tree and stopped where the grammar does, or described the error, or ran out of
  memory. The last case is ruled out where the allocator refuses nothing and the sizes are small (\<open>sm\<close>).
\<close>

definition outcome ::
  "(parse_err + ('x \<times> CMistToken list) \<Rightarrow> bool) \<Rightarrow> ('x \<Rightarrow> 'o \<Rightarrow> bool) \<Rightarrow> ('o \<Rightarrow> int) \<Rightarrow> (CMistToken list \<Rightarrow> bool)
     \<Rightarrow> string \<Rightarrow> CMistToken list \<Rightarrow> nat \<Rightarrow> mem \<Rightarrow> EMistErrorCode \<times> 'o option \<times> nat \<times> string option \<times> mem \<Rightarrow> bool" where
  "outcome R rep blocks rest src toks i m r \<longleftrightarrow> (case r of (ec, res, i', d, m') \<Rightarrow> i' \<le> length toks \<and>
     (ec = MIST_OK \<and> d = None \<and> i < i' \<and> rest (drop i' toks)
        \<and> (\<exists>x y. res = Some y \<and> R (Inr (x, drop i' toks)) \<and> rep x y \<and> live m' = live m + blocks y)
      \<or> ec = MIST_SYNTAX_ERROR \<and> res = None \<and> (\<exists>e. R (Inl e) \<and> described d (parse_message src e))
        \<and> live m' = live m + of_bool (d \<noteq> None)
      \<or> ec = MIST_OUT_OF_MEMORY \<and> res = None \<and> d = None \<and> live m \<le> live m')
     \<and> (never_fails m \<and> small src \<and> small toks \<longrightarrow>
          never_fails m' \<and> ec \<noteq> MIST_OUT_OF_MEMORY \<and> (ec \<noteq> MIST_OK \<longrightarrow> d \<noteq> None)))"

abbreviation tpl_outcome :: "string \<Rightarrow> CMistToken list \<Rightarrow> nat \<Rightarrow> string \<Rightarrow> mem \<Rightarrow> tpl_result \<Rightarrow> bool" where
  "tpl_outcome src toks i name \<equiv>
     outcome (pT src (drop i toks)) (\<lambda>T t. rep_t T t \<and> t_name t = name) tpl_blocks (stops src) src toks i"

abbreviation ph_res_outcome :: "string \<Rightarrow> CMistToken list \<Rightarrow> nat \<Rightarrow> mem \<Rightarrow> ph_result \<Rightarrow> bool" where
  "ph_res_outcome src toks i \<equiv>
     outcome (pP src (drop i toks)) rep_p ph_blocks (chunk_first src) src toks i"

text \<open>The template a conditional owns for its results: created, with nothing in it.\<close>

definition blank :: "string \<Rightarrow> CMistTemplate \<Rightarrow> bool" where
  "blank name t \<longleftrightarrow> under_way t \<and> t_name t = name \<and> elems (t_sch t) = [] \<and> elems (t_ph t) = []"

lemma template_create_blank:
  assumes "\<not> mist_name_is_bad name"
  shows "returns (mist_template_create m name) (\<lambda>(pt, m').
     (case pt of None \<Rightarrow> live m' = live m | Some t \<Rightarrow> live m' = live m + tpl_blocks t \<and> blank name t)
     \<and> (never_fails m \<and> small name \<longrightarrow> never_fails m' \<and> pt \<noteq> None))"
  by (rule returns_mono [OF template_create_returns [OF assms]])
    (auto simp: blank_def under_way_def split: option.splits)

lemma rep_p_Cond:
  "rep_p (Cond name c T E) p \<longleftrightarrow> (\<exists>r t e. p = Placeholder MPH_COND name (Own r) None Null (Own t) (Own e) c
     \<and> blank name r \<and> rep_t T t \<and> rep_t E e)"
  by (auto simp: blank_def under_way_def)

lemma rep_t_iff:
  "rep_t (Tmpl c items) t \<longleftrightarrow> under_way t \<and> elems (t_sch t) = c # map snd items \<and> list_all2 rep_p (map fst items) (elems (t_ph t))"
  by (auto simp: under_way_def)

lemma cond_expr_length: "cond_expr s = (name, c) \<Longrightarrow> length name \<le> length s"
proof -
  assume e: "cond_expr s = (name, c)"
  have "length (trim (tl (dropWhile is_ws (butlast (drop 6 s))))) \<le> length s"
    using length_trim [of "tl (dropWhile is_ws (butlast (drop 6 s)))"] length_dropWhile_le [of is_ws "butlast (drop 6 s)"]
    by simp
  then show ?thesis using e by (auto simp: cond_expr_def Let_def split: if_splits)
qed

definition if_outcome :: "string \<Rightarrow> CMistToken list \<Rightarrow> nat \<Rightarrow> string \<Rightarrow> bool \<Rightarrow> mem \<Rightarrow> ph_result \<Rightarrow> bool" where
  "if_outcome src toks i name c m res \<longleftrightarrow> (case res of (ec, pp, i', d, m') \<Rightarrow> i' = Suc i
     \<and> (ec = MIST_OK \<and> \<not> mist_name_is_bad name \<and> d = None
          \<and> (\<exists>r. pp = Some (Placeholder MPH_COND name (Own r) None Null Null Null c) \<and> blank name r \<and> live m' = live m + 2 + tpl_blocks r)
        \<or> ec = MIST_SYNTAX_ERROR \<and> mist_name_is_bad name \<and> pp = None
          \<and> described d (parse_message src (Bad_cond name (tok_beg (toks ! i)))) \<and> live m' = live m + of_bool (d \<noteq> None)
        \<or> ec = MIST_OUT_OF_MEMORY \<and> pp = None \<and> d = None \<and> live m' = live m)
     \<and> (never_fails m \<and> small src \<longrightarrow> never_fails m' \<and> ec \<noteq> MIST_OUT_OF_MEMORY \<and> (ec \<noteq> MIST_OK \<longrightarrow> d \<noteq> None)))"

lemma match_if_returns:
  assumes nn: "no_nul src" and t: "i < length toks" "tok_ok src (toks ! i)" "tok_type (toks ! i) = MTT_IF"
    and e: "cond_expr (text_of src (toks ! i)) = (name, c)"
  shows "returns (mist_match_if m toks i src) (if_outcome src toks i name c m)"
proof -
  define s where "s = text_of src (toks ! i)"
  have be: "tok_beg (toks ! i) \<le> tok_end (toks ! i)" "tok_end (toks ! i) \<le> length src" "trimmed s"
    using t by (simp_all add: tok_ok_def s_def)
  then have lt: "tok_beg (toks ! i) < tok_end (toks ! i)" by (cases "tok_beg (toks ! i) = tok_end (toks ! i)") (auto simp: s_def trimmed_def)
  have len: "length name \<le> tok_end (toks ! i) - tok_beg (toks ! i)" using cond_expr_length [OF e] be by simp
  have sm: "small src \<Longrightarrow> small name" "small src \<Longrightarrow> tok_end (toks ! i) - tok_beg (toks ! i) < 2 ^ 50"
    using len be by (simp_all add: small_def)
  have err: "returns (invalid_ph_error m1 (tok_end (toks ! i) - tok_beg (toks ! i)) name src (tok_beg (toks ! i)))
      (\<lambda>(d, m2). described d (invalid_ph_message name src (tok_beg (toks ! i))) \<and> live m2 = live m1 + of_bool (d \<noteq> None)
       \<and> (never_fails m1 \<and> small src \<longrightarrow> never_fails m2 \<and> d \<noteq> None))" for m1
    by (rule returns_mono [OF invalid_ph_error_returns]) (use len be sm in auto)
  have cond: "returns (mist_parse_cond_expr m src (tok_beg (toks ! i)) (tok_end (toks ! i))) (\<lambda>(nm, c', m').
     live m' = live m + of_bool (nm \<noteq> None) \<and> (nm = None \<or> nm = Some name \<and> c' = c)
     \<and> (never_fails m \<and> small src \<longrightarrow> never_fails m' \<and> nm \<noteq> None))"
    by (rule returns_mono [OF parse_cond_expr_returns]) (use nn lt be e in \<open>auto simp: s_def\<close>)
  show ?thesis
  proof (cases "mist_name_is_bad name")
    case True
    then show ?thesis
      unfolding mist_match_if_def Let_def if_outcome_def using t
      by (auto split: option.splits intro!: returns_mono [OF cond] returns_mono [OF err])
  next
    case False
    then show ?thesis
      unfolding mist_match_if_def Let_def if_outcome_def using t sm
      by (auto split: option.splits intro!: returns_mono [OF cond] returns_mono [OF placeholder_create_returns]
          returns_mono [OF template_create_blank] simp: destroy_live)
  qed
qed

text \<open>What the functions below assume of the parser of templates they call for a branch: it works for at most \<open>n\<close> tokens.\<close>

definition tpl_ok :: "tpl_parser \<Rightarrow> string \<Rightarrow> CMistToken list \<Rightarrow> nat \<Rightarrow> bool" where
  "tpl_ok tpl src toks n \<longleftrightarrow> (\<forall>m i name. \<not> mist_name_is_bad name \<longrightarrow> small name \<longrightarrow> chunk_first src (drop i toks)
     \<longrightarrow> length toks \<le> i + n \<longrightarrow> returns (tpl m toks i name src) (tpl_outcome src toks i name m))"

lemma tpl_okD:
  "tpl_ok tpl src toks n \<Longrightarrow> \<not> mist_name_is_bad name \<Longrightarrow> small name \<Longrightarrow> chunk_first src (drop i toks)
     \<Longrightarrow> length toks \<le> i + n \<Longrightarrow> returns (tpl m toks i name src) (tpl_outcome src toks i name m)"
  by (simp add: tpl_ok_def)

abbreviation half_cond :: "string \<Rightarrow> CMistTemplate \<Rightarrow> CMistTemplate \<Rightarrow> bool \<Rightarrow> CMistPlaceholder" where
  "half_cond name r t c \<equiv> Placeholder MPH_COND name (Own r) None Null (Own t) Null c"

lemma empty_else_branch_returns:
  "returns (empty_else_branch m (half_cond name r t c)) (\<lambda>(ec, pp, m').
     (ec = MIST_OK \<and> (\<exists>e. pp = Some (Placeholder MPH_COND name (Own r) None Null (Own t) (Own e) c)
        \<and> rep_t (Tmpl [] []) e \<and> live m' = live m + tpl_blocks e)
      \<or> ec = MIST_OUT_OF_MEMORY \<and> pp = None \<and> live m' = live m - ph_blocks (half_cond name r t c))
     \<and> (never_fails m \<longrightarrow> never_fails m' \<and> ec = MIST_OK))"
proof -
  have add: "returns (grar_add_element m1 (t_sch e) []) (\<lambda>(r, g, m2). grar_ok g \<and> live m2 = live m1
      \<and> (if r then elems g = [[]] else g = t_sch e) \<and> (never_fails m1 \<longrightarrow> r \<and> never_fails m2))"
    if "blank ''else_branch'' e" for e m1
    by (rule returns_mono [OF grar_add_element_ok]) (use that in \<open>auto simp: blank_def under_way_def\<close>)
  have blocks: "tpl_blocks e = 5" if "blank ''else_branch'' e" for e
    using that by (simp add: blank_def under_way_blocks)
  have rep: "rep_t (Tmpl [] []) (Template (t_name e) (t_vals e) g (t_ph e) (t_is_evaluated e))"
      "tpl_blocks (Template (t_name e) (t_vals e) g (t_ph e) (t_is_evaluated e)) = 6"
    if "blank ''else_branch'' e" "grar_ok g" "elems g = [[]]" for e g
    using that by (simp_all add: blank_def under_way_def)
  obtain te m1 where m1: "mist_template_create m ''else_branch'' = Some (te, m1)"
      "case te of None \<Rightarrow> live m1 = live m | Some e \<Rightarrow> live m1 = live m + tpl_blocks e \<and> blank ''else_branch'' e"
      "never_fails m \<longrightarrow> never_fails m1 \<and> te \<noteq> None"
    using template_create_blank [of "''else_branch''" m] by (auto simp: returns_iff)
  obtain sch m2 where m2: "strdup m1 [] = (sch, m2)" by fastforce
  show ?thesis
  proof (cases "te = None \<or> sch = None")
    case True
    then show ?thesis
      using m1 m2 strdup_small [OF m2] unfolding empty_else_branch_def
      by (auto simp: Let_def destroy_live split: option.splits)
  next
    case False
    then obtain e s where [simp]: "te = Some e" "sch = Some s" by auto
    have e: "blank ''else_branch'' e" "live m1 = live m + 5" using m1(2) blocks by auto
    have s: "s = []" "live m2 = live m1 + 1" "never_fails m1 \<longrightarrow> never_fails m2" using strdup_small [OF m2] by auto
    show ?thesis
      unfolding empty_else_branch_def using m1(1,3) m2 e s rep [OF e(1)] blocks [OF e(1)]
      by (auto simp: Let_def destroy_live simp del: rep_t.simps tpl_blocks.simps mist_template_destroy.simps intro!: returns_mono [OF add [OF e(1)]])
  qed
qed

text \<open>The errors of the grammar and their messages.\<close>

definition tells :: "(string option \<times> mem) option \<Rightarrow> string \<Rightarrow> parse_err \<Rightarrow> mem \<Rightarrow> bool" where
  "tells x src e m \<longleftrightarrow> returns x (\<lambda>(d, m'). described d (parse_message src e) \<and> live m' = live m + of_bool (d \<noteq> None)
     \<and> (never_fails m \<longrightarrow> never_fails m' \<and> d \<noteq> None))"

lemma parse_error_tells:
  assumes "ptr \<le> length src"
  shows "tells (parse_error m errIfWithoutEndif src ptr) src (If_no_endif ptr) m"
    "tells (parse_error m errElseWithoutEndif src ptr) src (Else_no_endif ptr) m"
    "tells (parse_error m errElseWithoutIf src ptr) src (Else_no_if ptr) m"
    "tells (parse_error m errEndifWithoutIf src ptr) src (Endif_no_if ptr) m"
  unfolding tells_def by (rule returns_mono [OF parse_error_returns [OF assms]]; auto)+

lemmas tellsD = parse_error_tells [unfolded tells_def]

declare parse_message.simps [simp del] rep_t.simps [simp del] rep_p.simps [simp del] tpl_blocks.simps [simp del] mist_template_destroy.simps [simp del]
  mist_placeholder_destroy.simps [simp del]

lemma stops_drop:
  assumes "stops src (drop i toks)" and "i < length toks"
  shows "drop i toks = toks ! i # drop (Suc i) toks" "tok_ok src (toks ! i)" "chunk_first src (drop (Suc i) toks)"
    "tok_type (toks ! i) = MTT_ELSE \<or> tok_type (toks ! i) = MTT_ENDIF"
proof -
  have ph: "ph_first src (drop i toks)" using assms(1) by (simp add: stops_def)
  show "drop i toks = toks ! i # drop (Suc i) toks" "tok_ok src (toks ! i)" "chunk_first src (drop (Suc i) toks)"
    by (fact ph_first_drop [OF ph assms(2)])+
  show "tok_type (toks ! i) = MTT_ELSE \<or> tok_type (toks ! i) = MTT_ENDIF"
    using assms by (simp add: stops_def hd_drop_conv_nth)
qed

text \<open>The outcome of the else part; \<open>i\<close> is where the then-branch ended.\<close>

definition else_outcome ::
  "string \<Rightarrow> CMistToken list \<Rightarrow> nat \<Rightarrow> string \<Rightarrow> CMistTemplate \<Rightarrow> CMistTemplate \<Rightarrow> bool \<Rightarrow> mem
     \<Rightarrow> EMistErrorCode \<times> CMistPlaceholder option \<times> CMistToken \<times> nat \<times> string option \<times> mem \<Rightarrow> bool" where
  "else_outcome src toks i name r t c m res \<longleftrightarrow> (case res of (ec, pp, tk, i', d, m') \<Rightarrow> i' \<le> length toks \<and>
     (ec = MIST_OK \<and> d = None \<and> i \<le> i' \<and> i' < length toks \<and> tk = toks ! i' \<and> stops src (drop i' toks)
        \<and> (\<exists>E e. pp = Some (Placeholder MPH_COND name (Own r) None Null (Own t) (Own e) c) \<and> rep_t E e
             \<and> live m' = live m + tpl_blocks e
             \<and> (tok_type (toks ! i) = MTT_ENDIF \<and> i' = i \<and> E = Tmpl [] []
                \<or> tok_type (toks ! i) = MTT_ELSE \<and> pT src (drop (Suc i) toks) (Inr (E, drop i' toks))))
      \<or> ec = MIST_SYNTAX_ERROR \<and> pp = None \<and> tok_type (toks ! i) = MTT_ELSE
        \<and> (\<exists>e. described d (parse_message src e)
             \<and> (pT src (drop (Suc i) toks) (Inl e)
                \<or> (\<exists>E. pT src (drop (Suc i) toks) (Inr (E, [])) \<and> e = Else_no_endif (tok_beg (toks ! i)))))
        \<and> live m' = live m - ph_blocks (half_cond name r t c) + of_bool (d \<noteq> None)
      \<or> ec = MIST_OUT_OF_MEMORY \<and> pp = None \<and> d = None \<and> live m - ph_blocks (half_cond name r t c) \<le> live m')
     \<and> (never_fails m \<and> small src \<and> small toks \<longrightarrow>
          never_fails m' \<and> ec \<noteq> MIST_OUT_OF_MEMORY \<and> (ec \<noteq> MIST_OK \<longrightarrow> d \<noteq> None)))"

lemma conditional_else_returns:
  assumes tpl: "tpl_ok tpl src toks n" and i: "i < length toks" "stops src (drop i toks)" and n: "length toks \<le> Suc i + n"
  shows "returns (conditional_else tpl m toks i (half_cond name r t c) src) (else_outcome src toks i name r t c m)"
proof -
  note st = stops_drop [OF i(2,1)]
  show ?thesis
  proof (cases "tok_type (toks ! i) = MTT_ELSE")
    case False
    then show ?thesis
      unfolding conditional_else_def Let_def using st i
      by (auto simp: else_outcome_def intro!: returns_mono [OF empty_else_branch_returns])
  next
    case True
    have si: "Suc i < length toks" using chunk_first_drop(1) [OF st(3)] .
    have beg: "tok_beg (toks ! i) \<le> length src" using st(2) by (simp add: tok_ok_def)
    note branch = tpl_okD [OF tpl names_good(2,4) st(3), of m, OF n]
    obtain ec pt i' d m' where b: "tpl m toks (Suc i) ''else_branch'' src = Some (ec, pt, i', d, m')"
        "tpl_outcome src toks (Suc i) ''else_branch'' m (ec, pt, i', d, m')"
      using branch unfolding returns_iff by auto
    note run = conditional_else_def mist_match_else_def Let_def
    from b(2) consider (ok) E e where "ec = MIST_OK" "d = None" "Suc i < i'" "i' \<le> length toks" "stops src (drop i' toks)"
        "pt = Some e" "pT src (drop (Suc i) toks) (Inr (E, drop i' toks))" "rep_t E e" "live m' = live m + tpl_blocks e"
      | (syn) e where "ec = MIST_SYNTAX_ERROR" "pt = None" "pT src (drop (Suc i) toks) (Inl e)" "described d (parse_message src e)"
          "live m' = live m + of_bool (d \<noteq> None)"
      | (oom) "ec = MIST_OUT_OF_MEMORY" "pt = None" "d = None" "live m \<le> live m'"
      unfolding outcome_def by auto
    then show ?thesis
    proof cases
      case ok
      show ?thesis
      proof (cases "i' < length toks")
        case True
        then show ?thesis
          using ok b \<open>tok_type (toks ! i) = MTT_ELSE\<close> i(1) si unfolding run by (auto simp: else_outcome_def outcome_def)
      next
        case False
        then have "drop i' toks = []" by simp
        then show ?thesis
          using False ok b True i(1) si unfolding run
          by (auto simp: else_outcome_def outcome_def destroy_live intro!: returns_mono [OF tellsD(2) [OF beg]])
      qed
    next
      case syn
      then show ?thesis
        using b True i(1) si unfolding run by (auto simp: else_outcome_def outcome_def destroy_live)
    next
      case oom
      then show ?thesis
        using b True i(1) si unfolding run by (auto simp: else_outcome_def outcome_def destroy_live)
    qed
  qed
qed

text \<open>The end of a conditional whose branches have been read.\<close>

lemma conditional_finish:
  assumes rel: "tok_type (toks ! i) = MTT_IF" "cond_expr (text_of src (toks ! i)) = (name, c)" "\<not> mist_name_is_bad name"
      "pT src (drop (Suc i) toks) (Inr (T, drop j toks))"
    and di: "drop i toks = toks ! i # drop (Suc i) toks" "i < length toks" "i < j" and j: "j < length toks" "stops src (drop j toks)"
    and rep: "rep_t T t" "blank name r" and live: "live m2 = live m + ph_blocks (half_cond name r t c)"
    and nf: "never_fails m \<and> small src \<and> small toks \<longrightarrow> never_fails m2"
    and out: "else_outcome src toks j name r t c m2 (ec, pp, tk, k, d, m3)" and beg: "tok_beg (toks ! i) \<le> length src"
  shows "returns (case pp of None \<Rightarrow> Some (ec, None, k, d, m3)
      | Some pp \<Rightarrow> conditional_endif m3 toks k pp tk (toks ! i) src) (ph_res_outcome src toks i m)"
proof -
  note dj = stops_drop [OF j(2,1)]
  note rel' = rel(1-3) rel(4) [unfolded dj(1)]
  from out consider
    (ok) E e where "ec = MIST_OK" "j \<le> k" "k < length toks" "tk = toks ! k" "stops src (drop k toks)"
        "pp = Some (Placeholder MPH_COND name (Own r) None Null (Own t) (Own e) c)" "rep_t E e" "live m3 = live m2 + tpl_blocks e"
        "tok_type (toks ! j) = MTT_ENDIF \<and> k = j \<and> E = Tmpl [] []
         \<or> tok_type (toks ! j) = MTT_ELSE \<and> pT src (drop (Suc j) toks) (Inr (E, drop k toks))"
    | (syn) e where "ec = MIST_SYNTAX_ERROR" "pp = None" "tok_type (toks ! j) = MTT_ELSE" "described d (parse_message src e)"
        "pT src (drop (Suc j) toks) (Inl e)
         \<or> (\<exists>E. pT src (drop (Suc j) toks) (Inr (E, [])) \<and> e = Else_no_endif (tok_beg (toks ! j)))"
        "live m3 = live m2 - ph_blocks (half_cond name r t c) + of_bool (d \<noteq> None)"
    | (oom) "ec = MIST_OUT_OF_MEMORY" "pp = None" "d = None" "live m2 - ph_blocks (half_cond name r t c) \<le> live m3"
    unfolding else_outcome_def by auto
  then show ?thesis
  proof cases
    case syn
    have "pP src (drop i toks) (Inl e)"
      unfolding di using syn(5) Else_err [OF rel' syn(3)] Else_end [OF rel' syn(3)] by blast
    then show ?thesis using syn out nf live by (auto simp: outcome_def else_outcome_def)
  next
    case oom
    then show ?thesis using out nf live by (auto simp: outcome_def else_outcome_def)
  next
    case ok
    note dk = stops_drop [OF ok(5,3)]
    have nf3: "never_fails m \<and> small src \<and> small toks \<longrightarrow> never_fails m3" using out nf ok by (auto simp: else_outcome_def)
    have live3: "live m3 = live m + ph_blocks (the pp)" using ok(6,8) live by simp
    show ?thesis
    proof (cases "tok_type tk = MTT_ENDIF")
      case True
      have "pP src (drop i toks) (Inr (Cond name c T E, drop (Suc k) toks))"
        unfolding di using ok(9) If_ok [OF rel'] Else_ok [OF rel', of E "toks ! k" "drop (Suc k) toks"] True ok(4)
        by (auto simp: dk(1) [symmetric])
      moreover have "rep_p (Cond name c T E) (the pp)" unfolding rep_p_Cond using rep ok(6,7) by auto
      ultimately show ?thesis
        using True ok(1-4,6) nf3 live3 dk(3) di(3) by (auto simp: outcome_def conditional_endif_def mist_match_endif_def)
    next
      case False
      then have els: "tok_type tk = MTT_ELSE" using dk(4) ok(4) by simp
      have "tok_type (toks ! j) \<noteq> MTT_ENDIF \<or> k \<noteq> j" using els ok(4) by auto
      then have "tok_type (toks ! j) = MTT_ELSE" "pT src (drop (Suc j) toks) (Inr (E, toks ! k # drop (Suc k) toks))"
        using ok(9) dk(1) by auto
      from Else_else [OF rel' this els [unfolded ok(4)]] have "pP src (drop i toks) (Inl (If_no_endif (tok_beg (toks ! i))))"
        unfolding di .
      then show ?thesis
        using els ok(3,6) nf3 live3
        by (auto simp: outcome_def conditional_endif_def destroy_live intro!: returns_mono [OF tellsD(1) [OF beg]])
    qed
  qed
qed

lemma conditional_returns:
  assumes nn: "no_nul src" and tpl: "tpl_ok tpl src toks n" and i: "i < length toks" "ph_first src (drop i toks)"
    and if_tok: "tok_type (toks ! i) = MTT_IF" and n: "length toks \<le> Suc i + n"
  shows "returns (mist_parse_conditional tpl m toks i src) (ph_res_outcome src toks i m)"
proof -
  note t = ph_first_drop [OF i(2,1)]
  obtain name c where e: "cond_expr (text_of src (toks ! i)) = (name, c)" by fastforce
  have beg: "tok_beg (toks ! i) \<le> length src" using t(2) by (simp add: tok_ok_def)
  have si: "Suc i < length toks" using chunk_first_drop(1) [OF t(4)] .
  note rules = if_tok e
  obtain ec pp i1 d m1 where m1: "mist_match_if m toks i src = Some (ec, pp, i1, d, m1)"
      "if_outcome src toks i name c m (ec, pp, i1, d, m1)"
    using match_if_returns [OF nn i(1) t(2) if_tok e, of m] unfolding returns_iff by auto
  show ?thesis
  proof (cases "ec = MIST_OK")
    case False
    then show ?thesis
      using m1 i(1) If_bad [OF if_tok e, of "drop (Suc i) toks"] unfolding mist_parse_conditional_def
      by (auto simp: outcome_def if_outcome_def t(1) Let_def)
  next
    case True
    then obtain r where r: "pp = Some (Placeholder MPH_COND name (Own r) None Null Null Null c)" "blank name r"
        "live m1 = live m + 2 + tpl_blocks r" "\<not> mist_name_is_bad name" "d = None" "i1 = Suc i"
      using m1(2) by (auto simp: if_outcome_def)
    obtain ec2 pt i2 d2 m2 where b: "tpl m1 toks (Suc i) ''then_branch'' src = Some (ec2, pt, i2, d2, m2)"
        "tpl_outcome src toks (Suc i) ''then_branch'' m1 (ec2, pt, i2, d2, m2)"
      using tpl_okD [OF tpl names_good(1,3) t(4), of m1, OF n] unfolding returns_iff by auto
    have nf: "never_fails m \<and> small src \<longrightarrow> never_fails m1" using m1(2) by (auto simp: if_outcome_def)
    have run: "mist_parse_conditional tpl m toks i src =
        (let pp = Placeholder MPH_COND name (Own r) None Null (case pt of None \<Rightarrow> Null | Some t \<Rightarrow> Own t) Null c in
         if ec2 \<noteq> MIST_OK then Some (ec2, None, i2, d2, mist_placeholder_destroy m2 pp)
         else if i2 \<ge> length toks then do {
           (d, m) \<leftarrow> parse_error m2 errIfWithoutEndif src (tok_beg (toks ! i));
           Some (MIST_SYNTAX_ERROR, None, i2, d, mist_placeholder_destroy m pp)
         } else do {
           (ec, pp, t, istart, d, m) \<leftarrow> conditional_else tpl m2 toks i2 pp src;
           (case pp of
              None \<Rightarrow> Some (ec, None, istart, d, m)
            | Some pp \<Rightarrow> conditional_endif m toks istart pp t (toks ! i) src)
         })"
      using True m1(1) i(1) si b(1) r(1,6) unfolding mist_parse_conditional_def by (simp add: Let_def)
    from b(2) consider (ok) T t where "ec2 = MIST_OK" "d2 = None" "Suc i < i2" "i2 \<le> length toks" "stops src (drop i2 toks)"
        "pt = Some t" "pT src (drop (Suc i) toks) (Inr (T, drop i2 toks))" "rep_t T t" "live m2 = live m1 + tpl_blocks t"
      | (syn) e where "ec2 = MIST_SYNTAX_ERROR" "pt = None" "pT src (drop (Suc i) toks) (Inl e)" "described d2 (parse_message src e)"
          "live m2 = live m1 + of_bool (d2 \<noteq> None)"
      | (oom) "ec2 = MIST_OUT_OF_MEMORY" "pt = None" "d2 = None" "live m1 \<le> live m2"
      unfolding outcome_def by auto
    then show ?thesis
    proof cases
      case syn
      with If_then_err [OF if_tok e r(4) syn(3)] show ?thesis
        using b(2) nf r unfolding run by (auto simp: outcome_def t(1) destroy_live)
    next
      case oom
      then show ?thesis using b(2) nf r unfolding run by (auto simp: outcome_def destroy_live)
    next
      case ok
      note rel = if_tok e r(4) ok(7)
      have nf2: "never_fails m \<and> small src \<and> small toks \<longrightarrow> never_fails m2" using b(2) nf by (auto simp: outcome_def)
      have live2: "live m2 = live m + ph_blocks (half_cond name r t c)" using ok(9) r(3) by simp
      show ?thesis
      proof (cases "i2 < length toks")
        case False
        then have nil: "drop i2 toks = []" by simp
        show ?thesis
          using False ok(1,4,6) If_end [OF rel [unfolded nil]] live2 nf2 unfolding run
          by (auto simp: outcome_def t(1) Let_def destroy_live intro!: returns_mono [OF tellsD(1) [OF beg]])
      next
        case lt: True
        obtain ec3 pp3 t3 i3 d3 m3 where b3: "conditional_else tpl m2 toks i2 (half_cond name r t c) src = Some (ec3, pp3, t3, i3, d3, m3)"
            "else_outcome src toks i2 name r t c m2 (ec3, pp3, t3, i3, d3, m3)"
          using conditional_else_returns [OF tpl lt ok(5), of m2 name r t c] ok(3) n unfolding returns_iff by auto
        have run3: "mist_parse_conditional tpl m toks i src = (case pp3 of None \<Rightarrow> Some (ec3, None, i3, d3, m3)
            | Some pp \<Rightarrow> conditional_endif m3 toks i3 pp t3 (toks ! i) src)"
          using lt ok(1,6) b3(1) unfolding run by (simp add: Let_def)
        show ?thesis
          unfolding run3 by (rule conditional_finish [OF rel t(1) i(1) _ lt ok(5,8) r(2) live2 nf2 b3(2) beg]) (use ok(3) in simp)
      qed
    qed
  qed
qed

lemma ph_expression_returns:
  assumes nn: "no_nul src" and tpl: "tpl_ok tpl src toks n" and i: "i < length toks" "ph_first src (drop i toks)"
    and ty: "tok_type (toks ! i) = MTT_IF \<or> tok_type (toks ! i) = MTT_PH" and n: "length toks \<le> Suc i + n"
  shows "returns (mist_parse_ph_expression tpl m toks i src) (ph_res_outcome src toks i m)"
proof (cases "tok_type (toks ! i) = MTT_IF")
  case True
  have "returns (mist_parse_conditional tpl m toks i src) (ph_res_outcome src toks i m)"
    by (rule conditional_returns [OF nn tpl i True n])
  then show ?thesis
    using True i(1) unfolding mist_parse_ph_expression_def Let_def
    by (auto simp: outcome_def elim!: returns_mono)
next
  case False
  then have ph: "tok_type (toks ! i) = MTT_PH" using ty by simp
  note t = ph_first_drop [OF i(2,1)]
  have be: "tok_beg (toks ! i) \<le> tok_end (toks ! i)" "tok_end (toks ! i) \<le> length src" using t(2) by (simp_all add: tok_ok_def)
  define s where "s = text_of src (toks ! i)"
  have len: "length s = tok_end (toks ! i) - tok_beg (toks ! i)" using be by (simp add: s_def)
  have sm: "small src \<Longrightarrow> tok_end (toks ! i) - tok_beg (toks ! i) < 2 ^ 50" using be by (simp add: small_def)
  have beg: "tok_beg (toks ! i) \<le> length src" using be by simp
  have err: "returns (invalid_ph_error m1 (tok_end (toks ! i) - tok_beg (toks ! i)) s src (tok_beg (toks ! i)))
      (\<lambda>(d, m2). described d (parse_message src (Bad_expr (tok_beg (toks ! i)) (tok_end (toks ! i)))) \<and> live m2 = live m1 + of_bool (d \<noteq> None)
       \<and> (never_fails m1 \<and> small src \<longrightarrow> never_fails m2 \<and> d \<noteq> None))" for m1
    by (rule returns_mono [OF invalid_ph_error_returns [OF beg]]) (use len sm in \<open>auto simp: parse_message.simps s_def\<close>)
  have sub: "returns (mist_get_substring m1 src (tok_beg (toks ! i)) (tok_end (toks ! i))) (\<lambda>(r, m2).
     live m2 = live m1 + of_bool (r \<noteq> None) \<and> (r = None \<or> r = Some s) \<and> (never_fails m1 \<and> small src \<longrightarrow> never_fails m2 \<and> r \<noteq> None))" for m1
    using get_substring_returns [OF nn be, of m1] by (simp add: s_def)
  obtain ec pp m1 where p: "mist_parse_placeholder m toks i src = Some (ec, pp, Suc i, m1)"
      "ph_built (ph_expr s) (live m) ec pp (live m1)" "never_fails m \<and> small src \<longrightarrow> never_fails m1 \<and> ec \<noteq> MIST_OUT_OF_MEMORY"
    using parse_placeholder_returns [OF nn i(1) ph be, of m] by (auto simp: returns_iff ph_parsed_def s_def)
  from p(2) consider (ok) name sep q where "ec = MIST_OK" "ph_expr s = Some (name, sep)" "pp = Some q" "rep_p (Ph name sep) q" "live m1 = live m + ph_blocks q"
    | (bad) "ec = MIST_BAD_NAME" "ph_expr s = None" "pp = None" "live m1 = live m"
    | (oom) "ec = MIST_OUT_OF_MEMORY" "pp = None" "live m \<le> live m1"
    unfolding ph_built_def by auto
  then show ?thesis
  proof cases
    case ok
    have "pP src (drop i toks) (Inr (Ph name sep, drop (Suc i) toks))"
      unfolding t(1) using ph ok(2) by (intro P_ok) (simp_all add: s_def)
    then show ?thesis
      using ok ph i(1) p(1,3) t(4) unfolding mist_parse_ph_expression_def by (auto simp: Let_def outcome_def)
  next
    case bad
    have "pP src (drop i toks) (Inl (Bad_expr (tok_beg (toks ! i)) (tok_end (toks ! i))))"
      unfolding t(1) using ph bad(2) by (intro P_bad) (simp_all add: s_def)
    then show ?thesis
      using bad ph i(1) p(1,3) unfolding mist_parse_ph_expression_def
      by (auto simp: Let_def outcome_def described_def split: option.splits intro!: returns_mono [OF sub] returns_mono [OF err [unfolded described_def]])
  next
    case oom
    then show ?thesis
      using ph i(1) p(1,3) unfolding mist_parse_ph_expression_def by (auto simp: Let_def outcome_def)
  qed
qed

lemma ph_expression_stops:
  assumes "i < length toks" and "tok_type (toks ! i) = MTT_ELSE \<or> tok_type (toks ! i) = MTT_ENDIF"
  shows "mist_parse_ph_expression tpl m toks i src = Some (MIST_OK, None, i, None, m)"
  using assms unfolding mist_parse_ph_expression_def by (auto simp: Let_def)

text \<open>The outcome of the loop that completes the template \<open>t\<close>.\<close>

definition loop_outcome ::
  "string \<Rightarrow> CMistToken list \<Rightarrow> nat \<Rightarrow> CMistTemplate \<Rightarrow> mem
     \<Rightarrow> EMistErrorCode \<times> CMistTemplate \<times> nat \<times> string option \<times> mem \<Rightarrow> bool" where
  "loop_outcome src toks i t m res \<longleftrightarrow> (case res of (ec, t', i', d, m') \<Rightarrow> i' \<le> length toks \<and>
     (\<exists>cs ps. grown t t' cs ps
       \<and> (ec = MIST_OK \<and> d = None \<and> i \<le> i' \<and> stops src (drop i' toks)
            \<and> live m' = live m + (tpl_blocks t' - tpl_blocks t)
            \<and> (\<exists>items. pI src (drop i toks) (Inr (items, drop i' toks)) \<and> cs = map snd items \<and> list_all2 rep_p (map fst items) ps)
          \<or> ec = MIST_SYNTAX_ERROR \<and> (\<exists>e. pI src (drop i toks) (Inl e) \<and> described d (parse_message src e))
            \<and> live m' = live m + (tpl_blocks t' - tpl_blocks t) + of_bool (d \<noteq> None)
          \<or> ec = MIST_OUT_OF_MEMORY \<and> d = None \<and> live m + (tpl_blocks t' - tpl_blocks t) \<le> live m'))
     \<and> (never_fails m \<and> small src \<and> small toks \<longrightarrow>
          never_fails m' \<and> ec \<noteq> MIST_OUT_OF_MEMORY \<and> (ec \<noteq> MIST_OK \<longrightarrow> d \<noteq> None)))"

lemma blocks_nonneg:
  "0 \<le> tpl_blocks t" "0 \<le> ph_blocks p" "0 \<le> own_blocks q"
proof (induction t and p and q rule: tpl_blocks_ph_blocks_own_blocks.induct)
  case (1 name vals sch ph ev)
  have "0 \<le> sum_list (map ph_blocks (elems ph))" by (rule sum_list_nonneg) (use 1 in auto)
  then show ?case by (simp add: tpl_blocks.simps grar_blocks_def)
qed simp_all

lemma loop_outcomeI:
  assumes "grown t t' cs ps" and "i' \<le> length toks"
    and "ec = MIST_OK \<and> d = None \<and> i \<le> i' \<and> stops src (drop i' toks)
            \<and> live m' = live m + (tpl_blocks t' - tpl_blocks t)
            \<and> (\<exists>items. pI src (drop i toks) (Inr (items, drop i' toks)) \<and> cs = map snd items \<and> list_all2 rep_p (map fst items) ps)
          \<or> ec = MIST_SYNTAX_ERROR \<and> (\<exists>e. pI src (drop i toks) (Inl e) \<and> described d (parse_message src e))
            \<and> live m' = live m + (tpl_blocks t' - tpl_blocks t) + of_bool (d \<noteq> None)
          \<or> ec = MIST_OUT_OF_MEMORY \<and> d = None \<and> live m + (tpl_blocks t' - tpl_blocks t) \<le> live m'"
    and "never_fails m \<and> small src \<and> small toks \<longrightarrow>
          never_fails m' \<and> ec \<noteq> MIST_OUT_OF_MEMORY \<and> (ec \<noteq> MIST_OK \<longrightarrow> d \<noteq> None)"
  shows "loop_outcome src toks i t m (ec, t', i', d, m')"
  unfolding loop_outcome_def using assms by blast

lemma loop_outcome_step:
  assumes t: "under_way t" "grown t t1 [text_of src s] [p]" and live: "live m1 = live m + 1 + ph_blocks p"
    and nf: "never_fails m \<and> small src \<and> small toks \<longrightarrow> never_fails m1" and ij: "i \<le> j"
    and rel: "pP src (drop i toks) (Inr (x, s # drop j toks))" "tok_type s = MTT_SCH" "rep_p x p"
    and out: "loop_outcome src toks j t1 m1 (ec, t', i', d, m')"
  shows "loop_outcome src toks i t m (ec, t', i', d, m')"
proof -
  obtain cs ps where g: "grown t1 t' cs ps" using out by (auto simp: loop_outcome_def)
  have g': "grown t t' (text_of src s # cs) (p # ps)" using grown_trans [OF t(2) g] by simp
  have blocks: "tpl_blocks t1 = tpl_blocks t + 1 + ph_blocks p" using grown_blocks [OF t] by simp
  have cs: "cs' = cs \<and> ps' = ps" if "grown t1 t' cs' ps'" for cs' ps' using that g by (auto simp: grown_def)
  have prog: "never_fails m \<and> small src \<and> small toks \<longrightarrow>
      never_fails m' \<and> ec \<noteq> MIST_OUT_OF_MEMORY \<and> (ec \<noteq> MIST_OK \<longrightarrow> d \<noteq> None)"
    using out nf by (auto simp: loop_outcome_def)
  have "i' \<le> length toks" using out by (simp add: loop_outcome_def)
  note outI = loop_outcomeI [OF g' this _ prog]
  from out consider
    (ok) items where "ec = MIST_OK" "d = None" "j \<le> i'" "i' \<le> length toks" "stops src (drop i' toks)"
        "live m' = live m1 + (tpl_blocks t' - tpl_blocks t1)" "pI src (drop j toks) (Inr (items, drop i' toks))"
        "cs = map snd items" "list_all2 rep_p (map fst items) ps"
    | (syn) e where "ec = MIST_SYNTAX_ERROR" "pI src (drop j toks) (Inl e)" "described d (parse_message src e)"
        "live m' = live m1 + (tpl_blocks t' - tpl_blocks t1) + of_bool (d \<noteq> None)"
    | (oom) "ec = MIST_OUT_OF_MEMORY" "d = None" "live m1 + (tpl_blocks t' - tpl_blocks t1) \<le> live m'"
    unfolding loop_outcome_def by (auto dest!: cs)
  then show ?thesis
  proof cases
    case ok
    have "pI src (drop i toks) (Inr ((x, text_of src s) # items, drop i' toks))" by (rule I_ok [OF rel(1,2) ok(7)])
    then have "\<exists>its. pI src (drop i toks) (Inr (its, drop i' toks)) \<and> text_of src s # cs = map snd its \<and> list_all2 rep_p (map fst its) (p # ps)"
      using ok(8,9) rel(3) by (intro exI [of _ "(x, text_of src s) # items"]) simp
    then show ?thesis
      using ok(1-6) ij blocks live by (intro outI) simp_all
  next
    case syn
    from I_err [OF rel(1,2) syn(2)] show ?thesis
      using syn blocks live by (intro outI) auto
  next
    case oom
    then show ?thesis
      using blocks live by (intro outI) simp_all
  qed
qed

lemma parse_template_loop_returns:
  assumes nn: "no_nul src" and tpl: "tpl_ok tpl src toks n"
  shows "ph_first src (drop i toks) \<Longrightarrow> i \<le> length toks \<Longrightarrow> length toks < i + k \<Longrightarrow> length toks \<le> Suc i + n \<Longrightarrow> under_way t
    \<Longrightarrow> length (elems (t_sch t)) \<le> i \<Longrightarrow> length (elems (t_ph t)) \<le> i
    \<Longrightarrow> returns (parse_template_loop tpl k m toks i t src) (loop_outcome src toks i t m)"
proof (induction k arbitrary: m i t)
  case (Suc k)
  consider (fin) "i = length toks" | (stop) "i < length toks" "tok_type (toks ! i) = MTT_ELSE \<or> tok_type (toks ! i) = MTT_ENDIF"
    | (ph) "i < length toks" "tok_type (toks ! i) = MTT_IF \<or> tok_type (toks ! i) = MTT_PH"
    using ph_first_drop(3) [OF Suc.prems(1)] Suc.prems(2) by (cases "tok_type (toks ! i)") (auto simp: le_less)
  then show ?case
  proof cases
    case fin
    then show ?thesis
      using Suc.prems grown_refl [OF Suc.prems(5)] I_end by (auto simp: loop_outcome_def stops_def)
  next
    case stop
    have "pI src (drop i toks) (Inr ([], drop i toks))"
      unfolding ph_first_drop(1) [OF Suc.prems(1) stop(1)] using stop(2) by (rule I_stop)
    then show ?thesis
      using stop Suc.prems(1,2) grown_refl [OF Suc.prems(5)]
      by (auto simp: ph_expression_stops loop_outcome_def stops_def hd_drop_conv_nth)
  next
    case ph
    obtain ec pp i1 d m1 where e: "mist_parse_ph_expression tpl m toks i src = Some (ec, pp, i1, d, m1)"
        "ph_res_outcome src toks i m (ec, pp, i1, d, m1)"
      using ph_expression_returns [OF nn tpl ph(1) Suc.prems(1) ph(2) Suc.prems(4), of m] unfolding returns_iff by auto
    from e(2) consider (ok) x p where "ec = MIST_OK" "d = None" "i < i1" "i1 \<le> length toks" "chunk_first src (drop i1 toks)"
        "pp = Some p" "pP src (drop i toks) (Inr (x, drop i1 toks))" "rep_p x p" "live m1 = live m + ph_blocks p"
      | (syn) e where "ec = MIST_SYNTAX_ERROR" "pp = None" "pP src (drop i toks) (Inl e)" "described d (parse_message src e)"
          "live m1 = live m + of_bool (d \<noteq> None)"
      | (oom) "ec = MIST_OUT_OF_MEMORY" "pp = None" "d = None" "live m \<le> live m1"
      unfolding outcome_def by auto
    then show ?thesis
    proof cases
      case syn
      from I_ph [OF syn(3)] show ?thesis
        using e ph(1) syn grown_refl [OF Suc.prems(5)] by (auto simp: loop_outcome_def outcome_def)
    next
      case oom
      then show ?thesis using e ph(1) grown_refl [OF Suc.prems(5)] by (auto simp: loop_outcome_def outcome_def)
    next
      case ok
      note c = chunk_first_drop [OF ok(5)]
      have nf1: "never_fails m \<and> small src \<and> small toks \<longrightarrow> never_fails m1" using e(2) by (auto simp: outcome_def)
      have g: "grar_ok (t_ph t)" using Suc.prems(5) by (simp add: under_way_def)
      have sm: "small toks \<Longrightarrow> small (elems (t_ph t))" using Suc.prems(2,7) by (simp add: small_def)
      obtain b phs m2 where a: "grar_add_element m1 (t_ph t) p = Some (b, phs, m2)" "grar_ok phs" "live m2 = live m1"
          "if b then elems phs = elems (t_ph t) @ [p] else phs = t_ph t"
          "never_fails m1 \<and> small (elems (t_ph t)) \<longrightarrow> b \<and> never_fails m2"
        using grar_add_element_ok [OF g, of m1 p] by (auto simp: returns_iff)
      define t1 where "t1 = Template (t_name t) (t_vals t) (t_sch t) phs (t_is_evaluated t)"
      have run: "parse_template_loop tpl (Suc k) m toks i t src =
          (if \<not> b then Some (MIST_OUT_OF_MEMORY, t1, i1, None, m2)
           else do {
             (ec, pt, istart, m) \<leftarrow> mist_match_string_chunk m2 toks i1 t1 src;
             if ec \<noteq> MIST_OK then Some (ec, pt, istart, None, m)
             else parse_template_loop tpl k m toks istart pt src })"
        using ph(1) e(1) ok(1,2,6) c(1,4) a(1) by (simp add: t1_def)
      have g1: "grown t t1 [] (if b then [p] else [])" using Suc.prems(5) a(2,4) by (auto simp: grown_def under_way_def t1_def)
      show ?thesis
      proof (cases b)
        case False
        have "loop_outcome src toks i t m (MIST_OUT_OF_MEMORY, t1, i1, None, m2)"
          using False g1 ok(4,9) a(3,5) nf1 sm grown_blocks [OF Suc.prems(5) g1] blocks_nonneg(2) [of p] unfolding loop_outcome_def by auto
        then show ?thesis using False unfolding run by simp
      next
        case True
        then have g1: "grown t t1 [] [p]" and nf2: "never_fails m \<and> small src \<and> small toks \<longrightarrow> never_fails m2"
          using g1 nf1 a(5) sm by auto
        then have t1: "under_way t1" "length (elems (t_sch t1)) \<le> i1"
          using Suc.prems(6) ok(3) by (auto simp: grown_def)
        obtain ec3 t2 m3 where ch: "mist_match_string_chunk m2 toks i1 t1 src = Some (ec3, t2, Suc i1, m3)"
            "ec3 = MIST_OK \<and> grown t1 t2 [text_of src (toks ! i1)] [] \<and> live m3 = live m2 + 1
             \<or> ec3 = MIST_OUT_OF_MEMORY \<and> grown t1 t2 [] [] \<and> live m3 = live m2"
            "never_fails m2 \<and> small src \<and> small toks \<longrightarrow> never_fails m3 \<and> ec3 = MIST_OK"
          using match_string_chunk_returns [OF nn ok(5) t1, of m2] unfolding returns_iff by auto
        show ?thesis
        proof (cases "ec3 = MIST_OK")
          case False
          then have g2: "grown t t2 [] [p]" and live3: "live m3 = live m2" using ch(2) grown_trans [OF g1] by auto
          have "loop_outcome src toks i t m (MIST_OUT_OF_MEMORY, t2, Suc i1, None, m3)"
            using g2 c(1) live3 ok(9) a(3) nf2 ch(3) False grown_blocks [OF Suc.prems(5) g2] by (intro loop_outcomeI) auto
          then show ?thesis using False True ch unfolding run by auto
        next
          case ec: True
          then have g2: "grown t t2 [text_of src (toks ! i1)] [p]" and live3: "live m3 = live m + 1 + ph_blocks p"
            using ch(2) grown_trans [OF g1] ok(9) a(3) by auto
          have nf3: "never_fails m \<and> small src \<and> small toks \<longrightarrow> never_fails m3" using nf2 ch(3) by blast
          have "returns (parse_template_loop tpl k m3 toks (Suc i1) t2 src) (loop_outcome src toks (Suc i1) t2 m3)"
            by (rule Suc.IH) (use c Suc.prems ok(3) g2 in \<open>auto simp: grown_def\<close>)
          then have "returns (parse_template_loop tpl k m3 toks (Suc i1) t2 src) (loop_outcome src toks i t m)"
            by (rule returns_mono)
              (auto intro!: loop_outcome_step [OF Suc.prems(5) g2 live3 nf3 _ ok(7) [unfolded c(2)] c(4) ok(8)] simp: ok(3) less_imp_le le_SucI)
          then show ?thesis using ec True ch(1) unfolding run by simp
        qed
      qed
    qed
  qed
qed simp

text \<open>With the fuel \<open>n\<close> the parser works for every template of less than \<open>n\<close> tokens.\<close>

lemma parse_template_ok:
  assumes nn: "no_nul src"
  shows "tpl_ok (mist_parse_template n) src toks (n - 1)"
proof (induction n)
  case 0
  then show ?case by (auto simp: tpl_ok_def dest: chunk_first_drop(1))
next
  case (Suc n)
  have "returns (mist_parse_template (Suc n) m toks i name src) (tpl_outcome src toks i name m)"
    if pre: "\<not> mist_name_is_bad name" "small name" "chunk_first src (drop i toks)" "length toks \<le> i + n" for m i name
  proof -
    note c = chunk_first_drop [OF pre(3)]
    obtain pt m1 where m1: "mist_template_create m name = Some (pt, m1)"
        "case pt of None \<Rightarrow> live m1 = live m | Some t \<Rightarrow> live m1 = live m + tpl_blocks t \<and> blank name t"
        "never_fails m \<longrightarrow> never_fails m1 \<and> pt \<noteq> None"
      using template_create_blank [OF pre(1), of m] pre(2) by (auto simp: returns_iff)
    show ?thesis
    proof (cases pt)
      case None
      then show ?thesis using m1 c(1) by (simp add: outcome_def)
    next
      case (Some t)
      then have t: "blank name t" "live m1 = live m + tpl_blocks t" using m1(2) by auto
      then have t': "under_way t" "length (elems (t_sch t)) \<le> i" by (simp_all add: blank_def)
      obtain ec t1 m2 where ch: "mist_match_string_chunk m1 toks i t src = Some (ec, t1, Suc i, m2)"
          "ec = MIST_OK \<and> grown t t1 [text_of src (toks ! i)] [] \<and> live m2 = live m1 + 1
           \<or> ec = MIST_OUT_OF_MEMORY \<and> grown t t1 [] [] \<and> live m2 = live m1"
          "never_fails m1 \<and> small src \<and> small toks \<longrightarrow> never_fails m2 \<and> ec = MIST_OK"
        using match_string_chunk_returns [OF nn pre(3) t', of m1] unfolding returns_iff by auto
      show ?thesis
      proof (cases "ec = MIST_OK")
        case False
        then have g: "grown t t1 [] []" "live m2 = live m + tpl_blocks t" using ch(2) t(2) by auto
        then show ?thesis
          using False Some m1(1,3) c(1) ch(1,2,3) grown_blocks [OF t'(1) g(1)] by (auto simp: outcome_def destroy_live)
      next
        case True
        then have g: "grown t t1 [text_of src (toks ! i)] []" "live m2 = live m + tpl_blocks t1"
          using ch(2) t(2) grown_blocks [OF t'(1)] by auto
        then have t1: "under_way t1" "length (elems (t_sch t1)) \<le> Suc i" "length (elems (t_ph t1)) \<le> Suc i"
          using t(1) by (auto simp: grown_def blank_def)
        have nf: "never_fails m \<and> small src \<and> small toks \<longrightarrow> never_fails m2" using m1(3) ch(3) by auto
        obtain ec2 t2 i2 d2 m3 where lp: "parse_template_loop (mist_parse_template n) n m2 toks (Suc i) t1 src = Some (ec2, t2, i2, d2, m3)"
            "loop_outcome src toks (Suc i) t1 m2 (ec2, t2, i2, d2, m3)"
          using parse_template_loop_returns [OF nn Suc.IH c(5) _ _ _ t1, of n m2] c(1) pre(4) unfolding returns_iff by auto
        have run: "mist_parse_template (Suc n) m toks i name src =
            (if ec2 \<noteq> MIST_OK then Some (ec2, None, i2, d2, mist_template_destroy m3 t2) else Some (MIST_OK, Some t2, i2, d2, m3))"
          using c(1) m1(1) Some ch(1) True lp(1) by simp
        from lp(2) consider
          (ok) items ps where "ec2 = MIST_OK" "d2 = None" "Suc i \<le> i2" "i2 \<le> length toks" "stops src (drop i2 toks)"
              "grown t1 t2 (map snd items) ps" "live m3 = live m2 + (tpl_blocks t2 - tpl_blocks t1)"
              "pI src (drop (Suc i) toks) (Inr (items, drop i2 toks))" "list_all2 rep_p (map fst items) ps"
          | (syn) e where "ec2 = MIST_SYNTAX_ERROR" "pI src (drop (Suc i) toks) (Inl e)" "described d2 (parse_message src e)"
              "live m3 = live m2 + (tpl_blocks t2 - tpl_blocks t1) + of_bool (d2 \<noteq> None)"
          | (oom) "ec2 = MIST_OUT_OF_MEMORY" "d2 = None" "live m2 + (tpl_blocks t2 - tpl_blocks t1) \<le> live m3"
          unfolding loop_outcome_def by auto
        then show ?thesis
        proof cases
          case ok
          have "grown t t2 (text_of src (toks ! i) # map snd items) ps" using grown_trans [OF g(1) ok(6)] by simp
          then have "rep_t (Tmpl (text_of src (toks ! i)) items) t2 \<and> t_name t2 = name"
            using t(1) ok(9) by (auto simp: rep_t_iff grown_def blank_def)
          moreover have "pT src (drop i toks) (Inr (Tmpl (text_of src (toks ! i)) items, drop i2 toks))"
            unfolding c(2) by (rule T_ok [OF c(4) ok(8)])
          ultimately show ?thesis
            using ok(1-5,7) g(2) nf lp(2) unfolding run by (auto simp: outcome_def loop_outcome_def)
        next
          case syn
          have "pT src (drop i toks) (Inl e)" unfolding c(2) by (rule T_err [OF c(4) syn(2)])
          then show ?thesis using syn g(2) nf lp(2) unfolding run by (auto simp: outcome_def loop_outcome_def destroy_live)
        next
          case oom
          then show ?thesis using g(2) nf lp(2) unfolding run by (auto simp: outcome_def loop_outcome_def destroy_live)
        qed
      qed
    qed
  qed
  then show ?case by (simp add: tpl_ok_def del: mist_parse_template.simps)
qed

section \<open>From a string to a template\<close>

lemma trim_slice:
  assumes "b \<le> e" "e \<le> length src"
  defines "s \<equiv> slice src b e"
  shows "b + length (takeWhile is_ws s) + length (trim s) \<le> e"
    "slice src (b + length (takeWhile is_ws s)) (b + length (takeWhile is_ws s) + length (trim s)) = trim s"
proof -
  let ?l = "takeWhile is_ws s"
  obtain l r where p: "s = l @ trim s @ r" "trim s \<noteq> [] \<longrightarrow> l = ?l" using trim_parts [of s] by blast
  have len: "length s = e - b" using assms by simp
  have le: "length ?l \<le> e - b" using length_takeWhile_le [of is_ws s] len by simp
  show bd: "b + length ?l + length (trim s) \<le> e"
  proof (cases "trim s = []")
    case True
    then show ?thesis using le assms(1) by simp
  next
    case False
    then have "length s = length ?l + length (trim s) + length r" using p by (metis add.assoc length_append)
    then show ?thesis using len assms(1) by simp
  qed
  have "slice src (b + length ?l) (b + length ?l + length (trim s)) = take (length (trim s)) (drop (length ?l) s)"
    using slice_take [of "b + length ?l" "length (trim s)" e src] bd slice_drop [of src b "length ?l" e] unfolding s_def by simp
  also have "\<dots> = trim s"
    using p by (cases "trim s = []") (auto, metis append_eq_conv_conj)
  finally show "slice src (b + length ?l) (b + length ?l + length (trim s)) = trim s" .
qed

lemma ph_token_ok:
  assumes "ph_token src b e = Some t" and "b \<le> e" and "e \<le> length src"
  shows "tok_ok src t \<and> tok_type t \<noteq> MTT_SCH \<and> b < e"
proof -
  define s where "s = slice src b e"
  define k where "k = b + length (takeWhile is_ws s)"
  define w where "w = takeWhile (\<lambda>c. \<not> is_ws c) (trim s)"
  define c where "c = dropWhile is_ws (drop (length w) (trim s))"
  note tr = trim_slice [OF assms(2,3), folded s_def, folded k_def]
  have ne: "trim s \<noteq> []" using assms(1) by (auto simp: ph_token_def s_def Let_def)
  have lt: "k < k + length (trim s)" "b \<le> k" using ne by (simp_all add: k_def)
  have be: "b < e" using lt tr(1) by linarith
  have suf: "\<exists>u. trim s = u @ c" unfolding c_def by (metis append_assoc append_take_drop_id takeWhile_dropWhile_id)
  then obtain u where u: "trim s = u @ c" by blast
  have c_text: "slice src (k + length (trim s) - length c) (k + length (trim s)) = c"
    using tr(2) slice_drop [of src k "length u" "k + length (trim s)"] u by simp
  have "trimmed c" if "c \<noteq> []"
  proof -
    have "last c = last (trim s)" using that u by simp
    then have "\<not> is_ws (last c)" using trim_parts [of s] ne by auto
    moreover have "\<not> is_ws (hd c)" using that unfolding c_def by (rule hd_dropWhile)
    ultimately show ?thesis using that by (simp add: trimmed_def)
  qed
  moreover have "t = token MTT_IF (k + length (trim s) - length c) (k + length (trim s)) \<and> c \<noteq> []
      \<or> t = token MTT_ELSE k (k + length (trim s)) \<or> t = token MTT_ENDIF k (k + length (trim s)) \<or> t = token MTT_PH k (k + length (trim s))"
    using assms(1) unfolding ph_token_def Let_def s_def [symmetric] k_def [symmetric] w_def [symmetric] c_def [symmetric]
    by (auto split: if_splits)
  ultimately show ?thesis
    using tr(1) lt be assms(3) c_text by (auto simp: tok_ok_def)
qed

lemma spelled_tokens:
  "spelled src bm em i ts \<Longrightarrow> bm \<noteq> [] \<Longrightarrow> em \<noteq> [] \<Longrightarrow> i \<le> length src
    \<Longrightarrow> chunk_first src ts \<and> (length ts = 1 \<or> length ts \<le> length src - i)"
proof (induction rule: spelled.induct)
  case (last i)
  then show ?case by (simp add: tok_ok_def)
next
  case (more i chunk ph rest b p e t ts)
  have "length src - i = length chunk + length bm + length ph + length em + length rest"
    using arg_cong [OF more(1), of length] by simp
  then have e: "p \<le> e" "e + length em \<le> length src" "b \<le> length src" "length src - (e + length em) + length em + length ph + length bm \<le> length src - i"
    using more(6-8) more.prems(3) by auto
  have t: "tok_ok src t" "tok_type t \<noteq> MTT_SCH" "p < e" using ph_token_ok [OF more(9) e(1)] e(2) by auto
  have pos: "0 < length bm" "0 < length em" "0 < length ph" using more.prems(1,2) t(3) more(8) by auto
  have ih: "chunk_first src ts" "length ts = 1 \<or> length ts \<le> length src - (e + length em)"
    using more.IH [OF more.prems(1,2)] e(2) by auto
  then have "length (token MTT_SCH i b # t # ts) \<le> length src - i"
    using e(4) pos unfolding list.size by linarith
  then show ?case using t(1,2) ih(1) more(6) e(3) by (simp add: tok_ok_def)
qed

text \<open>
  What a source string stands for: a tree, or the message for the first error.
\<close>

inductive reads :: "string \<Rightarrow> string \<Rightarrow> string \<Rightarrow> string + tmpl \<Rightarrow> bool" for src bm em where
  lexical: "lex src bm em 0 = Inl e \<Longrightarrow> reads src bm em (Inl (lex_message src e))"
| syntactic: "spelled src bm em 0 ts \<Longrightarrow> pT src ts (Inl e) \<Longrightarrow> reads src bm em (Inl (parse_message src e))"
| lone_else: "spelled src bm em 0 ts \<Longrightarrow> pT src ts (Inr (T, t # rest)) \<Longrightarrow> tok_type t = MTT_ELSE
    \<Longrightarrow> reads src bm em (Inl (parse_message src (Else_no_if (tok_beg t))))"
| lone_endif: "spelled src bm em 0 ts \<Longrightarrow> pT src ts (Inr (T, t # rest)) \<Longrightarrow> tok_type t = MTT_ENDIF
    \<Longrightarrow> reads src bm em (Inl (parse_message src (Endif_no_if (tok_beg t))))"
| tree: "spelled src bm em 0 ts \<Longrightarrow> pT src ts (Inr (T, [])) \<Longrightarrow> reads src bm em (Inr T)"

lemma reads_deterministic:
  assumes "bm \<noteq> []" and "em \<noteq> []" and "reads src bm em r" and "reads src bm em r'"
  shows "r = r'"
  using assms(3,4) unfolding lex_iff_spelled [OF assms(1,2), symmetric] reads.simps
  by (auto dest: parse_deterministic(1))

lemma parse_template_returns:
  assumes "no_nul src" and "\<not> mist_name_is_bad name" and "small name" and "chunk_first src toks"
  shows "returns (mist_parse_template (parse_fuel toks) m toks 0 name src) (tpl_outcome src toks 0 name m)"
  using tpl_okD [OF parse_template_ok [OF assms(1)] assms(2,3), of 0 toks "parse_fuel toks"] assms(4)
  by (simp add: parse_fuel_def del: mist_parse_template.simps)

definition load_outcome ::
  "string \<Rightarrow> string \<Rightarrow> string \<Rightarrow> string \<Rightarrow> mem \<Rightarrow> EMistErrorCode \<times> CMistTemplate option \<times> string option \<times> mem \<Rightarrow> bool" where
  "load_outcome src bm em name m res \<longleftrightarrow> (case res of (ec, mt, d, m') \<Rightarrow>
     (case mt of
        Some t \<Rightarrow> ec = MIST_OK \<and> d = None \<and> (\<exists>T. reads src bm em (Inr T) \<and> rep_t T t) \<and> t_name t = name
          \<and> live m' = live m + tpl_blocks t
      | None \<Rightarrow> ec = MIST_FAILED_TO_LOAD_TEMPLATE \<and> live m + of_bool (d \<noteq> None) \<le> live m'
          \<and> (\<forall>msg. d = Some msg \<longrightarrow> reads src bm em (Inl msg)))
     \<and> (never_fails m \<and> small src \<longrightarrow> never_fails m'
          \<and> (mt = None \<longrightarrow> d \<noteq> None \<and> live m' = live m + 1)))"

lemma template_from_string_returns:
  assumes nn: "no_nul src" and ms: "bm \<noteq> []" "em \<noteq> []" and nm: "\<not> mist_name_is_bad name" "small name"
  shows "returns (mist_template_from_string m name src bm em) (load_outcome src bm em name m)"
proof -
  obtain tokens d m1 where t: "mist_template_tokenize_string m src bm em = Some (tokens, d, m1)"
     "case tokens of
        Some g \<Rightarrow> lex src bm em 0 = Inr (elems g) \<and> d = None \<and> grar_ok g \<and> live m1 = live m + 2 + int (length (elems g))
      | None \<Rightarrow> live m1 = live m + of_bool (d \<noteq> None)
          \<and> (case lex src bm em 0 of Inl e \<Rightarrow> described d (lex_message src e) | Inr _ \<Rightarrow> d = None)"
     "never_fails m \<and> small src \<longrightarrow>
          never_fails m1 \<and> (tokens = None \<longleftrightarrow> (\<exists>e. lex src bm em 0 = Inl e)) \<and> (tokens = None \<longrightarrow> d \<noteq> None)"
    using tokenize_string_returns [OF nn ms, of m] unfolding returns_iff by blast
  show ?thesis
  proof (cases tokens)
    case None
    then show ?thesis
      using t ms unfolding mist_template_from_string_def
      by (auto simp: load_outcome_def described_def intro: reads.lexical split: sum.splits)
  next
    case (Some g)
    let ?toks = "elems g"
    have g: "lex src bm em 0 = Inr ?toks" "grar_ok g" "live m1 = live m + 2 + int (length ?toks)" using t(2) Some by auto
    have sp: "spelled src bm em 0 ?toks" using g(1) ms by (simp add: lex_iff_spelled)
    have tk: "chunk_first src ?toks" "small src \<Longrightarrow> small ?toks"
      using spelled_tokens [OF sp ms] by (auto simp: small_def)
    have nf: "never_fails m \<and> small src \<longrightarrow> never_fails m1 \<and> small ?toks" using t(3) tk(2) by blast
    have ne: "1 \<le> length ?toks" using tk(1) by (cases ?toks) auto
    obtain ec mt k d2 m2 where p: "mist_parse_template (parse_fuel ?toks) m1 ?toks 0 name src = Some (ec, mt, k, d2, m2)"
        "tpl_outcome src ?toks 0 name m1 (ec, mt, k, d2, m2)"
      using parse_template_returns [OF nn nm tk(1), of m1] unfolding returns_iff by auto
    note run = mist_template_from_string_def load_outcome_def
    have k: "k \<le> length ?toks" using p(2) by (simp add: outcome_def)
    from p(2) consider
      (tree) T t where "ec = MIST_OK" "d2 = None" "k = length ?toks" "mt = Some t" "pT src ?toks (Inr (T, []))" "rep_t T t"
          "t_name t = name" "live m2 = live m1 + tpl_blocks t"
      | (lone) T t where "ec = MIST_OK" "d2 = None" "k < length ?toks" "stops src (drop k ?toks)" "mt = Some t"
          "pT src ?toks (Inr (T, drop k ?toks))" "live m2 = live m1 + tpl_blocks t"
      | (syn) e where "ec = MIST_SYNTAX_ERROR" "mt = None" "pT src ?toks (Inl e)" "described d2 (parse_message src e)"
          "live m2 = live m1 + of_bool (d2 \<noteq> None)"
      | (oom) "ec = MIST_OUT_OF_MEMORY" "mt = None" "d2 = None" "live m1 \<le> live m2"
      using k unfolding outcome_def by (cases "k = length ?toks") auto
    then show ?thesis
    proof cases
      case tree
      have "reads src bm em (Inr T)" by (rule reads.tree [OF sp tree(5)])
      then show ?thesis
        using tree Some t(1) ms g(2,3) nf p ne unfolding run by (auto simp: token_dtor_live Let_def outcome_def)
    next
      case syn
      have "reads src bm em (Inl (parse_message src e))" by (rule reads.syntactic [OF sp syn(3)])
      then show ?thesis
        using syn Some t(1) ms g(2,3) nf p ne k unfolding run by (auto simp: token_dtor_live Let_def outcome_def described_def)
    next
      case oom
      then show ?thesis using Some t(1) ms g(2,3) nf p ne k unfolding run by (auto simp: token_dtor_live Let_def outcome_def)
    next
      case lone
      note st = stops_drop [OF lone(4,3)]
      have beg: "tok_beg (?toks ! k) \<le> length src" using st(2) by (simp add: tok_ok_def)
      define e where "e = (if tok_type (?toks ! k) = MTT_ELSE then Else_no_if (tok_beg (?toks ! k)) else Endif_no_if (tok_beg (?toks ! k)))"
      have "reads src bm em (Inl (parse_message src e))"
        using reads.lone_else [OF sp lone(6) [unfolded st(1)]] reads.lone_endif [OF sp lone(6) [unfolded st(1)]] st(4) by (auto simp: e_def)
      moreover have "tells (parse_error m2 (if tok_type (?toks ! k) = MTT_ELSE then errElseWithoutIf else errEndifWithoutIf) src (tok_beg (?toks ! k))) src e m2"
        using parse_error_tells(3,4) [OF beg] by (simp add: e_def)
      moreover have "never_fails m \<and> small src \<longrightarrow> never_fails m2" using nf p(2) by (auto simp: outcome_def)
      ultimately show ?thesis
        using lone(1-3,5,7) Some t(1) ms g(2,3) p(1) ne st(4) unfolding run tells_def
        by (auto simp: token_dtor_live Let_def destroy_live described_def simp del: returns_if elim!: returns_mono)
    qed
  qed
qed

section \<open>Properties\<close>

text \<open>
  C2: \<open>mist_template_from_string\<close> implements the language of templates. It always returns. A template
  it returns is the structure of the tree the source stands for, under the given name, and owns
  exactly the blocks allocated: destroying it releases them all. It fails only where the source
  stands for no tree or memory runs out; with memory, nothing but the description of the error is
  left behind by a failure.
\<close>

theorem mist_template_from_string_correct:
  assumes "no_nul src" and "bm \<noteq> []" and "em \<noteq> []" and "\<not> mist_name_is_bad name" and "small name"
  shows "returns (mist_template_from_string m name src bm em) (\<lambda>(ec, mt, d, m').
     case mt of
       Some t \<Rightarrow> ec = MIST_OK \<and> d = None \<and> (\<exists>T. reads src bm em (Inr T) \<and> rep_t T t) \<and> t_name t = name
         \<and> live m' = live m + tpl_blocks t \<and> live (mist_template_destroy m' t) = live m
     | None \<Rightarrow> ec = MIST_FAILED_TO_LOAD_TEMPLATE
         \<and> (never_fails m \<and> small src \<longrightarrow> live m' = live m + 1 \<and> (\<forall>T. \<not> reads src bm em (Inr T))))"
proof (rule returns_mono [OF template_from_string_returns [OF assms]])
  fix res
  assume out: "load_outcome src bm em name m res"
  obtain ec mt d m' where res: "res = (ec, mt, d, m')" by (cases res)
  have no_tree: "\<not> reads src bm em (Inr T)" if "reads src bm em (Inl msg)" for msg T
    using reads_deterministic [OF assms(2,3) that, of "Inr T"] by blast
  show "case res of (ec, mt, d, m') \<Rightarrow> case mt of
       Some t \<Rightarrow> ec = MIST_OK \<and> d = None \<and> (\<exists>T. reads src bm em (Inr T) \<and> rep_t T t) \<and> t_name t = name
         \<and> live m' = live m + tpl_blocks t \<and> live (mist_template_destroy m' t) = live m
     | None \<Rightarrow> ec = MIST_FAILED_TO_LOAD_TEMPLATE
         \<and> (never_fails m \<and> small src \<longrightarrow> live m' = live m + 1 \<and> (\<forall>T. \<not> reads src bm em (Inr T)))"
    using out no_tree unfolding res load_outcome_def by (auto simp: destroy_live split: option.splits)
qed

lemma example_template: "no_nul ''a<$ b: join(,) $>c'' \<and> \<not> mist_name_is_bad ''x'' \<and> small ''x'' \<and> small ''a<$ b: join(,) $>c''"
  by (simp add: NUL_def mist_name_is_bad_def char_is_bad_iff name_char_def small_def)

theorem mist_template_from_string_correct_witness:
  "returns (mist_template_from_string mem0 ''x'' ''a<$ b: join(,) $>c'' ''<$'' ''$>'') (\<lambda>(ec, mt, d, m').
     case mt of Some t \<Rightarrow> t_name t = ''x'' \<and> live (mist_template_destroy m' t) = 0 | None \<Rightarrow> ec = MIST_FAILED_TO_LOAD_TEMPLATE)"
  using mist_template_from_string_correct [of "''a<$ b: join(,) $>c''" "''<$''" "''$>''" "''x''" mem0] example_template
  by (auto elim!: returns_mono split: option.splits)

text \<open>
  C15: every source string either stands for exactly one tree or has exactly one first error; with
  memory, \<open>mist_template_from_string\<close> reports the message of that error, with the line of the offending
  marker, placeholder or keyword.
\<close>

theorem mist_template_from_string_errors:
  assumes "no_nul src" and "bm \<noteq> []" and "em \<noteq> []" and "\<not> mist_name_is_bad name" and "small name"
    and "never_fails m" and "small src"
  shows "(\<exists>!r. reads src bm em r) \<and>
    returns (mist_template_from_string m name src bm em) (\<lambda>(ec, mt, d, m').
      \<forall>msg. reads src bm em (Inl msg) \<longleftrightarrow> mt = None \<and> d = Some msg)"
proof -
  note det = reads_deterministic [OF assms(2,3)]
  obtain ec mt d m' where r: "mist_template_from_string m name src bm em = Some (ec, mt, d, m')"
      "load_outcome src bm em name m (ec, mt, d, m')"
    using template_from_string_returns [OF assms(1-5), of m] unfolding returns_iff by auto
  have res: "case mt of Some t \<Rightarrow> d = None \<and> (\<exists>T. reads src bm em (Inr T)) | None \<Rightarrow> \<exists>msg. d = Some msg \<and> reads src bm em (Inl msg)"
    using r(2) assms(6,7) unfolding load_outcome_def by (auto split: option.splits)
  then obtain q where q: "reads src bm em q" by (auto split: option.splits)
  have "\<forall>msg. reads src bm em (Inl msg) \<longleftrightarrow> mt = None \<and> d = Some msg"
    using res det by (auto split: option.splits)
  then show ?thesis using r(1) q det by auto
qed

theorem mist_template_from_string_errors_witness:
  "(\<exists>!r. reads ''a<$ b: join(,) $>c'' ''<$'' ''$>'' r) \<and>
    returns (mist_template_from_string mem0 ''x'' ''a<$ b: join(,) $>c'' ''<$'' ''$>'') (\<lambda>(ec, mt, d, m').
      \<forall>msg. reads ''a<$ b: join(,) $>c'' ''<$'' ''$>'' (Inl msg) \<longleftrightarrow> mt = None \<and> d = Some msg)"
  using mist_template_from_string_errors [of "''a<$ b: join(,) $>c''" "''<$''" "''$>''" "''x''" mem0] example_template
  by (simp add: never_fails_def)

end
