(* ===== verification/Mist_Values.thy ===== *)
theory Mist_Values
  imports Mist_Parse Mist_Eval
begin

text \<open>
  What the evaluation of templates computes: the reference semantics of a group of templates, and the
  proof that \<open>mist_template_evaluate\<close> of \<open>Mist_Eval\<close> computes it.

  \<open>sem\<close> is a template without the state of an evaluation: the text of a template with its placeholders,
  or the values of an attribute. \<open>tval\<close> gives the list of values of a template by recursion on the depth
  of the references.
\<close>

section \<open>Reference semantics\<close>

datatype sem = Attr "string list" | Text "string list" "sph list"
  and sph = SPlain nat | SJoin nat string | SCond nat bool sem sem

text \<open>The value that goes into the row \<open>i\<close>: the last one where there are not enough.\<close>

definition pick :: "string list \<Rightarrow> nat \<Rightarrow> string" where
  "pick vs i = (if vs = [] then [] else vs ! min i (length vs - 1))"

definition rows :: "string list list \<Rightarrow> nat" where
  "rows vss = foldr max (map length vss) 1"

definition expand :: "string list \<Rightarrow> string list list \<Rightarrow> string list" where
  "expand cs vss = map (\<lambda>i. hd cs @ concat (map2 (\<lambda>vs c. pick vs i @ c) vss (tl cs))) [0..<rows vss]"

fun joined :: "string \<Rightarrow> string list \<Rightarrow> string" where
  "joined sep [] = []"
| "joined sep (v # vs) = v @ concat (map (\<lambda>w. sep @ w) vs)"

definition longest :: "string list \<Rightarrow> nat" where
  "longest vs = foldr max (map length vs) 0"

text \<open>The length of the buffers for the values of a template.\<close>

definition room :: "string list \<Rightarrow> string list list \<Rightarrow> nat" where
  "room cs vss = sum_list (map length cs) + sum_list (map longest vss)"

text \<open>
  The values of a conditional: row by row from the branch the condition selects; the branches that no
  condition selects count as empty.
\<close>

definition branch_values :: "string list \<Rightarrow> string list \<Rightarrow> string list \<Rightarrow> string list" where
  "branch_values cs ts es = map (\<lambda>i. pick (if pick cs i \<noteq> [] then ts else es) i) [0..<max (length cs) (max (length ts) (length es))]"

definition holds_some :: "string list \<Rightarrow> bool" where
  "holds_some cs = list_ex (\<lambda>v. v \<noteq> []) cs"

definition fails_some :: "string list \<Rightarrow> bool" where
  "fails_some cs = list_ex (\<lambda>v. v = []) cs"

definition pval :: "(sem \<Rightarrow> string list option) \<Rightarrow> sem list \<Rightarrow> sph \<Rightarrow> string list option" where
  "pval val E p = (case p of
     SPlain k \<Rightarrow> if k < length E then val (E ! k) else None
   | SJoin k sep \<Rightarrow> if k < length E then map_option (\<lambda>vs. [joined sep vs]) (val (E ! k)) else None
   | SCond k is_concat T F \<Rightarrow>
       if k < length E then do {
         cs \<leftarrow> val (E ! k);
         if is_concat then val (if holds_some cs then T else F)
         else do {
           ts \<leftarrow> (if holds_some cs then val T else Some []);
           es \<leftarrow> (if fails_some cs then val F else Some []);
           Some (branch_values cs ts es)
         }
       } else None)"

text \<open>
  The values of a template in the group \<open>E\<close>, where the references are not deeper than \<open>h\<close> and nothing is
  longer than \<open>lim\<close>.
\<close>

primrec tval :: "nat \<Rightarrow> sem list \<Rightarrow> nat \<Rightarrow> sem \<Rightarrow> string list option" where
  "tval lim E 0 s = None"
| "tval lim E (Suc h) s = (case s of
     Attr vs \<Rightarrow> if length vs < lim \<and> longest vs < lim then Some vs else None
   | Text cs ps \<Rightarrow> do {
       vss \<leftarrow> those (map (pval (tval lim E h) E) ps);
       if rows vss < lim \<and> room cs vss < lim then Some (expand cs vss) else None
     })"

section \<open>The templates of the program\<close>

fun ref_of :: "'a tptr \<Rightarrow> nat" where
  "ref_of (Ref k) = k"
| "ref_of _ = 0"

function (sequential) abs_t :: "CMistTemplate \<Rightarrow> sem" and abs_p :: "CMistPlaceholder \<Rightarrow> sph"
  and abs_q :: "CMistTemplate tptr \<Rightarrow> sem" where
  "abs_t (Template name vals sch ph ev) =
     (if elems sch = [] then Attr (if elems vals = [] then [[]] else elems vals)
      else Text (elems sch) (map abs_p (elems ph)))"
| "abs_p (Placeholder type name tpl sep tpl_cond tpl_then tpl_else is_concat) =
     (if type = MPH_COND then SCond (ref_of tpl_cond) is_concat (abs_q tpl_then) (abs_q tpl_else)
      else if type = MPH_JOIN then SJoin (ref_of tpl) (the sep)
      else SPlain (ref_of tpl))"
| "abs_q (Own t) = abs_t t"
| "abs_q _ = Attr []"
  by pat_completeness auto
termination
  by (relation "measure (\<lambda>x. case x of
        Inl t \<Rightarrow> 2 * size t
      | Inr (Inl p) \<Rightarrow> 2 * size p
      | Inr (Inr q) \<Rightarrow> 2 * size_tptr size q + 1)")
    (auto dest!: size_grar_elem [where f = size])

text \<open>
  A connected template of a group of \<open>n\<close> templates: arrays are initialised, chunks and placeholders
  alternate, plain placeholders, those with join and conditions refer to the group, and a conditional
  owns its results and its branches.
\<close>

definition refers :: "nat \<Rightarrow> 'a tptr \<Rightarrow> bool" where
  "refers n q \<longleftrightarrow> (case q of Ref k \<Rightarrow> k < n | _ \<Rightarrow> False)"

definition owns :: "(CMistTemplate \<Rightarrow> bool) \<Rightarrow> CMistTemplate tptr \<Rightarrow> bool" where
  "owns P q \<longleftrightarrow> (case q of Own t \<Rightarrow> P t | _ \<Rightarrow> False)"

function (sequential) wf_t :: "nat \<Rightarrow> CMistTemplate \<Rightarrow> bool" and wf_p :: "nat \<Rightarrow> CMistPlaceholder \<Rightarrow> bool"
  and wf_q :: "nat \<Rightarrow> CMistTemplate tptr \<Rightarrow> bool" where
  "wf_t n (Template name vals sch ph ev) \<longleftrightarrow>
     grar_inv vals \<and> grar_inv sch \<and> grar_inv ph
     \<and> (\<forall>v \<in> set (elems vals) \<union> set (elems sch). no_nul v)
     \<and> (if elems sch = [] then elems ph = [] else length (elems sch) = length (elems ph) + 1)
     \<and> (\<forall>p \<in> set (elems ph). wf_p n p)"
| "wf_p n (Placeholder type name tpl sep tpl_cond tpl_then tpl_else is_concat) \<longleftrightarrow>
     (if type = MPH_COND
      then refers n tpl_cond \<and> owns (\<lambda>r. elems (t_sch r) = []) tpl \<and> owns (\<lambda>t. elems (t_sch t) \<noteq> []) tpl_then
        \<and> owns (\<lambda>t. elems (t_sch t) \<noteq> []) tpl_else \<and> wf_q n tpl \<and> wf_q n tpl_then \<and> wf_q n tpl_else
      else refers n tpl
        \<and> (type = MPH_JOIN \<longrightarrow> sep \<noteq> None \<and> no_nul (the sep) \<and> \<not> is_concat))"
| "wf_q n (Own t) \<longleftrightarrow> wf_t n t"
| "wf_q n _ \<longleftrightarrow> True"
  by pat_completeness auto
termination
  by (relation "measure (\<lambda>x. case x of
        Inl (n, t) \<Rightarrow> 2 * size t
      | Inr (Inl (n, p)) \<Rightarrow> 2 * size p
      | Inr (Inr (n, q)) \<Rightarrow> 2 * size_tptr size q + 1)")
    (auto dest!: size_grar_elem [where f = size])

lemma abs_t_eq:
  "abs_t t = (if elems (t_sch t) = [] then Attr (if elems (t_vals t) = [] then [[]] else elems (t_vals t))
     else Text (elems (t_sch t)) (map abs_p (elems (t_ph t))))"
  by (cases t) simp

lemma wf_t_eq:
  "wf_t n t \<longleftrightarrow> grar_inv (t_vals t) \<and> grar_inv (t_sch t) \<and> grar_inv (t_ph t)
     \<and> (\<forall>v \<in> set (elems (t_vals t)) \<union> set (elems (t_sch t)). no_nul v)
     \<and> (if elems (t_sch t) = [] then elems (t_ph t) = [] else length (elems (t_sch t)) = length (elems (t_ph t)) + 1)
     \<and> (\<forall>p \<in> set (elems (t_ph t)). wf_p n p)"
  by (cases t) simp

declare abs_t.simps [simp del] wf_t.simps [simp del]

section \<open>What every evaluation keeps\<close>

text \<open>Partial correctness: what holds of the value if there is one.\<close>

definition ensures :: "'a option \<Rightarrow> ('a \<Rightarrow> bool) \<Rightarrow> bool" where
  "ensures x Q \<longleftrightarrow> (\<forall>y. x = Some y \<longrightarrow> Q y)"

lemma ensures_simps [simp]:
  "ensures (Some y) Q = Q y"
  "ensures None Q = True"
  "ensures (Option.bind x f) Q = ensures x (\<lambda>y. ensures (f y) Q)"
  "ensures (check b) P = (b \<longrightarrow> P ())"
  by (cases x; simp add: ensures_def check_def)+

lemma ensures_if [simp]: "ensures (if b then x else y) Q = (if b then ensures x Q else ensures y Q)"
  by simp

lemma ensures_case_prod [simp]:
  "ensures (case p of (a, b) \<Rightarrow> f a b) Q = (case p of (a, b) \<Rightarrow> ensures (f a b) Q)"
  by (cases p) simp

lemma ensures_mono: "ensures x P \<Longrightarrow> (\<And>y. P y \<Longrightarrow> Q y) \<Longrightarrow> ensures x Q"
  by (cases x) simp_all

lemma returns_ensures: "returns x Q \<Longrightarrow> ensures x Q"
  by (cases x) simp_all

lemma ensuresD: "ensures x Q \<Longrightarrow> x = Some y \<Longrightarrow> Q y"
  by simp

text \<open>The parts of a template after an assignment.\<close>

lemma with_simps [simp]:
  "t_name (with_vals t v) = t_name t" "t_vals (with_vals t v) = v" "t_sch (with_vals t v) = t_sch t"
  "t_ph (with_vals t v) = t_ph t" "t_is_evaluated (with_vals t v) = t_is_evaluated t"
  "t_name (with_evaluated t) = t_name t" "t_vals (with_evaluated t) = t_vals t" "t_sch (with_evaluated t) = t_sch t"
  "t_ph (with_evaluated t) = t_ph t" "t_is_evaluated (with_evaluated t)"
  "t_name (with_placeholders t ps) = t_name t" "t_vals (with_placeholders t ps) = t_vals t"
  "t_sch (with_placeholders t ps) = t_sch t" "elems (t_ph (with_placeholders t ps)) = ps"
  "t_is_evaluated (with_placeholders t ps) = t_is_evaluated t" "capacity (t_ph (with_placeholders t ps)) = capacity (t_ph t)"
  by (simp_all add: with_vals_def with_evaluated_def with_placeholders_def)

lemma tpl_blocks_eq:
  "wf_t n t \<Longrightarrow> tpl_blocks t = 5 + int (length (elems (t_vals t))) + int (length (elems (t_sch t))) + sum_list (map ph_blocks (elems (t_ph t)))"
  by (cases t) (simp add: tpl_blocks.simps wf_t_eq)

text \<open>A step that only changes the values of a template, and whether they are up to date.\<close>

definition revalued :: "CMistTemplate \<Rightarrow> CMistTemplate \<Rightarrow> bool" where
  "revalued t t' \<longleftrightarrow> t_name t' = t_name t \<and> t_sch t' = t_sch t \<and> t_ph t' = t_ph t"

lemma clear_values_returns:
  assumes "wf_t n t"
  shows "returns (mist_template_clear_values m t) (\<lambda>(t', m'). revalued t t' \<and> wf_t n t' \<and> elems (t_vals t') = []
     \<and> \<not> t_is_evaluated t' \<and> live m' = live m + (tpl_blocks t' - tpl_blocks t) \<and> never_fails m' = never_fails m)"
proof -
  have free: "live (foldl (\<lambda>m s. free m) m xs) = live m - int (length xs)" "never_fails (foldl (\<lambda>m s. free m) m xs) = never_fails m" for xs :: "string list"
    by (induction xs arbitrary: m) simp_all
  have g: "grar_inv (t_vals t)" "grar_inv (Grar ([] :: string list) (capacity (t_vals t)))" using assms by (simp_all add: wf_t_eq)
  show ?thesis
    using assms free g
    by (auto simp: mist_template_clear_values_def grar_clear_def revalued_def grar_inv_def wf_t_eq tpl_blocks_eq tpl_blocks.simps split: if_splits)
qed

lemma add_value_returns:
  assumes "wf_t n t" and "no_nul v"
  shows "returns (mist_template_add_value m t v) (\<lambda>(ec, t', m'). revalued t t' \<and> wf_t n t' \<and> t_is_evaluated t' = t_is_evaluated t
     \<and> (ec = MIST_OK \<and> elems (t_vals t') = elems (t_vals t) @ [v] \<or> ec = MIST_OUT_OF_MEMORY \<and> t' = t)
     \<and> live m' = live m + (tpl_blocks t' - tpl_blocks t)
     \<and> (never_fails m \<and> small v \<and> small (elems (t_vals t)) \<longrightarrow> never_fails m' \<and> ec = MIST_OK))"
proof -
  obtain r m1 where r: "strdup m v = (r, m1)" by fastforce
  have g: "grar_inv (t_vals t)" using assms by (simp add: wf_t_eq)
  obtain b vals m2 where a: "grar_add_element m1 (t_vals t) v = Some (b, vals, m2)" "grar_inv vals" "live m2 = live m1"
      "if b then elems vals = elems (t_vals t) @ [v] else vals = t_vals t"
      "never_fails m1 \<and> small (elems (t_vals t)) \<longrightarrow> b \<and> never_fails m2"
    using grar_add_element_inv [OF g, of m1 v] by (auto simp: returns_iff)
  define t' where "t' = Template (t_name t) vals (t_sch t) (t_ph t) (t_is_evaluated t)"
  have t': "revalued t t'" "wf_t n t'" "t_is_evaluated t' = t_is_evaluated t" "tpl_blocks t' = tpl_blocks t + of_bool b"
    "if b then elems (t_vals t') = elems (t_vals t) @ [v] else t' = t"
  proof -
    show "revalued t t'" "t_is_evaluated t' = t_is_evaluated t" by (simp_all add: t'_def revalued_def)
    show wf: "wf_t n t'" using a(2,4) assms by (auto simp: t'_def wf_t_eq split: if_splits)
    show "tpl_blocks t' = tpl_blocks t + of_bool b"
      using a(4) tpl_blocks_eq [OF wf] tpl_blocks_eq [OF assms(1)] by (cases b) (simp_all add: t'_def)
    show "if b then elems (t_vals t') = elems (t_vals t) @ [v] else t' = t" using a(4) by (cases b) (simp_all add: t'_def)
  qed
  show ?thesis
  proof (cases r)
    case None
    then show ?thesis
      using strdup_small [OF r] r assms(1) unfolding mist_template_add_value_def by (auto simp: revalued_def)
  next
    case (Some w)
    then show ?thesis
      using strdup_small [OF r] r a t' unfolding mist_template_add_value_def
      by (cases b) (auto simp: t'_def [symmetric] Let_def)
  qed
qed

text \<open>The outcome of a step that adds values to a template.\<close>

definition values_step :: "nat \<Rightarrow> CMistTemplate \<Rightarrow> mem \<Rightarrow> EMistErrorCode \<times> CMistTemplate \<times> mem \<Rightarrow> bool" where
  "values_step n t m res \<longleftrightarrow> (case res of (ec, t', m') \<Rightarrow> revalued t t' \<and> wf_t n t' \<and> (ec = MIST_OK \<or> ec = MIST_OUT_OF_MEMORY)
     \<and> live m' = live m + (tpl_blocks t' - tpl_blocks t))"

lemma values_step_refl: "wf_t n t \<Longrightarrow> values_step n t m (MIST_OK, t, m)"
  by (simp add: values_step_def revalued_def)

lemma values_step_trans:
  "values_step n t m (ec1, t1, m1) \<Longrightarrow> values_step n t1 m1 r \<Longrightarrow> values_step n t m r"
  by (cases r) (auto simp: values_step_def revalued_def)

lemma add_value_step:
  "wf_t n t \<Longrightarrow> no_nul v \<Longrightarrow> returns (mist_template_add_value m t v) (values_step n t m)"
  by (rule returns_mono [OF add_value_returns]) (auto simp: values_step_def)

lemma add_copies_returns:
  "wf_t n t \<Longrightarrow> (\<forall>v \<in> set vs. no_nul v) \<Longrightarrow> returns (add_copies m t vs) (\<lambda>(ec, t', m'). values_step n t m (ec, t', m')
     \<and> t_is_evaluated t' = t_is_evaluated t \<and> (ec = MIST_OK \<longrightarrow> elems (t_vals t') = elems (t_vals t) @ vs)
     \<and> (never_fails m \<and> (\<forall>v \<in> set vs. small v) \<and> length (elems (t_vals t)) + length vs < 2 ^ 50 \<longrightarrow> never_fails m' \<and> ec = MIST_OK))"
proof (induction vs arbitrary: m t)
  case Nil
  then show ?case by (simp add: values_step_refl)
next
  case (Cons v vs)
  obtain ec t1 m1 where a: "mist_template_add_value m t v = Some (ec, t1, m1)" "wf_t n t1" "t_is_evaluated t1 = t_is_evaluated t"
      "ec = MIST_OK \<and> elems (t_vals t1) = elems (t_vals t) @ [v] \<or> ec = MIST_OUT_OF_MEMORY \<and> t1 = t"
      "never_fails m \<and> small v \<and> small (elems (t_vals t)) \<longrightarrow> never_fails m1 \<and> ec = MIST_OK"
    using add_value_returns [of n t v m] Cons.prems unfolding returns_iff by auto
  have st: "values_step n t m (ec, t1, m1)" using add_value_step [of n t v m] Cons.prems a(1) by simp
  show ?case
  proof (cases "ec = MIST_OK")
    case False
    then show ?thesis using a st by (auto simp: small_def)
  next
    case True
    have "\<forall>v \<in> set vs. no_nul v" using Cons.prems by simp
    from Cons.IH [OF a(2) this, of m1] show ?thesis
      using True a st by (auto simp: small_def elim!: returns_mono intro: values_step_trans)
  qed
qed

lemma evaluate_attribute_returns:
  assumes "wf_t n t"
  shows "returns (evaluate_attribute m t) (\<lambda>(ec, t', m'). values_step n t m (ec, t', m')
     \<and> (ec = MIST_OK \<longrightarrow> t_is_evaluated t' \<and> elems (t_vals t') = (if elems (t_vals t) = [] then [[]] else elems (t_vals t)))
     \<and> (ec \<noteq> MIST_OK \<longrightarrow> t' = t)
     \<and> (never_fails m \<longrightarrow> never_fails m' \<and> ec = MIST_OK))"
proof -
  have ev: "tpl_blocks (with_evaluated u) = tpl_blocks u" "wf_t n (with_evaluated u) = wf_t n u" for u
    by (cases u, simp add: with_evaluated_def tpl_blocks.simps) (simp add: wf_t_eq)
  show ?thesis
    unfolding evaluate_attribute_def using assms
    by (auto simp: values_step_def revalued_def ev intro!: returns_mono [OF add_value_returns])
qed

lemma cond_values_step:
  "wf_t n t \<Longrightarrow> wf_t n tt \<Longrightarrow> wf_t n te \<Longrightarrow> ensures (cond_values k m t cond tt te i c b) (values_step n t m)"
proof (induction k arbitrary: m t i c b)
  case 0
  then show ?case by (simp add: values_step_refl)
next
  case (Suc k)
  define br where "br = (if b then tt else te)"
  define v where "v = elems (t_vals br) ! (if i < length (elems (t_vals br)) then i else length (elems (t_vals br)) - 1)"
  show ?case
  proof (cases "t_is_evaluated br \<and> elems (t_vals br) \<noteq> []")
    case False
    then show ?thesis by (auto simp: Let_def br_def)
  next
    case True
    then have "no_nul v" using Suc.prems(2,3) by (auto simp: v_def br_def wf_t_eq)
    then obtain ec t1 m1 where a: "mist_template_add_value m t v = Some (ec, t1, m1)" "values_step n t m (ec, t1, m1)"
      using add_value_step [of n t v m] Suc.prems(1) unfolding returns_iff by auto
    have "wf_t n t1" using a(2) by (simp add: values_step_def)
    note rest = ensures_mono [OF Suc.IH [OF this Suc.prems(2,3)] values_step_trans [OF a(2)]]
    have "cond_values (Suc k) m t cond tt te i c b = (if ec \<noteq> MIST_OK then Some (ec, t1, m1)
        else (let (c, b) = (if c + 1 < length cond then (c + 1, cond ! (c + 1) \<noteq> []) else (c, b)) in
          cond_values k m1 t1 cond tt te (i + 1) c b))"
      using True a(1) unfolding cond_values.simps br_def [symmetric] v_def Let_def by (simp add: Suc_le_eq)
    then show ?thesis using a(2) rest by (auto simp: Let_def)
  qed
qed

text \<open>The number of buffers never changes while they are filled.\<close>

lemma those_length: "those xs = Some ys \<Longrightarrow> length ys = length xs"
  by (induction xs arbitrary: ys) (auto split: option.splits)

lemma those_nth: "those xs = Some ys \<Longrightarrow> i < length ys \<Longrightarrow> xs ! i = Some (ys ! i)"
proof (induction xs arbitrary: ys i)
  case (Cons x xs)
  then show ?case by (cases i) (auto split: option.splits)
qed simp

lemma copy_each_length: "copy_each pos vs = Some (ds, rest) \<Longrightarrow> length ds + length rest = length pos"
  by (induction pos vs arbitrary: ds rest rule: copy_each.induct) (auto split: Option.bind_splits)

lemma copy_string_length: "mist_copy_string pos s = Some pos' \<Longrightarrow> length pos' = length pos"
  by (auto simp: mist_copy_string_def dest: those_length split: if_splits)

lemma copy_placeholder_length: "mist_copy_placeholder_values G pos ph = Some pos' \<Longrightarrow> length pos' = length pos"
  by (auto simp: mist_copy_placeholder_values_def Let_def split: if_splits Option.bind_splits prod.splits
      dest!: those_length copy_each_length)

lemma copy_loop_length: "copy_loop G pos phs cs = Some pos' \<Longrightarrow> length pos' = length pos"
proof (induction phs arbitrary: pos cs)
  case (Cons ph phs)
  then show ?case
    by (cases cs) (auto split: Option.bind_splits dest!: Cons.IH copy_string_length copy_placeholder_length)
qed simp

lemma alloc_buffers_returns:
  "grar_inv tga \<Longrightarrow> returns (alloc_buffers m tga i k bytes) (\<lambda>(r, tga', m').
     (if r then elems tga' = elems tga @ [i..<i + k] \<and> grar_inv tga' \<and> live m' = live m + int k
      else live m - 2 - int (length (elems tga)) \<le> live m')
     \<and> (never_fails m \<and> bytes \<le> PTRDIFF_MAX \<and> length (elems tga) + k < 2 ^ 50 \<longrightarrow> r \<and> never_fails m'))"
proof (induction k arbitrary: m tga i)
  case (Suc k)
  obtain b m1 where m1: "malloc m bytes = (b, m1)" by fastforce
  note mem = malloc_effect [OF m1] malloc_never_fails [OF _ _ m1]
  show ?case
  proof (cases b)
    case False
    then show ?thesis using m1 mem by auto
  next
    case True
    obtain r g m2 where a: "grar_add_element m1 tga i = Some (r, g, m2)" "grar_inv g" "live m2 = live m1"
        "if r then elems g = elems tga @ [i] else g = tga" "never_fails m1 \<and> small (elems tga) \<longrightarrow> r \<and> never_fails m2"
      using grar_add_element_inv [OF Suc.prems, of m1 i] by (auto simp: returns_iff)
    show ?thesis
    proof (cases r)
      case False
      then show ?thesis
        using True m1 mem a Suc.prems by (auto simp: small_def grar_destroy_with_elements_def grar_destroy_def grar_inv_def)
    next
      case r: True
      have "[i..<i + Suc k] = i # [Suc i..<Suc i + k]" by (simp add: upt_conv_Cons)
      then show ?thesis
        using True r m1 mem a by (auto simp: small_def intro!: returns_mono [OF Suc.IH [OF a(2)]] split: if_splits)
    qed
  qed
qed simp

lemma finish_values_facts:
  assumes "finish_values pos = Some vs"
  shows "length vs = length pos \<and> (\<forall>v \<in> set vs. no_nul v)"
proof -
  have len: "length vs = length pos" using those_length [OF assms [unfolded finish_values_def]] by simp
  have "no_nul (vs ! i)" if "i < length vs" for i
    using those_nth [OF assms [unfolded finish_values_def] that] that len
    by (auto split: prod.splits Option.bind_splits dest: string_at_no_nul)
  then show ?thesis using len by (metis in_set_conv_nth)
qed

text \<open>
  The outcome of the construction of the values: on success exactly the blocks of the new values have
  been allocated; on failure at least nothing has been released that is still in use.
\<close>

definition construct_step :: "nat \<Rightarrow> CMistTemplate \<Rightarrow> mem \<Rightarrow> EMistErrorCode \<times> CMistTemplate \<times> mem \<Rightarrow> bool" where
  "construct_step n t m res \<longleftrightarrow> (case res of (ec, t', m') \<Rightarrow> revalued t t' \<and> wf_t n t' \<and> t_is_evaluated t' = t_is_evaluated t
     \<and> (ec = MIST_OK \<and> live m' = live m + (tpl_blocks t' - tpl_blocks t)
        \<or> ec = MIST_OUT_OF_MEMORY \<and> t' = t \<and> live m \<le> live m'))"

lemma construct_values_step:
  assumes wf: "wf_t n t" and vals: "elems (t_vals t) = []"
  shows "ensures (construct_values m G t) (construct_step n t m)"
proof -
  have fail: "construct_step n t m (MIST_OUT_OF_MEMORY, t, m')" if "live m \<le> live m'" for m'
    using wf that by (simp add: construct_step_def revalued_def)
  have ok: "construct_step n t m (MIST_OK, with_vals t (Grar vs cap), m')"
    if "grar_inv (Grar vs cap)" "\<forall>v \<in> set vs. no_nul v" "live m' = live m + int (length vs)" for vs cap m'
  proof -
    have "wf_t n (with_vals t (Grar vs cap))" using wf that by (auto simp: wf_t_eq)
    then show ?thesis
      using that(3) tpl_blocks_eq [OF wf] vals by (simp add: construct_step_def revalued_def tpl_blocks_eq)
  qed
  show ?thesis
  proof (unfold ensures_def, intro allI impI)
    fix res
    assume res: "construct_values m G t = Some res"
    obtain nvals max_len where sz: "mist_template_num_values G t = Some nvals" "mist_template_max_length G t = Some max_len" "nvals \<noteq> 0"
      using res by (auto simp: construct_values_def split: Option.bind_splits if_splits)
    define bytes where "bytes = Suc max_len mod SIZE_MODULUS"
    obtain b m1 where m1: "malloc m (nvals * 8 mod SIZE_MODULUS) = (b, m1)" by fastforce
    obtain g :: "nat grar option" and m2 where m2: "grar_create m1 = (g, m2)" by fastforce
    note mem = malloc_effect [OF m1] grar_create_ok [OF m2]
    show "construct_step n t m res"
    proof (cases "b \<and> g \<noteq> None")
      case False
      then show ?thesis
        using res sz m1 m2 mem by (cases b; cases g) (auto simp: construct_values_def intro!: fail)
    next
      case True
      then obtain tga where [simp]: "g = Some tga" and b: b by auto
      have tga: "grar_inv tga" "elems tga = []" using mem by simp_all
      have "returns (alloc_buffers m2 tga 0 nvals bytes) (\<lambda>(r, g, m3).
          if r then elems g = [0..<nvals] \<and> grar_inv g \<and> live m3 = live m2 + int nvals else live m2 - 2 \<le> live m3)"
        by (rule returns_mono [OF alloc_buffers_returns [OF tga(1)]]) (use tga(2) in \<open>auto split: if_splits\<close>)
      then obtain r tga2 m3 where al: "alloc_buffers m2 tga 0 nvals bytes = Some (r, tga2, m3)"
          "if r then elems tga2 = [0..<nvals] \<and> grar_inv tga2 \<and> live m3 = live m2 + int nvals else live m2 - 2 \<le> live m3"
        by (auto simp: returns_iff)
      show ?thesis
      proof (cases r)
        case False
        then show ?thesis
          using res sz m1 m2 mem b al by (auto simp: construct_values_def bytes_def [symmetric] Let_def intro!: fail)
      next
        case True
        define pos0 where "pos0 = map (\<lambda>i. (fresh m3 0 bytes, 0 :: nat)) (elems tga2)"
        obtain s schs pos1 pos2 vs where c: "elems (t_sch t) = s # schs" "mist_copy_string pos0 s = Some pos1"
            "copy_loop G pos1 (elems (t_ph t)) schs = Some pos2" "finish_values pos2 = Some vs"
            "res = (MIST_OK, with_vals t (Grar vs (capacity tga2)), snd (grar_destroy (free m3) (t_vals t)))"
          using res sz m1 m2 b al(1) True vals
          by (auto simp: construct_values_def bytes_def [symmetric] Let_def pos0_def grar_swap_def split: list.splits Option.bind_splits if_splits)
        have "length vs = nvals" "\<forall>v \<in> set vs. no_nul v"
          using finish_values_facts [OF c(4)] copy_loop_length [OF c(3)] copy_string_length [OF c(2)] al(2) True
          by (simp_all add: pos0_def)
        moreover have "grar_blocks (t_vals t) = 1" using wf by (simp add: wf_t_eq)
        ultimately show ?thesis
          unfolding c(5) using al(2) True mem b by (intro ok) (auto simp: grar_inv_def)
      qed
    qed
  qed
qed

text \<open>
  What an evaluation keeps of the group: the templates stay connected and mean the same, and those
  already evaluated are not touched.
\<close>

definition wf_group :: "group \<Rightarrow> bool" where
  "wf_group G \<longleftrightarrow> (\<forall>t \<in> set G. wf_t (length G) t)"

definition frame :: "group \<Rightarrow> group \<Rightarrow> bool" where
  "frame G G' \<longleftrightarrow> length G' = length G \<and> wf_group G'
     \<and> (\<forall>j < length G. abs_t (G' ! j) = abs_t (G ! j) \<and> t_name (G' ! j) = t_name (G ! j) \<and> (t_is_evaluated (G ! j) \<longrightarrow> G' ! j = G ! j))"

definition gblocks :: "group \<Rightarrow> int" where
  "gblocks G = sum_list (map tpl_blocks G)"

lemma frame_refl: "wf_group G \<Longrightarrow> frame G G"
  by (simp add: frame_def)

lemma frame_trans: "frame G G1 \<Longrightarrow> frame G1 G2 \<Longrightarrow> frame G G2"
  unfolding frame_def by metis

lemma frameD: "frame G G' \<Longrightarrow> length G' = length G" "frame G G' \<Longrightarrow> wf_group G'"
  "frame G G' \<Longrightarrow> map abs_t G' = map abs_t G" "frame G G' \<Longrightarrow> map t_name G' = map t_name G"
  by (auto simp: frame_def intro: nth_equalityI)

lemma wf_group_nth: "wf_group G \<Longrightarrow> k < length G \<Longrightarrow> wf_t (length G) (G ! k)"
  by (simp add: wf_group_def)

lemma gblocks_update: "k < length G \<Longrightarrow> gblocks (G[k := t]) = gblocks G + (tpl_blocks t - tpl_blocks (G ! k))"
  unfolding gblocks_def by (induction G arbitrary: k) (auto split: nat.split)

lemma wf_group_update: "wf_group G \<Longrightarrow> wf_t (length G) t \<Longrightarrow> wf_group (G[k := t])"
  by (auto simp: wf_group_def dest: set_update_subset_insert [THEN subsetD])

text \<open>Pointers and what they refer to afterwards.\<close>

definition ptr_ok :: "nat \<Rightarrow> CMistTemplate tptr \<Rightarrow> bool" where
  "ptr_ok n q \<longleftrightarrow> (case q of Null \<Rightarrow> False | Ref k \<Rightarrow> k < n | Own t \<Rightarrow> wf_t n t)"

definition same_ptr :: "nat \<Rightarrow> CMistTemplate tptr \<Rightarrow> CMistTemplate tptr \<Rightarrow> bool" where
  "same_ptr n q q' \<longleftrightarrow> (case q of Null \<Rightarrow> False | Ref k \<Rightarrow> q' = Ref k
     | Own t \<Rightarrow> \<exists>t'. q' = Own t' \<and> abs_t t' = abs_t t \<and> wf_t n t' \<and> t_sch t' = t_sch t \<and> (t_is_evaluated t \<longrightarrow> t' = t))"

definition balance :: "EMistErrorCode \<Rightarrow> mem \<Rightarrow> mem \<Rightarrow> int \<Rightarrow> bool" where
  "balance ec m m' d \<longleftrightarrow> (ec = MIST_OK \<and> live m' = live m + d \<or> ec = MIST_OUT_OF_MEMORY \<and> live m + d \<le> live m')"

definition ev_result ::
  "group \<Rightarrow> CMistTemplate tptr \<Rightarrow> mem \<Rightarrow> EMistErrorCode \<times> group \<times> CMistTemplate tptr \<times> mem \<Rightarrow> bool" where
  "ev_result G q m res \<longleftrightarrow> (case res of (ec, G', q', m') \<Rightarrow>
     frame G G' \<and> same_ptr (length G) q q'
     \<and> (ec = MIST_OK \<longrightarrow> (\<exists>t. deref G' q' = Some t \<and> t_is_evaluated t))
     \<and> balance ec m m' (gblocks G' + own_blocks q' - gblocks G - own_blocks q))"

definition ev_ok :: "evaluator \<Rightarrow> bool" where
  "ev_ok ev \<longleftrightarrow> (\<forall>m G q. wf_group G \<longrightarrow> ptr_ok (length G) q \<longrightarrow> ensures (ev m G q) (ev_result G q m))"

lemma ev_okD: "ev_ok ev \<Longrightarrow> wf_group G \<Longrightarrow> ptr_ok (length G) q \<Longrightarrow> ev m G q = Some r \<Longrightarrow> ev_result G q m r"
  unfolding ev_ok_def by (drule spec [of _ m], drule spec [of _ G], drule spec [of _ q]) (simp add: ensures_def)

lemma revalued_abs: "revalued t t' \<Longrightarrow> elems (t_sch t) \<noteq> [] \<Longrightarrow> abs_t t' = abs_t t"
  by (simp add: revalued_def abs_t_eq)

text \<open>A branch of a conditional.\<close>

abbreviation branch_ok :: "nat \<Rightarrow> CMistTemplate \<Rightarrow> bool" where
  "branch_ok n t \<equiv> wf_t n t \<and> elems (t_sch t) \<noteq> []"

lemma same_ptr_branch:
  "same_ptr n (Own t) q \<Longrightarrow> branch_ok n t \<Longrightarrow> \<exists>t'. q = Own t' \<and> branch_ok n t' \<and> abs_t t' = abs_t t"
  by (auto simp: same_ptr_def)

lemma select_branches_ensures:
  assumes ev: "ev_ok ev"
  shows "wf_group G \<Longrightarrow> branch_ok (length G) tt \<Longrightarrow> branch_ok (length G) te
    \<Longrightarrow> ensures (select_branches ev k m G qc (Own tt) (Own te) c ntotal) (\<lambda>(ec, G', q1, q2, ntotal', m').
       frame G G' \<and> same_ptr (length G) (Own tt) q1 \<and> same_ptr (length G) (Own te) q2
       \<and> balance ec m m' (gblocks G' + own_blocks q1 + own_blocks q2 - gblocks G - tpl_blocks tt - tpl_blocks te))"
proof (induction k arbitrary: m G tt te c ntotal)
  case 0
  then show ?case by (simp add: frame_refl same_ptr_def balance_def)
next
  case (Suc k)
  show ?case
  proof (unfold ensures_def, intro allI impI)
    fix res
    assume res: "select_branches ev (Suc k) m G qc (Own tt) (Own te) c ntotal = Some res"
    then obtain ct where ct: "deref G qc = Some ct" by (auto split: Option.bind_splits)
    define b where "b = (elems (t_vals ct) ! c \<noteq> [])"
    define t where "t = (if b then tt else te)"
    obtain ec G1 q m1 where e: "ev m G (Own t) = Some (ec, G1, q, m1)"
      using res ct by (auto simp: Let_def t_def b_def split: Option.bind_splits if_splits)
    have t: "branch_ok (length G) t" using Suc.prems by (simp add: t_def)
    then have r: "ev_result G (Own t) m (ec, G1, q, m1)"
      using ev_okD [OF ev Suc.prems(1) _ e] by (simp add: ptr_ok_def)
    then obtain t1 where q: "q = Own t1" "branch_ok (length G) t1" "abs_t t1 = abs_t t"
      using same_ptr_branch [of "length G" t q] t by (auto simp: ev_result_def)
    define tt1 where "tt1 = (if b then t1 else tt)"
    define te1 where "te1 = (if b then te else t1)"
    have fr: "frame G G1" "length G1 = length G" "wf_group G1" using r frameD by (auto simp: ev_result_def)
    have ptrs: "same_ptr (length G) (Own tt) (Own tt1)" "same_ptr (length G) (Own te) (Own te1)"
      "branch_ok (length G) tt1" "branch_ok (length G) te1"
      using r q Suc.prems by (auto simp: ev_result_def tt1_def te1_def t_def same_ptr_def split: if_splits)
    have bal: "balance ec m m1 (gblocks G1 + tpl_blocks tt1 + tpl_blocks te1 - gblocks G - tpl_blocks tt - tpl_blocks te)"
      using r q by (cases b) (auto simp: ev_result_def tt1_def te1_def t_def balance_def)
    show "case res of (ec, G', q1, q2, ntotal', m') \<Rightarrow>
       frame G G' \<and> same_ptr (length G) (Own tt) q1 \<and> same_ptr (length G) (Own te) q2
       \<and> balance ec m m' (gblocks G' + own_blocks q1 + own_blocks q2 - gblocks G - tpl_blocks tt - tpl_blocks te)"
    proof (cases "ec = MIST_OK")
      case False
      then have "res = (ec, G1, Own tt1, Own te1, ntotal, m1)"
        using res ct e q by (auto simp: Let_def t_def b_def tt1_def te1_def split: if_splits)
      then show ?thesis using fr ptrs bal by simp
    next
      case True
      obtain n2 where rest: "select_branches ev k m1 G1 qc (Own tt1) (Own te1) (c + 1) n2 = Some res"
        using res ct e q True by (auto simp: Let_def t_def b_def tt1_def te1_def split: if_splits)
      from ensuresD [OF Suc.IH [OF fr(3)] rest] ptrs(3,4) fr(2) show ?thesis
        using ptrs fr(1) bal True by (auto simp: balance_def same_ptr_def intro: frame_trans)
    qed
  qed
qed

definition cond_step ::
  "group \<Rightarrow> CMistTemplate \<Rightarrow> CMistTemplate \<Rightarrow> CMistTemplate \<Rightarrow> mem \<Rightarrow> cond_result \<Rightarrow> bool" where
  "cond_step G mt tt te m res \<longleftrightarrow> (case res of (ec, G', mt', q1, q2, m') \<Rightarrow>
     frame G G' \<and> revalued mt mt' \<and> wf_t (length G) mt'
     \<and> same_ptr (length G) (Own tt) q1 \<and> same_ptr (length G) (Own te) q2
     \<and> balance ec m m' (gblocks G' + tpl_blocks mt' + own_blocks q1 + own_blocks q2
         - gblocks G - tpl_blocks mt - tpl_blocks tt - tpl_blocks te))"

lemma deref_wf: "wf_group G \<Longrightarrow> ptr_ok (length G) q \<Longrightarrow> deref G q = Some t \<Longrightarrow> wf_t (length G) t"
  by (cases q) (auto simp: ptr_ok_def wf_group_def split: if_splits)

lemma evaluate_concat_ensures:
  assumes ev: "ev_ok ev" and G: "wf_group G" and t: "branch_ok (length G) tt" "branch_ok (length G) te" "wf_t (length G) mt"
  shows "ensures (evaluate_concat ev m G cond mt (Own tt) (Own te)) (cond_step G mt tt te m)"
proof (unfold ensures_def, intro allI impI)
  fix res
  assume res: "evaluate_concat ev m G cond mt (Own tt) (Own te) = Some res"
  define b where "b \<longleftrightarrow> (\<exists>v \<in> set cond. v \<noteq> [])"
  define t where "t = (if b then tt else te)"
  obtain ec G1 q m1 where e: "ev m G (Own t) = Some (ec, G1, q, m1)"
    using res by (auto simp: evaluate_concat_def Let_def t_def b_def [symmetric] split: Option.bind_splits if_splits)
  have tb: "branch_ok (length G) t" using t by (simp add: t_def)
  then have r: "ev_result G (Own t) m (ec, G1, q, m1)" using ev_okD [OF ev G _ e] by (simp add: ptr_ok_def)
  then obtain t1 where q: "q = Own t1" "branch_ok (length G) t1" "abs_t t1 = abs_t t"
    using same_ptr_branch [of "length G" t q] tb by (auto simp: ev_result_def)
  define tt1 where "tt1 = (if b then t1 else tt)"
  define te1 where "te1 = (if b then te else t1)"
  have fr: "frame G G1" "length G1 = length G" using r frameD by (auto simp: ev_result_def)
  have ptrs: "same_ptr (length G) (Own tt) (Own tt1)" "same_ptr (length G) (Own te) (Own te1)"
    using r q t by (auto simp: ev_result_def tt1_def te1_def t_def same_ptr_def split: if_splits)
  have bal: "balance ec m m1 (gblocks G1 + tpl_blocks tt1 + tpl_blocks te1 - gblocks G - tpl_blocks tt - tpl_blocks te)"
    using r q by (cases b) (auto simp: ev_result_def tt1_def te1_def t_def balance_def)
  show "cond_step G mt tt te m res"
  proof (cases "ec = MIST_OK")
    case False
    then have "res = (ec, G1, mt, Own tt1, Own te1, m1)"
      using res e q by (auto simp: evaluate_concat_def Let_def t_def b_def [symmetric] tt1_def te1_def split: if_splits)
    then show ?thesis using fr ptrs bal t by (auto simp: cond_step_def revalued_def balance_def)
  next
    case True
    have "\<forall>v \<in> set (elems (t_vals t1)). no_nul v" using q(2) by (simp add: wf_t_eq)
    note add = returns_ensures [OF add_copies_returns [OF t(3) this, of m1]]
    obtain ec2 mt2 m2 where a: "add_copies m1 mt (elems (t_vals t1)) = Some (ec2, mt2, m2)" "res = (ec2, G1, mt2, Own tt1, Own te1, m2)"
      using res e q True
      by (auto simp: evaluate_concat_def Let_def t_def b_def [symmetric] tt1_def te1_def split: Option.bind_splits if_splits)
    then have "values_step (length G) mt m1 (ec2, mt2, m2)" using add by simp
    then show ?thesis
      unfolding a(2) using fr ptrs bal True by (auto simp: cond_step_def values_step_def balance_def)
  qed
qed

lemma evaluate_each_ensures:
  assumes ev: "ev_ok ev" and G: "wf_group G" and t: "branch_ok (length G) tt" "branch_ok (length G) te" "wf_t (length G) mt"
  shows "ensures (evaluate_each ev m G qc mt (Own tt) (Own te)) (cond_step G mt tt te m)"
proof (unfold ensures_def, intro allI impI)
  fix res
  assume res: "evaluate_each ev m G qc mt (Own tt) (Own te) = Some res"
  then obtain ct where ct: "deref G qc = Some ct" by (auto simp: evaluate_each_def split: Option.bind_splits)
  define k where "k = length (elems (t_vals ct))"
  obtain ec G1 q1 q2 nt m1 where sel: "select_branches ev k m G qc (Own tt) (Own te) 0 k = Some (ec, G1, q1, q2, nt, m1)"
    using res ct by (auto simp: evaluate_each_def Let_def k_def split: Option.bind_splits)
  note s = ensuresD [OF select_branches_ensures [OF ev G t(1,2)] sel, unfolded prod.case]
  obtain t1 t2 where q: "q1 = Own t1" "branch_ok (length G) t1" "q2 = Own t2" "branch_ok (length G) t2"
    using s same_ptr_branch [of "length G" tt q1] same_ptr_branch [of "length G" te q2] t by auto
  show "cond_step G mt tt te m res"
  proof (cases "ec = MIST_OK")
    case False
    then have "res = (ec, G1, mt, q1, q2, m1)" using res ct sel by (auto simp: evaluate_each_def Let_def k_def)
    then show ?thesis using s t(3) by (auto simp: cond_step_def revalued_def balance_def)
  next
    case True
    obtain ct1 where ct1: "deref G1 qc = Some ct1"
      using res ct sel True by (auto simp: evaluate_each_def Let_def k_def split: Option.bind_splits if_splits)
    define b where "b = (hd (elems (t_vals ct1)) \<noteq> [])"
    obtain ec2 mt2 m2 where c: "cond_values nt m1 mt (elems (t_vals ct1)) t1 t2 0 0 b = Some (ec2, mt2, m2)"
        "res = (ec2, G1, mt2, q1, q2, m2)"
      using res ct sel True q ct1
      by (auto simp: evaluate_each_def Let_def k_def b_def [symmetric] split: Option.bind_splits if_splits)
    have "values_step (length G) mt m1 (ec2, mt2, m2)"
      using ensuresD [OF cond_values_step c(1)] t(3) q by blast
    then show ?thesis
      unfolding c(2) using s True by (auto simp: cond_step_def values_step_def balance_def)
  qed
qed

lemma clear_values_at_own:
  assumes "wf_t n t"
  obtains t' m' where "clear_values_at m G (Own t) = Some (G, Own t', m')" "revalued t t'" "wf_t n t'"
    "elems (t_vals t') = []" "\<not> t_is_evaluated t'" "live m' = live m + (tpl_blocks t' - tpl_blocks t)"
    "never_fails m' = never_fails m"
  using clear_values_returns [OF assms, of m] by (auto simp: returns_iff clear_values_at_def)

text \<open>What the evaluation of a placeholder keeps.\<close>

definition ph_step :: "group \<Rightarrow> CMistPlaceholder \<Rightarrow> mem \<Rightarrow> EMistErrorCode \<times> group \<times> CMistPlaceholder \<times> mem \<Rightarrow> bool" where
  "ph_step G p m res \<longleftrightarrow> (case res of (ec, G', p', m') \<Rightarrow> frame G G' \<and> wf_p (length G) p' \<and> abs_p p' = abs_p p
     \<and> balance ec m m' (gblocks G' + ph_blocks p' - gblocks G - ph_blocks p))"

lemma ph_evaluate_ref_ensures:
  assumes ev: "ev_ok ev" and G: "wf_group G" and p: "wf_p (length G) p" "p_type p \<noteq> MPH_COND"
  shows "ensures (mist_placeholder_evaluate ev m G p) (ph_step G p m)"
proof (cases p)
  case (Placeholder type name tpl sep tpl_cond tpl_then tpl_else is_concat)
  have "ptr_ok (length G) tpl" using p Placeholder by (auto simp: refers_def ptr_ok_def split: tptr.splits)
  note r = ev_okD [OF ev G this]
  have "ph_step G p m (ec, G', Placeholder type name tpl' sep tpl_cond tpl_then tpl_else is_concat, m')"
    if "ev_result G tpl m (ec, G', tpl', m')" for ec G' tpl' m'
    using that p Placeholder by (auto simp: ph_step_def ev_result_def same_ptr_def refers_def split: tptr.splits)
  then show ?thesis
    using Placeholder p r by (auto simp: mist_placeholder_evaluate_def ensures_def split: Option.bind_splits)
qed

lemma wf_condE:
  assumes "wf_p n p" "p_type p = MPH_COND"
  obtains name mt sep k tt te is_concat where "p = Placeholder MPH_COND name (Own mt) sep (Ref k) (Own tt) (Own te) is_concat"
    "k < n" "elems (t_sch mt) = []" "wf_t n mt" "branch_ok n tt" "branch_ok n te"
  using assms by (cases p) (auto simp: refers_def owns_def split: tptr.splits)

lemma ph_evaluate_cond_ensures:
  assumes ev: "ev_ok ev" and G: "wf_group G" and p: "wf_p (length G) p" "p_type p = MPH_COND"
  shows "ensures (mist_placeholder_evaluate ev m G p) (ph_step G p m)"
proof (unfold ensures_def, intro allI impI)
  fix res
  assume res: "mist_placeholder_evaluate ev m G p = Some res"
  obtain name mt sep k tt te is_concat where
    pe: "p = Placeholder MPH_COND name (Own mt) sep (Ref k) (Own tt) (Own te) is_concat"
    and w: "k < length G" "elems (t_sch mt) = []" "wf_t (length G) mt" "branch_ok (length G) tt" "branch_ok (length G) te"
    using wf_condE [OF p] by metis
  obtain mt1 m1 where c1: "clear_values_at m G (Own mt) = Some (G, Own mt1, m1)" "revalued mt mt1" "wf_t (length G) mt1"
      "live m1 = live m + (tpl_blocks mt1 - tpl_blocks mt)" using clear_values_at_own [OF w(3), of m G] by metis
  obtain tt1 m2 where c2: "clear_values_at m1 G (Own tt) = Some (G, Own tt1, m2)" "revalued tt tt1" "wf_t (length G) tt1"
      "live m2 = live m1 + (tpl_blocks tt1 - tpl_blocks tt)" using clear_values_at_own [of _ tt m1 G] w(4) by metis
  obtain te1 m3 where c3: "clear_values_at m2 G (Own te) = Some (G, Own te1, m3)" "revalued te te1" "wf_t (length G) te1"
      "live m3 = live m2 + (tpl_blocks te1 - tpl_blocks te)" using clear_values_at_own [of _ te m2 G] w(5) by metis
  obtain ec G1 qc m4 where e: "ev m3 G (Ref k) = Some (ec, G1, qc, m4)"
    using res c1(1) c2(1) c3(1) by (auto simp: pe mist_placeholder_evaluate_def split: Option.bind_splits)
  have r: "ev_result G (Ref k) m3 (ec, G1, qc, m4)" using ev_okD [OF ev G _ e] w(1) by (simp add: ptr_ok_def)
  have fr: "frame G G1" "length G1 = length G" "wf_group G1" "qc = Ref k"
    using r frameD by (auto simp: ev_result_def same_ptr_def)
  have br: "branch_ok (length G) tt1" "branch_ok (length G) te1" "abs_t tt1 = abs_t tt" "abs_t te1 = abs_t te" "elems (t_sch mt1) = []"
    using c1(2) c2(2,3) c3(2,3) w revalued_abs [OF c2(2)] revalued_abs [OF c3(2)] by (simp_all add: revalued_def)
  show "ph_step G p m res"
  proof (cases "ec = MIST_OK")
    case False
    then have "res = (ec, G1, Placeholder MPH_COND name (Own mt1) sep (Ref k) (Own tt1) (Own te1) is_concat, m4)"
      using res c1(1) c2(1) c3(1) e fr by (auto simp: pe mist_placeholder_evaluate_def)
    then show ?thesis
      using fr br r c1 c2 c3 w by (auto simp: ph_step_def pe refers_def owns_def ev_result_def balance_def)
  next
    case True
    obtain ct where ct: "deref G1 (Ref k) = Some ct" using w fr by simp
    have "wf_group G1" "branch_ok (length G1) tt1" "branch_ok (length G1) te1" "wf_t (length G1) mt1" using fr br c1(3) by simp_all
    note cr = evaluate_concat_ensures [OF ev this] evaluate_each_ensures [OF ev this]
    define cres where "cres = (if is_concat then evaluate_concat ev m4 G1 (elems (t_vals ct)) mt1 (Own tt1) (Own te1)
        else evaluate_each ev m4 G1 (Ref k) mt1 (Own tt1) (Own te1))"
    have cs: "ensures cres (cond_step G1 mt1 tt1 te1 m4)" using cr by (simp add: cres_def)
    obtain ec2 G2 mt2 q1 q2 m5 where c: "cres = Some (ec2, G2, mt2, q1, q2, m5)"
        "res = (ec2, G2, Placeholder MPH_COND name (Own (if ec2 = MIST_OK then with_evaluated mt2 else mt2)) sep (Ref k) q1 q2 is_concat, m5)"
      using res c1(1) c2(1) c3(1) e fr True ct
      by (auto simp: pe mist_placeholder_evaluate_def cres_def [symmetric] split: Option.bind_splits if_splits)
    have st: "cond_step G1 mt1 tt1 te1 m4 (ec2, G2, mt2, q1, q2, m5)" using cs c(1) by simp
    obtain t1 t2 where q: "q1 = Own t1" "branch_ok (length G) t1" "abs_t t1 = abs_t tt" "q2 = Own t2" "branch_ok (length G) t2" "abs_t t2 = abs_t te"
      using st same_ptr_branch [of "length G" tt1 q1] same_ptr_branch [of "length G" te1 q2] br fr
      by (auto simp: cond_step_def)
    have mt2: "elems (t_sch mt2) = []" "wf_t (length G) mt2" using st br fr by (auto simp: cond_step_def revalued_def)
    have ev2: "tpl_blocks (with_evaluated mt2) = tpl_blocks mt2" "wf_t (length G) (with_evaluated mt2)"
      using mt2 by (cases mt2; simp add: with_evaluated_def tpl_blocks.simps wf_t_eq)+
    have "wf_p (length G) (Placeholder MPH_COND name (Own (if ec2 = MIST_OK then with_evaluated mt2 else mt2)) sep (Ref k) q1 q2 is_concat)"
      using mt2 ev2 q w by (simp add: refers_def owns_def)
    moreover have "frame G G2" using st fr by (auto simp: cond_step_def intro: frame_trans)
    moreover have "balance ec2 m m5 (gblocks G2 + tpl_blocks mt2 + own_blocks q1 + own_blocks q2
         - gblocks G - tpl_blocks mt - tpl_blocks tt - tpl_blocks te)"
      using st r True c1(4) c2(4) c3(4) fr(4) by (auto simp: cond_step_def ev_result_def balance_def)
    ultimately show ?thesis
      unfolding c(2) using q ev2 by (auto simp: ph_step_def pe balance_def)
  qed
qed

lemma ph_evaluate_ensures:
  "ev_ok ev \<Longrightarrow> wf_group G \<Longrightarrow> wf_p (length G) p \<Longrightarrow> ensures (mist_placeholder_evaluate ev m G p) (ph_step G p m)"
  using ph_evaluate_ref_ensures ph_evaluate_cond_ensures by blast

lemma evaluate_placeholders_ensures:
  "ev_ok ev \<Longrightarrow> wf_group G \<Longrightarrow> (\<forall>p \<in> set ps. wf_p (length G) p) \<Longrightarrow>
   ensures (evaluate_placeholders ev m G ps) (\<lambda>(ec, G', ps', m'). frame G G' \<and> (\<forall>p \<in> set ps'. wf_p (length G) p)
     \<and> map abs_p ps' = map abs_p ps
     \<and> balance ec m m' (gblocks G' + sum_list (map ph_blocks ps') - gblocks G - sum_list (map ph_blocks ps)))"
proof (induction ps arbitrary: m G)
  case Nil
  then show ?case by (simp add: frame_refl balance_def)
next
  case (Cons p ps)
  have step: "ensures (mist_placeholder_evaluate ev m G p) (ph_step G p m)" using ph_evaluate_ensures Cons.prems by simp
  show ?case
  proof (unfold ensures_def, intro allI impI)
    fix res
    assume res: "evaluate_placeholders ev m G (p # ps) = Some res"
    then obtain ec G1 p1 m1 where e: "mist_placeholder_evaluate ev m G p = Some (ec, G1, p1, m1)" by (auto split: Option.bind_splits)
    with step have st: "ph_step G p m (ec, G1, p1, m1)" by simp
    then have fr: "frame G G1" "length G1 = length G" "wf_group G1" using frameD by (auto simp: ph_step_def)
    show "case res of (ec, G', ps', m') \<Rightarrow> frame G G' \<and> (\<forall>p \<in> set ps'. wf_p (length G) p) \<and> map abs_p ps' = map abs_p (p # ps)
       \<and> balance ec m m' (gblocks G' + sum_list (map ph_blocks ps') - gblocks G - sum_list (map ph_blocks (p # ps)))"
    proof (cases "ec = MIST_OK")
      case False
      then have "res = (ec, G1, p1 # ps, m1)" using res e by simp
      then show ?thesis using st Cons.prems by (auto simp: ph_step_def balance_def)
    next
      case True
      obtain ec2 G2 ps2 m2 where r: "evaluate_placeholders ev m1 G1 ps = Some (ec2, G2, ps2, m2)" "res = (ec2, G2, p1 # ps2, m2)"
        using res e True by (auto split: Option.bind_splits)
      have "\<forall>p \<in> set ps. wf_p (length G1) p" using Cons.prems(3) fr(2) by simp
      note ih = ensuresD [OF Cons.IH [OF Cons.prems(1) fr(3) this] r(1), unfolded prod.case]
      then show ?thesis
        unfolding r(2) using st True fr by (auto simp: ph_step_def balance_def intro: frame_trans)
    qed
  qed
qed

text \<open>Writing a template back through the pointer it was read by.\<close>

lemma store_step:
  assumes fr: "frame G G1" and q: "same_ptr (length G) q q1" and t: "deref G q = Some t" "\<not> t_is_evaluated t"
    and t1: "deref G1 q1 = Some t1" and u: "wf_t (length G) u" "abs_t u = abs_t t" "t_sch u = t_sch t \<and> t_name u = t_name t"
    and st: "store G1 q1 u = (G2, q2)"
  shows "frame G G2" "same_ptr (length G) q q2" "deref G2 q2 = Some u"
    "gblocks G2 + own_blocks q2 = gblocks G1 + own_blocks q1 + (tpl_blocks u - tpl_blocks t1)"
proof -
  have "(frame G G2 \<and> same_ptr (length G) q q2) \<and> deref G2 q2 = Some u
     \<and> gblocks G2 + own_blocks q2 = gblocks G1 + own_blocks q1 + (tpl_blocks u - tpl_blocks t1)"
  proof (cases q)
    case (Ref k)
    then have k: "q1 = Ref k" "k < length G" "G ! k = t" "G2 = G1[k := u]" "q2 = Ref k" "length G1 = length G" "G1 ! k = t1"
      using q t st t1 frameD(1) [OF fr] by (auto simp: same_ptr_def split: if_splits)
    then show ?thesis
      using fr u t wf_group_update [of G1 u k] gblocks_update [of k G1 u] Ref
      by (auto simp: frame_def same_ptr_def nth_list_update)
  next
    case (Own v)
    then show ?thesis using assms by (auto simp: same_ptr_def)
  qed (use q in \<open>simp add: same_ptr_def\<close>)
  then show "frame G G2" "same_ptr (length G) q q2" "deref G2 q2 = Some u"
    "gblocks G2 + own_blocks q2 = gblocks G1 + own_blocks q1 + (tpl_blocks u - tpl_blocks t1)" by blast+
qed

lemma same_ptr_refl: "ptr_ok n q \<Longrightarrow> same_ptr n q q"
  by (auto simp: ptr_ok_def same_ptr_def split: tptr.splits)

lemma ptr_ok_same: "same_ptr n q q' \<Longrightarrow> ptr_ok n q \<Longrightarrow> ptr_ok n q'"
  by (auto simp: same_ptr_def ptr_ok_def split: tptr.splits)

lemma deref_frame: "frame G G' \<Longrightarrow> deref G q = Some t \<Longrightarrow> t_is_evaluated t \<Longrightarrow> deref G' q = Some t"
  by (cases q) (auto simp: frame_def split: if_splits)

lemma same_ptr_length: "frame G G' \<Longrightarrow> same_ptr (length G') = same_ptr (length G)"
  by (simp add: frameD)

lemma with_blocks:
  "tpl_blocks (with_evaluated t) = tpl_blocks t"
  "wf_t n t \<Longrightarrow> length ps = length (elems (t_ph t)) \<Longrightarrow> \<forall>p \<in> set ps. wf_p n p \<Longrightarrow> wf_t n (with_placeholders t ps)"
  "wf_t n t \<Longrightarrow> wf_t n (with_evaluated t)"
  "wf_t n t \<Longrightarrow> length ps = length (elems (t_ph t)) \<Longrightarrow> \<forall>p \<in> set ps. wf_p n p \<Longrightarrow>
     tpl_blocks (with_placeholders t ps) = tpl_blocks t + sum_list (map ph_blocks ps) - sum_list (map ph_blocks (elems (t_ph t)))"
proof -
  show "tpl_blocks (with_evaluated t) = tpl_blocks t" by (cases t) (simp add: with_evaluated_def tpl_blocks.simps)
  show wf: "wf_t n (with_placeholders t ps)" if "wf_t n t" "length ps = length (elems (t_ph t))" "\<forall>p \<in> set ps. wf_p n p"
    using that by (auto simp: wf_t_eq grar_inv_def)
  show "wf_t n t \<Longrightarrow> wf_t n (with_evaluated t)" by (simp add: wf_t_eq)
  show "tpl_blocks (with_placeholders t ps) = tpl_blocks t + sum_list (map ph_blocks ps) - sum_list (map ph_blocks (elems (t_ph t)))"
    if "wf_t n t" "length ps = length (elems (t_ph t))" "\<forall>p \<in> set ps. wf_p n p"
    using tpl_blocks_eq [OF that(1)] tpl_blocks_eq [OF wf [OF that]] by simp
qed

text \<open>
  The evaluation of a template with chunks, from the point where the flag has been set. \<open>t1\<close> is the template
  with the flag set and without values.
\<close>

definition evaluate_text ::
  "evaluator \<Rightarrow> mem \<Rightarrow> group \<Rightarrow> CMistTemplate tptr \<Rightarrow> CMistTemplate \<Rightarrow> (EMistErrorCode \<times> group \<times> CMistTemplate tptr \<times> mem) option" where
  "evaluate_text ev m G q t1 = do {
     (ec, G, phs, m) \<leftarrow> evaluate_placeholders ev m G (elems (t_ph t1));
     let mt = with_placeholders t1 phs;
     let (G, q) = store G q mt;
     if ec \<noteq> MIST_OK then Some (ec, G, q, m)
     else do {
       (ec, mt, m) \<leftarrow> construct_values m G mt;
       let (G, q) = store G q mt;
       Some (ec, G, q, m)
     }
   }"

lemma evaluate_text_start:
  assumes G: "wf_group G" and q: "ptr_ok (length G) q" and t: "deref G q = Some t" "\<not> t_is_evaluated t" "elems (t_sch t) \<noteq> []"
  obtains t1 m1 G1 q1 where
    "\<And>n. mist_template_evaluate (Suc n) m G q = evaluate_text (mist_template_evaluate n) m1 G1 q1 t1"
    "store G q t1 = (G1, q1)" "revalued t t1" "t_is_evaluated t1" "elems (t_vals t1) = []" "wf_t (length G) t1" "frame G G1"
    "same_ptr (length G) q q1" "deref G1 q1 = Some t1"
    "live m1 = live m + (gblocks G1 + own_blocks q1 - gblocks G - own_blocks q)" "never_fails m1 = never_fails m"
proof -
  have wf: "wf_t (length G) t" using deref_wf [OF G q t(1)] .
  obtain t0 m1 where c: "mist_template_clear_values m t = Some (t0, m1)" "revalued t t0" "wf_t (length G) t0"
      "elems (t_vals t0) = []" "live m1 = live m + (tpl_blocks t0 - tpl_blocks t)" "never_fails m1 = never_fails m"
    using clear_values_returns [OF wf, of m] by (auto simp: returns_iff)
  define t1 where "t1 = with_evaluated t0"
  have t1: "revalued t t1" "t_is_evaluated t1" "elems (t_vals t1) = []" "wf_t (length G) t1" "tpl_blocks t1 = tpl_blocks t0"
    using c by (simp_all add: t1_def revalued_def with_blocks)
  obtain G1 q1 where s: "store G q t1 = (G1, q1)" by fastforce
  have "abs_t t1 = abs_t t" "t_sch t1 = t_sch t \<and> t_name t1 = t_name t" using revalued_abs [OF t1(1) t(3)] t1(1) by (simp_all add: revalued_def)
  note st = store_step [OF frame_refl [OF G] same_ptr_refl [OF q] t(1,2) t(1) t1(4) this s]
  have "mist_template_evaluate (Suc n) m G q = evaluate_text (mist_template_evaluate n) m1 G1 q1 t1" for n
    using t wf c(1,2) s t1(1) by (auto simp: evaluate_text_def t1_def [symmetric] wf_t_eq revalued_def)
  then show ?thesis using that s t1 st c(5,6) by auto
qed

lemma evaluate_text_ensures:
  assumes ev: "ev_ok ev" and G: "wf_group G" and q: "ptr_ok (length G) q" and t: "deref G q = Some t" "\<not> t_is_evaluated t" "elems (t_sch t) \<noteq> []"
    and t1: "revalued t t1" "t_is_evaluated t1" "elems (t_vals t1) = []" "wf_t (length G) t1" "frame G G1"
    "same_ptr (length G) q q1" "deref G1 q1 = Some t1"
  shows "ensures (evaluate_text ev m G1 q1 t1) (\<lambda>(ec, G', q', m'). frame G G' \<and> same_ptr (length G) q q'
     \<and> (\<exists>t. deref G' q' = Some t \<and> t_is_evaluated t)
     \<and> balance ec m m' (gblocks G' + own_blocks q' - gblocks G1 - own_blocks q1))"
proof (unfold ensures_def, intro allI impI)
  fix res
  assume res: "evaluate_text ev m G1 q1 t1 = Some res"
  have fr1: "length G1 = length G" "wf_group G1" using frameD [OF t1(5)] by simp_all
  have wp: "\<forall>p \<in> set (elems (t_ph t1)). wf_p (length G1) p" using t1(4) fr1 by (simp add: wf_t_eq)
  obtain ec G2 ps m2 where e: "evaluate_placeholders ev m G1 (elems (t_ph t1)) = Some (ec, G2, ps, m2)"
    using res by (auto simp: evaluate_text_def split: Option.bind_splits)
  note r = ensuresD [OF evaluate_placeholders_ensures [OF ev fr1(2) wp] e, unfolded prod.case]
  define t2 where "t2 = with_placeholders t1 ps"
  have "map abs_p ps = map abs_p (elems (t_ph t1))" using r by blast
  then have ps: "length ps = length (elems (t_ph t1))" by (metis length_map)
  have abs2: "abs_t t2 = abs_t t" "t_sch t2 = t_sch t \<and> t_name t2 = t_name t" "t_is_evaluated t2"
    using r t1 t by (simp_all add: t2_def abs_t_eq revalued_def)
  have wps: "\<forall>p \<in> set ps. wf_p (length G) p" using r fr1 by simp
  then have wf2: "wf_t (length G) t2" "tpl_blocks t2 = tpl_blocks t1 + sum_list (map ph_blocks ps) - sum_list (map ph_blocks (elems (t_ph t1)))"
    using with_blocks(2,4) [OF t1(4) ps] by (auto simp: t2_def)
  have fr2: "frame G G2" "deref G2 q1 = Some t1" using r t1 deref_frame [of G1 G2 q1 t1] by (auto intro: frame_trans)
  obtain G3 q3 where s: "store G2 q1 t2 = (G3, q3)" by fastforce
  note s3 = store_step [OF fr2(1) t1(6) t(1,2) fr2(2) wf2(1) abs2(1,2) s]
  show "case res of (ec, G', q', m') \<Rightarrow> frame G G' \<and> same_ptr (length G) q q'
     \<and> (\<exists>t. deref G' q' = Some t \<and> t_is_evaluated t)
     \<and> balance ec m m' (gblocks G' + own_blocks q' - gblocks G1 - own_blocks q1)"
  proof (cases "ec = MIST_OK")
    case False
    then have "res = (ec, G3, q3, m2)" using res e s by (simp add: evaluate_text_def t2_def [symmetric])
    then show ?thesis using s3 abs2 r wf2(2) by (auto simp: balance_def)
  next
    case True
    obtain ec2 t4 m4 where c: "construct_values m2 G3 t2 = Some (ec2, t4, m4)"
      using res e s True by (auto simp: evaluate_text_def t2_def [symmetric] split: Option.bind_splits)
    obtain G4 q4 where s4: "store G3 q3 t4 = (G4, q4)" by fastforce
    have rs: "res = (ec2, G4, q4, m4)" using res e s s4 True c by (simp add: evaluate_text_def t2_def [symmetric])
    have "elems (t_vals t2) = []" using t1(3) by (simp add: t2_def)
    then have cs: "construct_step (length G) t2 m2 (ec2, t4, m4)" using ensuresD [OF construct_values_step [OF wf2(1)] c] by simp
    have t4: "wf_t (length G) t4" "abs_t t4 = abs_t t" "t_sch t4 = t_sch t \<and> t_name t4 = t_name t" "t_is_evaluated t4"
      using cs abs2 t(3) revalued_abs [of t2 t4] by (auto simp: construct_step_def revalued_def)
    note s5 = store_step [OF s3(1,2) t(1,2) s3(3) t4(1-3) s4]
    show ?thesis
      unfolding rs using s5 s3(4) t4(4) cs r True wf2(2) by (auto simp: construct_step_def balance_def)
  qed
qed

lemma attribute_ensures:
  assumes G: "wf_group G" and q: "ptr_ok (length G) q" and t: "deref G q = Some t" "\<not> t_is_evaluated t" "elems (t_sch t) = []"
  shows "ensures (mist_template_evaluate (Suc n) m G q) (ev_result G q m)"
proof -
  have wf: "wf_t (length G) t" using deref_wf [OF G q t(1)] .
  then have ph: "elems (t_ph t) = []" using t(3) by (simp add: wf_t_eq)
  obtain ec t1 m1 where a: "evaluate_attribute m t = Some (ec, t1, m1)" "values_step (length G) t m (ec, t1, m1)"
      "ec = MIST_OK \<longrightarrow> t_is_evaluated t1 \<and> elems (t_vals t1) = (if elems (t_vals t) = [] then [[]] else elems (t_vals t))" "ec \<noteq> MIST_OK \<longrightarrow> t1 = t"
    using evaluate_attribute_returns [OF wf, of m] by (auto simp: returns_iff)
  obtain G1 q1 where s: "store G q t1 = (G1, q1)" by fastforce
  have t1: "wf_t (length G) t1" "t_sch t1 = t_sch t \<and> t_name t1 = t_name t" "abs_t t1 = abs_t t"
    using a t by (cases "ec = MIST_OK"; simp add: values_step_def revalued_def abs_t_eq)+
  note s1 = store_step [OF frame_refl [OF G] same_ptr_refl [OF q] t(1,2) t(1) t1(1,3,2) s]
  have "ev_result G q m (ec, G1, q1, m1)"
    using s1 a(2-4) by (auto simp: ev_result_def values_step_def balance_def)
  then show ?thesis using t ph a(1) s by simp
qed

theorem mist_template_evaluate_ensures: "ev_ok (mist_template_evaluate n)"
proof (induction n)
  case 0
  then show ?case by (simp add: ev_ok_def)
next
  case (Suc n)
  have "ensures (mist_template_evaluate (Suc n) m G q) (ev_result G q m)"
    if G: "wf_group G" and q: "ptr_ok (length G) q" for m G q
  proof (cases "deref G q")
    case None
    then show ?thesis by simp
  next
    case (Some t)
    consider (already) "t_is_evaluated t" | (attr) "\<not> t_is_evaluated t" "elems (t_sch t) = []" | (chunks) "\<not> t_is_evaluated t" "elems (t_sch t) \<noteq> []" by blast
    then show ?thesis
    proof cases
      case already
      then show ?thesis using Some G q by (simp add: ev_result_def frame_refl same_ptr_refl balance_def)
    next
      case attr
      then show ?thesis using attribute_ensures [OF G q Some] by simp
    next
      case chunks
      obtain t1 m1 G1 q1 where s: "mist_template_evaluate (Suc n) m G q = evaluate_text (mist_template_evaluate n) m1 G1 q1 t1"
        "revalued t t1" "t_is_evaluated t1" "elems (t_vals t1) = []" "wf_t (length G) t1" "frame G G1"
        "same_ptr (length G) q q1" "deref G1 q1 = Some t1" "live m1 = live m + (gblocks G1 + own_blocks q1 - gblocks G - own_blocks q)"
        using evaluate_text_start [OF G q Some chunks, of m] by metis
      show ?thesis
        unfolding s(1) by (rule ensures_mono [OF evaluate_text_ensures [OF Suc.IH G q Some chunks s(2-8)]])
          (use s(9) in \<open>auto simp: ev_result_def balance_def\<close>)
    qed
  qed
  then show ?case by (simp add: ev_ok_def)
qed

end
