(* ===== verification/Mist_Copy.thy ===== *)
theory Mist_Copy
  imports Mist_Values
begin

text \<open>
  The second half of \<open>mist_template_evaluate\<close> (\<open>construct_values\<close> of \<open>Mist_Eval\<close>): the buffers are large enough
  for everything that is copied into them, and what is in them at the end are the values of the
  reference semantics, \<open>expand\<close>.

  The buffers are described by a function of the row: \<open>rows_filled pos f N n\<close> says that there are \<open>N\<close> buffers of
  \<open>n\<close> bytes and that the buffer \<open>i\<close> holds \<open>f i\<close> so far.
\<close>

section \<open>Lists of values\<close>

lemma longest_bound: "v \<in> set vs \<Longrightarrow> length v \<le> longest vs"
  by (induction vs) (auto simp: longest_def)

lemma longest_le: "(\<forall>v \<in> set vs. length v \<le> n) \<Longrightarrow> longest vs \<le> n"
  by (induction vs) (auto simp: longest_def)

lemma foldl_longest: "foldl (\<lambda>len v. if len < length v then length v else len) n vs = max n (longest vs)"
  by (induction vs arbitrary: n) (auto simp: longest_def)

lemma pick_length: "length (pick vs i) \<le> longest vs"
proof (cases "vs = []")
  case False
  then have "min i (length vs - 1) < length vs" by (cases vs) auto
  then show ?thesis using False by (auto simp: pick_def intro: longest_bound)
qed (simp add: pick_def)

lemma pick_less: "i < length vs \<Longrightarrow> pick vs i = vs ! i"
  by (auto simp: pick_def min_def)

lemma pick_beyond: "vs \<noteq> [] \<Longrightarrow> length vs \<le> i \<Longrightarrow> pick vs i = last vs"
  by (cases vs) (auto simp: pick_def min_def last_conv_nth)

lemma pick_single [simp]: "pick [v] i = v"
  by (simp add: pick_def)

lemma rows_simps [simp]: "rows [] = 1" "rows (vs # vss) = max (length vs) (rows vss)"
  by (simp_all add: rows_def)

lemma rows_pos: "1 \<le> rows vss"
  by (induction vss) auto

lemma rows_bound: "vs \<in> set vss \<Longrightarrow> length vs \<le> rows vss"
  by (induction vss) auto

lemma length_expand [simp]: "length (expand cs vss) = rows vss"
  by (simp add: expand_def)

lemma expand_nonempty [simp]: "expand cs vss \<noteq> []"
  using rows_pos [of vss] by (auto simp: expand_def)

lemma concat_pick_length:
  "length (concat (map2 (\<lambda>vs c. pick vs i @ c) vss cs)) \<le> sum_list (map longest vss) + sum_list (map length cs)"
proof (induction vss arbitrary: cs)
  case (Cons vs vss)
  then show ?case
  proof (cases cs)
    case (Cons c cs')
    then show ?thesis using Cons.IH [of cs'] pick_length [of vs i] by simp
  qed simp
qed simp

lemma longest_expand: "cs \<noteq> [] \<Longrightarrow> longest (expand cs vss) \<le> room cs vss"
proof (rule longest_le, intro ballI)
  fix v
  assume cs: "cs \<noteq> []" and "v \<in> set (expand cs vss)"
  then obtain i where "v = hd cs @ concat (map2 (\<lambda>vs c. pick vs i @ c) vss (tl cs))" by (auto simp: expand_def)
  moreover have "sum_list (map length cs) = length (hd cs) + sum_list (map length (tl cs))" using cs by (cases cs) simp_all
  ultimately show "length v \<le> room cs vss"
    using concat_pick_length [of i vss "tl cs"] by (simp add: room_def)
qed

lemma joined_length: "vs \<noteq> [] \<Longrightarrow> length (joined sep vs) = sum_list (map length vs) + (length vs - 1) * length sep"
proof (cases vs)
  case (Cons v ws)
  have "length (concat (map ((@) sep) ws)) = sum_list (map length ws) + length ws * length sep"
    by (induction ws) auto
  then show ?thesis using Cons by simp
qed simp

lemma joined_no_nul: "no_nul sep \<Longrightarrow> (\<forall>v \<in> set vs. no_nul v) \<Longrightarrow> no_nul (joined sep vs)"
  by (cases vs) (auto simp: no_nul_def)

section \<open>Filling the buffers\<close>

definition rows_filled :: "buffers \<Rightarrow> (nat \<Rightarrow> string) \<Rightarrow> nat \<Rightarrow> nat \<Rightarrow> bool" where
  "rows_filled pos f N n \<longleftrightarrow> length pos = N \<and> (\<forall>i < N. filled (pos ! i) (f i) n)"

lemma strncpy_all: "no_nul s \<Longrightarrow> strncpy_bytes s (length s) = s"
  by (simp add: strncpy_bytes_def Let_def)

lemma put_filled:
  "filled d out n \<Longrightarrow> no_nul s \<Longrightarrow> length out + length s \<le> n \<Longrightarrow> returns (put d s) (\<lambda>d'. filled d' (out @ s) n)"
  using emit_filled_nonempty [of d out n s] by (simp add: put_def strncpy_all)

lemma returns_those:
  "(\<forall>i < length xs. returns (xs ! i) (Q i)) \<Longrightarrow> returns (those xs) (\<lambda>ys. length ys = length xs \<and> (\<forall>i < length xs. Q i (ys ! i)))"
proof (induction xs arbitrary: Q)
  case (Cons x xs)
  have "\<forall>i < length xs. returns (xs ! i) (Q (Suc i))" using Cons.prems by force
  note ih = Cons.IH [OF this]
  moreover have "returns x (Q 0)" using Cons.prems by force
  ultimately show ?case
    by (auto simp: returns_iff nth_Cons split: nat.splits)
qed simp

lemma copy_string_filled:
  assumes "rows_filled pos f N n" "0 < N" "no_nul s" "\<forall>i < N. length (f i) + length s \<le> n"
  shows "returns (mist_copy_string pos s) (\<lambda>pos'. rows_filled pos' (\<lambda>i. f i @ s) N n)"
proof -
  have "returns (those (map (\<lambda>d. put d s) pos)) (\<lambda>ys. length ys = length (map (\<lambda>d. put d s) pos)
      \<and> (\<forall>i < length (map (\<lambda>d. put d s) pos). filled (ys ! i) (f i @ s) n))"
    by (rule returns_those) (use assms in \<open>auto simp: rows_filled_def intro: put_filled\<close>)
  then show ?thesis using assms by (auto simp: mist_copy_string_def rows_filled_def elim: returns_mono)
qed

lemma join_loop_filled:
  "filled d out n \<Longrightarrow> no_nul sep \<Longrightarrow> (\<forall>v \<in> set vs. no_nul v) \<Longrightarrow> length out + length (concat (map (\<lambda>w. sep @ w) vs)) \<le> n
   \<Longrightarrow> returns (join_loop d sep vs) (\<lambda>d'. filled d' (out @ concat (map (\<lambda>w. sep @ w) vs)) n)"
proof (induction vs arbitrary: d out)
  case (Cons v vs)
  have "returns (put d sep) (\<lambda>d'. filled d' (out @ sep) n)" using put_filled Cons.prems by simp
  moreover have "returns (put d1 v) (\<lambda>d'. filled d' ((out @ sep) @ v) n)" if "filled d1 (out @ sep) n" for d1
    using put_filled [OF that] Cons.prems by simp
  moreover have "returns (join_loop d2 sep vs) (\<lambda>d'. filled d' (out @ concat (map (\<lambda>w. sep @ w) (v # vs))) n)"
    if "filled d2 ((out @ sep) @ v) n" for d2
    using Cons.IH [OF that] Cons.prems by simp
  ultimately show ?case unfolding join_loop.simps by (intro returns_bindI)
qed simp

text \<open>
  What a placeholder shows: the values of the template it refers to, or for join the one string they
  make up.
\<close>

definition shown :: "CMistPlaceholder \<Rightarrow> string list \<Rightarrow> string list" where
  "shown p vals = (if p_type p = MPH_JOIN then [joined (the (p_sep p)) vals] else vals)"

definition displays :: "group \<Rightarrow> CMistPlaceholder \<Rightarrow> string list \<Rightarrow> bool" where
  "displays G p vs \<longleftrightarrow> (\<exists>t. deref G (p_tpl p) = Some t \<and> t_is_evaluated t \<and> vs = shown p (elems (t_vals t))
     \<and> elems (t_vals t) \<noteq> [] \<and> (\<forall>v \<in> set (elems (t_vals t)). no_nul v)
     \<and> (p_type p = MPH_JOIN \<longrightarrow> p_sep p \<noteq> None \<and> no_nul (the (p_sep p)) \<and> \<not> p_is_concat p))"

lemma join_values_filled:
  assumes p: "displays G p vs" "p_type p = MPH_JOIN" and d: "filled d out n" "length out + longest vs \<le> n"
  shows "returns (mist_placeholder_join_values G p d) (\<lambda>d'. filled d' (out @ hd vs) n)"
proof -
  obtain t sep v ws where t: "deref G (p_tpl p) = Some t" "elems (t_vals t) = v # ws" "p_sep p = Some sep" "no_nul sep" "\<not> p_is_concat p"
      "no_nul v" "\<forall>v \<in> set ws. no_nul v" "vs = [joined sep (v # ws)]"
    using p by (auto simp: displays_def shown_def neq_Nil_conv)
  have len: "length out + (length v + length (concat (map (\<lambda>w. sep @ w) ws))) \<le> n"
    using d(2) t(8) by (simp add: longest_def)
  have "returns (put d v) (\<lambda>d'. filled d' (out @ v) n)" using put_filled [OF d(1) t(6)] len by simp
  moreover have "returns (join_loop d1 sep ws) (\<lambda>d'. filled d' (out @ hd vs) n)" if "filled d1 (out @ v) n" for d1
    using join_loop_filled [OF that t(4,7)] len t(8) by simp
  ultimately show ?thesis using t p(2) by (auto simp: mist_placeholder_join_values_def returns_iff)
qed

lemma copy_each_filled:
  "rows_filled pos f N n \<Longrightarrow> length vs \<le> N \<Longrightarrow> (\<forall>v \<in> set vs. no_nul v) \<Longrightarrow> (\<forall>i < N. length (f i) + longest vs \<le> n) \<Longrightarrow>
   returns (copy_each pos vs) (\<lambda>(ds, rest). length ds = length vs \<and> rest = drop (length vs) pos
     \<and> (\<forall>i < length vs. filled (ds ! i) (f i @ vs ! i) n))"
proof (induction vs arbitrary: pos f N)
  case (Cons v vs)
  obtain d pos' where pos: "pos = d # pos'" using Cons.prems(1,2) by (cases pos) (auto simp: rows_filled_def)
  have lv: "length v \<le> longest (v # vs)" "longest vs \<le> longest (v # vs)" by (simp_all add: longest_def)
  have N: "0 < N" using Cons.prems(2) by simp
  have d: "filled d (f 0) n" using Cons.prems(1) N unfolding pos rows_filled_def by force
  have "length (f 0) + longest (v # vs) \<le> n" using Cons.prems(4) N by blast
  then have 1: "returns (put d v) (\<lambda>d'. filled d' (f 0 @ v) n)" using d Cons.prems(3) lv by (intro put_filled) auto
  have rf: "rows_filled pos' (\<lambda>i. f (Suc i)) (N - 1) n"
    using Cons.prems(1) unfolding pos rows_filled_def by force
  have "length (f (Suc i)) + longest vs \<le> n" if "i < N - 1" for i
    using Cons.prems(4) [rule_format, of "Suc i"] that lv(2) by linarith
  then have "\<forall>i < N - 1. length (f (Suc i)) + longest vs \<le> n" by blast
  from Cons.IH [OF rf _ _ this] have 2: "returns (copy_each pos' vs) (\<lambda>(ds, rest). length ds = length vs \<and> rest = drop (length vs) pos'
     \<and> (\<forall>i < length vs. filled (ds ! i) (f (Suc i) @ vs ! i) n))" using Cons.prems(2,3) by auto
  from 1 2 show ?case
    by (auto simp: pos returns_iff nth_Cons split: nat.splits)
qed (simp add: rows_filled_def)

text \<open>A row of the buffers is copied from the first one.\<close>

lemma copy_from_first:
  assumes "filled (b, p) (out @ w) n" "no_nul w" "length w = len"
  shows "strncpy_bytes (drop (length out) b) len = w"
proof -
  have "take (length out + len) b = out @ w" using assms by (auto simp: filled_def)
  then have "take len (drop (length out) b) = w"
    by (metis append_eq_conv_conj drop_take length_append add_diff_cancel_left')
  then show ?thesis using assms(2,3) by (simp add: strncpy_bytes_def Let_def)
qed

lemma copy_join_filled:
  assumes pos: "rows_filled pos f N n" "0 < N" and p: "displays G p vs" "p_type p = MPH_JOIN"
    and len: "\<forall>i < N. length (f i) + longest vs \<le> n"
  shows "returns (mist_copy_placeholder_values G pos p) (\<lambda>pos'. rows_filled pos' (\<lambda>i. f i @ pick vs i) N n)"
proof -
  obtain d ds where pd: "pos = d # ds" using pos by (cases pos) (auto simp: rows_filled_def)
  obtain t sep where t: "deref G (p_tpl p) = Some t" "elems (t_vals t) \<noteq> []" "vs = [joined sep (elems (t_vals t))]" "no_nul (joined sep (elems (t_vals t)))"
    using p by (auto simp: displays_def shown_def intro: joined_no_nul)
  define w where "w = joined sep (elems (t_vals t))"
  have w: "vs = [w]" "no_nul w" "longest vs = length w" using t by (simp_all add: w_def longest_def)
  have d: "filled d (f 0) n" using pos unfolding pd rows_filled_def by force
  obtain d1 where j: "mist_placeholder_join_values G p d = Some d1" "filled d1 (f 0 @ w) n"
    using join_values_filled [OF p d] len pos(2) w(1) by (auto simp: returns_iff)
  have len1: "snd d1 - snd d = length w" and sd: "snd d = length (f 0)" using d j by (auto simp: filled_def)
  have src: "strncpy_bytes (drop (snd d) (fst d1)) (length w) = w"
    using copy_from_first [of "fst d1" "snd d1" "f 0" w n] j(2) w(2) sd by simp
  have rest: "returns (if length w > 0 then those (map (\<lambda>d. emit d w) ds) else Some ds)
      (\<lambda>ds'. length ds' = length ds \<and> (\<forall>i < length ds. filled (ds' ! i) (f (Suc i) @ w) n))"
  proof (cases "w = []")
    case True
    then show ?thesis using pos unfolding pd rows_filled_def by force
  next
    case False
    have "\<forall>i < length (map (\<lambda>d. emit d w) ds). returns (map (\<lambda>d. emit d w) ds ! i) (\<lambda>d'. filled d' (f (Suc i) @ w) n)"
    proof (intro allI impI)
      fix i
      assume i: "i < length (map (\<lambda>d. emit d w) ds)"
      then have "filled (pos ! Suc i) (f (Suc i)) n" "length (f (Suc i)) + length w \<le> n"
        using pos len w(3) unfolding pd rows_filled_def by fastforce+
      then show "returns (map (\<lambda>d. emit d w) ds ! i) (\<lambda>d'. filled d' (f (Suc i) @ w) n)"
        using emit_filled i pd by simp
    qed
    from returns_those [OF this] show ?thesis using False by simp
  qed
  have N: "N = Suc (length ds)" using pos(1) pd by (simp add: rows_filled_def)
  have fin: "rows_filled (d1 # ds') (\<lambda>i. f i @ pick vs i) N n"
    if "length ds' = length ds \<and> (\<forall>i < length ds. filled (ds' ! i) (f (Suc i) @ w) n)" for ds'
    using that j(2) w(1) N by (auto simp: rows_filled_def nth_Cons split: nat.splits)
  obtain ds' where r: "(if length w > 0 then those (map (\<lambda>d. emit d w) ds) else Some ds) = Some ds'"
      "rows_filled (d1 # ds') (\<lambda>i. f i @ pick vs i) N n"
    using rest fin unfolding returns_iff by blast
  have "mist_copy_placeholder_values G pos p = Some (d1 # ds')"
    using t(1,2) p(2) j(1) len1 src r(1)
    by (cases "w = []") (simp_all add: mist_copy_placeholder_values_def pd Let_def del: zero_less_diff)
  then show ?thesis using r(2) by simp
qed

lemma copy_rows_filled:
  assumes pos: "rows_filled pos f N n" "0 < N" and p: "displays G p vs" "p_type p \<noteq> MPH_JOIN"
    and len: "\<forall>i < N. length (f i) + longest vs \<le> n" "length vs \<le> N"
  shows "returns (mist_copy_placeholder_values G pos p) (\<lambda>pos'. rows_filled pos' (\<lambda>i. f i @ pick vs i) N n)"
proof -
  obtain t where t: "deref G (p_tpl p) = Some t" "elems (t_vals t) = vs" "vs \<noteq> []" "\<forall>v \<in> set vs. no_nul v"
    using p by (auto simp: displays_def shown_def)
  obtain ds where c: "copy_each pos vs = Some (ds, drop (length vs) pos)" "length ds = length vs"
      "\<forall>i < length vs. filled (ds ! i) (f i @ vs ! i) n"
    using copy_each_filled [OF pos(1) len(2) t(4) len(1)] by (auto simp: returns_iff)
  define w where "w = last vs"
  have w: "no_nul w" "length w \<le> longest vs" using t longest_bound [of "last vs" vs] by (auto simp: w_def)
  have rest: "returns (if length w > 0 then those (map (\<lambda>d. put d w) (drop (length vs) pos)) else Some (drop (length vs) pos))
      (\<lambda>ds'. length ds' = N - length vs \<and> (\<forall>i < N - length vs. filled (ds' ! i) (f (length vs + i) @ w) n))"
  proof (cases "w = []")
    case True
    then show ?thesis using pos by (auto simp: rows_filled_def)
  next
    case False
    have "\<forall>i < length (map (\<lambda>d. put d w) (drop (length vs) pos)). returns (map (\<lambda>d. put d w) (drop (length vs) pos) ! i)
        (\<lambda>d'. filled d' (f (length vs + i) @ w) n)"
    proof (intro allI impI)
      fix i
      assume i: "i < length (map (\<lambda>d. put d w) (drop (length vs) pos))"
      then have N: "length vs + i < N" using pos by (simp add: rows_filled_def)
      then have "filled (pos ! (length vs + i)) (f (length vs + i)) n" using pos by (simp add: rows_filled_def)
      then show "returns (map (\<lambda>d. put d w) (drop (length vs) pos) ! i) (\<lambda>d'. filled d' (f (length vs + i) @ w) n)"
        using put_filled [OF _ w(1)] i len(1) [rule_format, OF N] w(2) by simp
    qed
    from returns_those [OF this] show ?thesis using False pos by (simp add: rows_filled_def)
  qed
  have fin: "rows_filled (ds @ ds') (\<lambda>i. f i @ pick vs i) N n"
    if r: "length ds' = N - length vs \<and> (\<forall>i < N - length vs. filled (ds' ! i) (f (length vs + i) @ w) n)" for ds'
  proof -
    have "filled ((ds @ ds') ! i) (f i @ pick vs i) n" if "i < N" for i
    proof (cases "i < length vs")
      case True
      then show ?thesis using c by (simp add: nth_append pick_less)
    next
      case False
      then show ?thesis
        using r that c(2) t(3) by (auto simp: nth_append pick_beyond w_def dest!: spec [of _ "i - length vs"])
    qed
    then show ?thesis using r c(2) len(2) by (simp add: rows_filled_def)
  qed
  obtain ds' where r: "(if length w > 0 then those (map (\<lambda>d. put d w) (drop (length vs) pos)) else Some (drop (length vs) pos)) = Some ds'"
      "rows_filled (ds @ ds') (\<lambda>i. f i @ pick vs i) N n"
    using rest fin unfolding returns_iff by blast
  have "length pos = N" "pos \<noteq> []" using pos by (auto simp: rows_filled_def)
  then have "mist_copy_placeholder_values G pos p = Some (ds @ ds')"
    using t p(2) c(1) len(2) r(1)
    by (cases "w = []") (simp_all add: mist_copy_placeholder_values_def Let_def w_def [symmetric])
  then show ?thesis using r(2) by simp
qed

lemma copy_placeholder_filled:
  "rows_filled pos f N n \<Longrightarrow> 0 < N \<Longrightarrow> displays G p vs \<Longrightarrow> \<forall>i < N. length (f i) + longest vs \<le> n \<Longrightarrow> length vs \<le> N \<Longrightarrow>
   returns (mist_copy_placeholder_values G pos p) (\<lambda>pos'. rows_filled pos' (\<lambda>i. f i @ pick vs i) N n)"
  using copy_join_filled copy_rows_filled by (cases "p_type p = MPH_JOIN") blast+

lemma copy_loop_filled:
  "list_all2 (displays G) ps vss \<Longrightarrow> rows_filled pos f N n \<Longrightarrow> 0 < N \<Longrightarrow> length cs = length ps \<Longrightarrow> \<forall>c \<in> set cs. no_nul c \<Longrightarrow>
   \<forall>vs \<in> set vss. length vs \<le> N \<Longrightarrow> \<forall>i < N. length (f i) + sum_list (map longest vss) + sum_list (map length cs) \<le> n \<Longrightarrow>
   returns (copy_loop G pos ps cs) (\<lambda>pos'. rows_filled pos' (\<lambda>i. f i @ concat (map2 (\<lambda>vs c. pick vs i @ c) vss cs)) N n)"
proof (induction ps vss arbitrary: pos f cs rule: list_all2_induct)
  case (Cons p ps vs vss)
  obtain c cs' where cs: "cs = c # cs'" using Cons.prems(3) by (cases cs) auto
  have 1: "returns (mist_copy_placeholder_values G pos p) (\<lambda>pos'. rows_filled pos' (\<lambda>i. f i @ pick vs i) N n)"
    using Cons.prems Cons.hyps by (intro copy_placeholder_filled) auto
  have l: "length (f i) + length (pick vs i) + sum_list (map longest vss) + length c + sum_list (map length cs') \<le> n" if "i < N" for i
    using Cons.prems(6) [rule_format, OF that] pick_length [of vs i] unfolding cs by simp
  have 2: "returns (mist_copy_string pos1 c) (\<lambda>pos'. rows_filled pos' (\<lambda>i. (f i @ pick vs i) @ c) N n)"
    if "rows_filled pos1 (\<lambda>i. f i @ pick vs i) N n" for pos1
  proof (rule copy_string_filled [OF that])
    show "\<forall>i < N. length (f i @ pick vs i) + length c \<le> n" using l by (fastforce intro: le_trans)
  qed (use Cons.prems in \<open>auto simp: cs\<close>)
  have 3: "returns (copy_loop G pos2 ps cs') (\<lambda>pos'. rows_filled pos' (\<lambda>i. f i @ concat (map2 (\<lambda>vs c. pick vs i @ c) (vs # vss) cs)) N n)"
    if "rows_filled pos2 (\<lambda>i. (f i @ pick vs i) @ c) N n" for pos2
    using Cons.IH [OF that, of cs'] Cons.prems l by (auto simp: cs algebra_simps)
  show ?case unfolding cs copy_loop.simps using 1 2 3 unfolding cs by (intro returns_bindI)
qed simp

section \<open>Sizes\<close>

lemma num_values_loop_eq:
  "list_all2 (displays G) ps vss \<Longrightarrow> 1 \<le> n \<Longrightarrow> num_values_loop G n ps = Some (max n (rows vss))"
proof (induction ps vss arbitrary: n rule: list_all2_induct)
  case (Cons p ps vs vss)
  obtain t where t: "deref G (p_tpl p) = Some t" "vs = shown p (elems (t_vals t))" "elems (t_vals t) \<noteq> []"
    using Cons.hyps(1) by (auto simp: displays_def)
  have "max (if p_type p \<noteq> MPH_JOIN \<and> n < length (elems (t_vals t)) then length (elems (t_vals t)) else n) k = max n (max (length vs) k)" for k
    using t(2) Cons.prems by (auto simp: shown_def max_def)
  then show ?case using t(1) Cons.IH Cons.prems by (simp add: Let_def max.assoc)
qed simp

lemma placeholder_max_length_eq:
  assumes "displays G p vs" "longest vs < SIZE_MODULUS"
  shows "mist_placeholder_max_length G p = Some (longest vs)"
proof -
  obtain t where t: "deref G (p_tpl p) = Some t" "t_is_evaluated t" "vs = shown p (elems (t_vals t))" "elems (t_vals t) \<noteq> []"
      "p_type p = MPH_JOIN \<longrightarrow> p_sep p \<noteq> None"
    using assms(1) by (auto simp: displays_def)
  have "longest [w] = length w" for w by (simp add: longest_def)
  then show ?thesis
    using t assms(2)
    by (auto simp: mist_placeholder_max_length_def shown_def Let_def foldl_longest joined_length grar_string_total_length_eq)
qed

lemma max_length_loop_eq:
  "list_all2 (displays G) ps vss \<Longrightarrow> n + sum_list (map longest vss) < SIZE_MODULUS \<Longrightarrow>
   max_length_loop G n ps = Some (n + sum_list (map longest vss))"
proof (induction ps vss arbitrary: n rule: list_all2_induct)
  case (Cons p ps vs vss)
  then show ?case using placeholder_max_length_eq [OF Cons.hyps(1)] by (simp add: add.assoc)
qed simp

lemma max_length_eq:
  assumes "list_all2 (displays G) (elems (t_ph t)) vss" "room (elems (t_sch t)) vss < SIZE_MODULUS"
  shows "mist_template_max_length G t = Some (room (elems (t_sch t)) vss)"
  using max_length_loop_eq [OF assms(1)] assms(2)
  by (simp add: mist_template_max_length_def room_def grar_string_total_length_eq)

lemma num_values_eq:
  "list_all2 (displays G) (elems (t_ph t)) vss \<Longrightarrow> mist_template_num_values G t = Some (rows vss)"
  using num_values_loop_eq [of G "elems (t_ph t)" vss 1] rows_pos [of vss] by (simp add: mist_template_num_values_def max_def)

section \<open>Construction of the values\<close>

lemma fresh_filled: "filled (fresh m 0 n, 0) [] n"
  by (simp add: filled_def fresh_def)

lemma finish_values_filled:
  assumes "rows_filled pos f N n" "\<forall>i < N. no_nul (f i) \<and> length (f i) < n"
  shows "finish_values pos = Some (map f [0..<N])"
proof -
  define g where "g = (\<lambda>(b, p). do { b \<leftarrow> write_at b p [NUL]; string_at b 0 })"
  have "\<forall>i < length (map g pos). returns (map g pos ! i) (\<lambda>s. s = f i)"
  proof (intro allI impI)
    fix i
    assume i: "i < length (map g pos)"
    obtain b p where bp: "pos ! i = (b, p)" by fastforce
    then have "filled (b, p) (f i) n" "no_nul (f i)" "length (f i) < n" using i assms by (auto simp: rows_filled_def)
    from write_at_finish [OF this] show "returns (map g pos ! i) (\<lambda>s. s = f i)" using i bp by (auto simp: g_def returns_iff)
  qed
  from returns_those [OF this] obtain ys where "those (map g pos) = Some ys" "length ys = length pos" "\<forall>i < length pos. ys ! i = f i"
    by (auto simp: returns_iff)
  moreover have "ys = map f [0..<N]" using calculation assms by (auto simp: rows_filled_def intro: nth_equalityI)
  ultimately show ?thesis by (simp add: finish_values_def g_def)
qed

lemma pick_no_nul: "\<forall>v \<in> set vs. no_nul v \<Longrightarrow> no_nul (pick vs i)"
proof (cases "vs = []")
  case False
  assume "\<forall>v \<in> set vs. no_nul v"
  moreover have "min i (length vs - 1) < length vs" using False by (cases vs) auto
  ultimately show ?thesis using False by (simp add: pick_def)
qed (simp add: pick_def no_nul_def)

lemma displays_no_nul: "displays G p vs \<Longrightarrow> \<forall>v \<in> set vs. no_nul v"
  by (cases "p_type p = MPH_JOIN") (auto simp: displays_def shown_def joined_no_nul)

lemma concat_pick_no_nul:
  "\<forall>vs \<in> set vss. \<forall>v \<in> set vs. no_nul v \<Longrightarrow> \<forall>c \<in> set cs. no_nul c \<Longrightarrow> no_nul (concat (map2 (\<lambda>vs c. pick vs i @ c) vss cs))"
proof (induction vss arbitrary: cs)
  case (Cons vs vss)
  show ?case
  proof (cases cs)
    case (Cons c cs')
    then show ?thesis using Cons.prems Cons.IH [of cs'] pick_no_nul [of vs i] by (simp add: no_nul_def)
  qed (simp add: no_nul_def)
qed (simp add: no_nul_def)

text \<open>Once the buffers are there, they hold the values.\<close>

lemma fill_buffers:
  assumes wf: "wf_t k t" and cs: "elems (t_sch t) = s # schs" and d: "list_all2 (displays G) (elems (t_ph t)) vss"
    and pos: "pos = map (\<lambda>i. (fresh m 0 (Suc (room (s # schs) vss)), 0)) [0..<rows vss]"
  shows "(do { pos \<leftarrow> mist_copy_string pos s; pos \<leftarrow> copy_loop G pos (elems (t_ph t)) schs; finish_values pos }) = Some (expand (s # schs) vss)"
proof -
  define N n where "N = rows vss" and "n = Suc (room (s # schs) vss)"
  define f where "f = (\<lambda>i. s @ concat (map2 (\<lambda>vs c. pick vs i @ c) vss schs))"
  have N: "0 < N" using rows_pos [of vss] by (simp add: N_def)
  have wfs: "no_nul s" "\<forall>c \<in> set schs. no_nul c" "length schs = length (elems (t_ph t))" using wf cs by (auto simp: wf_t_eq)
  have "rows_filled pos (\<lambda>i. []) N n" by (simp add: rows_filled_def pos N_def n_def fresh_filled)
  from copy_string_filled [OF this N wfs(1)] obtain pos1 where p1: "mist_copy_string pos s = Some pos1" "rows_filled pos1 (\<lambda>i. s) N n"
    by (auto simp: returns_iff n_def room_def)
  have "returns (copy_loop G pos1 (elems (t_ph t)) schs) (\<lambda>pos'. rows_filled pos' f N n)"
    unfolding f_def by (rule copy_loop_filled [OF d p1(2) N wfs(3,2)]) (auto simp: N_def n_def room_def rows_bound)
  then obtain pos2 where p2: "copy_loop G pos1 (elems (t_ph t)) schs = Some pos2" "rows_filled pos2 f N n" by (auto simp: returns_iff)
  have "\<forall>vs \<in> set vss. \<forall>v \<in> set vs. no_nul v"
    using d displays_no_nul unfolding list_all2_conv_all_nth by (metis in_set_conv_nth)
  then have "no_nul (f i)" for i using concat_pick_no_nul [of vss schs i] wfs by (simp add: f_def no_nul_def)
  moreover have "length (f i) < n" for i using concat_pick_length [of i vss schs] by (simp add: f_def n_def room_def)
  ultimately show ?thesis
    using p1(1) p2(1) finish_values_filled [OF p2(2)] by (simp add: expand_def f_def N_def)
qed

lemma construct_values_returns:
  assumes wf: "wf_t k t" and t: "elems (t_vals t) = []" "elems (t_sch t) \<noteq> []" and d: "list_all2 (displays G) (elems (t_ph t)) vss"
    and sz: "rows vss < 2 ^ 50" "room (elems (t_sch t)) vss < 2 ^ 50"
  shows "returns (construct_values m G t) (\<lambda>(ec, t', m'). (ec = MIST_OK \<longrightarrow> elems (t_vals t') = expand (elems (t_sch t)) vss)
     \<and> (never_fails m \<longrightarrow> never_fails m' \<and> ec = MIST_OK))"
proof -
  obtain s schs where cs: "elems (t_sch t) = s # schs" using t(2) by (auto simp: neq_Nil_conv)
  have room: "room (elems (t_sch t)) vss < SIZE_MODULUS" using sz by (simp add: SIZE_MODULUS_def)
  note s = num_values_eq [OF d] max_length_eq [OF d room]
  define bytes where "bytes = Suc (room (elems (t_sch t)) vss)"
  have bytes: "bytes mod SIZE_MODULUS = bytes" "bytes \<le> PTRDIFF_MAX" "rows vss * 8 mod SIZE_MODULUS \<le> PTRDIFF_MAX" "rows vss \<noteq> 0"
    using sz rows_pos [of vss] by (simp_all add: bytes_def SIZE_MODULUS_def PTRDIFF_MAX_def)
  obtain b m1 where m1: "malloc m (rows vss * 8 mod SIZE_MODULUS) = (b, m1)" by fastforce
  obtain g :: "nat grar option" and m2 where m2: "grar_create m1 = (g, m2)" by fastforce
  note mem = malloc_never_fails [OF _ bytes(3) m1] grar_create_ok [OF m2] 
  show ?thesis
  proof (cases "b \<and> g \<noteq> None")
    case False
    then show ?thesis using s m1 m2 mem bytes(4) by (cases b; cases g) (auto simp: construct_values_def)
  next
    case True
    then obtain tga where [simp]: "g = Some tga" and b: b by auto
    have tga: "grar_inv tga" "elems tga = []" using mem by simp_all
    obtain r tga2 m3 where al: "alloc_buffers m2 tga 0 (rows vss) bytes = Some (r, tga2, m3)" "r \<longrightarrow> elems tga2 = [0..<rows vss]"
        "never_fails m2 \<longrightarrow> r \<and> never_fails m3"
      using alloc_buffers_returns [OF tga(1), of m2 0 "rows vss" bytes] tga(2) bytes(2) sz(1) by (auto simp: returns_iff)
    show ?thesis
    proof (cases r)
      case False
      then show ?thesis using s m1 m2 b al mem bytes(1,4) by (auto simp: construct_values_def bytes_def [symmetric] Let_def)
    next
      case True
      define pos where "pos = map (\<lambda>i. (fresh m3 0 bytes, 0 :: nat)) (elems tga2)"
      have fill: "(do { pos \<leftarrow> mist_copy_string pos s; pos \<leftarrow> copy_loop G pos (elems (t_ph t)) schs; finish_values pos }) = Some (expand (s # schs) vss)"
        by (rule fill_buffers [OF wf cs d, of _ m3]) (use True al(2) cs in \<open>simp add: pos_def bytes_def\<close>)
      have "returns (construct_values m G t) (\<lambda>(ec, t', m'). ec = MIST_OK \<and> elems (t_vals t') = expand (s # schs) vss \<and> never_fails m' = never_fails m3)"
        using s [unfolded cs] m1 m2 b al(1) True cs t(1) bytes(1,4) fill
        by (auto simp: construct_values_def bytes_def [unfolded cs, symmetric] Let_def pos_def [symmetric] grar_destroy_def split: Option.bind_splits)
      then show ?thesis using cs al(3) mem by (auto elim!: returns_mono)
    qed
  qed
qed

end
