(* ===== verification/Mist_Semantics.thy ===== *)
theory Mist_Semantics
  imports Mist_Copy
begin

text \<open>
  \<open>mist_template_evaluate\<close> computes the values of the reference semantics of \<open>Mist_Values\<close>.

  A template whose references end somewhere has a value at some height (\<open>tval\<close>), and its evaluation with
  that much fuel returns: with the value, or out of memory, which an allocator that grants everything
  rules out. Templates that are in evaluation have their flag set and no values yet; the proof goes by
  induction on the height and needs the flag to be right (\<open>settled\<close>) only for templates below the
  height of the one being evaluated, and a template is not below itself.
\<close>

section \<open>Heights\<close>

text \<open>The limit on sizes: below it, no computation of the size of a block can overflow.\<close>

definition value_limit :: nat where
  "value_limit = 2 ^ 50"

abbreviation val :: "sem list \<Rightarrow> nat \<Rightarrow> sem \<Rightarrow> string list option" where
  "val \<equiv> tval value_limit"

lemma pval_mono:
  assumes "\<And>s vs. f s = Some vs \<Longrightarrow> g s = Some vs" and "pval f E p = Some ws"
  shows "pval g E p = Some ws"
  using assms by (cases p) (auto simp: pval_def split: if_splits Option.bind_splits)

lemma those_mono: "(\<And>x y. x \<in> set xs \<Longrightarrow> f x = Some y \<Longrightarrow> g x = Some y) \<Longrightarrow> those (map f xs) = Some ys \<Longrightarrow> those (map g xs) = Some ys"
  by (induction xs arbitrary: ys) (auto split: option.splits)

lemma tval_Suc: "tval lim E h s = Some vs \<Longrightarrow> tval lim E (Suc h) s = Some vs"
proof (induction h arbitrary: s vs)
  case (Suc h)
  show ?case
  proof (cases s)
    case (Text cs ps)
    then obtain vss where v: "those (map (pval (tval lim E h) E) ps) = Some vss" "rows vss < lim" "room cs vss < lim" "vs = expand cs vss"
      using Suc.prems by (auto split: Option.bind_splits if_splits)
    have "those (map (pval (tval lim E (Suc h)) E) ps) = Some vss"
      by (rule those_mono [OF _ v(1)]) (rule pval_mono [OF Suc.IH])
    then show ?thesis unfolding tval.simps(2) [of lim E "Suc h"] using Text v by simp
  qed (use Suc.prems in simp)
qed simp

lemma tval_mono: "tval lim E h s = Some vs \<Longrightarrow> h \<le> h' \<Longrightarrow> tval lim E h' s = Some vs"
  by (induction h') (auto simp: le_Suc_eq simp del: tval.simps(2) intro: tval_Suc)

lemma tval_unique: "tval lim E h s = Some vs \<Longrightarrow> tval lim E h' s = Some ws \<Longrightarrow> vs = ws"
  using tval_mono [of lim E h s vs "max h h'"] tval_mono [of lim E h' s ws "max h h'"] by simp

lemma tval_least:
  assumes "tval lim E h s = Some vs"
  obtains h' where "h = Suc h' + (h - Suc h')" "Suc h' \<le> h" "tval lim E (Suc h') s = Some vs" "tval lim E h' s = None"
proof -
  define k where "k = (LEAST k. tval lim E k s = Some vs)"
  have k: "tval lim E k s = Some vs" "k \<le> h" using assms by (auto simp: k_def intro: LeastI Least_le)
  then obtain h' where h': "k = Suc h'" by (cases k) auto
  have "tval lim E h' s \<noteq> Some vs" using not_less_Least [of h' "\<lambda>k. tval lim E k s = Some vs"] h' by (simp add: k_def)
  then have "tval lim E h' s = None" using tval_Suc [of lim E h' s] k(1) h' by (cases "tval lim E h' s") auto
  then show ?thesis using that k h' by simp
qed

lemma tval_abs:
  assumes "tval lim E h (abs_t t) = Some vs"
  shows "vs \<noteq> []" "length vs < lim" "longest vs < lim"
proof -
  obtain h' where h: "h = Suc h'" using assms by (cases h) auto
  have "vs \<noteq> [] \<and> length vs < lim \<and> longest vs < lim"
  proof (cases "elems (t_sch t) = []")
    case True
    then show ?thesis using assms h by (auto simp: abs_t_eq split: if_splits)
  next
    case False
    then show ?thesis
      using assms h longest_expand [OF False] by (auto simp: abs_t_eq split: Option.bind_splits if_splits intro: le_less_trans)
  qed
  then show "vs \<noteq> []" "length vs < lim" "longest vs < lim" by blast+
qed

section \<open>Settled templates\<close>

definition settled :: "sem list \<Rightarrow> nat \<Rightarrow> CMistTemplate \<Rightarrow> bool" where
  "settled E h t \<longleftrightarrow> (t_is_evaluated t \<longrightarrow> (\<forall>vs. val E h (abs_t t) = Some vs \<longrightarrow> elems (t_vals t) = vs))"

definition all_settled :: "sem list \<Rightarrow> nat \<Rightarrow> group \<Rightarrow> bool" where
  "all_settled E h G \<longleftrightarrow> (\<forall>t \<in> set G. settled E h t)"

text \<open>The templates evaluated between two states of the group have got their values.\<close>

definition learned :: "sem list \<Rightarrow> group \<Rightarrow> group \<Rightarrow> bool" where
  "learned E G G' \<longleftrightarrow> (\<forall>j < length G. t_is_evaluated (G' ! j) \<and> \<not> t_is_evaluated (G ! j)
     \<longrightarrow> (\<exists>h. val E h (abs_t (G' ! j)) = Some (elems (t_vals (G' ! j)))))"

lemma settled_less: "settled E h t \<Longrightarrow> h' \<le> h \<Longrightarrow> settled E h' t"
  unfolding settled_def using tval_mono by blast

lemma learned_refl [simp]: "learned E G G"
  by (simp add: learned_def)

lemma learned_trans: "frame G G1 \<Longrightarrow> frame G1 G2 \<Longrightarrow> learned E G G1 \<Longrightarrow> learned E G1 G2 \<Longrightarrow> learned E G G2"
  unfolding learned_def frame_def by metis

lemma learned_settled:
  assumes "frame G G'" "learned E G G'" "all_settled E h G"
  shows "all_settled E h G'"
proof -
  have "settled E h (G' ! j)" if "j < length G'" for j
  proof (cases "t_is_evaluated (G ! j)")
    case True
    then show ?thesis using that assms(1,3) by (auto simp: frame_def all_settled_def)
  next
    case False
    then show ?thesis using that assms(1,2) tval_unique unfolding frame_def learned_def settled_def by metis
  qed
  then show ?thesis by (auto simp: all_settled_def in_set_conv_nth)
qed

definition value_at :: "group \<Rightarrow> CMistTemplate tptr \<Rightarrow> string list \<Rightarrow> bool" where
  "value_at G q vs \<longleftrightarrow> (\<exists>t. deref G q = Some t \<and> t_is_evaluated t \<and> elems (t_vals t) = vs)"

lemma value_at_frame: "frame G G' \<Longrightarrow> value_at G q vs \<Longrightarrow> value_at G' q vs"
  unfolding value_at_def using deref_frame by blast

definition ev_values :: "sem list \<Rightarrow> group \<Rightarrow> mem \<Rightarrow> string list \<Rightarrow> EMistErrorCode \<times> group \<times> CMistTemplate tptr \<times> mem \<Rightarrow> bool" where
  "ev_values E G m vs res \<longleftrightarrow> (case res of (ec, G', q', m') \<Rightarrow>
     (ec = MIST_OK \<longrightarrow> learned E G G' \<and> value_at G' q' vs) \<and> (never_fails m \<longrightarrow> never_fails m' \<and> ec = MIST_OK))"

text \<open>An evaluator that is right up to height \<open>h\<close>.\<close>

definition computes :: "evaluator \<Rightarrow> sem list \<Rightarrow> nat \<Rightarrow> bool" where
  "computes ev E h \<longleftrightarrow> ev_ok ev \<and> (\<forall>m G q t vs. wf_group G \<longrightarrow> map abs_t G = E \<longrightarrow> ptr_ok (length G) q \<longrightarrow> all_settled E h G
     \<longrightarrow> deref G q = Some t \<longrightarrow> settled E h t \<longrightarrow> val E h (abs_t t) = Some vs \<longrightarrow> returns (ev m G q) (ev_values E G m vs))"

text \<open>The premises on the group that every step shares.\<close>

definition ready :: "sem list \<Rightarrow> nat \<Rightarrow> group \<Rightarrow> bool" where
  "ready E h G \<longleftrightarrow> wf_group G \<and> map abs_t G = E \<and> all_settled E h G"

lemma ready_step: "ready E h G \<Longrightarrow> frame G G' \<Longrightarrow> learned E G G' \<Longrightarrow> ready E h G'"
  unfolding ready_def using frameD learned_settled by metis

lemma computesD:
  assumes "computes ev E h" "ready E h G" "ptr_ok (length G) q" "deref G q = Some t" "settled E h t" "val E h (abs_t t) = Some vs"
  obtains ec G' q' m' where "ev m G q = Some (ec, G', q', m')" "ev_result G q m (ec, G', q', m')"
    "ec = MIST_OK \<longrightarrow> learned E G G' \<and> value_at G' q' vs" "never_fails m \<longrightarrow> never_fails m' \<and> ec = MIST_OK"
proof -
  have ev: "ev_ok ev" and G: "wf_group G" using assms(1,2) by (auto simp: computes_def ready_def)
  have "returns (ev m G q) (ev_values E G m vs)" using assms unfolding computes_def ready_def by blast
  then obtain ec G' q' m' where e: "ev m G q = Some (ec, G', q', m')" "ev_values E G m vs (ec, G', q', m')" by (auto simp: returns_iff)
  show ?thesis using that [OF e(1) ev_okD [OF ev G assms(3) e(1)]] e(2) by (simp add: ev_values_def)
qed

section \<open>Conditionals\<close>

lemma cond_values_eq:
  assumes b: "\<And>j. i \<le> j \<Longrightarrow> j < i + k \<Longrightarrow> (let br = (if pick cond j \<noteq> [] then tt else te) in t_is_evaluated br \<and> elems (t_vals br) \<noteq> [])"
    and c: "cond \<noteq> []" "c = min i (length cond - 1)" "cexpr = (pick cond i \<noteq> [])"
  shows "cond_values k m mt cond tt te i c cexpr =
    add_copies m mt (map (\<lambda>j. pick (if pick cond j \<noteq> [] then elems (t_vals tt) else elems (t_vals te)) j) [i..<i + k])"
  using assms
proof (induction k arbitrary: m mt i c cexpr)
  case (Suc k)
  define br where "br = (if pick cond i \<noteq> [] then tt else te)"
  have br: "t_is_evaluated br" "elems (t_vals br) \<noteq> []" using Suc.prems(1) [of i] by (simp_all add: br_def Let_def)
  have el: "elems (t_vals br) ! (if i < length (elems (t_vals br)) then i else length (elems (t_vals br)) - 1) = pick (elems (t_vals br)) i"
    using br(2) by (auto simp: pick_def min_def Let_def not_less intro!: arg_cong [where f = "(!) _"])
  define c' where "c' = (if c + 1 < length cond then c + 1 else c)"
  define b' where "b' = (if c + 1 < length cond then cond ! (c + 1) \<noteq> [] else cexpr)"
  have c': "c' = min (i + 1) (length cond - 1)" "b' = (pick cond (i + 1) \<noteq> [])"
  proof (atomize (full), cases "Suc i < length cond")
    case True
    then have "c = i" "min (Suc i) (length cond - 1) = Suc i" using Suc.prems(3) by auto
    then show "c' = min (i + 1) (length cond - 1) \<and> b' = (pick cond (i + 1) \<noteq> [])"
      using True Suc.prems(2) by (simp add: c'_def b'_def pick_def)
  next
    case False
    then have c: "c = length cond - 1" "min (i + 1) (length cond - 1) = c" "min i (length cond - 1) = c" using Suc.prems(2,3) by auto
    then have "pick cond (i + 1) = pick cond i" "\<not> c + 1 < length cond" by (auto simp: pick_def)
    then show "c' = min (i + 1) (length cond - 1) \<and> b' = (pick cond (i + 1) \<noteq> [])"
      using c Suc.prems(4) by (simp add: c'_def b'_def)
  qed
  have ih: "cond_values k m mt cond tt te (i + 1) c' b' =
      add_copies m mt (map (\<lambda>j. pick (if pick cond j \<noteq> [] then elems (t_vals tt) else elems (t_vals te)) j) [Suc i..<Suc i + k])" for m mt
    using Suc.IH [of "i + 1" c' b' m mt] Suc.prems(1,2) c' by simp
  have upt: "[i..<i + Suc k] = i # [Suc i..<Suc i + k]" by (simp add: upt_conv_Cons)
  have "cond_values (Suc k) m mt cond tt te i c cexpr = do {
     (ec, mt, m) \<leftarrow> mist_template_add_value m mt (pick (elems (t_vals br)) i);
     if ec \<noteq> MIST_OK then Some (ec, mt, m) else cond_values k m mt cond tt te (i + 1) c' b' }"
  proof -
    have "(if cexpr then tt else te) = br" by (simp add: br_def Suc.prems(4))
    then show ?thesis
      using br el unfolding cond_values.simps Let_def by (auto simp: c'_def b'_def Suc_le_eq intro!: Option.bind_cong)
  qed
  also have "pick (elems (t_vals br)) i = pick (if pick cond i \<noteq> [] then elems (t_vals tt) else elems (t_vals te)) i"
    by (simp add: br_def)
  finally show ?case by (simp only: ih upt list.map add_copies.simps)
qed simp

lemma wf_branch_ptr: "branch_ok n t \<Longrightarrow> ptr_ok n (Own t)"
  by (simp add: ptr_ok_def)

lemma value_at_own [simp]: "value_at G (Own t) vs \<longleftrightarrow> t_is_evaluated t \<and> elems (t_vals t) = vs"
  by (auto simp: value_at_def)

text \<open>One branch of a conditional is evaluated: the result is a branch with the same meaning that has its value.\<close>

lemma branch_step:
  assumes ev: "computes ev E h" and G: "ready E h G" and t: "branch_ok (length G) t" "settled E h t" "val E h (abs_t t) = Some vs"
  obtains ec G1 t1 m1 where "ev m G (Own t) = Some (ec, G1, Own t1, m1)" "frame G G1" "length G1 = length G"
    "branch_ok (length G) t1" "abs_t t1 = abs_t t" "never_fails m \<longrightarrow> never_fails m1 \<and> ec = MIST_OK"
    "ec = MIST_OK \<longrightarrow> learned E G G1 \<and> ready E h G1 \<and> t_is_evaluated t1 \<and> elems (t_vals t1) = vs \<and> settled E h t1"
proof -
  obtain ec G1 q m1 where e: "ev m G (Own t) = Some (ec, G1, q, m1)" "ev_result G (Own t) m (ec, G1, q, m1)"
      "ec = MIST_OK \<longrightarrow> learned E G G1 \<and> value_at G1 q vs" "never_fails m \<longrightarrow> never_fails m1 \<and> ec = MIST_OK"
    using computesD [OF ev G wf_branch_ptr [OF t(1)] deref.simps(3) t(2,3), of m] by metis
  have fr: "frame G G1" "same_ptr (length G) (Own t) q" using e(2) by (auto simp: ev_result_def)
  obtain t1 where q: "q = Own t1" "branch_ok (length G) t1" "abs_t t1 = abs_t t" using same_ptr_branch [OF fr(2) t(1)] by blast
  have "ec = MIST_OK \<longrightarrow> learned E G G1 \<and> ready E h G1 \<and> t_is_evaluated t1 \<and> elems (t_vals t1) = vs \<and> settled E h t1"
    using e(3) q(1,3) t(3) fr(1) G by (auto simp: settled_def intro: ready_step)
  then show ?thesis using that [OF e(1) [unfolded q(1)] fr(1) frameD(1) [OF fr(1)] q(2,3) e(4)] by blast
qed

definition cond_ok ::
  "sem list \<Rightarrow> group \<Rightarrow> mem \<Rightarrow> string list \<Rightarrow> cond_result \<Rightarrow> bool" where
  "cond_ok E G m vs res \<longleftrightarrow> (case res of (ec, G', mt', q1, q2, m') \<Rightarrow>
     (ec = MIST_OK \<longrightarrow> learned E G G' \<and> elems (t_vals mt') = vs) \<and> (never_fails m \<longrightarrow> never_fails m' \<and> ec = MIST_OK))"

lemma add_copies_values:
  assumes "wf_t n mt" "elems (t_vals mt) = []" "\<forall>v \<in> set vs. no_nul v" "\<forall>v \<in> set vs. length v < value_limit" "length vs < value_limit"
  shows "returns (add_copies m mt vs) (\<lambda>(ec, mt', m'). (ec = MIST_OK \<longrightarrow> elems (t_vals mt') = vs) \<and> (never_fails m \<longrightarrow> never_fails m' \<and> ec = MIST_OK))"
  by (rule returns_mono [OF add_copies_returns [OF assms(1,3)]]) (use assms(2,4,5) in \<open>auto simp: small_def value_limit_def\<close>)

lemma evaluate_concat_values:
  assumes ev: "computes ev E h" and G: "ready E h G" and t: "branch_ok (length G) tt" "branch_ok (length G) te"
    and s: "settled E h tt" "settled E h te" and mt: "wf_t (length G) mt" "elems (t_vals mt) = []"
    and v: "val E h (abs_t (if holds_some cs then tt else te)) = Some vs"
  shows "returns (evaluate_concat ev m G cs mt (Own tt) (Own te)) (cond_ok E G m vs)"
proof -
  define b where "b = holds_some cs"
  have b: "(\<exists>v \<in> set cs. v \<noteq> []) = b" by (auto simp: b_def holds_some_def list_ex_iff)
  define t where "t = (if b then tt else te)"
  have t': "branch_ok (length G) t" "settled E h t" "val E h (abs_t t) = Some vs" using t s v by (simp_all add: t_def b_def)
  obtain ec G1 t1 m1 where e: "ev m G (Own t) = Some (ec, G1, Own t1, m1)" "branch_ok (length G) t1"
     "never_fails m \<longrightarrow> never_fails m1 \<and> ec = MIST_OK"
     "ec = MIST_OK \<longrightarrow> learned E G G1 \<and> t_is_evaluated t1 \<and> elems (t_vals t1) = vs"
    using branch_step [OF ev G t', of m] by metis
  have ptr: "(if b then Own tt else Own te) = Own t" by (simp add: t_def)
  show ?thesis
  proof (cases "ec = MIST_OK")
    case False
    then show ?thesis using e by (simp add: evaluate_concat_def b ptr cond_ok_def)
  next
    case True
    have "\<forall>v \<in> set vs. no_nul v" using e(2,4) True by (auto simp: wf_t_eq)
    moreover have "\<forall>v \<in> set vs. length v < value_limit" "vs \<noteq> []" "length vs < value_limit"
      using tval_abs [OF t'(3)] longest_bound [of _ vs] by (auto intro: le_less_trans)
    ultimately have "returns (add_copies m1 mt vs) (\<lambda>(ec, mt', m'). (ec = MIST_OK \<longrightarrow> elems (t_vals mt') = vs)
        \<and> (never_fails m1 \<longrightarrow> never_fails m' \<and> ec = MIST_OK))"
      using add_copies_values [OF mt] by blast
    then show ?thesis
      using e True \<open>vs \<noteq> []\<close> by (auto simp: evaluate_concat_def b ptr cond_ok_def Suc_le_eq elim!: returns_mono)
  qed
qed

text \<open>The first pass of the other conditionals.\<close>

lemma holds_some_simps [simp]: "holds_some [] = False" "holds_some (v # vs) = (v \<noteq> [] \<or> holds_some vs)"
  "fails_some [] = False" "fails_some (v # vs) = (v = [] \<or> fails_some vs)"
  by (simp_all add: holds_some_def fails_some_def)

definition selected :: "bool \<Rightarrow> CMistTemplate \<Rightarrow> string list \<Rightarrow> CMistTemplate \<Rightarrow> bool" where
  "selected b t vs t' \<longleftrightarrow> (if b then t_is_evaluated t' \<and> elems (t_vals t') = vs else t' = t)"

definition select_ok ::
  "sem list \<Rightarrow> group \<Rightarrow> CMistTemplate \<Rightarrow> CMistTemplate \<Rightarrow> string list \<Rightarrow> string list \<Rightarrow> string list \<Rightarrow> nat \<Rightarrow> mem
     \<Rightarrow> EMistErrorCode \<times> group \<times> CMistTemplate tptr \<times> CMistTemplate tptr \<times> nat \<times> mem \<Rightarrow> bool" where
  "select_ok E G tt te cs ts es nt m res \<longleftrightarrow> (case res of (ec, G', q1, q2, nt', m') \<Rightarrow>
     (ec = MIST_OK \<longrightarrow> frame G G' \<and> learned E G G'
       \<and> (\<exists>t1 t2. q1 = Own t1 \<and> q2 = Own t2 \<and> selected (holds_some cs) tt ts t1 \<and> selected (fails_some cs) te es t2)
       \<and> nt' = max nt (max (if holds_some cs then length ts else 0) (if fails_some cs then length es else 0)))
     \<and> (never_fails m \<longrightarrow> never_fails m' \<and> ec = MIST_OK))"

lemma select_ok_step:
  assumes r: "select_ok E G1 tt1 te1 cs ts es nt1 m1 r" and fr: "frame G G1" "learned E G G1" and m: "never_fails m \<longrightarrow> never_fails m1"
    and t: "tt1 = (if v \<noteq> [] then t1 else tt)" "te1 = (if v \<noteq> [] then te else t1)" "t_is_evaluated t1" "elems (t_vals t1) = vs"
      "vs = (if v \<noteq> [] then ts else es)" "nt1 = max nt (length vs)"
  shows "select_ok E G tt te (v # cs) ts es nt m r"
proof -
  obtain ec G2 q1 q2 nt2 m2 where re: "r = (ec, G2, q1, q2, nt2, m2)" by (cases r)
  have sel: "selected H tt1 ts u \<Longrightarrow> selected (v \<noteq> [] \<or> H) tt ts u" "selected F te1 es u \<Longrightarrow> selected (v = [] \<or> F) te es u" for H F u
    using t by (auto simp: selected_def split: if_splits)
  have mx: "max nt1 (max (if H then length ts else 0) (if F then length es else 0)) =
      max nt (max (if v \<noteq> [] \<or> H then length ts else 0) (if v = [] \<or> F then length es else 0))" for H F
    using t(5,6) by (cases "v = []"; cases H; cases F) auto
  have tr: "frame G1 G2 \<Longrightarrow> learned E G1 G2 \<Longrightarrow> frame G G2 \<and> learned E G G2" using fr frame_trans learned_trans by blast
  show ?thesis
    using r m sel tr unfolding re select_ok_def prod.case holds_some_simps mx by blast
qed

lemma select_branches_values:
  assumes ev: "computes ev E h"
  shows "ready E h G \<Longrightarrow> branch_ok (length G) tt \<Longrightarrow> branch_ok (length G) te \<Longrightarrow> settled E h tt \<Longrightarrow> settled E h te \<Longrightarrow>
    value_at G qc cs \<Longrightarrow> c + k = length cs \<Longrightarrow>
    (holds_some (drop c cs) \<longrightarrow> val E h (abs_t tt) = Some ts) \<Longrightarrow> (fails_some (drop c cs) \<longrightarrow> val E h (abs_t te) = Some es) \<Longrightarrow>
    returns (select_branches ev k m G qc (Own tt) (Own te) c nt) (select_ok E G tt te (drop c cs) ts es nt m)"
proof (induction k arbitrary: m G tt te c nt)
  case 0
  then show ?case by (simp add: frame_refl ready_def selected_def select_ok_def)
next
  case (Suc k)
  have drop: "drop c cs = cs ! c # drop (Suc c) cs" using Suc.prems(7) by (simp add: Cons_nth_drop_Suc)
  define b where "b = (cs ! c \<noteq> [])"
  define t where "t = (if b then tt else te)"
  define vs where "vs = (if b then ts else es)"
  have t: "branch_ok (length G) t" "settled E h t" "val E h (abs_t t) = Some vs"
    using Suc.prems drop by (auto simp: t_def vs_def b_def)
  obtain ec G1 t1 m1 where e: "ev m G (Own t) = Some (ec, G1, Own t1, m1)" "frame G G1" "length G1 = length G"
     "branch_ok (length G) t1" "abs_t t1 = abs_t t" "never_fails m \<longrightarrow> never_fails m1 \<and> ec = MIST_OK"
     "ec = MIST_OK \<longrightarrow> learned E G G1 \<and> ready E h G1 \<and> t_is_evaluated t1 \<and> elems (t_vals t1) = vs \<and> settled E h t1"
    using branch_step [OF ev Suc.prems(1) t, of m] by metis
  define tt1 where "tt1 = (if b then t1 else tt)"
  define te1 where "te1 = (if b then te else t1)"
  obtain ct where ct: "deref G qc = Some ct" "elems (t_vals ct) = cs" using Suc.prems(6) by (auto simp: value_at_def)
  have ptr: "(if b then Own tt else Own te) = Own t" "(if b then Own t1 else Own tt) = Own tt1" "(if b then Own te else Own t1) = Own te1"
    by (simp_all add: t_def tt1_def te1_def)
  have c: "c < length cs" using Suc.prems(7) by simp
  show ?case
  proof (cases "ec = MIST_OK")
    case False
    then show ?thesis using e ct c by (simp add: Let_def b_def [symmetric] ptr select_ok_def)
  next
    case True
    then have tr: "learned E G G1" "ready E h G1" "t_is_evaluated t1" "elems (t_vals t1) = vs" "settled E h t1" using e(7) by simp_all
    define nt1 where "nt1 = (if length vs > nt then length vs else nt)"
    have "select_branches ev (Suc k) m G qc (Own tt) (Own te) c nt = select_branches ev k m1 G1 qc (Own tt1) (Own te1) (c + 1) nt1"
      using e(1) ct c True tr(4) by (simp add: Let_def b_def [symmetric] ptr nt1_def)
    moreover have "returns (select_branches ev k m1 G1 qc (Own tt1) (Own te1) (c + 1) nt1) (select_ok E G1 tt1 te1 (drop (c + 1) cs) ts es nt1 m1)"
      by (rule Suc.IH) (use Suc.prems e tr drop in \<open>auto simp: tt1_def te1_def t_def value_at_frame\<close>)
    moreover have "select_ok E G tt te (drop c cs) ts es nt m r" if "select_ok E G1 tt1 te1 (drop (c + 1) cs) ts es nt1 m1 r" for r
      unfolding drop by (rule select_ok_step [OF that [simplified] e(2) tr(1) _ _ _ tr(3,4)]) (use e(6) in \<open>auto simp: tt1_def te1_def b_def vs_def nt1_def\<close>)
    ultimately show ?thesis by (auto elim: returns_mono)
  qed
qed

lemma pick_in_set: "vs \<noteq> [] \<Longrightarrow> pick vs i \<in> set vs"
proof -
  assume "vs \<noteq> []"
  then have "min i (length vs - 1) < length vs" by (cases vs) auto
  then show ?thesis using \<open>vs \<noteq> []\<close> by (auto simp: pick_def)
qed

lemma holds_some_pick: "cs \<noteq> [] \<Longrightarrow> if pick cs i \<noteq> [] then holds_some cs else fails_some cs"
  using pick_in_set [of cs i] by (auto simp: holds_some_def fails_some_def list_ex_iff)

lemma branch_values_mem:
  assumes "cs \<noteq> []" "holds_some cs \<longrightarrow> ts \<noteq> []" "fails_some cs \<longrightarrow> es \<noteq> []" "v \<in> set (branch_values cs ts es)"
  shows "v \<in> set ts \<union> set es"
proof -
  obtain i where "v = pick (if pick cs i \<noteq> [] then ts else es) i" using assms(4) by (auto simp: branch_values_def)
  then show ?thesis using holds_some_pick [OF assms(1), of i] assms(2,3) pick_in_set [of ts i] pick_in_set [of es i] by (auto split: if_splits)
qed

lemma evaluate_each_values:
  assumes ev: "computes ev E h" and G: "ready E h G" and t: "branch_ok (length G) tt" "branch_ok (length G) te"
    and s: "settled E h tt" "settled E h te" and mt: "wf_t (length G) mt" "elems (t_vals mt) = []"
    and cs: "value_at G qc cs" "cs \<noteq> []" "length cs < value_limit"
    and ts: "if holds_some cs then val E h (abs_t tt) = Some ts else ts = []"
    and es: "if fails_some cs then val E h (abs_t te) = Some es else es = []"
  shows "returns (evaluate_each ev m G qc mt (Own tt) (Own te)) (cond_ok E G m (branch_values cs ts es))"
proof -
  obtain ct where ct: "deref G qc = Some ct" "elems (t_vals ct) = cs" using cs(1) by (auto simp: value_at_def)
  have "holds_some (drop 0 cs) \<longrightarrow> val E h (abs_t tt) = Some ts" "fails_some (drop 0 cs) \<longrightarrow> val E h (abs_t te) = Some es"
    using ts es by simp_all
  from select_branches_values [OF ev G t s cs(1) _ this, of "length cs" m "length cs"]
  obtain ec G1 q1 q2 nt m1 where sel: "select_branches ev (length cs) m G qc (Own tt) (Own te) 0 (length cs) = Some (ec, G1, q1, q2, nt, m1)"
      "never_fails m \<longrightarrow> never_fails m1 \<and> ec = MIST_OK"
      "ec = MIST_OK \<longrightarrow> frame G G1 \<and> learned E G G1
         \<and> (\<exists>t1 t2. q1 = Own t1 \<and> q2 = Own t2 \<and> selected (holds_some cs) tt ts t1 \<and> selected (fails_some cs) te es t2)
         \<and> nt = max (length cs) (max (if holds_some cs then length ts else 0) (if fails_some cs then length es else 0))"
    by (auto simp: returns_iff select_ok_def)
  show ?thesis
  proof (cases "ec = MIST_OK")
    case False
    then show ?thesis using sel(1,2) ct by (simp add: evaluate_each_def cond_ok_def)
  next
    case True
    then obtain t1 t2 where r: "frame G G1" "learned E G G1" "q1 = Own t1" "q2 = Own t2"
        "selected (holds_some cs) tt ts t1" "selected (fails_some cs) te es t2" "nt = max (length cs) (max (length ts) (length es))"
      using sel(3) ts es by (auto split: if_splits)
    obtain ct1 where ct1: "deref G1 qc = Some ct1" "elems (t_vals ct1) = cs" using value_at_frame [OF r(1) cs(1)] by (auto simp: value_at_def)
    have b: "if holds_some cs then ts \<noteq> [] \<and> length ts < value_limit \<and> longest ts < value_limit else ts = []"
      "if fails_some cs then es \<noteq> [] \<and> length es < value_limit \<and> longest es < value_limit else es = []"
      using ts es tval_abs [of value_limit E h tt ts] tval_abs [of value_limit E h te es] by (auto split: if_splits)
    have vals: "pick (if pick cs j \<noteq> [] then elems (t_vals t1) else elems (t_vals t2)) j = pick (if pick cs j \<noteq> [] then ts else es) j" for j
      using holds_some_pick [OF cs(2), of j] r(5,6) by (auto simp: selected_def split: if_splits)
    have 1: "nt \<ge> 1" "hd cs = pick cs 0" using cs(2) r(7) by (cases cs; auto simp: pick_def)+
    have "cond_values nt m1 mt cs t1 t2 0 0 (hd cs \<noteq> []) =
        add_copies m1 mt (map (\<lambda>j. pick (if pick cs j \<noteq> [] then elems (t_vals t1) else elems (t_vals t2)) j) [0..<0 + nt])"
    proof (rule cond_values_eq)
      show "let br = (if pick cs j \<noteq> [] then t1 else t2) in t_is_evaluated br \<and> elems (t_vals br) \<noteq> []" for j
        using holds_some_pick [OF cs(2), of j] r(5,6) b by (auto simp: selected_def Let_def split: if_splits)
    qed (use cs(2) 1(2) in auto)
    also have "\<dots> = add_copies m1 mt (branch_values cs ts es)" by (simp add: vals branch_values_def r(7))
    finally have cv: "cond_values nt m1 mt cs t1 t2 0 0 (hd cs \<noteq> []) = add_copies m1 mt (branch_values cs ts es)" .
    have mem: "v \<in> set ts \<union> set es" if "v \<in> set (branch_values cs ts es)" for v
      using branch_values_mem [OF cs(2) _ _ that] b by (auto split: if_splits)
    have "length v < value_limit" if "v \<in> set (branch_values cs ts es)" for v
      using mem [OF that] b longest_bound [of v ts] longest_bound [of v es] by (auto split: if_splits)
    moreover have "length (branch_values cs ts es) < value_limit"
      using b cs(3) by (auto simp: branch_values_def value_limit_def split: if_splits)
    moreover have wf1: "wf_t (length G) t1" "wf_t (length G) t2"
      using ensuresD [OF select_branches_ensures sel(1)] ev G t r(3,4) by (auto simp: computes_def ready_def same_ptr_def)
    moreover have "no_nul v" if "v \<in> set (branch_values cs ts es)" for v
      using mem [OF that] wf1 r(5,6) b by (auto simp: wf_t_eq selected_def split: if_splits)
    ultimately have "returns (add_copies m1 mt (branch_values cs ts es)) (\<lambda>(ec, mt', m'). (ec = MIST_OK \<longrightarrow> elems (t_vals mt') = branch_values cs ts es)
        \<and> (never_fails m1 \<longrightarrow> never_fails m' \<and> ec = MIST_OK))"
      by (intro add_copies_values [OF mt]) blast+
    then show ?thesis
      using sel(1,2) ct ct1 True r(2-4) cs(2) 1(1) cv
      by (auto simp: evaluate_each_def cond_ok_def elim!: returns_mono)
  qed
qed

section \<open>Placeholders\<close>

text \<open>What is known of a placeholder once it has been evaluated; templates it refers to are below height \<open>h\<close>.\<close>

definition ph_ok :: "sem list \<Rightarrow> nat \<Rightarrow> group \<Rightarrow> CMistPlaceholder \<Rightarrow> string list \<Rightarrow> bool" where
  "ph_ok E h G p vs \<longleftrightarrow> displays G p vs \<and> (\<forall>j. p_tpl p = Ref j \<longrightarrow> j < length E \<and> val E h (E ! j) \<noteq> None)"

definition ph_values :: "sem list \<Rightarrow> nat \<Rightarrow> group \<Rightarrow> mem \<Rightarrow> string list \<Rightarrow> EMistErrorCode \<times> group \<times> CMistPlaceholder \<times> mem \<Rightarrow> bool" where
  "ph_values E h G m vs res \<longleftrightarrow> (case res of (ec, G', p', m') \<Rightarrow>
     (ec = MIST_OK \<longrightarrow> learned E G G' \<and> ph_ok E h G' p' vs) \<and> (never_fails m \<longrightarrow> never_fails m' \<and> ec = MIST_OK))"

lemma ph_ok_frame: "frame G G' \<Longrightarrow> ph_ok E h G p vs \<Longrightarrow> ph_ok E h G' p vs"
  unfolding ph_ok_def displays_def using deref_frame by blast

lemma evaluate_ref:
  assumes ev: "computes ev E h" and G: "ready E h G" and k: "k < length G" and v: "val E h (E ! k) = Some vs"
  obtains ec G1 m1 where "ev m G (Ref k) = Some (ec, G1, Ref k, m1)" "frame G G1" "never_fails m \<longrightarrow> never_fails m1 \<and> ec = MIST_OK"
    "ec = MIST_OK \<longrightarrow> learned E G G1 \<and> value_at G1 (Ref k) vs"
proof -
  have s: "settled E h (G ! k)" "val E h (abs_t (G ! k)) = Some vs" "deref G (Ref k) = Some (G ! k)" "ptr_ok (length G) (Ref k)"
    using G k v by (auto simp: ready_def all_settled_def ptr_ok_def)
  obtain ec G1 q m1 where e: "ev m G (Ref k) = Some (ec, G1, q, m1)" "ev_result G (Ref k) m (ec, G1, q, m1)"
      "ec = MIST_OK \<longrightarrow> learned E G G1 \<and> value_at G1 q vs" "never_fails m \<longrightarrow> never_fails m1 \<and> ec = MIST_OK"
    using computesD [OF ev G s(4,3,1,2), of m] by metis
  then show ?thesis using that by (auto simp: ev_result_def same_ptr_def)
qed

lemma value_at_wf: "wf_group G \<Longrightarrow> ptr_ok (length G) q \<Longrightarrow> value_at G q vs \<Longrightarrow> \<forall>v \<in> set vs. no_nul v"
  unfolding value_at_def using deref_wf by (auto simp: wf_t_eq)

lemma ready_nonempty: "ready E h G \<Longrightarrow> k < length E \<Longrightarrow> val E h (E ! k) = Some vs \<Longrightarrow> vs \<noteq> [] \<and> length vs < value_limit"
  using tval_abs [of value_limit E h "G ! k" vs] by (auto simp: ready_def)

lemma ph_evaluate_ref_values:
  assumes ev: "computes ev E h" and G: "ready E h G" and p: "wf_p (length G) p" "p_type p \<noteq> MPH_COND" and v: "pval (val E h) E (abs_p p) = Some ws"
  shows "returns (mist_placeholder_evaluate ev m G p) (ph_values E h G m ws)"
proof -
  obtain type name k sep tpl_cond tpl_then tpl_else is_concat where
    pe: "p = Placeholder type name (Ref k) sep tpl_cond tpl_then tpl_else is_concat" "k < length G" "type \<noteq> MPH_COND"
    "type = MPH_JOIN \<longrightarrow> sep \<noteq> None \<and> no_nul (the sep) \<and> \<not> is_concat"
    using p by (cases p) (auto simp: refers_def split: tptr.splits)
  have E: "map abs_t G = E" "wf_group G" using G by (auto simp: ready_def)
  then have kE: "k < length E" using pe(2) by auto
  obtain vs where vs: "val E h (E ! k) = Some vs" "ws = (if type = MPH_JOIN then [joined (the sep) vs] else vs)"
    using v kE pe(3) by (cases type) (auto simp: pe(1) pval_def split: if_splits)
  obtain ec G1 m1 where e: "ev m G (Ref k) = Some (ec, G1, Ref k, m1)" "frame G G1" "never_fails m \<longrightarrow> never_fails m1 \<and> ec = MIST_OK"
    "ec = MIST_OK \<longrightarrow> learned E G G1 \<and> value_at G1 (Ref k) vs"
    using evaluate_ref [OF ev G pe(2) vs(1), of m] by metis
  have "ph_ok E h G1 p ws" if "value_at G1 (Ref k) vs"
  proof -
    have "\<forall>v \<in> set vs. no_nul v" using value_at_wf [OF frameD(2) [OF e(2)] _ that] frameD(1) [OF e(2)] pe(2) by (simp add: ptr_ok_def)
    then show ?thesis
      using that pe(3,4) vs kE ready_nonempty [OF G kE vs(1)] by (auto simp: pe(1) ph_ok_def displays_def shown_def value_at_def split: if_splits)
  qed
  then have "ph_values E h G m ws (ec, G1, p, m1)" using e by (simp add: ph_values_def)
  then show ?thesis using e(1) pe(3) by (simp add: pe(1) mist_placeholder_evaluate_def)
qed

lemma settled_not_evaluated: "\<not> t_is_evaluated t \<Longrightarrow> settled E h t"
  by (simp add: settled_def)

lemma ph_evaluate_cond_values:
  assumes ev: "computes ev E h" and G: "ready E h G" and p: "wf_p (length G) p" "p_type p = MPH_COND" and v: "pval (val E h) E (abs_p p) = Some ws"
  shows "returns (mist_placeholder_evaluate ev m G p) (ph_values E h G m ws)"
proof -
  obtain name mt sep k tt te is_concat where
    pe: "p = Placeholder MPH_COND name (Own mt) sep (Ref k) (Own tt) (Own te) is_concat"
    and w: "k < length G" "elems (t_sch mt) = []" "wf_t (length G) mt" "branch_ok (length G) tt" "branch_ok (length G) te"
    using wf_condE [OF p] by metis
  have E: "map abs_t G = E" "wf_group G" using G by (auto simp: ready_def)
  then have kE: "k < length E" using w(1) by auto
  obtain mt1 m1 where c1: "clear_values_at m G (Own mt) = Some (G, Own mt1, m1)" "wf_t (length G) mt1"
      "elems (t_vals mt1) = []" "never_fails m1 = never_fails m" using clear_values_at_own [OF w(3), of m G] by metis
  obtain tt1 m2 where c2: "clear_values_at m1 G (Own tt) = Some (G, Own tt1, m2)" "revalued tt tt1" "wf_t (length G) tt1"
      "\<not> t_is_evaluated tt1" "never_fails m2 = never_fails m1" using clear_values_at_own [of _ tt m1 G] w(4) by metis
  obtain te1 m3 where c3: "clear_values_at m2 G (Own te) = Some (G, Own te1, m3)" "revalued te te1" "wf_t (length G) te1"
      "\<not> t_is_evaluated te1" "never_fails m3 = never_fails m2" using clear_values_at_own [of _ te m2 G] w(5) by metis
  obtain cs where cs: "val E h (E ! k) = Some cs" using v kE by (auto simp: pe pval_def split: Option.bind_splits)
  obtain ec G1 m4 where e: "ev m3 G (Ref k) = Some (ec, G1, Ref k, m4)" "frame G G1" "never_fails m3 \<longrightarrow> never_fails m4 \<and> ec = MIST_OK"
    "ec = MIST_OK \<longrightarrow> learned E G G1 \<and> value_at G1 (Ref k) cs"
    using evaluate_ref [OF ev G w(1) cs, of m3] by metis
  have fr: "length G1 = length G" using frameD [OF e(2)] by simp
  have br: "branch_ok (length G1) tt1" "branch_ok (length G1) te1" "abs_t tt1 = abs_t tt" "abs_t te1 = abs_t te" "wf_t (length G1) mt1"
    using c1(2) c2(2,3) c3(2,3) w fr revalued_abs [OF c2(2)] revalued_abs [OF c3(2)] by (simp_all add: revalued_def)
  show ?thesis
  proof (cases "ec = MIST_OK")
    case False
    then show ?thesis using c1 c2 c3 e by (simp add: pe mist_placeholder_evaluate_def ph_values_def)
  next
    case True
    then have r: "learned E G G1" "value_at G1 (Ref k) cs" "ready E h G1" using e ready_step [OF G e(2)] by auto
    obtain ct where ct: "deref G1 (Ref k) = Some ct" "elems (t_vals ct) = cs" using r(2) by (auto simp: value_at_def)
    note ne = ready_nonempty [OF G kE cs]
    define cres where "cres = (if is_concat then evaluate_concat ev m4 G1 cs mt1 (Own tt1) (Own te1)
        else evaluate_each ev m4 G1 (Ref k) mt1 (Own tt1) (Own te1))"
    note st = settled_not_evaluated [OF c2(4), of E h] settled_not_evaluated [OF c3(4), of E h]
    have "returns cres (cond_ok E G1 m4 ws)"
    proof (cases is_concat)
      case True
      then have "val E h (abs_t (if holds_some cs then tt1 else te1)) = Some ws"
        using v cs kE br by (auto simp: pe pval_def split: if_splits)
      then show ?thesis using evaluate_concat_values [OF ev r(3) br(1,2) st br(5) c1(3)] True by (simp add: cres_def)
    next
      case False
      then obtain ts es where ts: "if holds_some cs then val E h (abs_t tt1) = Some ts else ts = []"
          "if fails_some cs then val E h (abs_t te1) = Some es else es = []" "ws = branch_values cs ts es"
        using v cs kE br by (auto simp: pe pval_def split: if_splits Option.bind_splits)
      then show ?thesis using evaluate_each_values [OF ev r(3) br(1,2) st br(5) c1(3) r(2) _ _ ts(1,2)] False ne by (simp add: cres_def)
    qed
    then obtain ec2 G2 mt2 q1 q2 m5 where c: "cres = Some (ec2, G2, mt2, q1, q2, m5)" "cond_ok E G1 m4 ws (ec2, G2, mt2, q1, q2, m5)"
      by (auto simp: returns_iff)
    have me: "mist_placeholder_evaluate ev m G p =
        Some (ec2, G2, Placeholder MPH_COND name (Own (if ec2 = MIST_OK then with_evaluated mt2 else mt2)) sep (Ref k) q1 q2 is_concat, m5)"
      using c1(1) c2(1) c3(1) e(1) True ct ne c(1)
      by (simp add: pe mist_placeholder_evaluate_def cres_def Suc_le_eq split: if_splits)
    have "ev_ok ev" using ev by (simp add: computes_def)
    from ensuresD [OF ph_evaluate_ensures [OF this E(2) p(1)] me]
    have "frame G G2" "wf_t (length G) (if ec2 = MIST_OK then with_evaluated mt2 else mt2)" by (auto simp: ph_step_def)
    moreover have "frame G1 G2" 
      using c(1) evaluate_concat_ensures [OF \<open>ev_ok ev\<close> frameD(2) [OF e(2)] br(1,2,5)] evaluate_each_ensures [OF \<open>ev_ok ev\<close> frameD(2) [OF e(2)] br(1,2,5)]
      by (auto simp: cres_def cond_step_def ensures_def split: if_splits)
    moreover have "ws \<noteq> []" if "ec2 = MIST_OK"
      using v cs kE tval_abs(1) [of value_limit E h] ne
      by (auto simp: pe pval_def branch_values_def split: if_splits Option.bind_splits)
    ultimately show ?thesis
      using c(2) e(2,3) r(1) c1(4) c2(5) c3(5) True me learned_trans [of G G1 G2 E]
      by (auto simp: ph_values_def cond_ok_def ph_ok_def displays_def shown_def wf_t_eq)
  qed
qed

lemma ph_evaluate_values:
  "computes ev E h \<Longrightarrow> ready E h G \<Longrightarrow> wf_p (length G) p \<Longrightarrow> pval (val E h) E (abs_p p) = Some ws \<Longrightarrow>
   returns (mist_placeholder_evaluate ev m G p) (ph_values E h G m ws)"
  using ph_evaluate_ref_values ph_evaluate_cond_values by blast

lemma evaluate_placeholders_values:
  assumes ev: "computes ev E h"
  shows "ready E h G \<Longrightarrow> \<forall>p \<in> set ps. wf_p (length G) p \<Longrightarrow> those (map (pval (val E h) E) (map abs_p ps)) = Some vss \<Longrightarrow>
    returns (evaluate_placeholders ev m G ps) (\<lambda>(ec, G', ps', m'). (ec = MIST_OK \<longrightarrow> learned E G G' \<and> list_all2 (ph_ok E h G') ps' vss)
      \<and> (never_fails m \<longrightarrow> never_fails m' \<and> ec = MIST_OK))"
proof (induction ps arbitrary: m G vss)
  case (Cons p ps)
  obtain ws wss where v: "pval (val E h) E (abs_p p) = Some ws" "those (map (pval (val E h) E) (map abs_p ps)) = Some wss" "vss = ws # wss"
    using Cons.prems(3) by (auto split: option.splits)
  have ok: "ev_ok ev" "wf_group G" "wf_p (length G) p" using ev Cons.prems by (auto simp: computes_def ready_def)
  obtain ec G1 p1 m1 where e: "mist_placeholder_evaluate ev m G p = Some (ec, G1, p1, m1)" "ph_values E h G m ws (ec, G1, p1, m1)"
    using ph_evaluate_values [OF ev Cons.prems(1) ok(3) v(1), of m] by (auto simp: returns_iff)
  have fr: "frame G G1" using ensuresD [OF ph_evaluate_ensures [OF ok] e(1)] by (simp add: ph_step_def)
  show ?case
  proof (cases "ec = MIST_OK")
    case False
    then show ?thesis using e by (simp add: ph_values_def)
  next
    case True
    then have l: "learned E G G1" "ph_ok E h G1 p1 ws" using e(2) by (auto simp: ph_values_def)
    have wf: "\<forall>p \<in> set ps. wf_p (length G1) p" using Cons.prems(2) frameD(1) [OF fr] by simp
    note rd = ready_step [OF Cons.prems(1) fr l(1)]
    obtain ec2 G2 ps2 m2 where r: "evaluate_placeholders ev m1 G1 ps = Some (ec2, G2, ps2, m2)"
        "ec2 = MIST_OK \<longrightarrow> learned E G1 G2 \<and> list_all2 (ph_ok E h G2) ps2 wss" "never_fails m1 \<longrightarrow> never_fails m2 \<and> ec2 = MIST_OK"
      using Cons.IH [OF rd wf v(2), of m1] by (auto simp: returns_iff)
    have "wf_group G1" using rd by (simp add: ready_def)
    then have fr2: "frame G1 G2" using ensuresD [OF evaluate_placeholders_ensures [OF ok(1) _ wf] r(1)] by simp
    show ?thesis
      using e r True l v(3) ph_ok_frame [OF fr2 l(2)] learned_trans [OF fr fr2 l(1)] by (auto simp: ph_values_def)
  qed
qed simp

section \<open>Templates\<close>

lemma attribute_values:
  assumes G: "ready E h G" and q: "ptr_ok (length G) q" and t: "deref G q = Some t" "\<not> t_is_evaluated t" "elems (t_sch t) = []"
    and v: "val E h (abs_t t) = Some vs"
  shows "returns (mist_template_evaluate (Suc n) m G q) (ev_values E G m vs)"
proof -
  have wf: "wf_t (length G) t" using deref_wf [OF _ q t(1)] G by (simp add: ready_def)
  then have ph: "elems (t_ph t) = []" using t(3) by (simp add: wf_t_eq)
  have vs: "vs = (if elems (t_vals t) = [] then [[]] else elems (t_vals t))" using v t(3) by (cases h) (auto simp: abs_t_eq split: if_splits)
  obtain ec t1 m1 where a: "evaluate_attribute m t = Some (ec, t1, m1)" "values_step (length G) t m (ec, t1, m1)"
      "ec = MIST_OK \<longrightarrow> t_is_evaluated t1 \<and> elems (t_vals t1) = vs" "never_fails m \<longrightarrow> never_fails m1 \<and> ec = MIST_OK"
    using evaluate_attribute_returns [OF wf, of m] vs by (auto simp: returns_iff)
  have abs: "abs_t t1 = abs_t t" if "ec = MIST_OK" using that a(2,3) t(3) vs by (simp add: values_step_def revalued_def abs_t_eq)
  have "learned E G (fst (store G q t1)) \<and> value_at (fst (store G q t1)) (snd (store G q t1)) vs" if "ec = MIST_OK"
    using that a(3) t(1) q v abs by (cases q) (auto simp: learned_def nth_list_update value_at_def ptr_ok_def split: if_splits)
  then show ?thesis using t ph a(1,4) by (auto simp: ev_values_def split: prod.splits)
qed

text \<open>Once the placeholders have been evaluated, writing the template back does not change what they display.\<close>

lemma ph_ok_store:
  assumes "ph_ok E h G p vs" "store G q t = (G', q')" "\<And>k. q = Ref k \<Longrightarrow> val E h (E ! k) = None"
  shows "displays G' p vs"
proof (cases q)
  case (Ref k)
  then have "p_tpl p \<noteq> Ref k" using assms(1,3) by (auto simp: ph_ok_def)
  then have "deref G' (p_tpl p) = deref G (p_tpl p)" using assms(2) Ref by (cases "p_tpl p") auto
  then show ?thesis using assms(1) by (simp add: ph_ok_def displays_def)
qed (use assms in \<open>auto simp: ph_ok_def\<close>)

lemma ready_start:
  assumes G: "ready E h G" "h' \<le> h" and st: "store G q t1 = (G1, q1)" "frame G G1" and t1: "abs_t t1 = abs_t t" "val E h' (abs_t t) = None"
  shows "ready E h' G1"
proof -
  have "settled E h' t1" using t1 by (simp add: settled_def)
  then have "all_settled E h' G1"
    using G settled_less st(1) by (cases q) (fastforce simp: ready_def all_settled_def dest!: set_update_subset_insert [THEN subsetD])+
  then show ?thesis using G(1) frameD [OF st(2)] by (simp add: ready_def)
qed

lemma learned_store:
  assumes st: "store G q t1 = (G1, q1)" "store G2 q1 t2 = (G3, q3)" "store G3 q3 t4 = (G4, q4)"
    and q: "ptr_ok (length G) q" and fr: "length G2 = length G" and l: "learned E G1 G2" and v: "\<exists>h. val E h (abs_t t4) = Some (elems (t_vals t4))"
  shows "learned E G G4"
proof (cases q)
  case (Ref k)
  then have G: "G1 = G[k := t1]" "G4 = G2[k := t4]" "k < length G" using st q by (auto simp: ptr_ok_def)
  have "\<exists>h. val E h (abs_t (G4 ! j)) = Some (elems (t_vals (G4 ! j)))"
    if "j < length G" "t_is_evaluated (G4 ! j)" "\<not> t_is_evaluated (G ! j)" for j
    using that l v G fr by (cases "j = k") (auto simp: learned_def)
  then show ?thesis by (auto simp: learned_def)
next
  case (Own u)
  then show ?thesis using st l by auto
qed (use q in \<open>simp add: ptr_ok_def\<close>)

lemma text_values:
  assumes ev: "computes (mist_template_evaluate n) E h'" and G: "ready E h G" "h' \<le> h" and q: "ptr_ok (length G) q"
    and t: "deref G q = Some t" "\<not> t_is_evaluated t" "elems (t_sch t) \<noteq> []"
    and v: "val E (Suc h') (abs_t t) = Some vs" "val E h' (abs_t t) = None"
  shows "returns (mist_template_evaluate (Suc n) m G q) (ev_values E G m vs)"
proof -
  have wfG: "wf_group G" "map abs_t G = E" using G by (auto simp: ready_def)
  obtain t1 m1 G1 q1 where s: "mist_template_evaluate (Suc n) m G q = evaluate_text (mist_template_evaluate n) m1 G1 q1 t1"
    "store G q t1 = (G1, q1)" "revalued t t1" "t_is_evaluated t1" "elems (t_vals t1) = []" "wf_t (length G) t1" "frame G G1"
    "same_ptr (length G) q q1" "deref G1 q1 = Some t1" "never_fails m1 = never_fails m"
    using evaluate_text_start [OF wfG(1) q t, of m] by metis
  have abs1: "abs_t t1 = abs_t t" using revalued_abs [OF s(3) t(3)] .
  have rd: "ready E h' G1" using ready_start [OF G s(2,7) abs1 v(2)] .
  have ok: "ev_ok (mist_template_evaluate n)" "wf_group G1" using ev rd by (auto simp: computes_def ready_def)
  obtain vss where vss: "those (map (pval (val E h') E) (map abs_p (elems (t_ph t1)))) = Some vss"
      "rows vss < value_limit" "room (elems (t_sch t)) vss < value_limit" "vs = expand (elems (t_sch t)) vss"
    using v(1) t(3) s(3) by (auto simp: abs_t_eq revalued_def split: Option.bind_splits if_splits)
  have wp: "\<forall>p \<in> set (elems (t_ph t1)). wf_p (length G1) p" using s(6) frameD(1) [OF s(7)] by (simp add: wf_t_eq)
  obtain ec G2 ps m2 where e: "evaluate_placeholders (mist_template_evaluate n) m1 G1 (elems (t_ph t1)) = Some (ec, G2, ps, m2)"
      "ec = MIST_OK \<longrightarrow> learned E G1 G2 \<and> list_all2 (ph_ok E h' G2) ps vss" "never_fails m1 \<longrightarrow> never_fails m2 \<and> ec = MIST_OK"
    using evaluate_placeholders_values [OF ev rd wp vss(1), of m1] by (auto simp: returns_iff)
  note pr = ensuresD [OF evaluate_placeholders_ensures [OF ok wp] e(1), unfolded prod.case]
  define t2 where "t2 = with_placeholders t1 ps"
  obtain G3 q3 where s3: "store G2 q1 t2 = (G3, q3)" by fastforce
  show ?thesis
  proof (cases "ec = MIST_OK")
    case False
    then show ?thesis using s(1,10) e s3 by (auto simp: evaluate_text_def t2_def [symmetric] ev_values_def)
  next
    case True
    have len: "length G2 = length G" "length ps = length (elems (t_ph t1))"
      using pr frameD(1) [OF s(7)] frameD(1) [of G1 G2] map_eq_imp_length_eq by auto
    have q1: "q1 = Ref k \<Longrightarrow> val E h' (E ! k) = None" for k
      using s(8) t(1) v(2) wfG(2) by (cases q) (auto simp: same_ptr_def split: if_splits)
    have "list_all2 (displays G3) ps vss"
      using e(2) True ph_ok_store [OF _ s3 q1] by (auto elim!: list_all2_mono)
    then have d: "list_all2 (displays G3) (elems (t_ph t2)) vss" by (simp add: t2_def)
    have t2: "wf_t (length G) t2" "elems (t_vals t2) = []" "t_sch t2 = t_sch t" "t_ph t2 = t_ph t2" "t_is_evaluated t2"
      using with_blocks(2) [OF s(6) len(2)] pr frameD(1) [OF s(7)] s(3-5) by (auto simp: t2_def revalued_def)
    obtain ec2 t4 m4 where c: "construct_values m2 G3 t2 = Some (ec2, t4, m4)" "ec2 = MIST_OK \<longrightarrow> elems (t_vals t4) = vs"
        "never_fails m2 \<longrightarrow> never_fails m4 \<and> ec2 = MIST_OK"
      using construct_values_returns [OF t2(1,2) _ d, of m2] t(3) t2(3) vss(2-4) by (auto simp: returns_iff value_limit_def)
    have cs: "construct_step (length G) t2 m2 (ec2, t4, m4)" using ensuresD [OF construct_values_step [OF t2(1,2)] c(1)] .
    obtain G4 q4 where s4: "store G3 q3 t4 = (G4, q4)" by fastforce
    have res: "mist_template_evaluate (Suc n) m G q = Some (ec2, G4, q4, m4)"
      using s(1) e(1) s3 True c(1) s4 by (simp add: evaluate_text_def t2_def [symmetric])
    have abs4: "abs_t t4 = abs_t t" "t_is_evaluated t4"
      using cs t2(3,5) t(3) pr s(3) by (auto simp: construct_step_def revalued_def abs_t_eq t2_def)
    have "learned E G G4 \<and> value_at G4 q4 vs" if "ec2 = MIST_OK"
    proof -
      have "val E (Suc h') (abs_t t4) = Some (elems (t_vals t4))" using v(1) abs4(1) c(2) that by (simp del: tval.simps)
      moreover have "value_at G4 q4 vs"
        using s3 s4 s(8) q t(1) abs4(2) c(2) that len(1) by (cases q) (auto simp: value_at_def same_ptr_def ptr_ok_def)
      moreover have "learned E G G4" using learned_store [OF s(2) s3 s4 q len(1)] e(2) True calculation(1) by blast
      ultimately show ?thesis by blast
    qed
    then show ?thesis using res e(3) c(3) s(10) True by (auto simp: ev_values_def)
  qed
qed

theorem mist_template_evaluate_computes: "h \<le> n \<Longrightarrow> computes (mist_template_evaluate n) E h"
proof (induction h arbitrary: n rule: less_induct)
  case (less h)
  have "returns (mist_template_evaluate n m G q) (ev_values E G m vs)"
    if G: "ready E h G" and q: "ptr_ok (length G) q" and t: "deref G q = Some t" "settled E h t" "val E h (abs_t t) = Some vs" for m G q t vs
  proof -
    obtain h' where h': "Suc h' \<le> h" "val E (Suc h') (abs_t t) = Some vs" "val E h' (abs_t t) = None" using tval_least [OF t(3)] by metis
    then obtain n' where n: "n = Suc n'" "h' \<le> n'" using less.prems by (cases n) auto
    consider (already) "t_is_evaluated t" | (attr) "\<not> t_is_evaluated t" "elems (t_sch t) = []" | (chunks) "\<not> t_is_evaluated t" "elems (t_sch t) \<noteq> []" by blast
    then show ?thesis
    proof cases
      case already
      then show ?thesis using t n(1) by (auto simp: ev_values_def value_at_def settled_def)
    next
      case attr
      then show ?thesis using attribute_values [OF G q t(1) _ _ t(3)] n(1) by simp
    next
      case chunks
      have "computes (mist_template_evaluate n') E h'" using less.IH [of h' n'] h'(1) n(2) by simp
      then show ?thesis using text_values [OF _ G _ q t(1) chunks h'(2,3)] h'(1) n(1) by simp
    qed
  qed
  then show ?case
    unfolding computes_def ready_def using mist_template_evaluate_ensures by blast
qed

lemma evaluates_to:
  assumes "wf_group G" and "k < length G" and "\<forall>t \<in> set G. \<not> t_is_evaluated t"
    and "tval value_limit (map abs_t G) h (abs_t (G ! k)) = Some vs" and "h \<le> n"
  obtains ec G' m' where "mist_template_evaluate n m G (Ref k) = Some (ec, G', Ref k, m')" "frame G G'"
    "balance ec m m' (gblocks G' - gblocks G)" "never_fails m \<longrightarrow> never_fails m' \<and> ec = MIST_OK" "ec = MIST_OK \<longrightarrow> value_at G' (Ref k) vs"
proof -
  let ?E = "map abs_t G"
  have "all_settled ?E h G" using assms(3) by (auto simp: all_settled_def settled_def)
  then have G: "ready ?E h G" using assms(1) by (simp add: ready_def)
  have v: "val ?E h (?E ! k) = Some vs" using assms(2,4) by (simp del: tval.simps)
  obtain ec G' m' where e: "mist_template_evaluate n m G (Ref k) = Some (ec, G', Ref k, m')" "frame G G'" "never_fails m \<longrightarrow> never_fails m' \<and> ec = MIST_OK"
      "ec = MIST_OK \<longrightarrow> value_at G' (Ref k) vs"
    using evaluate_ref [OF mist_template_evaluate_computes [OF assms(5)] G assms(2) v, of m] by metis
  have "ev_result G (Ref k) m (ec, G', Ref k, m')"
    by (rule ev_okD [OF mist_template_evaluate_ensures assms(1) _ e(1)]) (simp add: ptr_ok_def assms(2))
  then have "balance ec m m' (gblocks G' - gblocks G)" by (simp add: ev_result_def)
  then show ?thesis using that [OF e(1,2) _ e(3,4)] by blast
qed

section \<open>Properties\<close>

text \<open>
  C3: the evaluation of a template whose references end computes the values of the reference
  semantics. It returns as soon as the fuel is at least the height of the references; the values are
  \<open>vs\<close>, and exactly the blocks of the new values have been allocated. Nothing but a refused request
  for memory makes it fail. The templates of the group keep their meaning in either case.
\<close>

theorem mist_template_evaluate_correct:
  assumes "wf_group G" and "k < length G" and "\<forall>t \<in> set G. \<not> t_is_evaluated t"
    and "tval value_limit (map abs_t G) h (abs_t (G ! k)) = Some vs" and "h \<le> n"
  shows "returns (mist_template_evaluate n m G (Ref k)) (\<lambda>(ec, G', q', m').
     q' = Ref k \<and> wf_group G' \<and> map abs_t G' = map abs_t G
     \<and> (ec = MIST_OK \<and> t_is_evaluated (G' ! k) \<and> elems (t_vals (G' ! k)) = vs
          \<and> live m' - live m = gblocks G' - gblocks G
        \<or> ec = MIST_OUT_OF_MEMORY \<and> \<not> never_fails m))"
proof -
  obtain ec G' m' where e: "mist_template_evaluate n m G (Ref k) = Some (ec, G', Ref k, m')" "frame G G'"
      "balance ec m m' (gblocks G' - gblocks G)" "never_fails m \<longrightarrow> never_fails m' \<and> ec = MIST_OK" "ec = MIST_OK \<longrightarrow> value_at G' (Ref k) vs"
    using evaluates_to [OF assms, of m] .
  then show ?thesis using frameD [OF e(2)] assms(2) by (auto simp: value_at_def balance_def split: if_splits)
qed

text \<open>A template with one placeholder and an attribute with two values.\<close>

definition example_group :: group where
  "example_group =
     [Template ''main'' (Grar [] 16) (Grar [''Hi '', ''!''] 16) (Grar [Placeholder MPH_PLAIN ''who'' (Ref 1) None Null Null Null False] 16) False,
      Template ''who'' (Grar [''a'', ''b''] 16) (Grar [] 16) (Grar [] 16) False]"

lemma example_group_wf: "wf_group example_group" "\<forall>t \<in> set example_group. \<not> t_is_evaluated t"
  by (simp_all add: example_group_def wf_group_def wf_t_eq grar_inv_def grar_consts refers_def NUL_def no_nul_def)

lemma example_group_value:
  "tval value_limit (map abs_t example_group) 2 (abs_t (example_group ! 0)) = Some [''Hi a!'', ''Hi b!'']"
proof -
  have "tval value_limit (map abs_t example_group) (Suc (Suc 0)) (abs_t (example_group ! 0)) = Some [''Hi a!'', ''Hi b!'']"
    by (simp add: example_group_def abs_t_eq pval_def expand_def pick_def longest_def room_def value_limit_def upt_rec)
  then show ?thesis by (simp only: numeral_2_eq_2)
qed

lemma example_group_evaluates: "\<exists>res. mist_template_evaluate 2 mem0 example_group (Ref 0) = Some res"
proof -
  let ?E = "map abs_t example_group"
  have "ready ?E 2 example_group" using example_group_wf by (auto simp: ready_def all_settled_def settled_def)
  moreover have "0 < length example_group" by (simp add: example_group_def)
  moreover have "val ?E 2 (?E ! 0) = Some [''Hi a!'', ''Hi b!'']" using example_group_value calculation(2) by (simp del: tval.simps)
  ultimately show ?thesis using evaluate_ref [OF mist_template_evaluate_computes [OF order.refl], where m = mem0] by metis
qed

theorem mist_template_evaluate_correct_witness:
  "returns (mist_template_evaluate 2 mem0 example_group (Ref 0)) (\<lambda>(ec, G', q', m').
     ec = MIST_OK \<and> elems (t_vals (G' ! 0)) = [''Hi a!'', ''Hi b!''] \<and> live m' = gblocks G' - gblocks example_group)"
  by (rule returns_mono [OF mist_template_evaluate_correct [OF example_group_wf(1) _ example_group_wf(2) example_group_value order.refl]])
    (auto simp: never_fails_def example_group_def)





text \<open>
  C38: the size of the buffer for joined values is computed modulo $2^{64}$: $2^{32} + 1$ empty values joined by a
  separator of $2^{32}$ characters need $2^{64}$ characters, and the function returns 0.
\<close>

theorem mist_placeholder_max_length_wraps:
  assumes "elems vals = replicate (2 ^ 32 + 1) []" and "length sep = 2 ^ 32"
  shows "mist_placeholder_max_length [Template name vals sch ph True] (Placeholder MPH_JOIN pname (Ref 0) (Some sep) Null Null Null False) = Some 0
     \<and> length (joined sep (elems vals)) = 2 ^ 64"
proof -
  have "length (joined sep (elems vals)) = 2 ^ 64" using assms by (simp add: joined_length sum_list_replicate)
  moreover have "grar_string_total_length vals = 0" using assms(1) by (simp add: grar_string_total_length_eq sum_list_replicate)
  ultimately show ?thesis
    using assms by (simp add: mist_placeholder_max_length_def SIZE_MODULUS_def)
qed

theorem mist_placeholder_max_length_wraps_witness:
  "mist_placeholder_max_length [Template ''v'' (Grar (replicate (2 ^ 32 + 1) []) (2 ^ 33)) (Grar [] 16) (Grar [] 16) True]
     (Placeholder MPH_JOIN ''v'' (Ref 0) (Some (replicate (2 ^ 32) CHR '','')) Null Null Null False) = Some 0"
  using mist_placeholder_max_length_wraps [of "Grar (replicate (2 ^ 32 + 1) []) (2 ^ 33)" "replicate (2 ^ 32) CHR '',''"]
  by (simp only: length_replicate grar.sel refl simp_thms)

text \<open>A template with the name \<open>x\<close> and the text \<^verbatim>\<open><$if x$>a<$endif$>\<close>.\<close>

definition self_condition :: CMistTemplate where
  "self_condition = Template ''x'' (Grar [] 16) (Grar [[], []] 16)
     (Grar [Placeholder MPH_COND ''x'' (Own (Template ''x'' (Grar [] 16) (Grar [] 16) (Grar [] 16) False)) None (Ref 0)
        (Own (Template ''x'' (Grar [] 16) (Grar [''a''] 16) (Grar [] 16) False))
        (Own (Template ''x'' (Grar [] 16) (Grar [[]] 16) (Grar [] 16) False)) False] 16) False"



end
