(* ===== verification/Mist_Link.thy ===== *)
theory Mist_Link
  imports Mist_Group Mist_Semantics
begin

text \<open>
  Connecting the templates of a group: what collecting the attributes and setting the pointers of the
  placeholders (\<open>mist_tg_collect_attrs_for_template\<close>, \<open>mist_tg_connect_templates_for_template\<close>) do to a
  template that has been parsed from the tree \<open>T\<close>.

  \<open>tree_names\<close> are the names a tree refers to, and \<open>link_t ix T\<close> is the meaning of the tree in a group where
  the template with the name \<open>n\<close> has the index \<open>ix n\<close>.
\<close>

section \<open>Trees\<close>

fun tree_names :: "tmpl \<Rightarrow> string list" and phx_names :: "phx \<Rightarrow> string list" where
  "tree_names (Tmpl c items) = concat (map phx_names (map fst items))"
| "phx_names (Ph name sep) = [name]"
| "phx_names (Cond name is_concat T E) = name # tree_names T @ tree_names E"

fun link_t :: "(string \<Rightarrow> nat) \<Rightarrow> tmpl \<Rightarrow> sem" and link_p :: "(string \<Rightarrow> nat) \<Rightarrow> phx \<Rightarrow> sph" where
  "link_t ix (Tmpl c items) = Text (c # map snd items) (map (link_p ix) (map fst items))"
| "link_p ix (Ph name sep) = (case sep of None \<Rightarrow> SPlain (ix name) | Some w \<Rightarrow> SJoin (ix name) w)"
| "link_p ix (Cond name is_concat T E) = SCond (ix name) is_concat (link_t ix T) (link_t ix E)"

text \<open>The trees of sources: names that can be names of templates, text without NUL.\<close>

fun tree_ok :: "tmpl \<Rightarrow> bool" and phx_ok :: "phx \<Rightarrow> bool" where
  "tree_ok (Tmpl c items) \<longleftrightarrow> no_nul c \<and> (\<forall>s \<in> set (map snd items). no_nul s) \<and> (\<forall>p \<in> set (map fst items). phx_ok p)"
| "phx_ok (Ph name sep) \<longleftrightarrow> \<not> mist_name_is_bad name \<and> (\<forall>w. sep = Some w \<longrightarrow> no_nul w)"
| "phx_ok (Cond name is_concat T E) \<longleftrightarrow> \<not> mist_name_is_bad name \<and> tree_ok T \<and> tree_ok E"

lemma no_nul_subset: "no_nul s \<Longrightarrow> set t \<subseteq> set s \<Longrightarrow> no_nul t"
  by (auto simp: no_nul_def)

lemma set_trim: "set (trim s) \<subseteq> set s"
  using arg_cong [OF trim_split [of s], of set] by auto

lemma slice_no_nul: "no_nul src \<Longrightarrow> no_nul (slice src i j)"
  unfolding slice_def by (auto simp: no_nul_def dest: in_set_takeD in_set_dropD)

lemma slice_length: "length (slice src i j) \<le> length src"
  by (simp add: slice_def)

lemma ph_expr_facts:
  assumes e: "ph_expr s = Some (name, sep)" and nn: "no_nul s"
  shows "phx_ok (Ph name sep) \<and> length name \<le> length s"
proof (cases "strchr (trim s) (CHR '':'')")
  case None
  then show ?thesis using e length_trim [of s] by (auto simp: ph_expr_None split: if_splits)
next
  case (Some k)
  define a where "a = trim (drop 4 (trim (drop (k + 1) (trim s))))"
  have "set a \<subseteq> set s" unfolding a_def by (meson set_trim set_drop_subset subset_trans)
  then have "no_nul (unescape (butlast (tl a)))" using no_nul_subset [OF nn] by (intro unescape_no_nul no_nul_ends)
  moreover have "length (rtrim (take k (trim s))) \<le> length s"
    using length_rtrim [of "take k (trim s)"] length_trim [of s] by (auto simp: min_def split: if_splits)
  moreover have "name = rtrim (take k (trim s))" "sep = Some (unescape (butlast (tl a)))" "\<not> mist_name_is_bad name"
    using e Some by (auto simp: ph_expr_def Let_def a_def split: if_splits)
  ultimately show ?thesis by simp
qed

lemma tree_ok_names: "tree_ok T \<Longrightarrow> n \<in> set (tree_names T) \<Longrightarrow> \<not> mist_name_is_bad n"
  "phx_ok p \<Longrightarrow> n \<in> set (phx_names p) \<Longrightarrow> \<not> mist_name_is_bad n"
  by (induction T and p rule: tree_names_phx_names.induct) auto

text \<open>What is known of the trees the grammar yields: every name costs at least a token.\<close>

definition tree_within :: "string \<Rightarrow> tmpl \<Rightarrow> bool" where
  "tree_within src T \<longleftrightarrow> tree_ok T \<and> (\<forall>n \<in> set (tree_names T). length n \<le> length src)"

definition phx_within :: "string \<Rightarrow> phx \<Rightarrow> bool" where
  "phx_within src p \<longleftrightarrow> phx_ok p \<and> (\<forall>n \<in> set (phx_names p). length n \<le> length src)"

lemma grammar_trees:
  assumes nn: "no_nul src"
  shows "pT src ts r \<Longrightarrow> (\<forall>T rest. r = Inr (T, rest) \<longrightarrow> tree_within src T \<and> length (tree_names T) + length rest + 1 \<le> length ts)"
    "pI src ts r' \<Longrightarrow> (\<forall>items rest. r' = Inr (items, rest) \<longrightarrow> (\<forall>(p, s) \<in> set items. phx_within src p \<and> no_nul s)
       \<and> length (concat (map phx_names (map fst items))) + length rest \<le> length ts)"
    "pP src ts r'' \<Longrightarrow> (\<forall>p rest. r'' = Inr (p, rest) \<longrightarrow> phx_within src p \<and> length (phx_names p) + length rest \<le> length ts)"
proof (induction rule: pT_pI_pP.inducts)
  case (T_ok t ts items rest)
  then show ?case using slice_no_nul [OF nn] by (fastforce simp: tree_within_def phx_within_def)
next
  case (I_ok ts p s rest items rest')
  then show ?case using slice_no_nul [OF nn] by fastforce
next
  case (P_ok t name sep ts)
  then show ?case
    using ph_expr_facts [OF P_ok(2) slice_no_nul [OF nn]] slice_length [of src "tok_beg t" "tok_end t"] by (auto simp: phx_within_def)
next
  case (If_ok t name c ts T s rest)
  then show ?case
    using cond_expr_length [OF \<open>cond_expr (slice src (tok_beg t) (tok_end t)) = (name, c)\<close>] slice_length [of src "tok_beg t" "tok_end t"] by (auto simp: phx_within_def tree_within_def no_nul_def)
next
  case (Else_ok t name c ts T s rest E z rest')
  then show ?case
    using cond_expr_length [OF \<open>cond_expr (slice src (tok_beg t) (tok_end t)) = (name, c)\<close>] slice_length [of src "tok_beg t" "tok_end t"] by (auto simp: phx_within_def tree_within_def)
qed (auto simp: tree_within_def phx_within_def)

lemma reads_tree:
  assumes "reads src bm em (Inr T)" "no_nul src" "bm \<noteq> []" "em \<noteq> []"
  shows "tree_within src T" "length (tree_names T) \<le> length src"
proof -
  obtain ts where ts: "spelled src bm em 0 ts" "pT src ts (Inr (T, []))" using assms(1) by (auto elim: reads.cases)
  have g: "tree_within src T" "length (tree_names T) + 1 \<le> length ts" using grammar_trees(1) [OF assms(2) ts(2)] by auto
  have "length ts = 1 \<or> length ts \<le> length src" using spelled_tokens [OF ts(1) assms(3,4)] by simp
  then show "tree_within src T" "length (tree_names T) \<le> length src" using g by auto
qed

section \<open>Collecting the names of attributes\<close>

definition missing :: "CMistTemplate bsearch \<Rightarrow> CMistTemplate grar \<Rightarrow> string \<Rightarrow> bool" where
  "missing bs tpl name \<longleftrightarrow> find_template bs tpl name = - 1"

definition collected ::
  "CMistTemplate bsearch \<Rightarrow> CMistTemplate grar \<Rightarrow> string list \<Rightarrow> mem \<Rightarrow> string grar \<Rightarrow> EMistErrorCode \<times> string grar \<times> mem \<Rightarrow> bool" where
  "collected bs tpl names m attrs res \<longleftrightarrow> (case res of (ec, attrs', m') \<Rightarrow> grar_ok attrs' \<and> live m' = live m
     \<and> (ec = MIST_OK \<and> elems attrs' = elems attrs @ filter (missing bs tpl) names \<or> ec = MIST_OUT_OF_MEMORY)
     \<and> (never_fails m \<and> length (elems attrs) + length names < 2 ^ 50 \<longrightarrow> never_fails m' \<and> ec = MIST_OK))"

text \<open>One run of collecting after another.\<close>

lemma collected_then:
  assumes "returns x (collected bs tpl ns m attrs)"
    and "\<And>attrs m. grar_ok attrs \<Longrightarrow> returns (f attrs m) (collected bs tpl ns' m attrs)"
  shows "returns (do { (ec, attrs, m) \<leftarrow> x; if ec \<noteq> MIST_OK then Some (ec, attrs, m) else f attrs m }) (collected bs tpl (ns @ ns') m attrs)"
proof -
  obtain ec a1 m1 where 1: "x = Some (ec, a1, m1)" "collected bs tpl ns m attrs (ec, a1, m1)" using assms(1) by (auto simp: returns_iff)
  show ?thesis
  proof (cases "ec = MIST_OK")
    case False
    then show ?thesis using 1 by (auto simp: collected_def)
  next
    case True
    then have 2: "grar_ok a1" "live m1 = live m" "elems a1 = elems attrs @ filter (missing bs tpl) ns"
        "never_fails m \<and> length (elems attrs) + length ns < 2 ^ 50 \<longrightarrow> never_fails m1"
      using 1(2) by (auto simp: collected_def)
    obtain ec' a2 m2 where 3: "f a1 m1 = Some (ec', a2, m2)" "collected bs tpl ns' m1 a1 (ec', a2, m2)"
      using assms(2) [OF 2(1), of m1] by (auto simp: returns_iff)
    have "length (filter (missing bs tpl) ns) \<le> length ns" by simp
    then have "collected bs tpl (ns @ ns') m attrs (ec', a2, m2)"
      using 2 3(2) unfolding collected_def prod.case 2(3) by (auto simp del: length_filter_le)
    then show ?thesis using 1(1) 3(1) True by simp
  qed
qed

lemma collect_name:
  assumes "grar_ok attrs"
  shows "returns (do { (r, attrs, m) \<leftarrow> (if find_template bs tpl name = - 1 then grar_add_element m attrs name else Some (True, attrs, m));
      Some (if r then MIST_OK else MIST_OUT_OF_MEMORY, attrs, m) }) (collected bs tpl [name] m attrs)"
  using assms grar_add_element_ok [OF assms, of m name]
  by (auto simp: collected_def missing_def small_def returns_iff split: if_splits)

lemma collect_tree:
  "rep_t T t \<Longrightarrow> grar_ok attrs \<Longrightarrow> returns (mist_tg_collect_attrs_for_template bs tpl m t attrs) (collected bs tpl (tree_names T) m attrs)"
  "rep_p p ph \<Longrightarrow> (\<And>attrs m. grar_ok attrs \<Longrightarrow> returns (collect_placeholders bs tpl m phs attrs) (collected bs tpl ns m attrs))
   \<Longrightarrow> grar_ok attrs \<Longrightarrow> returns (collect_placeholders bs tpl m (ph # phs) attrs) (collected bs tpl (phx_names p @ ns) m attrs)"
proof (induction T and p arbitrary: t attrs m and ph phs ns attrs m rule: tree_names_phx_names.induct)
  case (1 c items)
  have all: "list_all2 rep_p qs phs \<Longrightarrow> set qs \<subseteq> set (map fst items) \<Longrightarrow> grar_ok attrs
      \<Longrightarrow> returns (collect_placeholders bs tpl m phs attrs) (collected bs tpl (concat (map phx_names qs)) m attrs)" for qs phs attrs m
  proof (induction qs phs arbitrary: attrs m rule: list_all2_induct)
    case Nil
    then show ?case by (simp add: collected_def)
  next
    case (Cons q qs ph phs)
    then show ?case using "1.IH" [of q ph phs "concat (map phx_names qs)" attrs m] by (auto simp: image_iff)
  qed
  show ?case using "1.prems" all [of "map fst items" "elems (t_ph t)" attrs m] unfolding rep_t.simps by (cases t) auto
next
  case (2 name sep)
  let ?k = "\<lambda>attrs m. collect_placeholders bs tpl m phs attrs"
  have "returns (do { (ec, attrs, m) \<leftarrow> (do { (r, attrs, m) \<leftarrow> (if find_template bs tpl name = - 1 then grar_add_element m attrs name else Some (True, attrs, m));
      Some (if r then MIST_OK else MIST_OUT_OF_MEMORY, attrs, m) }); if ec \<noteq> MIST_OK then Some (ec, attrs, m) else ?k attrs m }) (collected bs tpl ([name] @ ns) m attrs)"
    by (rule collected_then [OF collect_name]) (use 2 in auto)
  then show ?case using 2(1) unfolding rep_p.simps by (auto elim!: returns_mono split: if_splits)
next
  case (3 name is_concat T E)
  then obtain r t e where ph: "ph = Placeholder MPH_COND name (Own r) None Null (Own t) (Own e) is_concat" "rep_t T t" "rep_t E e" unfolding rep_p.simps by auto
  let ?n = "\<lambda>attrs m. do { (r, attrs, m) \<leftarrow> (if find_template bs tpl name = - 1 then grar_add_element m attrs name else Some (True, attrs, m));
      Some (if r then MIST_OK else MIST_OUT_OF_MEMORY, attrs, m) }"
  let ?t = "\<lambda>t attrs m. mist_tg_collect_attrs_for_template bs tpl m t attrs"
  let ?k = "\<lambda>attrs m. collect_placeholders bs tpl m phs attrs"
  have E: "returns (do { (ec, attrs, m) \<leftarrow> ?t e attrs m; if ec \<noteq> MIST_OK then Some (ec, attrs, m) else ?k attrs m })
      (collected bs tpl (tree_names E @ ns) m attrs)" if "grar_ok attrs" for attrs m
    using "3.IH"(2) [OF ph(3) that] "3.prems"(2) by (rule collected_then)
  have TE: "returns (do { (ec, attrs, m) \<leftarrow> ?t t attrs m; if ec \<noteq> MIST_OK then Some (ec, attrs, m)
      else do { (ec, attrs, m) \<leftarrow> ?t e attrs m; if ec \<noteq> MIST_OK then Some (ec, attrs, m) else ?k attrs m } })
      (collected bs tpl (tree_names T @ tree_names E @ ns) m attrs)" if "grar_ok attrs" for attrs m
    using "3.IH"(1) [OF ph(2) that] E by (rule collected_then)
  have "returns (do { (ec, attrs, m) \<leftarrow> ?n attrs m; if ec \<noteq> MIST_OK then Some (ec, attrs, m)
      else do { (ec, attrs, m) \<leftarrow> ?t t attrs m; if ec \<noteq> MIST_OK then Some (ec, attrs, m)
      else do { (ec, attrs, m) \<leftarrow> ?t e attrs m; if ec \<noteq> MIST_OK then Some (ec, attrs, m) else ?k attrs m } } })
      (collected bs tpl ([name] @ tree_names T @ tree_names E @ ns) m attrs)"
    using collect_name [OF "3.prems"(3)] TE by (rule collected_then)
  then show ?case unfolding ph(1) by (auto elim!: returns_mono split: if_splits)
qed

section \<open>Setting the pointers\<close>

definition index_of :: "CMistTemplate bsearch \<Rightarrow> CMistTemplate grar \<Rightarrow> string \<Rightarrow> nat" where
  "index_of bs tpl name = nat (find_template bs tpl name)"

definition present :: "CMistTemplate bsearch \<Rightarrow> CMistTemplate grar \<Rightarrow> string \<Rightarrow> bool" where
  "present bs tpl name \<longleftrightarrow> \<not> missing bs tpl name \<and> index_of bs tpl name < length (elems tpl)"

text \<open>What connecting keeps of a template, and the meaning the template has got.\<close>

definition connected :: "nat \<Rightarrow> sem \<Rightarrow> CMistTemplate \<Rightarrow> CMistTemplate \<Rightarrow> bool" where
  "connected n s t t' \<longleftrightarrow> wf_t n t' \<and> abs_t t' = s \<and> t_name t' = t_name t \<and> t_vals t' = t_vals t \<and> t_sch t' = t_sch t
     \<and> t_is_evaluated t' = t_is_evaluated t \<and> tpl_blocks t' = tpl_blocks t"

lemma connect_tree:
  fixes bs tpl
  defines "n \<equiv> length (elems tpl)" and "ix \<equiv> index_of bs tpl"
  shows "rep_t T t \<Longrightarrow> tree_ok T \<Longrightarrow> \<forall>nm \<in> set (tree_names T). present bs tpl nm
      \<Longrightarrow> \<exists>t'. mist_tg_connect_templates_for_template bs tpl t = Some t' \<and> connected n (link_t ix T) t t'"
    "rep_p p ph \<Longrightarrow> phx_ok p \<Longrightarrow> \<forall>nm \<in> set (phx_names p). present bs tpl nm \<Longrightarrow> connect_placeholders bs tpl phs = Some phs'
      \<Longrightarrow> \<exists>ph'. connect_placeholders bs tpl (ph # phs) = Some (ph' # phs') \<and> wf_p n ph' \<and> abs_p ph' = link_p ix p \<and> ph_blocks ph' = ph_blocks ph"
proof (induction T and p arbitrary: t and ph phs phs' rule: tree_names_phx_names.induct)
  case (1 c items)
  have all: "list_all2 rep_p qs phs \<Longrightarrow> set qs \<subseteq> set (map fst items) \<Longrightarrow>
      \<exists>phs'. connect_placeholders bs tpl phs = Some phs' \<and> (\<forall>p \<in> set phs'. wf_p n p) \<and> map abs_p phs' = map (link_p ix) qs
        \<and> map ph_blocks phs' = map ph_blocks phs" for qs phs
  proof (induction qs phs rule: list_all2_induct)
    case Nil
    then show ?case by simp
  next
    case (Cons q qs ph phs)
    obtain phs' where r: "connect_placeholders bs tpl phs = Some phs'" "\<forall>p \<in> set phs'. wf_p n p" "map abs_p phs' = map (link_p ix) qs"
        "map ph_blocks phs' = map ph_blocks phs"
      using Cons.IH Cons.prems by auto
    have q: "q \<in> set (map fst items)" using Cons.prems by auto
    then have "phx_ok q" "\<forall>nm \<in> set (phx_names q). present bs tpl nm" using "1.prems"(2,3) by auto
    from "1.IH" [OF q Cons.hyps(1) this r(1)] show ?case using r by auto
  qed
  have rt: "grar_ok (t_vals t)" "elems (t_vals t) = []" "grar_ok (t_sch t)" "elems (t_sch t) = c # map snd items" "grar_ok (t_ph t)"
      "list_all2 rep_p (map fst items) (elems (t_ph t))" using "1.prems"(1) unfolding rep_t.simps by auto
  obtain phs' where r: "connect_placeholders bs tpl (elems (t_ph t)) = Some phs'" "\<forall>p \<in> set phs'. wf_p n p"
      "map abs_p phs' = map (link_p ix) (map fst items)" "map ph_blocks phs' = map ph_blocks (elems (t_ph t))"
    using all [OF rt(6)] by auto
  have len: "length phs' = length items" "length (elems (t_ph t)) = length items"
    using arg_cong [OF r(3), of length] list_all2_lengthD [OF rt(6)] by simp_all
  define t' where "t' = Template (t_name t) (t_vals t) (t_sch t) (Grar phs' (capacity (t_ph t))) (t_is_evaluated t)"
  have "mist_tg_connect_templates_for_template bs tpl t = Some t'" using r(1) by (cases t) (simp add: t'_def)
  moreover have "wf_t n t'" using rt r(2) len "1.prems"(2) by (auto simp: t'_def wf_t_eq grar_inv_def grar_ok_def)
  moreover have "abs_t t' = link_t ix (Tmpl c items)" using rt(4) r(3) by (simp add: t'_def abs_t_eq)
  moreover have "tpl_blocks t' = tpl_blocks t"
    using r(4) by (cases t) (simp add: t'_def tpl_blocks.simps grar_blocks_def)
  ultimately show ?case by (auto simp: connected_def t'_def)
next
  case (2 name sep)
  then show ?case
    unfolding rep_p.simps
    by (cases sep) (auto simp: present_def missing_def index_of_def Let_def ix_def n_def refers_def)
next
  case (3 name is_concat T E)
  then obtain r t e where ph: "ph = Placeholder MPH_COND name (Own r) None Null (Own t) (Own e) is_concat" "rep_t T t" "rep_t E e"
      "grar_ok (t_vals r)" "elems (t_vals r) = []" "grar_ok (t_sch r)" "elems (t_sch r) = []" "grar_ok (t_ph r)" "elems (t_ph r) = []"
    unfolding rep_p.simps by auto
  have ok: "tree_ok T" "tree_ok E" "\<forall>nm \<in> set (tree_names T). present bs tpl nm" "\<forall>nm \<in> set (tree_names E). present bs tpl nm"
    using "3.prems"(2,3) by auto
  obtain t' where t': "mist_tg_connect_templates_for_template bs tpl t = Some t'" "connected n (link_t ix T) t t'"
    using "3.IH"(1) [OF ph(2) ok(1,3)] by blast
  obtain e' where e': "mist_tg_connect_templates_for_template bs tpl e = Some e'" "connected n (link_t ix E) e e'"
    using "3.IH"(2) [OF ph(3) ok(2,4)] by blast
  have ne: "elems (t_sch t) \<noteq> []" "elems (t_sch e) \<noteq> []" using ph(2,3) by (cases T; cases E; auto simp: rep_t.simps)+
  have wr: "wf_t n r" using ph(4-9) by (auto simp: wf_t_eq)
  have nm: "find_template bs tpl name \<noteq> - 1" "nat (find_template bs tpl name) = ix name" "ix name < n"
    using "3.prems"(3) by (simp_all add: present_def missing_def index_of_def ix_def n_def)
  show ?case
    using "3.prems"(4) nm t' e' ne wr ph(7)
    by (simp add: ph(1) connected_def Let_def n_def [symmetric] refers_def owns_def)
qed

end
