(* ===== verification/Mist_Group_Correct.thy ===== *)
theory Mist_Group_Correct
  imports Mist_Link
begin

text \<open>
  The operations on groups of templates do what they promise: creation from named sources, adding values,
  evaluation. \<open>group_spec\<close> is the specification of creation: the group has a template for each source,
  with the meaning of the tree the source stands for, and one attribute for each name that is referred
  to and names no source; it is sorted by name, and every reference leads to the template of that name.
\<close>

section \<open>The tree of a template\<close>

function (sequential) tree_of :: "CMistTemplate \<Rightarrow> tmpl" and tree_of_ph :: "CMistPlaceholder \<Rightarrow> phx"
  and tree_of_ptr :: "CMistTemplate tptr \<Rightarrow> tmpl" where
  "tree_of (Template name vals sch ph ev) = Tmpl (hd (elems sch)) (zip (map tree_of_ph (elems ph)) (tl (elems sch)))"
| "tree_of_ph (Placeholder type name tpl sep tpl_cond tpl_then tpl_else is_concat) =
     (if type = MPH_COND then Cond name is_concat (tree_of_ptr tpl_then) (tree_of_ptr tpl_else) else Ph name sep)"
| "tree_of_ptr (Own t) = tree_of t"
| "tree_of_ptr _ = Tmpl [] []"
  by pat_completeness auto
termination
  by (relation "measure (\<lambda>x. case x of
        Inl t \<Rightarrow> 2 * size t
      | Inr (Inl p) \<Rightarrow> 2 * size p
      | Inr (Inr q) \<Rightarrow> 2 * size_tptr size q + 1)")
    (auto dest!: size_grar_elem [where f = size])

lemma rep_tree_of: "rep_t T t \<Longrightarrow> tree_of t = T" "rep_p p ph \<Longrightarrow> tree_of_ph ph = p"
proof (induction T and p arbitrary: t and ph rule: tree_names_phx_names.induct)
  case (1 c items)
  have r: "elems (t_sch t) = c # map snd items" "list_all2 rep_p (map fst items) (elems (t_ph t))" using "1.prems" unfolding rep_t.simps by auto
  have "map tree_of_ph (elems (t_ph t)) = map fst items"
  proof (rule nth_equalityI)
    show "length (map tree_of_ph (elems (t_ph t))) = length (map fst items)" using list_all2_lengthD [OF r(2)] by simp
    fix i
    assume i: "i < length (map tree_of_ph (elems (t_ph t)))"
    then have "rep_p (map fst items ! i) (elems (t_ph t) ! i)" using list_all2_nthD2 [OF r(2)] by simp
    moreover have "map fst items ! i \<in> set (map fst items)" using i list_all2_lengthD [OF r(2)] by (metis length_map nth_mem)
    ultimately show "map tree_of_ph (elems (t_ph t)) ! i = map fst items ! i" using "1.IH" i by simp
  qed
  then show ?case using r(1) by (cases t) (simp add: zip_map_fst_snd)
qed (auto simp: rep_t.simps rep_p.simps)

text \<open>A template as the parser makes it.\<close>

definition parsed :: "CMistTemplate \<Rightarrow> bool" where
  "parsed t \<longleftrightarrow> rep_t (tree_of t) t \<and> tree_ok (tree_of t)"

definition names_in :: "CMistTemplate \<Rightarrow> string list" where
  "names_in t = tree_names (tree_of t)"

lemma parsed_facts: "parsed t \<Longrightarrow> \<not> t_is_evaluated t \<and> elems (t_vals t) = []"
  by (cases "tree_of t") (auto simp: parsed_def rep_t.simps)

section \<open>Loading\<close>

text \<open>A source that cannot be loaded, and the description of the reason.\<close>

definition refused :: "string \<Rightarrow> string \<Rightarrow> string \<Rightarrow> string \<Rightarrow> string option \<Rightarrow> bool" where
  "refused name str bm em d \<longleftrightarrow>
     (if mist_name_is_bad name then d = Some (format_string errInvalidTemplateName [ArgS name])
      else (\<exists>msg. d = Some msg \<and> reads str bm em (Inl msg)))"

definition loaded :: "string \<Rightarrow> string \<Rightarrow> string \<times> string \<Rightarrow> CMistTemplate \<Rightarrow> bool" where
  "loaded bm em src t \<longleftrightarrow> t_name t = fst src \<and> \<not> mist_name_is_bad (fst src) \<and> parsed t \<and> reads (snd src) bm em (Inr (tree_of t))"

definition load_result ::
  "string \<Rightarrow> string \<Rightarrow> string list \<Rightarrow> string list \<Rightarrow> nat \<Rightarrow> CMistTemplate grar \<Rightarrow> mem
     \<Rightarrow> bool \<times> nat option \<times> string option \<times> CMistTemplate grar \<times> mem \<Rightarrow> bool" where
  "load_result bm em names strings i tpl m res \<longleftrightarrow> (case res of (r, bad, d, tpl', m') \<Rightarrow> grar_ok tpl' \<and> (\<exists>new k.
     elems tpl' = elems tpl @ new \<and> list_all2 (loaded bm em) (take k (zip names strings)) new \<and> k \<le> length names
     \<and> (if r then k = length names \<and> bad = None \<and> d = None \<and> live m' = live m + gblocks new
        else live m + gblocks new + of_bool (d \<noteq> None) \<le> live m')
     \<and> (never_fails m \<and> length (elems tpl) + length names < 2 ^ 50 \<and> (\<forall>s \<in> set strings. small s) \<longrightarrow> never_fails m'
        \<and> (\<not> r \<longrightarrow> bad = Some (i + k) \<and> k < length names \<and> refused (names ! k) (strings ! k) bm em d
             \<and> live m' = live m + gblocks new + 1))))"

lemma load_result_step:
  assumes t: "loaded bm em (name, str) t" and tpl: "elems tpl1 = elems tpl @ [t]" and m: "live m1 = live m + tpl_blocks t"
    and nf: "never_fails m \<and> small str \<and> length (elems tpl) < 2 ^ 50 \<longrightarrow> never_fails m1"
    and r: "load_result bm em names strings (Suc i) tpl1 m1 res"
  shows "load_result bm em (name # names) (str # strings) i tpl m res"
proof -
  obtain r bad d tpl' m' where res: "res = (r, bad, d, tpl', m')" by (cases res)
  obtain new k where n: "elems tpl' = elems tpl1 @ new" "list_all2 (loaded bm em) (take k (zip names strings)) new" "k \<le> length names"
      "if r then k = length names \<and> bad = None \<and> d = None \<and> live m' = live m1 + gblocks new
       else live m1 + gblocks new + of_bool (d \<noteq> None) \<le> live m'"
      "never_fails m1 \<and> length (elems tpl1) + length names < 2 ^ 50 \<and> (\<forall>s \<in> set strings. small s) \<longrightarrow> never_fails m'
        \<and> (\<not> r \<longrightarrow> bad = Some (Suc i + k) \<and> k < length names \<and> refused (names ! k) (strings ! k) bm em d
             \<and> live m' = live m1 + gblocks new + 1)"
    using r unfolding load_result_def res prod.case by blast
  have "gblocks (t # new) = tpl_blocks t + gblocks new" by (simp add: gblocks_def)
  then show ?thesis
    unfolding load_result_def res prod.case
    using r n t tpl m nf by (intro conjI exI [of _ "t # new"] exI [of _ "Suc k"]) (auto simp: res load_result_def split: if_splits)
qed

lemma loaded_outcome:
  assumes out: "load_outcome str bm em name m (ec, Some t, d, m')" and nn: "no_nul str" "bm \<noteq> []" "em \<noteq> []" and nm: "\<not> mist_name_is_bad name"
  shows "loaded bm em (name, str) t" "ec = MIST_OK" "d = None" "live m' = live m + tpl_blocks t"
proof -
  obtain T where T: "reads str bm em (Inr T)" "rep_t T t" "t_name t = name" and r: "ec = MIST_OK" "d = None" "live m' = live m + tpl_blocks t"
    using out unfolding load_outcome_def by auto
  have "tree_of t = T" using rep_tree_of(1) [OF T(2)] .
  then show "loaded bm em (name, str) t" using T nm reads_tree(1) [OF T(1) nn] by (auto simp: loaded_def parsed_def tree_within_def)
  show "ec = MIST_OK" "d = None" "live m' = live m + tpl_blocks t" by (fact r)+
qed

lemma load_templates_returns:
  assumes ms: "bm \<noteq> []" "em \<noteq> []"
  shows "grar_ok tpl \<Longrightarrow> length strings = length names \<Longrightarrow> \<forall>s \<in> set strings. no_nul s \<Longrightarrow> \<forall>n \<in> set names. small n \<Longrightarrow>
    returns (load_templates m tpl i names strings bm em) (load_result bm em names strings i tpl m)"
proof (induction names arbitrary: strings m tpl i)
  case Nil
  then show ?case by (simp add: load_result_def gblocks_def)
next
  case (Cons name names)
  obtain str strings' where st: "strings = str # strings'" using Cons.prems(2) by (cases strings) auto
  have hyp: "no_nul str" "small name" using Cons.prems(3,4) st by simp_all
  have stop: "load_result bm em (name # names) (str # strings') i tpl m (False, bad, d, tpl', m')"
    if "grar_ok tpl'" "elems tpl' = elems tpl" "live m + of_bool (d \<noteq> None) \<le> live m'"
      "never_fails m \<and> small str \<and> length (elems tpl) < 2 ^ 50 \<longrightarrow> never_fails m' \<and> bad = Some i \<and> refused name str bm em d \<and> live m' = live m + 1"
    for bad d tpl' m'
    using that unfolding load_result_def prod.case by (intro conjI exI [of _ "[]"] exI [of _ 0]) (auto simp: gblocks_def)
  show ?case
  proof (cases "mist_name_is_bad name")
    case True
    have "returns (alloc_message m (length errInvalidTemplateName + length name + 1) errInvalidTemplateName [ArgS name]) (\<lambda>(d, m').
        live m' = live m + of_bool (d \<noteq> None) \<and> (d = None \<or> d = Some (format_string errInvalidTemplateName [ArgS name]))
        \<and> (never_fails m \<and> length errInvalidTemplateName + length name + 1 \<le> PTRDIFF_MAX \<longrightarrow> never_fails m' \<and> d \<noteq> None))"
      by (rule alloc_message_returns) simp
    moreover have "length errInvalidTemplateName + length name + 1 \<le> PTRDIFF_MAX"
      using hyp(2) by (simp add: errInvalidTemplateName_def small_def PTRDIFF_MAX_def)
    ultimately show ?thesis
      using True Cons.prems(1) unfolding st by (auto simp: refused_def intro!: stop elim!: returns_mono)
  next
    case False
    obtain ec tp d m1 where f: "mist_template_from_string m name str bm em = Some (ec, tp, d, m1)" "load_outcome str bm em name m (ec, tp, d, m1)"
      using template_from_string_returns [OF hyp(1) ms False hyp(2), of m] by (auto simp: returns_iff)
    show ?thesis
    proof (cases tp)
      case None
      have "ec \<noteq> MIST_OK" "live m + of_bool (d \<noteq> None) \<le> live m1"
          "never_fails m \<and> small str \<longrightarrow> never_fails m1 \<and> refused name str bm em d \<and> live m1 = live m + 1"
        using f(2) None False unfolding load_outcome_def refused_def by (auto simp: refused_def)
      then show ?thesis using False f(1) None Cons.prems(1) unfolding st by (auto intro!: stop)
    next
      case (Some t)
      have l: "loaded bm em (name, str) t" "ec = MIST_OK" "d = None" "live m1 = live m + tpl_blocks t"
        using loaded_outcome [OF f(2) [unfolded Some] hyp(1) ms False] by simp_all
      have nf: "never_fails m \<and> small str \<longrightarrow> never_fails m1" using f(2) unfolding load_outcome_def by auto
      obtain r tpl1 m2 where a: "grar_add_element m1 tpl t = Some (r, tpl1, m2)" "grar_ok tpl1" "live m2 = live m1"
          "if r then elems tpl1 = elems tpl @ [t] else tpl1 = tpl" "never_fails m1 \<and> small (elems tpl) \<longrightarrow> r \<and> never_fails m2"
        using grar_add_element_ok [OF Cons.prems(1), of m1 t] by (auto simp: returns_iff)
      show ?thesis
      proof (cases r)
        case False
        then have "load_result bm em (name # names) (str # strings') i tpl m (False, None, None, tpl, mist_template_destroy m2 t)"
          using a l(4) nf Cons.prems(1) by (intro stop) (auto simp: destroy_live small_def)
        then show ?thesis using \<open>\<not> mist_name_is_bad name\<close> f(1) Some l(1-3) a(1,4) False unfolding st by (simp add: loaded_def)
      next
        case True
        have "returns (load_templates m2 tpl1 (Suc i) names strings' bm em) (load_result bm em names strings' (Suc i) tpl1 m2)"
          by (rule Cons.IH) (use a Cons.prems st in auto)
        then have "returns (load_templates m2 tpl1 (Suc i) names strings' bm em) (load_result bm em (name # names) (str # strings') i tpl m)"
          by (rule returns_mono) (rule load_result_step [OF l(1)], use a l True nf in \<open>auto simp: small_def\<close>)
        then show ?thesis using \<open>\<not> mist_name_is_bad name\<close> f(1) Some l a True unfolding st by (simp add: loaded_def)
      qed
    qed
  qed
qed

section \<open>Attributes\<close>

text \<open>An attribute that has no values yet.\<close>

definition attribute :: "CMistTemplate \<Rightarrow> bool" where
  "attribute t \<longleftrightarrow> grar_ok (t_vals t) \<and> elems (t_vals t) = [] \<and> grar_ok (t_sch t) \<and> elems (t_sch t) = []
     \<and> grar_ok (t_ph t) \<and> elems (t_ph t) = [] \<and> \<not> t_is_evaluated t"

lemma attribute_connect:
  assumes "attribute t"
  shows "mist_tg_connect_templates_for_template bs tpl t = Some t" "connected n (Attr [[]]) t t"
proof -
  obtain c where "t_ph t = Grar [] c" using assms by (cases "t_ph t") (simp add: attribute_def)
  then show "mist_tg_connect_templates_for_template bs tpl t = Some t" by (cases t) simp
  show "connected n (Attr [[]]) t t" using assms by (auto simp: connected_def attribute_def wf_t_eq abs_t_eq)
qed

definition attrs_result :: "CMistTemplate grar \<Rightarrow> string list \<Rightarrow> mem \<Rightarrow> EMistErrorCode \<times> CMistTemplate grar \<times> mem \<Rightarrow> bool" where
  "attrs_result tpl names m res \<longleftrightarrow> (case res of (ec, tpl', m') \<Rightarrow> grar_ok tpl' \<and> (\<exists>as. elems tpl' = elems tpl @ as
     \<and> (\<forall>a \<in> set as. attribute a) \<and> live m' = live m + gblocks as
     \<and> (ec = MIST_OK \<and> map t_name as = remdups_adj names \<or> ec = MIST_OUT_OF_MEMORY))
     \<and> (never_fails m \<and> (\<forall>n \<in> set names. small n) \<and> length (elems tpl) + length names < 2 ^ 50 \<longrightarrow> never_fails m' \<and> ec = MIST_OK))"

lemma add_attr_templates_returns:
  "grar_ok tpl \<Longrightarrow> \<forall>n \<in> set names. \<not> mist_name_is_bad n \<Longrightarrow> returns (add_attr_templates m tpl names) (attrs_result tpl names m)"
proof (induction m tpl names rule: add_attr_templates.induct)
  case (1 m tpl)
  then show ?case by (simp add: attrs_result_def gblocks_def)
next
  case (2 m tpl a as)
  have stop: "attrs_result tpl (a # as) m (MIST_OUT_OF_MEMORY, tpl, m')"
    if "live m' = live m" "\<not> (never_fails m \<and> small a \<and> length (elems tpl) < 2 ^ 50)" for m'
    using that 2(2) unfolding attrs_result_def prod.case by (auto simp: gblocks_def intro!: exI [of _ "[]"])
  obtain tp m1 where c: "mist_template_create m a = Some (tp, m1)"
      "case tp of None \<Rightarrow> live m1 = live m | Some t \<Rightarrow> live m1 = live m + tpl_blocks t \<and> t_name t = a \<and> attribute t"
      "never_fails m \<and> small a \<longrightarrow> never_fails m1 \<and> tp \<noteq> None"
    using template_create_returns [of a m] 2(3) by (auto simp: returns_iff attribute_def split: option.splits)
  show ?case
  proof (cases tp)
    case None
    then show ?thesis using c by (auto intro!: stop)
  next
    case (Some t)
    then have t: "live m1 = live m + tpl_blocks t" "t_name t = a" "attribute t" using c(2) by auto
    obtain r tpl1 m2 where g: "grar_add_element m1 tpl t = Some (r, tpl1, m2)" "grar_ok tpl1" "live m2 = live m1"
        "if r then elems tpl1 = elems tpl @ [t] else tpl1 = tpl" "never_fails m1 \<and> small (elems tpl) \<longrightarrow> r \<and> never_fails m2"
      using grar_add_element_ok [OF 2(2), of m1 t] by (auto simp: returns_iff)
    show ?thesis
    proof (cases r)
      case False
      have "attrs_result tpl (a # as) m (MIST_OUT_OF_MEMORY, tpl, mist_template_destroy m2 t)"
        by (rule stop) (use g t c(3) False in \<open>auto simp: destroy_live small_def\<close>)
      then show ?thesis using c(1) Some g(1,4) False by simp
    next
      case True
      define rest where "rest = dropWhile (\<lambda>b. strcmp (t_name t) b = 0) as"
      have rest: "rest = dropWhile (\<lambda>b. b = a) as" "set rest \<subseteq> set as" "length rest \<le> length as"
        using t(2) by (auto simp: rest_def length_dropWhile_le dest: set_dropWhileD intro!: dropWhile_cong)
      have ih: "returns (add_attr_templates m2 tpl1 rest) (attrs_result tpl1 rest m2)"
        using 2(1) [of "(tp, m1)" tp m1 t "(r, tpl1, m2)" r "(tpl1, m2)" tpl1 m2] c(1) Some g(1,2) True 2(3) rest(2) unfolding rest_def by auto
      have "attrs_result tpl (a # as) m res" if rr: "attrs_result tpl1 rest m2 res" for res
      proof -
        obtain ec tpl' m' where res: "res = (ec, tpl', m')" by (cases res)
        obtain us where b: "grar_ok tpl'" "elems tpl' = elems tpl1 @ us" "\<forall>a \<in> set us. attribute a" "live m' = live m2 + gblocks us"
            "ec = MIST_OK \<and> map t_name us = remdups_adj rest \<or> ec = MIST_OUT_OF_MEMORY"
            "never_fails m2 \<and> (\<forall>n \<in> set rest. small n) \<and> length (elems tpl1) + length rest < 2 ^ 50 \<longrightarrow> never_fails m' \<and> ec = MIST_OK"
          using rr unfolding attrs_result_def res prod.case by blast
        have "remdups_adj (a # as) = a # remdups_adj rest" by (simp add: rest(1) remdups_adj_Cons')
        moreover have "never_fails m \<and> (\<forall>n \<in> set (a # as). small n) \<and> length (elems tpl) + length (a # as) < 2 ^ 50 \<longrightarrow> never_fails m' \<and> ec = MIST_OK"
          using b(6) c(3) g(4,5) rest(2,3) True by (auto simp: small_def)
        ultimately show ?thesis
          unfolding attrs_result_def res prod.case
          using b(1-5) g t True by (intro conjI exI [of _ "t # us"]) (auto simp: gblocks_def)
      qed
      from returns_mono [OF ih this] show ?thesis using c(1) Some g(1) True by (simp add: rest_def)
    qed
  qed
qed


section \<open>Sorting and searching\<close>

text \<open>The promises of the C library for the two kinds of arrays of a group.\<close>

locale group_libc = tp: libc_search qs bs + st: libc_search qstr bstr
  for qs :: "CMistTemplate qsort" and bs :: "CMistTemplate bsearch" and qstr :: "string qsort" and bstr :: "string bsearch"
begin

lemma template_orders: "orders_by (by_value mist_template_compare) (\<lambda>x y. strcmp (t_name x) (t_name y))"
proof -
  have "mist_template_compare = (\<lambda>x y. strcmp (t_name x) (t_name y))" by (intro ext) (simp add: mist_template_compare_def)
  then show ?thesis using tp.by_value_orders [OF tp.strcmp_key_consistent, of t_name] by simp
qed

lemma string_orders: "orders_by (by_value grar_string_compare) strcmp"
proof -
  have "grar_string_compare = (\<lambda>x y. strcmp x y)" by (intro ext) (simp add: grar_string_compare_def)
  then show ?thesis using st.by_value_orders [OF st.strcmp_key_consistent, of "\<lambda>x. x"] by simp
qed

lemma sort_templates:
  assumes "grar_ok tpl"
  defines "tpl' \<equiv> grar_sort qs tpl (by_value mist_template_compare)"
  shows "grar_ok tpl'" "mset (elems tpl') = mset (elems tpl)" "sorted (map t_name (elems tpl'))" "set (elems tpl') = set (elems tpl)"
  using assms tp.qsort_mset [OF template_orders, of "elems tpl"] tp.qsort_by_key_sorted [OF template_orders, of "elems tpl"]
    tp.qsort_length [OF template_orders, of "elems tpl"] tp.qsort_set [OF template_orders, of "elems tpl"]
  by (simp_all add: grar_sort_def grar_ok_def grar_inv_def)

lemma sort_strings:
  "mset (elems (grar_string_sort qstr g)) = mset (elems g)" "sorted (elems (grar_string_sort qstr g))"
  using st.qsort_mset [OF string_orders, of "elems g"] st.qsort_by_key_sorted [of _ "\<lambda>x. x", OF string_orders, of "elems g"]
  by (simp_all add: grar_string_sort_def grar_sort_def)

lemma find_sorted:
  assumes "sorted (map t_name (elems tpl))"
  shows "missing bs tpl n \<longleftrightarrow> n \<notin> t_name ` set (elems tpl)"
    and "n \<in> t_name ` set (elems tpl) \<Longrightarrow> present bs tpl n \<and> t_name (elems tpl ! index_of bs tpl n) = n"
proof -
  have "mist_template_compare (fake_template n) = (\<lambda>y. strcmp n (t_name y))"
    by (intro ext) (simp add: mist_template_compare_def fake_template_def)
  then have f: "case bs (mist_template_compare (fake_template n)) (elems tpl) of
      None \<Rightarrow> n \<notin> t_name ` set (elems tpl) | Some i \<Rightarrow> i < length (elems tpl) \<and> t_name (elems tpl ! i) = n"
    using tp.find_by_key [OF assms, of n] by simp
  then show "missing bs tpl n \<longleftrightarrow> n \<notin> t_name ` set (elems tpl)"
    by (auto simp: missing_def find_template_def grar_find_def split: option.splits)
  show "present bs tpl n \<and> t_name (elems tpl ! index_of bs tpl n) = n" if "n \<in> t_name ` set (elems tpl)"
    using f that by (auto simp: present_def missing_def index_of_def find_template_def grar_find_def split: option.splits)
qed

end

interpretation group_ref: group_libc ref_qsort ref_bsearch ref_qsort ref_bsearch
  by unfold_locales

section \<open>Attributes of a group\<close>

definition group_names :: "CMistTemplate list \<Rightarrow> string list" where
  "group_names ts = concat (map names_in ts)"

lemma group_names_mset: "mset ts = mset ts' \<Longrightarrow> mset (group_names ts) = mset (group_names ts')"
  unfolding group_names_def mset_concat by (metis mset_map map_map sum_mset_sum_list)

lemma collect_templates_returns:
  "\<forall>t \<in> set ts. parsed t \<Longrightarrow> grar_ok attrs \<Longrightarrow>
     returns (collect_templates bs tpl m ts attrs) (collected bs tpl (group_names ts) m attrs)"
proof (induction ts arbitrary: attrs m)
  case Nil
  then show ?case by (simp add: collected_def group_names_def)
next
  case (Cons t ts)
  have "returns (mist_tg_collect_attrs_for_template bs tpl m t attrs) (collected bs tpl (names_in t) m attrs)"
    unfolding names_in_def using Cons.prems by (intro collect_tree(1)) (auto simp: parsed_def)
  then show ?case
    using collected_then [of _ bs tpl "names_in t" m attrs "\<lambda>attrs m. collect_templates bs tpl m ts attrs" "group_names ts"]
      Cons.IH Cons.prems by (simp add: group_names_def)
qed

lemma sorted_remdups_adj_distinct: "sorted (xs :: string list) \<Longrightarrow> distinct (remdups_adj xs)"
  by (induction xs rule: remdups_adj.induct) (auto dest: order.antisym)

text \<open>What \<open>mist_tg_create_attrs\<close> adds to the templates: an attribute for each name that is no template's.\<close>

definition attrs_of :: "CMistTemplate list \<Rightarrow> CMistTemplate list \<Rightarrow> bool" where
  "attrs_of ts as \<longleftrightarrow> (\<forall>a \<in> set as. attribute a) \<and> distinct (map t_name as)
     \<and> t_name ` set as = set (group_names ts) - t_name ` set ts"

definition create_attrs_result :: "CMistTemplate grar \<Rightarrow> mem \<Rightarrow> EMistErrorCode \<times> CMistTemplate grar \<times> mem \<Rightarrow> bool" where
  "create_attrs_result tpl m res \<longleftrightarrow> (case res of (ec, tpl', m') \<Rightarrow> grar_ok tpl' \<and> (\<exists>as.
     mset (elems tpl') = mset (elems tpl) + mset as \<and> live m' = live m + gblocks as
     \<and> (ec = MIST_OK \<and> attrs_of (elems tpl) as \<or> ec = MIST_OUT_OF_MEMORY))
     \<and> (never_fails m \<and> (\<forall>n \<in> set (group_names (elems tpl)). small n)
          \<and> length (elems tpl) + length (group_names (elems tpl)) < 2 ^ 50 \<longrightarrow> never_fails m' \<and> ec = MIST_OK))"

context group_libc
begin

lemma attr_names:
  assumes g: "elems g = filter (missing bs tpl) ns" and s: "sorted (map t_name (elems tpl))"
    and names: "names = elems (if elems g \<noteq> [] then grar_string_sort qstr g else g)"
  shows "set names = set ns - t_name ` set (elems tpl)" "distinct (remdups_adj names)" "length names \<le> length ns"
proof -
  have m: "mset names = mset (elems g)" "sorted names" using sort_strings [of g] unfolding names by (auto split: if_splits)
  show "set names = set ns - t_name ` set (elems tpl)"
    using arg_cong [OF m(1), of set_mset] find_sorted(1) [OF s] by (auto simp: g)
  show "distinct (remdups_adj names)" using m(2) by (rule sorted_remdups_adj_distinct)
  show "length names \<le> length ns" using arg_cong [OF m(1), of size] length_filter_le [of "missing bs tpl" ns] unfolding g size_mset by simp
qed

lemma create_attrs_returns:
  assumes tpl: "grar_ok tpl" "elems tpl \<noteq> []" "\<forall>t \<in> set (elems tpl). parsed t"
  shows "returns (mist_tg_create_attrs qs qstr bs m tpl) (create_attrs_result tpl m)"
proof -
  define tp where "tp = grar_sort qs tpl (by_value mist_template_compare)"
  note so = sort_templates [OF tpl(1), folded tp_def]
  have ne: "elems tp \<noteq> []" "\<forall>t \<in> set (elems tp). parsed t" using so(4) tpl by auto
  have len: "length (elems tp) = length (elems tpl)" using so(2) by (metis size_mset)
  define ns where "ns = group_names (elems tp)"
  have ns: "mset ns = mset (group_names (elems tpl))" unfolding ns_def by (rule group_names_mset [OF so(2)])
  have ns': "set ns = set (group_names (elems tpl))" "length ns = length (group_names (elems tpl))"
    using arg_cong [OF ns, of set_mset] arg_cong [OF ns, of size] by simp_all
  have stop: "create_attrs_result tpl m (MIST_OUT_OF_MEMORY, tp, m')"
    if "live m' = live m" "never_fails m \<and> length (elems tpl) + length (group_names (elems tpl)) < 2 ^ 50 \<longrightarrow> False" for m'
    using that so unfolding create_attrs_result_def prod.case by (auto simp: gblocks_def intro!: exI [of _ "[]"])
  obtain ga :: "string grar option" and m1 where c: "grar_create m = (ga, m1)" by fastforce
  note c' = grar_create_ok [OF c]
  show ?thesis
  proof (cases ga)
    case None
    then have "create_attrs_result tpl m (MIST_OUT_OF_MEMORY, tp, m1)" by (intro stop) (use c' in auto)
    then show ?thesis using c None by (simp add: mist_tg_create_attrs_def tp_def [symmetric])
  next
    case (Some g)
    obtain ec g1 m2 where e: "collect_templates bs tp m1 (elems tp) g = Some (ec, g1, m2)" "collected bs tp ns m1 g (ec, g1, m2)"
      using collect_templates_returns [OF ne(2), of g bs tp m1] c' Some by (auto simp: returns_iff ns_def)
    have g1: "grar_ok g1" "live m2 = live m + 1" "ec = MIST_OK \<and> elems g1 = filter (missing bs tp) ns \<or> ec = MIST_OUT_OF_MEMORY"
        "never_fails m \<and> length ns < 2 ^ 50 \<longrightarrow> never_fails m2 \<and> ec = MIST_OK"
      using e(2) c' Some by (auto simp: collected_def)
    show ?thesis
    proof (cases "ec = MIST_OK")
      case False
      have "live (snd (grar_destroy m2 g1)) = live m" using g1(1,2) by (simp add: grar_destroy_effect)
      then have "create_attrs_result tpl m (ec, tp, snd (grar_destroy m2 g1))"
        using False g1(3,4) ns'(2) stop by auto
      then show ?thesis using c Some ne e(1) False by (simp add: mist_tg_create_attrs_def tp_def [symmetric])
    next
      case True
      define g2 where "g2 = (if elems g1 \<noteq> [] then grar_string_sort qstr g1 else g1)"
      define names where "names = elems g2"
      have nm: "set names = set ns - t_name ` set (elems tp)" "distinct (remdups_adj names)" "length names \<le> length ns"
        using attr_names [OF _ so(3), of g1 ns names] g1(3) True by (auto simp: names_def g2_def)
      have "n \<in> set ns \<Longrightarrow> \<not> mist_name_is_bad n" for n
        using ne(2) tree_ok_names(1) by (auto simp: ns_def group_names_def names_in_def parsed_def)
      then have ad: "returns (add_attr_templates m2 tp names) (attrs_result tp names m2)"
        using nm(1) so(1) by (intro add_attr_templates_returns) auto
      have "create_attrs_result tpl m (ec', tp', snd (grar_destroy m3 g2))" if r: "attrs_result tp names m2 (ec', tp', m3)" for ec' tp' m3
      proof -
        obtain as where as: "grar_ok tp'" "elems tp' = elems tp @ as" "\<forall>a \<in> set as. attribute a" "live m3 = live m2 + gblocks as"
            "ec' = MIST_OK \<and> map t_name as = remdups_adj names \<or> ec' = MIST_OUT_OF_MEMORY"
            "never_fails m2 \<and> (\<forall>n \<in> set names. small n) \<and> length (elems tp) + length names < 2 ^ 50 \<longrightarrow> never_fails m3 \<and> ec' = MIST_OK"
          using r unfolding attrs_result_def prod.case by blast
        have "attrs_of (elems tpl) as" if e: "map t_name as = remdups_adj names"
        proof -
          have "t_name ` set as = set names" using arg_cong [OF e, of set] unfolding set_map by simp
          then show ?thesis using e as(3) nm(1,2) ns'(1) so(4) by (simp add: attrs_of_def)
        qed
        moreover have "live (snd (grar_destroy m3 g2)) = live m + gblocks as"
          using as(4) g1(1,2) by (simp add: g2_def grar_string_sort_def grar_sort_def grar_blocks_def grar_ok_def grar_inv_def)
        ultimately show ?thesis
          using as nm ns' g1(4) so(2) len unfolding create_attrs_result_def prod.case
          by (intro conjI exI [of _ as]) (auto simp: never_fails_def)
      qed
      then show ?thesis using c Some ne e(1) True ad
        by (auto simp: mist_tg_create_attrs_def tp_def [symmetric] g2_def [symmetric] names_def [symmetric] Let_def returns_iff)
    qed
  qed
qed

end

section \<open>The finished group\<close>

text \<open>The meaning of a template that has been loaded or made for an attribute, where \<open>ix\<close> gives the indices of the names.\<close>

definition meaning :: "(string \<Rightarrow> nat) \<Rightarrow> CMistTemplate \<Rightarrow> sem" where
  "meaning ix t = (if elems (t_sch t) = [] then Attr [[]] else link_t ix (tree_of t))"

definition indexes :: "(string \<Rightarrow> nat) \<Rightarrow> CMistTemplate list \<Rightarrow> bool" where
  "indexes ix H \<longleftrightarrow> (\<forall>n \<in> t_name ` set H. ix n < length H \<and> t_name (H ! ix n) = n)"

definition grouped :: "CMistTemplate list \<Rightarrow> string \<Rightarrow> CMistTemplateGroup \<Rightarrow> bool" where
  "grouped ts name_main g \<longleftrightarrow> grar_ok (tg_tpl g) \<and> (\<exists>ix as H. attrs_of ts as \<and> mset H = mset ts + mset as
     \<and> sorted (map t_name H) \<and> indexes ix H \<and> list_all2 (\<lambda>t t'. connected (length H) (meaning ix t) t t') H (elems (tg_tpl g))
     \<and> name_main \<in> t_name ` set H \<and> tg_main g = Ref (ix name_main))"

definition finish_result ::
  "string \<Rightarrow> CMistTemplate grar \<Rightarrow> mem \<Rightarrow> CMistTemplateGroup option \<times> string option \<times> mem \<Rightarrow> bool" where
  "finish_result name_main tpl m res \<longleftrightarrow> (case res of (tg, d, m') \<Rightarrow>
     let known = t_name ` set (elems tpl) \<union> set (group_names (elems tpl)) in
     (case tg of
        Some g \<Rightarrow> d = None \<and> grouped (elems tpl) name_main g \<and> live m' = live m + gblocks (elems (tg_tpl g)) - gblocks (elems tpl)
      | None \<Rightarrow> live m' = live m - 2 - gblocks (elems tpl) + of_bool (d \<noteq> None)
          \<and> (d = None \<or> d = Some (format_string errNoMainTemplate [ArgS name_main]) \<and> name_main \<notin> known))
     \<and> (never_fails m \<and> small name_main \<and> (\<forall>n \<in> set (group_names (elems tpl)). small n)
          \<and> length (elems tpl) + length (group_names (elems tpl)) < 2 ^ 50
        \<longrightarrow> never_fails m' \<and> (if name_main \<in> known then tg \<noteq> None else d \<noteq> None)))"

lemma those_map:
  "(\<And>x. x \<in> set xs \<Longrightarrow> \<exists>y. f x = Some y \<and> P x y) \<Longrightarrow> \<exists>ys. those (map f xs) = Some ys \<and> list_all2 P xs ys"
proof (induction xs)
  case (Cons x xs)
  obtain y where "f x = Some y" "P x y" using Cons.prems [of x] by auto
  moreover obtain ys where "those (map f xs) = Some ys" "list_all2 P xs ys" using Cons.IH Cons.prems by (meson list.set_intros(2))
  ultimately show ?case by auto
qed simp

lemma connected_blocks: "list_all2 (\<lambda>t t'. connected n (s t) t t') H H' \<Longrightarrow> gblocks H' = gblocks H"
  by (induction rule: list_all2_induct) (auto simp: gblocks_def connected_def)

lemma gblocks_mset: "mset G = mset H + mset I \<Longrightarrow> gblocks G = gblocks H + gblocks I"
  unfolding gblocks_def by (metis mset_append mset_map sum_list.append sum_mset_sum_list map_append)

lemma tg_destroy_live: "grar_ok tpl \<Longrightarrow> live (mist_tg_destroy_impl m tpl) = live m - 2 - gblocks (elems tpl)"
  using grar_destroy_with_elements_effect [of mist_template_destroy tpl_blocks m tpl] destroy_live
  by (auto simp: mist_tg_destroy_impl_def gblocks_def grar_blocks_def grar_ok_def grar_inv_def)

lemma tg_destroy_never_fails: "never_fails m \<Longrightarrow> never_fails (mist_tg_destroy_impl m tpl)"
  by (simp add: mist_tg_destroy_impl_def grar_destroy_with_elements_def grar_destroy_def foldl_never_fails)

lemma find_template_range: "- 1 \<le> find_template bs tpl n"
  by (simp add: find_template_def grar_find_def split: option.splits)

context group_libc
begin

lemma connect_templates_returns:
  assumes tpl: "grar_ok tpl" "elems tpl \<noteq> []" "sorted (map t_name (elems tpl))"
    and ts: "\<forall>t \<in> set (elems tpl). attribute t \<or> parsed t \<and> set (names_in t) \<subseteq> t_name ` set (elems tpl)"
  shows "\<exists>tpl'. mist_tg_connect_templates bs tpl = Some tpl' \<and> grar_ok tpl'
     \<and> list_all2 (\<lambda>t t'. connected (length (elems tpl)) (meaning (index_of bs tpl) t) t t') (elems tpl) (elems tpl')"
proof -
  have con: "\<exists>t'. mist_tg_connect_templates_for_template bs tpl t = Some t' \<and> connected (length (elems tpl)) (meaning (index_of bs tpl) t) t t'"
    if t: "t \<in> set (elems tpl)" for t
  proof (cases "attribute t")
    case True
    then show ?thesis using attribute_connect [OF True] by (auto simp: meaning_def attribute_def)
  next
    case False
    then have p: "parsed t" "set (names_in t) \<subseteq> t_name ` set (elems tpl)" using ts t by auto
    have "elems (t_sch t) \<noteq> []" using p(1) by (cases "tree_of t") (auto simp: parsed_def rep_t.simps)
    moreover have "\<forall>n \<in> set (tree_names (tree_of t)). present bs tpl n" using p(2) find_sorted(2) [OF tpl(3)] by (auto simp: names_in_def)
    ultimately show ?thesis using connect_tree(1) [of "tree_of t" t bs tpl] p(1) by (auto simp: parsed_def meaning_def)
  qed
  obtain ts' where c: "those (map (mist_tg_connect_templates_for_template bs tpl) (elems tpl)) = Some ts'"
      "list_all2 (\<lambda>t t'. connected (length (elems tpl)) (meaning (index_of bs tpl) t) t t') (elems tpl) ts'"
    using those_map [where f = "mist_tg_connect_templates_for_template bs tpl" and P = "\<lambda>t t'. connected (length (elems tpl)) (meaning (index_of bs tpl) t) t t'", OF con] by blast
  have "length ts' = length (elems tpl)" using list_all2_lengthD [OF c(2)] by simp
  then show ?thesis using c tpl by (auto simp: mist_tg_connect_templates_def grar_ok_def grar_inv_def)
qed

lemma finish_group_found:
  assumes tpl: "grar_ok tpl" "\<forall>t \<in> set (elems tpl). parsed t"
    and t1: "grar_ok tpl1" "mset (elems tpl1) = mset (elems tpl) + mset as" "attrs_of (elems tpl) as"
    and n: "name_main \<in> t_name ` set (elems tpl1)"
  defines "tpl2 \<equiv> grar_sort qs tpl1 (by_value mist_template_compare)"
  shows "\<exists>tpl3. mist_tg_connect_templates bs tpl2 = Some tpl3 \<and> grouped (elems tpl) name_main \<lparr>tg_tpl = tpl3, tg_main = Ref (index_of bs tpl2 name_main)\<rparr>
     \<and> gblocks (elems tpl3) = gblocks (elems tpl1)"
proof -
  note so = sort_templates [OF t1(1), folded tpl2_def]
  have m2: "mset (elems tpl2) = mset (elems tpl) + mset as" using so(2) t1(2) by simp
  have s2: "set (elems tpl2) = set (elems tpl) \<union> set as" using arg_cong [OF m2, of set_mset] by simp
  have "set (names_in t) \<subseteq> t_name ` set (elems tpl2)" if "t \<in> set (elems tpl)" for t
    using that t1(3) s2 by (auto simp: attrs_of_def group_names_def image_Un)
  then have ts: "\<forall>t \<in> set (elems tpl2). attribute t \<or> parsed t \<and> set (names_in t) \<subseteq> t_name ` set (elems tpl2)"
    using tpl(2) t1(3) s2 by (auto simp: attrs_of_def)
  have ne: "elems tpl2 \<noteq> []" using n so(4) by auto
  obtain tpl3 where c: "mist_tg_connect_templates bs tpl2 = Some tpl3" "grar_ok tpl3"
      "list_all2 (\<lambda>t t'. connected (length (elems tpl2)) (meaning (index_of bs tpl2) t) t t') (elems tpl2) (elems tpl3)"
    using connect_templates_returns [OF so(1) ne so(3) ts] by blast
  have "indexes (index_of bs tpl2) (elems tpl2)" using find_sorted(2) [OF so(3)] by (auto simp: indexes_def present_def)
  then have "grouped (elems tpl) name_main \<lparr>tg_tpl = tpl3, tg_main = Ref (index_of bs tpl2 name_main)\<rparr>"
    using c(2,3) m2 so(3,4) t1(3) n unfolding grouped_def
    by (intro conjI exI [of _ "index_of bs tpl2"] exI [of _ as] exI [of _ "elems tpl2"]) auto
  moreover have "gblocks (elems tpl3) = gblocks (elems tpl1)" using connected_blocks [OF c(3)] gblocks_mset [of "elems tpl2" "elems tpl1" "[]"] so(2) by (simp add: gblocks_def)
  ultimately show ?thesis using c(1) by blast
qed

lemma finish_group_returns:
  assumes tpl: "grar_ok tpl" "elems tpl \<noteq> []" "\<forall>t \<in> set (elems tpl). parsed t"
  shows "returns (finish_group qs qstr bs m name_main tpl) (finish_result name_main tpl m)"
proof -
  let ?bound = "never_fails m \<and> small name_main \<and> (\<forall>n \<in> set (group_names (elems tpl)). small n)
    \<and> length (elems tpl) + length (group_names (elems tpl)) < 2 ^ 50"
  have stop: "finish_result name_main tpl m (None, None, m')" if "live m' = live m - 2 - gblocks (elems tpl)" "\<not> ?bound" for m'
    using that unfolding finish_result_def by (auto simp: Let_def)
  obtain ec tpl1 m1 where c: "mist_tg_create_attrs qs qstr bs m tpl = Some (ec, tpl1, m1)" "create_attrs_result tpl m (ec, tpl1, m1)"
    using create_attrs_returns [OF tpl, of m] by (auto simp: returns_iff)
  obtain as where as: "grar_ok tpl1" "mset (elems tpl1) = mset (elems tpl) + mset as" "live m1 = live m + gblocks as"
      "ec = MIST_OK \<and> attrs_of (elems tpl) as \<or> ec = MIST_OUT_OF_MEMORY" "?bound \<longrightarrow> never_fails m1 \<and> ec = MIST_OK"
    using c(2) unfolding create_attrs_result_def prod.case by blast
  have bl: "live m1 - gblocks (elems tpl1) = live m - gblocks (elems tpl)" using as(3) gblocks_mset [OF as(2)] by simp
  show ?thesis
  proof (cases "ec = MIST_OK")
    case False
    have "finish_result name_main tpl m (None, None, mist_tg_destroy_impl m1 tpl1)"
      by (rule stop) (use tg_destroy_live [OF as(1)] bl as(5) False in auto)
    then show ?thesis using c(1) False by (simp add: finish_group_def)
  next
    case True
    define tpl2 where "tpl2 = grar_sort qs tpl1 (by_value mist_template_compare)"
    note so = sort_templates [OF as(1), folded tpl2_def]
    have bl2: "gblocks (elems tpl2) = gblocks (elems tpl1)" using gblocks_mset [of "elems tpl2" "elems tpl1" "[]"] so(2) by (simp add: gblocks_def)
    have known: "t_name ` set (elems tpl2) = t_name ` set (elems tpl) \<union> set (group_names (elems tpl))"
      using as(4) True so(4) arg_cong [OF as(2), of set_mset] by (auto simp: attrs_of_def image_Un)
    obtain s m2 where sd: "strdup m1 name_main = (s, m2)" by fastforce
    note sd' = strdup_effect [OF sd]
    have nf2: "?bound \<longrightarrow> never_fails m2 \<and> s \<noteq> None" using strdup_never_fails [OF _ _ sd] as(5) by (auto simp: small_def PTRDIFF_MAX_def)
    show ?thesis
    proof (cases s)
      case None
      have "finish_result name_main tpl m (None, None, mist_tg_destroy_impl m2 tpl2)"
        by (rule stop) (use tg_destroy_live [OF so(1)] bl bl2 sd' nf2 None in auto)
      then show ?thesis using c(1) True sd None by (simp add: finish_group_def tpl2_def [symmetric])
    next
      case (Some name)
      then have sn: "name = name_main" "live m2 = live m1 + 1" using sd' by auto
      show ?thesis
      proof (cases "name_main \<in> t_name ` set (elems tpl2)")
        case False
        have find: "find_template bs tpl2 name = - 1" using find_sorted(1) [OF so(3)] False by (simp add: missing_def sn(1))
        obtain d m3 where d: "alloc_message (m2) (length errNoMainTemplate + length name_main + 1) errNoMainTemplate [ArgS name_main] = Some (d, m3)"
            "live m3 = live m2 + of_bool (d \<noteq> None)" "d = None \<or> d = Some (format_string errNoMainTemplate [ArgS name_main])"
            "never_fails m2 \<and> length errNoMainTemplate + length name_main + 1 \<le> PTRDIFF_MAX \<longrightarrow> never_fails m3 \<and> d \<noteq> None"
          using alloc_message_returns [of errNoMainTemplate "[ArgS name_main]" "length errNoMainTemplate + length name_main + 1" m2] by (auto simp: returns_iff)
        have "finish_result name_main tpl m (None, d, mist_tg_destroy_impl (free m3) tpl2)"
          using tg_destroy_live [OF so(1), of "free m3"] tg_destroy_never_fails [of "free m3" tpl2] bl bl2 sn d nf2 False known unfolding finish_result_def
          by (auto simp: errNoMainTemplate_def small_def PTRDIFF_MAX_def Let_def)
        then show ?thesis using c(1) True sd Some find d(1) by (simp add: finish_group_def tpl2_def [symmetric])
      next
        case in2: True
        then have n1: "name_main \<in> t_name ` set (elems tpl1)" using so(4) by simp
        obtain tpl3 where g: "mist_tg_connect_templates bs tpl2 = Some tpl3"
            "grouped (elems tpl) name_main \<lparr>tg_tpl = tpl3, tg_main = Ref (index_of bs tpl2 name_main)\<rparr>" "gblocks (elems tpl3) = gblocks (elems tpl1)"
          using finish_group_found [OF tpl(1,3) as(1,2) _ n1] as(4) True unfolding tpl2_def by auto
        have find: "\<not> find_template bs tpl2 name < 0" "nat (find_template bs tpl2 name) < length (elems tpl2)"
          using find_sorted(2) [OF so(3) in2] find_template_range [of bs tpl2 name] by (auto simp: present_def missing_def index_of_def sn(1))
        have "finish_result name_main tpl m (Some \<lparr>tg_tpl = tpl3, tg_main = Ref (index_of bs tpl2 name_main)\<rparr>, None, free m2)"
          using g(2,3) bl sn(2) nf2 in2 known unfolding finish_result_def by (auto simp: Let_def)
        then show ?thesis using c(1) True sd Some find g(1) by (simp add: finish_group_def tpl2_def [symmetric] index_of_def sn(1) Let_def)
      qed
    qed
  qed
qed

end

section \<open>The specification of a group\<close>

text \<open>
  The group made from the trees \<open>Ts\<close> of the sources with the given names: the templates are sorted by name and
  have no values; there is a template for every source, with the meaning of its tree, and an attribute
  for every name that occurs in a tree and is not the name of a source; every name leads to a template with
  this name; and \<open>name_main\<close> is one of the names.
\<close>

definition group_spec :: "string list \<Rightarrow> tmpl list \<Rightarrow> string \<Rightarrow> CMistTemplateGroup \<Rightarrow> bool" where
  "group_spec names Ts name_main tg \<longleftrightarrow> (\<exists>ix attrs. let G = elems (tg_tpl tg) in
     grar_ok (tg_tpl tg) \<and> wf_group G \<and> sorted (map t_name G)
     \<and> (\<forall>t \<in> set G. elems (t_vals t) = [] \<and> \<not> t_is_evaluated t)
     \<and> distinct attrs \<and> set attrs = \<Union> (set ` tree_names ` set Ts) - set names
     \<and> mset (map (\<lambda>t. (t_name t, abs_t t)) G) = mset (zip names (map (link_t ix) Ts)) + mset (map (\<lambda>n. (n, Attr [[]])) attrs)
     \<and> (\<forall>n \<in> set names \<union> set attrs. ix n < length G \<and> t_name (G ! ix n) = n)
     \<and> name_main \<in> set names \<union> set attrs \<and> tg_main tg = Ref (ix name_main))"

lemma loaded_names: "list_all2 (loaded bm em) (zip names strings) ts \<Longrightarrow> length strings = length names \<Longrightarrow>
    map t_name ts = names \<and> list_all2 (\<lambda>s T. reads s bm em (Inr T)) strings (map tree_of ts) \<and> (\<forall>t \<in> set ts. parsed t) \<and> (\<forall>n \<in> set names. \<not> mist_name_is_bad n)"
proof (induction strings arbitrary: names ts)
  case (Cons s strings)
  obtain n names' t ts' where eq: "names = n # names'" "ts = t # ts'" using Cons.prems by (cases names; cases ts) auto
  have l: "loaded bm em (n, s) t" "list_all2 (loaded bm em) (zip names' strings) ts'" "length strings = length names'" using Cons.prems eq by simp_all
  have "t_name t = n" "parsed t" "\<not> mist_name_is_bad n" "reads s bm em (Inr (tree_of t))" using l(1) unfolding loaded_def fst_conv snd_conv by blast+
  then show ?case unfolding eq using Cons.IH [OF l(2,3)] by auto
qed auto

lemma connected_list:
  assumes "list_all2 (\<lambda>t t'. connected n (mn t) t t') H G"
  shows "map t_name G = map t_name H" "map (\<lambda>t. (t_name t, abs_t t)) G = map (\<lambda>t. (t_name t, mn t)) H" "\<forall>t \<in> set G. wf_t n t"
    "\<forall>t \<in> set G. \<exists>t' \<in> set H. t_vals t = t_vals t' \<and> t_is_evaluated t = t_is_evaluated t'"
proof -
  show "map t_name G = map t_name H" using assms by (induction rule: list_all2_induct) (simp_all add: connected_def)
  show "map (\<lambda>t. (t_name t, abs_t t)) G = map (\<lambda>t. (t_name t, mn t)) H" using assms by (induction rule: list_all2_induct) (simp_all add: connected_def)
  show "\<forall>t \<in> set G. wf_t n t" using assms by (induction rule: list_all2_induct) (simp_all add: connected_def)
  show "\<forall>t \<in> set G. \<exists>t' \<in> set H. t_vals t = t_vals t' \<and> t_is_evaluated t = t_is_evaluated t'"
    using assms by (induction rule: list_all2_induct) (simp_all add: connected_def)
qed

lemma grouped_spec:
  assumes g: "grouped ts name_main tg" and ts: "\<forall>t \<in> set ts. parsed t"
  shows "group_spec (map t_name ts) (map tree_of ts) name_main tg"
proof -
  obtain ix as H where h: "grar_ok (tg_tpl tg)" "attrs_of ts as" "mset H = mset ts + mset as" "sorted (map t_name H)" "indexes ix H"
      "list_all2 (\<lambda>t t'. connected (length H) (meaning ix t) t t') H (elems (tg_tpl tg))" "name_main \<in> t_name ` set H" "tg_main tg = Ref (ix name_main)"
    using g unfolding grouped_def by blast
  define G where "G = elems (tg_tpl tg)"
  note c = connected_list [OF h(6), folded G_def]
  have sH: "set H = set ts \<union> set as" using arg_cong [OF h(3), of set_mset] by simp
  have len: "length G = length H" using list_all2_lengthD [OF h(6)] by (simp add: G_def)
  have at: "attribute a" if "a \<in> set as" for a using h(2) that by (simp add: attrs_of_def)
  have "elems (t_vals t) = [] \<and> \<not> t_is_evaluated t" if "t \<in> set H" for t
    using that sH ts at parsed_facts by (auto simp: attribute_def)
  then have c4: "\<forall>t \<in> set G. elems (t_vals t) = [] \<and> \<not> t_is_evaluated t" using c(4) by metis
  have mt: "map (\<lambda>t. (t_name t, meaning ix t)) ts = zip (map t_name ts) (map (link_t ix) (map tree_of ts))"
  proof -
    have "meaning ix t = link_t ix (tree_of t)" if "t \<in> set ts" for t
      using ts that by (cases "tree_of t") (auto simp: meaning_def parsed_def rep_t.simps)
    then show ?thesis by (simp add: zip_map_map comp_def zip_same_conv_map)
  qed
  have ma: "map (\<lambda>t. (t_name t, meaning ix t)) as = map (\<lambda>n. (n, Attr [[]])) (map t_name as)"
    using at by (auto simp: meaning_def attribute_def)
  have "mset (map (\<lambda>t. (t_name t, abs_t t)) G) = mset (zip (map t_name ts) (map (link_t ix) (map tree_of ts)))
      + mset (map (\<lambda>n. (n, Attr [[]])) (map t_name as))"
    unfolding c(2) mset_map [of _ H] h(3) image_mset_union unfolding mset_map [symmetric] mt ma ..
  moreover have "set (map t_name as) = \<Union> (set ` tree_names ` set (map tree_of ts)) - set (map t_name ts)"
    using h(2) by (simp add: attrs_of_def group_names_def names_in_def image_image)
  moreover have "ix n < length G \<and> t_name (G ! ix n) = n" if "n \<in> set (map t_name ts) \<union> set (map t_name as)" for n
  proof -
    have "ix n < length H" "t_name (H ! ix n) = n" using that h(5) sH by (auto simp: indexes_def)
    then show ?thesis using len nth_map [of "ix n" H t_name] nth_map [of "ix n" G t_name] c(1) by simp
  qed
  moreover have "wf_group G" "sorted (map t_name G)" using c(3) len h(4) c(1) by (simp_all add: wf_group_def)
  moreover have "distinct (map t_name as)" "name_main \<in> set (map t_name ts) \<union> set (map t_name as)"
    using h(2,7) sH by (auto simp: attrs_of_def)
  ultimately show ?thesis
    unfolding group_spec_def Let_def G_def [symmetric]
    using h(1,8) c4 by (intro exI [of _ ix] exI [of _ "map t_name as"] conjI ballI) (fact | simp)+
qed

end
