(* ===== verification/Mist_Print.thy ===== *)
theory Mist_Print
  imports Mist_Parse
begin

text \<open>
  Writing a tree as the source of a template and reading it back: \<open>print_t\<close> is the inverse of what
  \<open>mist_template_from_string\<close> does, for the trees whose texts and names do not contain the markers and whose
  names are not taken for something else.
\<close>

section \<open>Printing\<close>

text \<open>A backslash is doubled; \<open>unescape\<close> understands more escapes than this.\<close>

primrec escape :: "string \<Rightarrow> string" where
  "escape [] = []"
| "escape (c # s) = (if c = CHR 0x5C then [c, c] else [c]) @ escape s"

definition ph_text :: "string \<Rightarrow> string option \<Rightarrow> string" where
  "ph_text name sep = (case sep of None \<Rightarrow> name | Some w \<Rightarrow> name @ '':join('' @ escape w @ '')'')"

definition if_text :: "string \<Rightarrow> bool \<Rightarrow> string" where
  "if_text name is_concat = ''if '' @ (if is_concat then ''concat('' @ name @ '')'' else name)"

fun print_t :: "string \<Rightarrow> string \<Rightarrow> tmpl \<Rightarrow> string" and print_p :: "string \<Rightarrow> string \<Rightarrow> phx \<Rightarrow> string" where
  "print_t bm em (Tmpl c items) = c @ concat (map (\<lambda>(p, s). p @ s) (zip (map (print_p bm em) (map fst items)) (map snd items)))"
| "print_p bm em (Ph name sep) = bm @ ph_text name sep @ em"
| "print_p bm em (Cond name is_concat T E) =
     bm @ if_text name is_concat @ em @ print_t bm em T @ bm @ ''else'' @ em @ print_t bm em E @ bm @ ''endif'' @ em"

section \<open>Trees that can be printed\<close>

text \<open>The texts between the markers, and the texts around them.\<close>

definition inner :: "string \<Rightarrow> string \<Rightarrow> string \<Rightarrow> bool" where
  "inner bm em s \<longleftrightarrow> \<not> occurs em (butlast (s @ em)) \<and> \<not> occurs bm s"

definition outer :: "string \<Rightarrow> string \<Rightarrow> string \<Rightarrow> bool" where
  "outer bm em s \<longleftrightarrow> \<not> occurs bm (butlast (s @ bm)) \<and> \<not> occurs em s"

definition plain_name :: "string \<Rightarrow> bool" where
  "plain_name name \<longleftrightarrow> \<not> mist_name_is_bad name \<and> trimmed name"

fun printable_t :: "string \<Rightarrow> string \<Rightarrow> tmpl \<Rightarrow> bool" and printable_p :: "string \<Rightarrow> string \<Rightarrow> phx \<Rightarrow> bool" where
  "printable_t bm em (Tmpl c items) \<longleftrightarrow> outer bm em c \<and> (\<forall>s \<in> set (map snd items). outer bm em s) \<and> (\<forall>p \<in> set (map fst items). printable_p bm em p)"
| "printable_p bm em (Ph name sep) \<longleftrightarrow> plain_name name \<and> inner bm em (ph_text name sep)
     \<and> takeWhile (\<lambda>c. \<not> is_ws c) (ph_text name sep) \<notin> {''if'', ''else'', ''endif''}"
| "printable_p bm em (Cond name is_concat T E) \<longleftrightarrow> plain_name name \<and> inner bm em (if_text name is_concat)
     \<and> inner bm em ''else'' \<and> inner bm em ''endif'' \<and> printable_t bm em T \<and> printable_t bm em E"

section \<open>Tokens\<close>

lemma unescape_escape: "unescape (escape w) = w"
  by (induction w) auto

lemma name_chars: "\<not> mist_name_is_bad name \<Longrightarrow> c \<in> set name \<Longrightarrow> c \<noteq> CHR '':'' \<and> c \<noteq> CHR '')''"
  by (auto simp: mist_name_is_bad_def char_is_bad_iff name_char_def)

lemma trimmed_trim: "trimmed s \<Longrightarrow> trim s = s"
  by (cases s) (auto simp: trim_def trimmed_def rtrim_id)

lemma ph_text_trimmed: "plain_name name \<Longrightarrow> trimmed (ph_text name sep)"
  by (auto simp: ph_text_def plain_name_def trimmed_def is_ws_def wspace_def split: option.splits)

lemma ph_expr_text:
  assumes "plain_name name"
  shows "ph_expr (ph_text name sep) = Some (name, sep)"
proof (cases sep)
  case None
  have "strchr name (CHR '':'') = None" using assms name_chars by (auto simp: plain_name_def strchr_None)
  then show ?thesis using None assms by (simp add: ph_expr_def ph_text_def plain_name_def trimmed_trim)
next
  case (Some w)
  have "trim (ph_text name sep) = ph_text name sep" using ph_text_trimmed [OF assms] by (rule trimmed_trim)
  moreover have "strchr (ph_text name sep) (CHR '':'') = Some (length name)"
  proof -
    have "\<not> occurs '':'' name" using assms name_chars by (fastforce simp: plain_name_def occurs_def)
    then show ?thesis unfolding strchr_def by (subst strstr_Some_iff, simp, intro exI [of _ name] exI [of _ "''join('' @ escape w @ '')''"]) (simp add: ph_text_def Some butlast_append)
  qed
  moreover have "trim (''join('' @ escape w @ '')'') = ''join('' @ escape w @ '')''" "trim (''('' @ escape w @ '')'') = ''('' @ escape w @ '')''"
    by (rule trimmed_trim, simp add: trimmed_def is_ws_def wspace_def)+
  ultimately show ?thesis using assms unescape_escape
    by (simp add: ph_expr_def Some ph_text_def plain_name_def trimmed_rtrim Let_def)
qed

lemma if_text_expr:
  fixes name is_concat
  assumes "plain_name name"
  defines "c \<equiv> (if is_concat then ''concat('' @ name @ '')'' else name)"
  shows "if_text name is_concat = ''if '' @ c" "trimmed (if_text name is_concat)" "trimmed c" "cond_expr c = (name, is_concat)"
proof -
  have n: "name \<noteq> []" "trimmed name" "last name \<noteq> CHR '')''"
    using assms(1) name_chars [of name "last name"] by (auto simp: plain_name_def trimmed_def)
  show "if_text name is_concat = ''if '' @ c" by (simp add: if_text_def c_def)
  show "trimmed (if_text name is_concat)" "trimmed c" using n by (auto simp: if_text_def c_def trimmed_def is_ws_def wspace_def)
  show "cond_expr c = (name, is_concat)"
  proof (cases is_concat)
    case True
    have "butlast (drop 6 c) = ''('' @ name" "last c = CHR '')''" "9 \<le> length c" using n(1) by (cases name; simp add: c_def True butlast_append)+
    then show ?thesis using n trimmed_trim [OF n(2)] True by (simp add: cond_expr_def c_def is_ws_def wspace_def Let_def)
  next
    case False
    then show ?thesis using n by (simp add: cond_expr_def c_def)
  qed
qed

lemma ph_token_text:
  assumes "slice src b e = t" "e = b + length t" "trimmed t"
  shows "takeWhile (\<lambda>c. \<not> is_ws c) t \<notin> {''if'', ''else'', ''endif''} \<Longrightarrow> ph_token src b e = Some (token MTT_PH b e)"
    and "t = ''else'' \<Longrightarrow> ph_token src b e = Some (token MTT_ELSE b e)"
    and "t = ''endif'' \<Longrightarrow> ph_token src b e = Some (token MTT_ENDIF b e)"
    and "t = ''if '' @ c \<Longrightarrow> trimmed c \<Longrightarrow> ph_token src b e = Some (token MTT_IF (b + 3) e)"
proof -
  have t: "trim t = t" "takeWhile is_ws t = []" "t \<noteq> []" using assms(3) trimmed_trim by (auto simp: trimmed_def takeWhile_eq_Nil_iff)
  have eq: "ph_token src b e = (let w = takeWhile (\<lambda>c. \<not> is_ws c) t; c = dropWhile is_ws (drop (length w) t) in
      if w = ''if'' then (if c = [] then None else Some (token MTT_IF (e - length c) e))
      else if w = ''else'' then (if w \<noteq> t then None else Some (token MTT_ELSE b e))
      else if w = ''endif'' then (if w \<noteq> t then None else Some (token MTT_ENDIF b e))
      else Some (token MTT_PH b e))"
    unfolding ph_token_def Let_def assms(1) t(1,2) using t(3) assms(2) by simp
  show "ph_token src b e = Some (token MTT_PH b e)" if "takeWhile (\<lambda>c. \<not> is_ws c) t \<notin> {''if'', ''else'', ''endif''}"
    using that by (simp add: eq Let_def)
  show "ph_token src b e = Some (token MTT_ELSE b e)" if "t = ''else''" using that by (simp add: eq is_ws_def wspace_def Let_def)
  show "ph_token src b e = Some (token MTT_ENDIF b e)" if "t = ''endif''" using that by (simp add: eq is_ws_def wspace_def Let_def)
  show "ph_token src b e = Some (token MTT_IF (b + 3) e)" if "t = ''if '' @ c" "trimmed c"
  proof -
    have "dropWhile is_ws c = c" "c \<noteq> []" using that(2) by (cases c; simp add: trimmed_def)+
    moreover have "takeWhile (\<lambda>c. \<not> is_ws c) t = ''if''" "drop 2 t = CHR '' '' # c" "is_ws (CHR '' '')" "e - length c = b + 3"
      using that assms(2) by (simp_all add: is_ws_def wspace_def)
    ultimately show ?thesis unfolding eq Let_def by (simp add: numeral_2_eq_2)
  qed
qed

section \<open>The tokens and the tree of a printed text\<close>

text \<open>The tokens after a chunk that ends at \<open>j\<close>: none at the end of the source, otherwise those of a marked text and what follows it.\<close>

definition follows :: "string \<Rightarrow> string \<Rightarrow> string \<Rightarrow> nat \<Rightarrow> CMistToken list \<Rightarrow> bool" where
  "follows src bm em j us \<longleftrightarrow> us = [] \<and> j = length src
     \<or> (\<exists>ph rest t us'. drop j src = bm @ ph @ em @ rest \<and> inner bm em ph \<and> us = t # us'
          \<and> ph_token src (j + length bm) (j + length bm + length ph) = Some t
          \<and> spelled src bm em (j + length bm + length ph + length em) us')"

definition stops :: "CMistToken list \<Rightarrow> bool" where
  "stops us \<longleftrightarrow> us = [] \<or> tok_type (hd us) = MTT_ELSE \<or> tok_type (hd us) = MTT_ENDIF"

lemma occurs_prefix: "occurs w s \<Longrightarrow> occurs w (s @ v)"
  unfolding occurs_def by (metis append.assoc)

lemma spelled_chunk:
  assumes c: "outer bm em c" and d: "drop i src = c @ rest" and f: "follows src bm em (i + length c) us" and ne: "bm \<noteq> []"
  shows "spelled src bm em i (token MTT_SCH i (i + length c) # us)"
proof -
  have rest: "drop (i + length c) src = rest" using arg_cong [OF d, of "drop (length c)"] by (simp add: add.commute)
  consider (last) "us = []" "i + length c = length src" | (more) ph v t us' where "rest = bm @ ph @ em @ v" "inner bm em ph" "us = t # us'"
      "ph_token src (i + length c + length bm) (i + length c + length bm + length ph) = Some t"
      "spelled src bm em (i + length c + length bm + length ph + length em) us'"
    using f unfolding follows_def rest by blast
  then show ?thesis
  proof cases
    case last
    have "drop i src = c" using d last(2) rest by simp
    moreover have "\<not> occurs bm c" "\<not> occurs em c" using c ne occurs_prefix [of bm c "butlast bm"] by (auto simp: outer_def butlast_append)
    ultimately show ?thesis using spelled.last [of bm i src em] last by simp
  next
    case more
    then show ?thesis using c d by (auto simp: outer_def inner_def intro!: spelled.more)
  qed
qed

lemma follows_marked:
  assumes "drop j src = bm @ ph @ em @ rest" "inner bm em ph" "ph_token src (j + length bm) (j + length bm + length ph) = Some t"
    "spelled src bm em (j + length bm + length ph + length em) us"
  shows "follows src bm em j (t # us)"
  using assms unfolding follows_def by blast

text \<open>A marked text has its token, and the tokens that follow start after its second marker.\<close>

lemma marked_text:
  assumes "drop i src = bm @ t @ em @ rest"
  shows "slice src (i + length bm) (i + length bm + length t) = t" "drop (i + length bm + length t + length em) src = rest"
proof -
  show "slice src (i + length bm) (i + length bm + length t) = t" using slice_of_drop [of i src bm t "em @ rest"] assms by simp
  have "drop (i + length bm + length t + length em) src = drop (length bm + length t + length em) (drop i src)" by (simp add: ac_simps)
  then show "drop (i + length bm + length t + length em) src = rest" using assms by simp
qed

lemma items_read:
  assumes ne: "bm \<noteq> []" and "follows src bm em (i + length (concat (map (\<lambda>(p, s). p @ s) (zip (map (print_p bm em) (map fst items)) (map snd items))))) us"
    and "stops us" and "drop i src = concat (map (\<lambda>(p, s). p @ s) (zip (map (print_p bm em) (map fst items)) (map snd items))) @ rest"
    and "\<forall>s \<in> set (map snd items). outer bm em s"
    and "\<And>p i rest us. p \<in> set (map fst items) \<Longrightarrow> drop i src = print_p bm em p @ rest \<Longrightarrow> spelled src bm em (i + length (print_p bm em p)) us
      \<Longrightarrow> \<exists>ts. follows src bm em i (ts @ us) \<and> pP src (ts @ us) (Inr (p, us))"
  shows "\<exists>ts. follows src bm em i (ts @ us) \<and> pI src (ts @ us) (Inr (items, us))"
  using assms(2-)
proof (induction items arbitrary: i)
  case Nil
  have "pI src us (Inr ([], us))" using Nil(2) by (cases us) (auto simp: stops_def intro: pT_pI_pP.intros)
  then show ?case using Nil(1) by (intro exI [of _ "[]"]) simp
next
  case (Cons it items)
  obtain p s where it: "it = (p, s)" by (cases it)
  define R where "R = concat (map (\<lambda>(p, s). p @ s) (zip (map (print_p bm em) (map fst items)) (map snd items)))"
  define j where "j = i + length (print_p bm em p)"
  have d: "drop i src = print_p bm em p @ s @ R @ rest" using Cons.prems(3) by (simp add: it R_def)
  have dj: "drop j src = s @ R @ rest" using arg_cong [OF d, of "drop (length (print_p bm em p))"] by (simp add: j_def add.commute)
  have dk: "drop (j + length s) src = R @ rest" using arg_cong [OF dj, of "drop (length s)"] by (simp add: add.commute)
  have "follows src bm em (j + length s + length R) us" using Cons.prems(1) by (simp add: it R_def j_def ac_simps)
  then obtain ts where ts: "follows src bm em (j + length s) (ts @ us)" "pI src (ts @ us) (Inr (items, us))"
    using Cons.IH [of "j + length s"] Cons.prems(2,4,5) dk unfolding R_def [symmetric] by auto
  define t where "t = token MTT_SCH j (j + length s)"
  have sp: "spelled src bm em j (t # ts @ us)" unfolding t_def
    by (rule spelled_chunk [OF _ dj ts(1) ne]) (use Cons.prems(4) it in simp)
  obtain ts1 where ts1: "follows src bm em i (ts1 @ t # ts @ us)" "pP src (ts1 @ t # ts @ us) (Inr (p, t # ts @ us))"
    using Cons.prems(5) [of p i "s @ R @ rest" "t # ts @ us"] sp d it unfolding j_def by auto
  have "text_of src t = s" using slice_of_drop [of j src "[]" s "R @ rest"] dj by (simp add: t_def)
  then have "pI src (ts1 @ t # ts @ us) (Inr ((p, s) # items, us))" using I_ok [OF ts1(2) _ ts(2)] by (simp add: t_def)
  then show ?case using ts1(1) it by (intro exI [of _ "ts1 @ t # ts"]) simp
qed

lemma print_reads:
  "bm \<noteq> [] \<Longrightarrow> printable_t bm em T \<Longrightarrow> drop i src = print_t bm em T @ rest \<Longrightarrow> follows src bm em (i + length (print_t bm em T)) us
    \<Longrightarrow> stops us \<Longrightarrow> \<exists>ts. spelled src bm em i (ts @ us) \<and> pT src (ts @ us) (Inr (T, us))"
  "bm \<noteq> [] \<Longrightarrow> printable_p bm em p \<Longrightarrow> drop i src = print_p bm em p @ rest \<Longrightarrow> spelled src bm em (i + length (print_p bm em p)) us
    \<Longrightarrow> \<exists>ts. follows src bm em i (ts @ us) \<and> pP src (ts @ us) (Inr (p, us))"
proof (induction bm em T and bm em p arbitrary: i rest us and i rest us rule: print_t_print_p.induct)
  case (1 bm em c items)
  define R where "R = concat (map (\<lambda>(p, s). p @ s) (zip (map (print_p bm em) (map fst items)) (map snd items)))"
  have d: "drop i src = c @ R @ rest" using "1.prems"(3) by (simp add: R_def)
  have d1: "drop (i + length c) src = R @ rest" using arg_cong [OF d, of "drop (length c)"] by (simp add: add.commute)
  have f: "follows src bm em (i + length c + length R) us" using "1.prems"(4) by (simp add: R_def ac_simps)
  have P: "\<exists>ts. follows src bm em j (ts @ us') \<and> pP src (ts @ us') (Inr (p, us'))"
    if p: "p \<in> set (map fst items)" "drop j src = print_p bm em p @ rest'" "spelled src bm em (j + length (print_p bm em p)) us'" for p j rest' us'
  proof -
    have "printable_p bm em p" using "1.prems"(2) p(1) by auto
    from "1.IH" [OF p(1) "1.prems"(1) this p(2,3)] show ?thesis .
  qed
  have "\<exists>ts. follows src bm em (i + length c) (ts @ us) \<and> pI src (ts @ us) (Inr (items, us))"
    by (rule items_read [OF "1.prems"(1) f [unfolded R_def] "1.prems"(5) d1 [unfolded R_def] _ P]) (use "1.prems"(2) in simp_all)
  then obtain ts where ts: "follows src bm em (i + length c) (ts @ us)" "pI src (ts @ us) (Inr (items, us))" by blast
  define t where "t = token MTT_SCH i (i + length c)"
  have "spelled src bm em i (t # ts @ us)" unfolding t_def by (rule spelled_chunk [OF _ d ts(1) "1.prems"(1)]) (use "1.prems"(2) in simp)
  moreover have "text_of src t = c" using slice_of_drop [of i src "[]" c "R @ rest"] d by (simp add: t_def)
  then have "pT src (t # ts @ us) (Inr (Tmpl c items, us))" using T_ok [of t src "ts @ us" items us] ts(2) by (simp add: t_def)
  ultimately show ?case by (intro exI [of _ "t # ts"]) simp
next
  case (2 bm em name sep)
  define s where "s = ph_text name sep"
  have d: "drop i src = bm @ s @ em @ rest" using "2.prems"(3) by (simp add: s_def)
  have n: "plain_name name" "inner bm em s" "takeWhile (\<lambda>c. \<not> is_ws c) s \<notin> {''if'', ''else'', ''endif''}" using "2.prems"(2) by (simp_all add: s_def)
  define t where "t = token MTT_PH (i + length bm) (i + length bm + length s)"
  have tok: "ph_token src (i + length bm) (i + length bm + length s) = Some t" unfolding t_def
    using ph_token_text(1) [OF marked_text(1) [OF d] refl _ n(3)] ph_text_trimmed [OF n(1)] by (simp add: s_def)
  have "follows src bm em i (t # us)" by (rule follows_marked [OF d n(2) tok]) (use "2.prems"(4) in \<open>simp add: s_def ac_simps\<close>)
  moreover have "pP src (t # us) (Inr (Ph name sep, us))"
    using P_ok [of t src name sep us] marked_text(1) [OF d] ph_expr_text [OF n(1), of sep] by (simp add: t_def s_def)
  ultimately show ?case by (intro exI [of _ "[t]"]) simp
next
  case (3 bm em name is_concat T E)
  define c where "c = (if is_concat then ''concat('' @ name @ '')'' else name)"
  define s where "s = if_text name is_concat"
  have n: "plain_name name" "inner bm em s" "inner bm em ''else''" "inner bm em ''endif''" "printable_t bm em T" "printable_t bm em E"
    using "3.prems"(2) by (simp_all add: s_def)
  note ex = if_text_expr [OF n(1), of is_concat, folded c_def s_def]
  let ?T = "print_t bm em T" and ?E = "print_t bm em E"
  have d: "drop i src = bm @ s @ em @ ?T @ bm @ ''else'' @ em @ ?E @ bm @ ''endif'' @ em @ rest" using "3.prems"(3) by (simp add: s_def)
  define j1 where "j1 = i + length bm + length s + length em"
  define j2 where "j2 = j1 + length ?T"
  define j3 where "j3 = j2 + length bm + length ''else'' + length em"
  define j4 where "j4 = j3 + length ?E"
  have d1: "drop j1 src = ?T @ bm @ ''else'' @ em @ ?E @ bm @ ''endif'' @ em @ rest" using marked_text(2) [OF d] by (simp add: j1_def)
  have d2: "drop j2 src = bm @ ''else'' @ em @ ?E @ bm @ ''endif'' @ em @ rest"
    using arg_cong [OF d1, of "drop (length ?T)"] by (simp add: j2_def add.commute)
  have d3: "drop j3 src = ?E @ bm @ ''endif'' @ em @ rest" using marked_text(2) [OF d2] by (simp add: j3_def)
  have d4: "drop j4 src = bm @ ''endif'' @ em @ rest" using arg_cong [OF d3, of "drop (length ?E)"] by (simp add: j4_def add.commute)
  have kw: "trimmed ''else''" "trimmed ''endif''" by (simp_all add: trimmed_def is_ws_def wspace_def)
  define z where "z = token MTT_ENDIF (j4 + length bm) (j4 + length bm + length ''endif'')"
  have "spelled src bm em (j4 + length bm + length ''endif'' + length em) us" using "3.prems"(4) by (simp add: j4_def j3_def j2_def j1_def s_def ac_simps)
  then have f4: "follows src bm em j4 (z # us)"
    using follows_marked [OF d4 n(4)] ph_token_text(3) [OF marked_text(1) [OF d4] refl kw(2) refl] by (simp add: z_def)
  obtain tsE where e: "spelled src bm em j3 (tsE @ z # us)" "pT src (tsE @ z # us) (Inr (E, z # us))"
    using "3.IH"(2) [OF "3.prems"(1) n(6) d3, of "z # us"] f4 by (auto simp: stops_def z_def j4_def)
  define y where "y = token MTT_ELSE (j2 + length bm) (j2 + length bm + length ''else'')"
  have f2: "follows src bm em j2 (y # tsE @ z # us)"
    using follows_marked [OF d2 n(3)] ph_token_text(2) [OF marked_text(1) [OF d2] refl kw(1) refl] e(1) by (simp add: y_def j3_def)
  obtain tsT where t: "spelled src bm em j1 (tsT @ y # tsE @ z # us)" "pT src (tsT @ y # tsE @ z # us) (Inr (T, y # tsE @ z # us))"
    using "3.IH"(1) [OF "3.prems"(1) n(5) d1, of "y # tsE @ z # us"] f2 by (auto simp: stops_def y_def j2_def)
  define x where "x = token MTT_IF (i + length bm + 3) (i + length bm + length s)"
  have tok: "ph_token src (i + length bm) (i + length bm + length s) = Some x"
    unfolding x_def by (rule ph_token_text(4) [OF marked_text(1) [OF d] refl ex(2,1,3)])
  have f0: "follows src bm em i (x # tsT @ y # tsE @ z # us)" by (rule follows_marked [OF d n(2) tok]) (use t(1) in \<open>simp add: j1_def\<close>)
  have "text_of src x = c"
    using slice_of_drop [of i src "bm @ ''if ''" c "em @ ?T @ bm @ ''else'' @ em @ ?E @ bm @ ''endif'' @ em @ rest"] d ex(1)
    by (simp add: x_def ac_simps numeral_3_eq_3)
  then have "pP src (x # tsT @ y # tsE @ z # us) (Inr (Cond name is_concat T E, us))"
    using n(1) ex(4) by (intro Else_ok [OF _ _ _ t(2) _ e(2)]) (simp_all add: x_def y_def z_def plain_name_def)
  then show ?case using f0 by (intro exI [of _ "x # tsT @ y # tsE @ [z]"]) simp
qed

theorem reads_print:
  assumes "bm \<noteq> []" "printable_t bm em T"
  shows "reads (print_t bm em T) bm em (Inr T)"
proof -
  have "follows (print_t bm em T) bm em (0 + length (print_t bm em T)) []" by (simp add: follows_def)
  then obtain ts where "spelled (print_t bm em T) bm em 0 (ts @ [])" "pT (print_t bm em T) (ts @ []) (Inr (T, []))"
    using print_reads(1) [OF assms, of 0 "print_t bm em T" "[]" "[]"] by (auto simp: stops_def)
  then show ?thesis by (simp add: reads.tree)
qed

section \<open>Properties\<close>

text \<open>
  C8: every tree whose texts and names can be told from the markers and the keywords has a source, \<open>print_t\<close>, from which
  \<open>mist_template_from_string\<close> makes the template with exactly this tree, conditionals, separators and nested branches
  included, unless memory is refused.
\<close>

theorem mist_template_from_string_roundtrip:
  assumes "bm \<noteq> []" and "em \<noteq> []" and "printable_t bm em T" and "no_nul (print_t bm em T)" and "small (print_t bm em T)"
    and "\<not> mist_name_is_bad name" and "small name"
  shows "returns (mist_template_from_string m name (print_t bm em T) bm em) (\<lambda>(ec, mt, d, m').
     case mt of Some t \<Rightarrow> ec = MIST_OK \<and> t_name t = name \<and> rep_t T t \<and> live m' = live m + tpl_blocks t
              | None \<Rightarrow> \<not> never_fails m)"
proof (rule returns_mono [OF template_from_string_returns [OF assms(4,1,2,6,7)]])
  fix res
  assume out: "load_outcome (print_t bm em T) bm em name m res"
  have det: "r = Inr T" if "reads (print_t bm em T) bm em r" for r
    using reads_deterministic [OF assms(1,2) reads_print [OF assms(1,3)] that] by simp
  show "case res of (ec, mt, d, m') \<Rightarrow> case mt of
      Some t \<Rightarrow> ec = MIST_OK \<and> t_name t = name \<and> rep_t T t \<and> live m' = live m + tpl_blocks t | None \<Rightarrow> \<not> never_fails m"
    using out assms(5) unfolding load_outcome_def by (auto split: option.splits dest!: det)
qed

text \<open>\<^verbatim>\<open>Dear <$if concat(title)$><$title: join(, )$><$else$>reader<$endif$>!\<close>\<close>

definition example_tree :: tmpl where
  "example_tree = Tmpl ''Dear '' [(Cond ''title'' True (Tmpl [] [(Ph ''title'' (Some '', ''), [])]) (Tmpl ''reader'' []), ''!'')]"

lemma example_tree_printable: "printable_t ''<$'' ''$>'' example_tree"
  by (simp add: example_tree_def inner_def outer_def plain_name_def trimmed_def ph_text_def if_text_def is_ws_def wspace_def
      mist_name_is_bad_def char_is_bad_iff name_char_def flip: strstr_None_iff)

lemma example_tree_source: "print_t ''<$'' ''$>'' example_tree = ''Dear <$if concat(title)$><$title:join(, )$><$else$>reader<$endif$>!''"
  by (simp add: example_tree_def ph_text_def if_text_def)

theorem mist_template_from_string_roundtrip_witness:
  "returns (mist_template_from_string mem0 ''letter'' ''Dear <$if concat(title)$><$title:join(, )$><$else$>reader<$endif$>!'' ''<$'' ''$>'')
     (\<lambda>(ec, mt, d, m'). case mt of Some t \<Rightarrow> ec = MIST_OK \<and> rep_t example_tree t | None \<Rightarrow> False)"
  using mist_template_from_string_roundtrip [OF _ _ example_tree_printable, of "''letter''" mem0] unfolding example_tree_source
  by (auto simp: NUL_def small_def mist_name_is_bad_def char_is_bad_iff name_char_def never_fails_def elim!: returns_mono split: option.splits)

end
