(* ===== verification/Mist_Group_Run.thy ===== *)
theory Mist_Group_Run
  imports Mist_Group_Correct Mist_Print
begin

text \<open>
  The operations on groups of templates, from the creation of a group to its evaluation, against the
  specification \<open>group_spec\<close> and the reference semantics \<open>tval\<close>.
\<close>

section \<open>Creation\<close>

text \<open>
  All outcomes of \<open>mist_tg_create_impl\<close>. With memory to spare, a failure has a description: either the source \<open>k\<close>
  is the first one that cannot be loaded, or the main template is not known.
\<close>

definition create_result ::
  "string list \<Rightarrow> string list \<Rightarrow> string \<Rightarrow> string \<Rightarrow> string \<Rightarrow> mem \<Rightarrow> CMistTemplateGroup option \<times> nat option \<times> string option \<times> mem \<Rightarrow> bool" where
  "create_result names strings bm em name_main m res \<longleftrightarrow> (case res of (tg, bad_index, d, m') \<Rightarrow>
     (case tg of
        Some g \<Rightarrow> bad_index = None \<and> d = None \<and> live m' = live m + 2 + gblocks (elems (tg_tpl g))
          \<and> (\<forall>n \<in> set names. \<not> mist_name_is_bad n)
          \<and> (\<exists>Ts. list_all2 (\<lambda>s T. reads s bm em (Inr T)) strings Ts \<and> group_spec names Ts name_main g)
      | None \<Rightarrow> live m + of_bool (d \<noteq> None) \<le> live m')
     \<and> (never_fails m \<and> small name_main \<and> length names + sum_list (map length strings) < 2 ^ 50 \<longrightarrow> never_fails m'
        \<and> (tg = None \<longrightarrow> live m' = live m + 1
            \<and> ((\<exists>k < length names. bad_index = Some k \<and> refused (names ! k) (strings ! k) bm em d
                  \<and> (\<forall>j < k. \<not> mist_name_is_bad (names ! j) \<and> (\<exists>T. reads (strings ! j) bm em (Inr T))))
               \<or> bad_index = None \<and> d = Some (format_string errNoMainTemplate [ArgS name_main])
                  \<and> (\<forall>n \<in> set names. \<not> mist_name_is_bad n)
                  \<and> (\<exists>Ts. list_all2 (\<lambda>s T. reads s bm em (Inr T)) strings Ts
                        \<and> name_main \<notin> set names \<union> \<Union> (set ` tree_names ` set Ts))))))"

lemma sum_list_member: "x \<in> set xs \<Longrightarrow> f x \<le> sum_list (map f xs)" for f :: "'a \<Rightarrow> nat"
  by (induction xs) auto

lemma group_names_bound:
  assumes "list_all2 (\<lambda>s T. reads s bm em (Inr T)) strings (map tree_of ts)" "\<forall>s \<in> set strings. no_nul s" "bm \<noteq> []" "em \<noteq> []"
  shows "length (group_names ts) \<le> sum_list (map length strings)" "\<forall>n \<in> set (group_names ts). length n \<le> sum_list (map length strings)"
proof -
  have "length (group_names ts) \<le> sum_list (map length strings) \<and> (\<forall>n \<in> set (group_names ts). length n \<le> sum_list (map length strings))"
    using assms
  proof (induction strings arbitrary: ts)
    case (Cons s strings)
    obtain t ts' where ts: "ts = t # ts'" using Cons.prems(1) by (cases ts) auto
    have r: "reads s bm em (Inr (tree_of t))" "list_all2 (\<lambda>s T. reads s bm em (Inr T)) strings (map tree_of ts')" "no_nul s"
      using Cons.prems(1,2) unfolding ts by simp_all
    have "length (names_in t) \<le> length s" "\<forall>n \<in> set (names_in t). length n \<le> length s"
      using reads_tree [OF r(1,3) assms(3,4)] by (auto simp: names_in_def tree_within_def)
    then show ?case using Cons.IH [OF r(2)] Cons.prems(2) assms(3,4) by (fastforce simp: ts group_names_def)
  qed (simp add: group_names_def)
  then show "length (group_names ts) \<le> sum_list (map length strings)" "\<forall>n \<in> set (group_names ts). length n \<le> sum_list (map length strings)" by auto
qed

lemma create_result_refused:
  assumes lr: "load_result bm em names strings 0 tpl m1 (False, bad, d, tpl1, m2)" and st: "length strings = length names" and tpl: "grar_ok tpl" "elems tpl = []"
    and m: "live m1 = live m + 2" "never_fails m \<longrightarrow> never_fails m1"
  shows "create_result names strings bm em name_main m (None, bad, d, mist_tg_destroy_impl m2 tpl1)"
proof -
  obtain new k where n: "grar_ok tpl1" "elems tpl1 = new" "list_all2 (loaded bm em) (take k (zip names strings)) new"
      "live m1 + gblocks new + of_bool (d \<noteq> None) \<le> live m2"
      "never_fails m1 \<and> length names < 2 ^ 50 \<and> (\<forall>s \<in> set strings. small s) \<longrightarrow> never_fails m2
        \<and> bad = Some k \<and> k < length names \<and> refused (names ! k) (strings ! k) bm em d \<and> live m2 = live m1 + gblocks new + 1"
    using lr tpl unfolding load_result_def prod.case by auto
  have "loaded bm em (names ! j, strings ! j) (new ! j)" if "j < k" "k < length names" for j
    using list_all2_nthD [OF n(3), of j] that st by simp
  then have "\<not> mist_name_is_bad (names ! j) \<and> (\<exists>T. reads (strings ! j) bm em (Inr T))" if "j < k" "k < length names" for j
    using that unfolding loaded_def fst_conv snd_conv by blast
  moreover have "live (mist_tg_destroy_impl m2 tpl1) = live m2 - 2 - gblocks new" using tg_destroy_live [OF n(1)] n(2) by simp
  moreover have "small s" if "s \<in> set strings" "length names + sum_list (map length strings) < 2 ^ 50" for s
    using sum_list_member [OF that(1), of length] that(2) by (simp add: small_def)
  ultimately show ?thesis
    using n(4,5) m tg_destroy_never_fails [of m2 tpl1] unfolding create_result_def prod.case option.case by auto
qed

lemma create_result_finished:
  assumes lr: "load_result bm em names strings 0 tpl m1 (True, bad, d, tpl1, m2)" and st: "length strings = length names" "\<forall>s \<in> set strings. no_nul s"
    and tpl: "grar_ok tpl" "elems tpl = []" and m: "live m1 = live m + 2" "never_fails m \<longrightarrow> never_fails m1" and ms: "bm \<noteq> []" "em \<noteq> []"
  shows "grar_ok tpl1" "map t_name (elems tpl1) = names" "\<forall>t \<in> set (elems tpl1). parsed t"
    "finish_result name_main tpl1 m2 (tg, d', m3) \<Longrightarrow> create_result names strings bm em name_main m (tg, None, d', m3)"
proof -
  define new where "new = elems tpl1"
  have n: "grar_ok tpl1" "list_all2 (loaded bm em) (zip names strings) new" "live m2 = live m1 + gblocks new"
      "never_fails m1 \<and> length names < 2 ^ 50 \<and> (\<forall>s \<in> set strings. small s) \<longrightarrow> never_fails m2"
    using lr tpl st(1) unfolding load_result_def prod.case new_def by (auto simp: loaded_def)
  note l = loaded_names [OF n(2) st(1)]
  show "grar_ok tpl1" "map t_name (elems tpl1) = names" "\<forall>t \<in> set (elems tpl1). parsed t" using n(1) l by (auto simp: new_def)
  assume fr: "finish_result name_main tpl1 m2 (tg, d', m3)"
  define Ts where "Ts = map tree_of new"
  have Ts: "list_all2 (\<lambda>s T. reads s bm em (Inr T)) strings Ts" using l by (simp add: Ts_def)
  note gb = group_names_bound [OF Ts [unfolded Ts_def] st(2) ms]
  have len: "length new = length names" using l by (metis length_map)
  have known: "t_name ` set new \<union> set (group_names new) = set names \<union> \<Union> (set ` tree_names ` set Ts)"
  proof -
    have "set names = t_name ` set new" using l by (metis set_map)
    then show ?thesis by (simp add: Ts_def group_names_def names_in_def image_image)
  qed
  have sp: "group_spec names Ts name_main g" if "grouped new name_main g" for g using grouped_spec [OF that] l by (auto simp: Ts_def)
  have bound: "never_fails m2 \<and> (\<forall>n \<in> set (group_names new). small n) \<and> length new + length (group_names new) < 2 ^ 50"
    if b: "never_fails m" "length names + sum_list (map length strings) < 2 ^ 50"
  proof -
    have "small s" if "s \<in> set strings" for s using sum_list_member [OF that, of length] b(2) by (simp add: small_def)
    then show ?thesis using b gb len n(4) m(2) by (fastforce simp: small_def)
  qed
  show "create_result names strings bm em name_main m (tg, None, d', m3)"
    using fr n(3) m(1) l Ts sp bound unfolding finish_result_def create_result_def prod.case new_def [symmetric] known Let_def
    by (cases tg) (auto split: if_splits)
qed

lemma create_impl_returns:
  assumes lib: "libc_search qs bs" "libc_search qstr bstr"
    and ne: "name_main \<noteq> []" "bm \<noteq> []" "em \<noteq> []" "elems tpl_names \<noteq> []" and st: "length (elems tpl_strings) = length (elems tpl_names)"
    and cs: "\<forall>s \<in> set (elems tpl_strings). no_nul s" "\<forall>n \<in> set (elems tpl_names). small n"
  shows "returns (mist_tg_create_impl qs qstr bs m name_main tpl_names tpl_strings bm em)
     (create_result (elems tpl_names) (elems tpl_strings) bm em name_main m)"
proof -
  note group_libc = group_libc.intro [OF lib]
  let ?names = "elems tpl_names" and ?strings = "elems tpl_strings"
  have stop: "create_result ?names ?strings bm em name_main m (None, None, None, m')" if "live m' = live m" "\<not> never_fails m" for m'
    using that by (simp add: create_result_def)
  obtain b m1 where b: "malloc m SIZEOF_CMistTemplateGroup = (b, m1)" by fastforce
  have m1: "live m1 = live m + of_bool b" "never_fails m \<longrightarrow> never_fails m1 \<and> b"
    using malloc_effect [OF b] malloc_never_fails [OF _ _ b] by (auto simp: SIZEOF_CMistTemplateGroup_def PTRDIFF_MAX_def)
  obtain ga :: "CMistTemplate grar option" and m2 where g: "grar_create m1 = (ga, m2)" by fastforce
  note g' = grar_create_ok [OF g]
  consider (full) "\<not> b" | (no_array) "b" "ga = None" | (array) tpl where "b" "ga = Some tpl" by (cases ga) auto
  then show ?thesis
  proof cases
    case full
    then show ?thesis using b m1 ne st by (auto simp: mist_tg_create_impl_def intro!: stop)
  next
    case no_array
    then show ?thesis using b m1 g g' ne st by (auto simp: mist_tg_create_impl_def intro!: stop)
  next
    case array
    then have tpl: "grar_ok tpl" "elems tpl = []" "live m2 = live m + 2" "never_fails m \<longrightarrow> never_fails m2" using g' m1 by auto
    obtain r bad d tpl1 m3 where l: "load_templates m2 tpl 0 ?names ?strings bm em = Some (r, bad, d, tpl1, m3)"
        "load_result bm em ?names ?strings 0 tpl m2 (r, bad, d, tpl1, m3)"
      using load_templates_returns [OF ne(2,3) tpl(1) st cs, of m2 0] unfolding returns_iff by (metis prod_cases5)
    show ?thesis
    proof (cases r)
      case False
      then show ?thesis
        using b m1 g array l ne st create_result_refused [OF _ st tpl] by (simp add: mist_tg_create_impl_def)
    next
      case True
      have "load_result bm em ?names ?strings 0 tpl m2 (True, bad, d, tpl1, m3)" using l(2) True by simp
      note f = create_result_finished [OF this st cs(1) tpl ne(2,3)]
      have "elems tpl1 \<noteq> []" using f(2) ne(4) by auto
      then have "returns (finish_group qs qstr bs m3 name_main tpl1) (finish_result name_main tpl1 m3)"
        using group_libc.finish_group_returns [OF group_libc f(1) _ f(3)] by blast
      then show ?thesis
        using b m1 g array l(1) True ne st f(4) by (auto simp: mist_tg_create_impl_def returns_iff)
    qed
  qed
qed

section \<open>One tree for a source\<close>

lemma refused_no_tree:
  assumes "refused name str bm em d" "\<not> mist_name_is_bad name" "bm \<noteq> []" "em \<noteq> []"
  shows "\<not> reads str bm em (Inr T)"
  using assms reads_deterministic [OF assms(3,4), of str "Inr T"] by (auto simp: refused_def)

lemma reads_list_unique:
  assumes "list_all2 (\<lambda>s T. reads s bm em (Inr T)) strings Ts" "list_all2 (\<lambda>s T. reads s bm em (Inr T)) strings Us" "bm \<noteq> []" "em \<noteq> []"
  shows "Us = Ts"
proof (rule nth_equalityI)
  show "length Us = length Ts" using list_all2_lengthD [OF assms(1)] list_all2_lengthD [OF assms(2)] by simp
  show "Us ! i = Ts ! i" if "i < length Us" for i
    using list_all2_nthD2 [OF assms(2) that] list_all2_nthD2 [OF assms(1), of i] that \<open>length Us = length Ts\<close>
      reads_deterministic [OF assms(3,4), of "strings ! i" "Inr (Ts ! i)" "Inr (Us ! i)"] by auto
qed

section \<open>Properties of the creation\<close>

text \<open>
  C4: from sources that stand for the trees \<open>Ts\<close>, \<open>mist_tg_create_impl\<close> makes the group \<open>group_spec\<close> describes: it always
  returns, and it gives such a group unless memory is refused. The group owns all the blocks allocated, and destroying it
  releases them all.
\<close>

theorem mist_tg_create_impl_correct:
  assumes "libc_search qs bs" and "libc_search qstr bstr" and "bm \<noteq> []" and "em \<noteq> []" and "elems tpl_names \<noteq> []"
    and "length (elems tpl_names) = length Ts" and "list_all2 (\<lambda>s T. reads s bm em (Inr T)) (elems tpl_strings) Ts" and "\<forall>s \<in> set (elems tpl_strings). no_nul s"
    and "\<forall>n \<in> set (elems tpl_names). \<not> mist_name_is_bad n \<and> small n"
    and "name_main \<noteq> []" and "name_main \<in> set (elems tpl_names) \<union> \<Union> (set ` tree_names ` set Ts)"
  shows "returns (mist_tg_create_impl qs qstr bs m name_main tpl_names tpl_strings bm em) (\<lambda>(tg, bad_index, d, m').
     case tg of
       Some g \<Rightarrow> bad_index = None \<and> d = None \<and> group_spec (elems tpl_names) Ts name_main g
         \<and> live m' = live m + 2 + gblocks (elems (tg_tpl g)) \<and> live (mist_tg_destroy_impl m' (tg_tpl g)) = live m
     | None \<Rightarrow> \<not> (never_fails m \<and> small name_main \<and> length (elems tpl_names) + sum_list (map length (elems tpl_strings)) < 2 ^ 50))"
proof -
  have st: "length (elems tpl_strings) = length (elems tpl_names)" using assms(6) list_all2_lengthD [OF assms(7)] by simp
  have "returns (mist_tg_create_impl qs qstr bs m name_main tpl_names tpl_strings bm em)
      (create_result (elems tpl_names) (elems tpl_strings) bm em name_main m)"
    using create_impl_returns [OF assms(1,2,10,3,4,5) st] assms(8,9) by blast
  then show ?thesis
  proof (rule returns_mono)
    fix res assume r: "create_result (elems tpl_names) (elems tpl_strings) bm em name_main m res"
    obtain tg bad d m' where res: "res = (tg, bad, d, m')" by (cases res)
    note uniq = reads_list_unique [OF assms(7) _ assms(3,4)]
    show "case res of (tg, bad_index, d, m') \<Rightarrow> (case tg of
        Some g \<Rightarrow> bad_index = None \<and> d = None \<and> group_spec (elems tpl_names) Ts name_main g
          \<and> live m' = live m + 2 + gblocks (elems (tg_tpl g)) \<and> live (mist_tg_destroy_impl m' (tg_tpl g)) = live m
      | None \<Rightarrow> \<not> (never_fails m \<and> small name_main \<and> length (elems tpl_names) + sum_list (map length (elems tpl_strings)) < 2 ^ 50))"
    proof (cases tg)
      case (Some g)
      then obtain Us where "list_all2 (\<lambda>s T. reads s bm em (Inr T)) (elems tpl_strings) Us" "group_spec (elems tpl_names) Us name_main g"
          "bad = None" "d = None" "live m' = live m + 2 + gblocks (elems (tg_tpl g))"
        using r unfolding res create_result_def by auto
      moreover from this have "live (mist_tg_destroy_impl m' (tg_tpl g)) = live m"
        using tg_destroy_live [of "tg_tpl g" m'] by (auto simp: group_spec_def Let_def)
      ultimately show ?thesis using uniq by (simp add: res Some)
    next
      case None
      have "False" if "never_fails m" "small name_main" "length (elems tpl_names) + sum_list (map length (elems tpl_strings)) < 2 ^ 50"
      proof -
        have "\<not> refused (elems tpl_names ! k) (elems tpl_strings ! k) bm em d" if "k < length (elems tpl_names)" for k
          using refused_no_tree [OF _ _ assms(3,4)] list_all2_nthD [OF assms(7), of k] that st assms(9) by (metis nth_mem)
        then show False using r that assms(11) uniq unfolding res None create_result_def by auto
      qed
      then show ?thesis by (auto simp: res None)
    qed
  qed
qed

text \<open>
  C11: where \<open>mist_tg_create_impl\<close> fails and memory is not the reason, it says why, and nothing but the description is left
  allocated: either \<open>bad_index\<close> is the index of the first source that cannot be loaded, with the message for its name or its
  text, or all can be loaded, \<open>bad_index\<close> is not set, and the main template is neither among them nor a name used in them.
\<close>

theorem mist_tg_create_impl_errors:
  assumes "libc_search qs bs" and "libc_search qstr bstr" and "bm \<noteq> []" and "em \<noteq> []" and "elems tpl_names \<noteq> []"
    and "length (elems tpl_strings) = length (elems tpl_names)" and "\<forall>s \<in> set (elems tpl_strings). no_nul s"
    and "\<forall>n \<in> set (elems tpl_names). small n" and "name_main \<noteq> []" and "never_fails m" and "small name_main"
    and "length (elems tpl_names) + sum_list (map length (elems tpl_strings)) < 2 ^ 50"
  shows "returns (mist_tg_create_impl qs qstr bs m name_main tpl_names tpl_strings bm em) (\<lambda>(tg, bad_index, d, m').
     let names = elems tpl_names; strings = elems tpl_strings;
         all_loaded = (\<lambda>Ts. (\<forall>n \<in> set names. \<not> mist_name_is_bad n) \<and> list_all2 (\<lambda>s T. reads s bm em (Inr T)) strings Ts) in
     case tg of
       Some g \<Rightarrow> bad_index = None \<and> d = None \<and> (\<exists>Ts. all_loaded Ts \<and> name_main \<in> set names \<union> \<Union> (set ` tree_names ` set Ts))
     | None \<Rightarrow> live m' = live m + 1
       \<and> ((\<exists>k < length names. bad_index = Some k \<and> refused (names ! k) (strings ! k) bm em d
              \<and> (\<forall>j < k. \<not> mist_name_is_bad (names ! j) \<and> (\<exists>T. reads (strings ! j) bm em (Inr T))))
          \<or> bad_index = None \<and> d = Some (format_string errNoMainTemplate [ArgS name_main])
              \<and> (\<exists>Ts. all_loaded Ts \<and> name_main \<notin> set names \<union> \<Union> (set ` tree_names ` set Ts))))"
proof (rule returns_mono [OF create_impl_returns [OF assms(1,2,9,3-8)]])
  fix res assume r: "create_result (elems tpl_names) (elems tpl_strings) bm em name_main m res"
  obtain tg bad d m' where res: "res = (tg, bad, d, m')" by (cases res)
  have main: "name_main \<in> set (elems tpl_names) \<union> \<Union> (set ` tree_names ` set Ts)" if "group_spec (elems tpl_names) Ts name_main g" for Ts g
    using that unfolding group_spec_def Let_def by blast
  show "case res of (tg, bad_index, d, m') \<Rightarrow> let names = elems tpl_names; strings = elems tpl_strings;
         all_loaded = (\<lambda>Ts. (\<forall>n \<in> set names. \<not> mist_name_is_bad n) \<and> list_all2 (\<lambda>s T. reads s bm em (Inr T)) strings Ts) in
     case tg of
       Some g \<Rightarrow> bad_index = None \<and> d = None \<and> (\<exists>Ts. all_loaded Ts \<and> name_main \<in> set names \<union> \<Union> (set ` tree_names ` set Ts))
     | None \<Rightarrow> live m' = live m + 1
       \<and> ((\<exists>k < length names. bad_index = Some k \<and> refused (names ! k) (strings ! k) bm em d
              \<and> (\<forall>j < k. \<not> mist_name_is_bad (names ! j) \<and> (\<exists>T. reads (strings ! j) bm em (Inr T))))
          \<or> bad_index = None \<and> d = Some (format_string errNoMainTemplate [ArgS name_main])
              \<and> (\<exists>Ts. all_loaded Ts \<and> name_main \<notin> set names \<union> \<Union> (set ` tree_names ` set Ts)))"
  proof (cases tg)
    case None
    show ?thesis using r assms(10-12) unfolding res None create_result_def Let_def prod.case option.case by (simp only: simp_thms) blast
  next
    case (Some g)
    obtain Ts where "bad = None" "d = None" "\<forall>n \<in> set (elems tpl_names). \<not> mist_name_is_bad n"
        "list_all2 (\<lambda>s T. reads s bm em (Inr T)) (elems tpl_strings) Ts" "group_spec (elems tpl_names) Ts name_main g"
      using r unfolding res Some create_result_def prod.case option.case by blast
    then show ?thesis using main [of Ts g] unfolding res Some Let_def prod.case option.case by (intro conjI exI [of _ Ts])
  qed
qed

text \<open>
  A letter with an attribute, a signature, and a source without a valid name.
\<close>

definition letter_tree :: tmpl where
  "letter_tree = Tmpl ''Dear '' [(Ph ''who'' None, '', ''), (Ph ''sign'' None, [])]"

definition letter_names :: "string grar" where
  "letter_names = Grar [''letter'', ''sign''] 16"

definition letter_strings :: "string grar" where
  "letter_strings = Grar [''Dear <$who$>, <$sign$>'', ''bye''] 16"

lemma letter_reads:
  "reads ''Dear <$who$>, <$sign$>'' ''<$'' ''$>'' (Inr letter_tree)" "reads ''bye'' ''<$'' ''$>'' (Inr (Tmpl ''bye'' []))"
proof -
  have "printable_t ''<$'' ''$>'' letter_tree" "printable_t ''<$'' ''$>'' (Tmpl ''bye'' [])"
    by (simp_all add: letter_tree_def inner_def outer_def plain_name_def trimmed_def ph_text_def is_ws_def wspace_def
        mist_name_is_bad_def char_is_bad_iff name_char_def flip: strstr_None_iff)
  from this [THEN reads_print [rotated]]
  show "reads ''Dear <$who$>, <$sign$>'' ''<$'' ''$>'' (Inr letter_tree)" "reads ''bye'' ''<$'' ''$>'' (Inr (Tmpl ''bye'' []))"
    by (simp_all add: letter_tree_def ph_text_def)
qed

lemma letter_facts:
  "list_all2 (\<lambda>s T. reads s ''<$'' ''$>'' (Inr T)) (elems letter_strings) [letter_tree, Tmpl ''bye'' []]"
  "\<forall>s \<in> set (elems letter_strings). no_nul s" "\<forall>n \<in> set (elems letter_names). \<not> mist_name_is_bad n \<and> small n"
  using letter_reads
  by (simp_all add: letter_names_def letter_strings_def NUL_def mist_name_is_bad_def char_is_bad_iff name_char_def small_def)

theorem mist_tg_create_impl_correct_witness:
  "returns (mist_tg_create_impl ref_qsort ref_qsort ref_bsearch mem0 ''letter'' letter_names letter_strings ''<$'' ''$>'') (\<lambda>(tg, bad_index, d, m').
     \<exists>g. tg = Some g \<and> group_spec [''letter'', ''sign''] [letter_tree, Tmpl ''bye'' []] ''letter'' g \<and> live (mist_tg_destroy_impl m' (tg_tpl g)) = 0)"
proof -
  note c = mist_tg_create_impl_correct [OF libc_ref.libc_search_axioms libc_ref.libc_search_axioms _ _ _ _ letter_facts, of "''letter''" mem0]
  show ?thesis
    by (rule returns_mono [OF c])
      (auto simp: letter_names_def letter_strings_def never_fails_def small_def split: option.splits)
qed

theorem mist_tg_create_impl_errors_witness:
  "returns (mist_tg_create_impl ref_qsort ref_qsort ref_bsearch mem0 ''letter'' (Grar [''sign'', ''a/b''] 16) (Grar [''bye'', ''x''] 16) ''<$'' ''$>'') (\<lambda>(tg, bad_index, d, m').
     tg = None \<and> bad_index = Some 1 \<and> d = Some ''invalid name of a template: \"a/b\"'' \<and> live m' = 1)"
proof -
  note c = mist_tg_create_impl_errors [OF libc_ref.libc_search_axioms libc_ref.libc_search_axioms, of "''<$''" "''$>''" "Grar [''sign'', ''a/b''] 16"
      "Grar [''bye'', ''x''] 16" "''letter''" mem0]
  have ok: "\<not> refused ''sign'' ''bye'' ''<$'' ''$>'' d" for d
    using refused_no_tree [of "''sign''" "''bye''" "''<$''" "''$>''" d] letter_reads(2)
    by (auto simp: mist_name_is_bad_def char_is_bad_iff name_char_def)
  have bad: "mist_name_is_bad ''a/b''" by (simp add: mist_name_is_bad_def char_is_bad_iff name_char_def)
  then have msg: "refused ''a/b'' ''x'' ''<$'' ''$>'' d \<longleftrightarrow> d = Some ''invalid name of a template: \"a/b\"''" for d
    by (simp add: refused_def errInvalidTemplateName_def)
  show ?thesis
    by (rule returns_mono [OF c])
      (auto simp: Let_def bad ok msg NUL_def never_fails_def small_def less_Suc_eq split: option.splits)
qed

end
