(* ===== verification/Mist_Group_Ops.thy ===== *)
theory Mist_Group_Ops
  imports Mist_Group_Run
begin

text \<open>
  The operations on a finished group (\<open>mist_tg_add_value_impl\<close>, \<open>mist_tg_set_values_impl\<close>, \<open>mist_tg_evaluate_impl\<close>,
  \<open>mist_tg_clear_values_impl\<close>, \<open>mist_tg_generate_path_string_impl\<close>): the invariant they keep, in any order and
  whatever the memory, and the values they compute.
\<close>

section \<open>The invariant of a group\<close>

definition tg_inv :: "CMistTemplateGroup \<Rightarrow> bool" where
  "tg_inv tg \<longleftrightarrow> wf_group (elems (tg_tpl tg)) \<and> grar_inv (tg_tpl tg) \<and> sorted (map t_name (elems (tg_tpl tg)))
     \<and> (\<exists>k < length (elems (tg_tpl tg)). tg_main tg = Ref k)"

definition tg_blocks :: "CMistTemplateGroup \<Rightarrow> int" where
  "tg_blocks tg = 2 + gblocks (elems (tg_tpl tg))"

lemma group_spec_inv: "group_spec names Ts name_main tg \<Longrightarrow> tg_inv tg"
  unfolding group_spec_def tg_inv_def Let_def by auto

text \<open>
  One group with other values in its templates; the meaning of a template with chunks does not depend
  on its values.
\<close>

definition same_template :: "CMistTemplate \<Rightarrow> CMistTemplate \<Rightarrow> bool" where
  "same_template t t' \<longleftrightarrow> t_name t' = t_name t \<and> (elems (t_sch t') = [] \<longleftrightarrow> elems (t_sch t) = []) \<and> (elems (t_sch t) \<noteq> [] \<longrightarrow> abs_t t' = abs_t t)"

definition same_templates :: "CMistTemplateGroup \<Rightarrow> CMistTemplateGroup \<Rightarrow> bool" where
  "same_templates tg tg' \<longleftrightarrow> tg_main tg' = tg_main tg \<and> capacity (tg_tpl tg') = capacity (tg_tpl tg)
     \<and> list_all2 same_template (elems (tg_tpl tg)) (elems (tg_tpl tg'))"

lemma same_template_revalued: "revalued t t' \<Longrightarrow> same_template t t'"
  by (simp add: same_template_def revalued_def abs_t_eq)

lemma same_template_abs: "t_name t' = t_name t \<Longrightarrow> abs_t t' = abs_t t \<Longrightarrow> same_template t t'"
  by (auto simp: same_template_def abs_t_eq split: if_splits)

lemma same_templates_refl: "same_templates tg tg"
  by (simp add: same_templates_def same_template_def list_all2_refl)

lemma same_templates_trans: "same_templates tg tg' \<Longrightarrow> same_templates tg' tg'' \<Longrightarrow> same_templates tg tg''"
  unfolding same_templates_def list_all2_conv_all_nth by (simp add: same_template_def)

lemma same_templates_names: "same_templates tg tg' \<Longrightarrow> map t_name (elems (tg_tpl tg')) = map t_name (elems (tg_tpl tg))"
  unfolding same_templates_def by (auto simp: list_all2_conv_all_nth same_template_def intro: nth_equalityI)

lemma same_templates_inv:
  assumes "tg_inv tg" "same_templates tg tg'" "wf_group (elems (tg_tpl tg'))"
  shows "tg_inv tg'"
proof -
  have "length (elems (tg_tpl tg')) = length (elems (tg_tpl tg))" using same_templates_names [OF assms(2)] map_eq_imp_length_eq by blast
  then show ?thesis using assms same_templates_names [OF assms(2)] by (auto simp: tg_inv_def grar_inv_def same_templates_def)
qed

section \<open>Adding a value\<close>

definition add_value_result ::
  "CMistTemplateGroup \<Rightarrow> string \<Rightarrow> string \<Rightarrow> mem \<Rightarrow> EMistErrorCode \<times> CMistTemplateGroup \<times> mem \<Rightarrow> bool" where
  "add_value_result tg name v m res \<longleftrightarrow> (case res of (ec, tg', m') \<Rightarrow> tg_inv tg' \<and> same_templates tg tg'
     \<and> live m' - live m = tg_blocks tg' - tg_blocks tg
     \<and> (let G = elems (tg_tpl tg); G' = elems (tg_tpl tg') in
        ec = MIST_OK \<and> (if name \<notin> t_name ` set G then tg' = tg
          else \<exists>k < length G. t_name (G ! k) = name \<and> revalued (G ! k) (G' ! k) \<and> elems (t_vals (G' ! k)) = elems (t_vals (G ! k)) @ [v]
             \<and> G' = G[k := G' ! k])
        \<or> ec = MIST_OUT_OF_MEMORY \<and> tg' = tg)
     \<and> (never_fails m \<and> small name \<and> small v \<and> (\<forall>t \<in> set (elems (tg_tpl tg)). small (elems (t_vals t))) \<longrightarrow> never_fails m' \<and> ec = MIST_OK))"

context group_libc
begin

lemma add_value_impl_returns:
  assumes tg: "tg_inv tg" and v: "no_nul v"
  shows "returns (mist_tg_add_value_impl bs m tg name v) (add_value_result tg name v m)"
proof -
  define G where "G = elems (tg_tpl tg)"
  have so: "sorted (map t_name (elems (tg_tpl tg)))" using tg by (simp add: tg_inv_def)
  obtain s m1 where s: "strdup m name = (s, m1)" by fastforce
  note s' = strdup_effect [OF s]
  have nf: "never_fails m \<and> small name \<longrightarrow> never_fails m1 \<and> s \<noteq> None"
    using strdup_never_fails [OF _ _ s] by (auto simp: small_def PTRDIFF_MAX_def)
  have same: "add_value_result tg name v m (ec, tg, m')"
    if "live m' = live m" "ec = MIST_OK \<and> name \<notin> t_name ` set G \<or> ec = MIST_OUT_OF_MEMORY" "never_fails m \<and> small name \<longrightarrow> never_fails m' \<and> ec = MIST_OK" for ec m'
    using that tg same_templates_refl by (auto simp: add_value_result_def G_def Let_def)
  consider (full) "s = None" | (unknown) "s = Some name" "name \<notin> t_name ` set G" | (known) "s = Some name" "name \<in> t_name ` set G" using s' by (cases s) auto
  then show ?thesis
  proof cases
    case full
    then show ?thesis using s s' nf by (auto simp: mist_tg_add_value_impl_def intro!: same)
  next
    case unknown
    have "find_template bs (tg_tpl tg) name = - 1" using find_sorted(1) [OF so] unknown(2) by (simp add: missing_def G_def)
    moreover have "add_value_result tg name v m (MIST_OK, tg, free m1)" by (rule same) (use unknown s' nf in auto)
    ultimately show ?thesis using s unknown(1) by (simp add: mist_tg_add_value_impl_def)
  next
    case known
    define k where "k = index_of bs (tg_tpl tg) name"
    have k: "find_template bs (tg_tpl tg) name \<noteq> - 1" "nat (find_template bs (tg_tpl tg) name) = k" "k < length G" "t_name (G ! k) = name"
      using find_sorted(2) [OF so, of name] known(2) by (auto simp: present_def missing_def k_def index_of_def G_def)
    have wf: "wf_group G" "wf_t (length G) (G ! k)" using tg k(3) by (auto simp: tg_inv_def G_def wf_group_def)
    obtain ec t m2 where a: "mist_template_add_value (free m1) (G ! k) v = Some (ec, t, m2)" "revalued (G ! k) t" "wf_t (length G) t"
        "ec = MIST_OK \<and> elems (t_vals t) = elems (t_vals (G ! k)) @ [v] \<or> ec = MIST_OUT_OF_MEMORY \<and> t = G ! k"
        "live m2 = live (free m1) + (tpl_blocks t - tpl_blocks (G ! k))"
        "never_fails (free m1) \<and> small v \<and> small (elems (t_vals (G ! k))) \<longrightarrow> never_fails m2 \<and> ec = MIST_OK"
      using add_value_returns [OF wf(2) v, of "free m1"] by (auto simp: returns_iff)
    define tg' where "tg' = tg\<lparr>tg_tpl := Grar (G[k := t]) (capacity (tg_tpl tg))\<rparr>"
    have "same_templates tg tg'"
      using same_template_revalued [OF a(2)] same_template_abs k(3)
      by (auto simp: same_templates_def tg'_def G_def [symmetric] list_all2_conv_all_nth nth_list_update)
    moreover have "tg_inv tg'"
      by (rule same_templates_inv [OF tg calculation]) (use wf_group_update [OF wf(1) a(3)] in \<open>simp add: tg'_def\<close>)
    moreover have "tg_blocks tg' - tg_blocks tg = tpl_blocks t - tpl_blocks (G ! k)" using gblocks_update [OF k(3)] by (simp add: tg_blocks_def tg'_def G_def)
    moreover have "tg' = tg" if "t = G ! k" using that by (cases "tg_tpl tg") (simp add: tg'_def G_def)
    ultimately have "add_value_result tg name v m (ec, tg', m2)"
      using a(2,4-6) s' nf known k(3,4) nth_mem [OF k(3)]
      unfolding add_value_result_def prod.case Let_def G_def [symmetric] by (auto simp: tg'_def)
    then show ?thesis using s known(1) k(1-3) a(1) by (simp add: mist_tg_add_value_impl_def G_def [symmetric] tg'_def Let_def)
  qed
qed

end

section \<open>Evaluating and clearing\<close>

lemma without_flag_sel [simp]:
  "t_name (without_flag t) = t_name t" "t_vals (without_flag t) = t_vals t" "t_sch (without_flag t) = t_sch t" "t_ph (without_flag t) = t_ph t"
  "t_is_evaluated (without_flag t) = False"
  by (simp_all add: without_flag_def)

lemma without_flag_same [simp]: "abs_t (without_flag t) = abs_t t" "wf_t n (without_flag t) = wf_t n t" "tpl_blocks (without_flag t) = tpl_blocks t"
  by (simp_all add: abs_t_eq wf_t_eq) (cases t; simp add: without_flag_def tpl_blocks.simps)

lemma without_flag_group: "wf_group (map without_flag G) = wf_group G" "gblocks (map without_flag G) = gblocks G"
  "map abs_t (map without_flag G) = map abs_t G"
  by (simp_all add: wf_group_def gblocks_def comp_def)

lemma tg_invD: "tg_inv tg \<Longrightarrow> elems (tg_tpl tg) \<noteq> [] \<and> tg_main tg \<noteq> Null"
  by (auto simp: tg_inv_def)

text \<open>Whatever the references: an evaluation that returns keeps the group.\<close>

lemma evaluate_impl_keeps:
  assumes tg: "tg_inv tg" and e: "mist_tg_evaluate_impl n m tg = Some (vals, tg', m')"
  shows "tg_inv tg'" "same_templates tg tg'" "map abs_t (elems (tg_tpl tg')) = map abs_t (elems (tg_tpl tg))"
    "if vals = None then live m' - live m \<ge> tg_blocks tg' - tg_blocks tg else live m' - live m = tg_blocks tg' - tg_blocks tg"
proof -
  define G where "G = map without_flag (elems (tg_tpl tg))"
  obtain k where k: "tg_main tg = Ref k" "k < length (elems (tg_tpl tg))" using tg by (auto simp: tg_inv_def)
  have wf: "wf_group G" using tg by (simp add: G_def tg_inv_def without_flag_group)
  obtain ec G' q' m1 where r: "mist_template_evaluate n m G (tg_main tg) = Some (ec, G', q', m1)"
    using e unfolding mist_tg_evaluate_impl_def G_def [symmetric] by (auto split: Option.bind_splits)
  have ev: "ev_result G (Ref k) m (ec, G', q', m1)"
    by (rule ev_okD [OF mist_template_evaluate_ensures wf _ r [unfolded k(1)]]) (simp add: ptr_ok_def k(2) G_def)
  then have fr: "frame G G'" "q' = Ref k" "balance ec m m1 (gblocks G' - gblocks G)" by (auto simp: ev_result_def same_ptr_def)
  have out: "tg' = \<lparr>tg_tpl = Grar G' (capacity (tg_tpl tg)), tg_main = q'\<rparr>" "m' = m1" "vals = None \<longleftrightarrow> ec \<noteq> MIST_OK"
    using e r unfolding mist_tg_evaluate_impl_def G_def [symmetric] by (auto simp: Let_def split: Option.bind_splits if_splits)
  show same: "same_templates tg tg'"
    unfolding same_templates_def out(1) list_all2_conv_all_nth
    using fr(1,2) k frameD(1) [OF fr(1)] by (auto simp: G_def frame_def intro!: same_template_abs)
  show "tg_inv tg'" by (rule same_templates_inv [OF tg same]) (use frameD(2) [OF fr(1)] out(1) in simp)
  show "map abs_t (elems (tg_tpl tg')) = map abs_t (elems (tg_tpl tg))" using frameD(3) [OF fr(1)] out(1) by (simp add: G_def comp_def)
  have "gblocks G = gblocks (elems (tg_tpl tg))" by (simp add: G_def without_flag_group)
  then show "if vals = None then live m' - live m \<ge> tg_blocks tg' - tg_blocks tg else live m' - live m = tg_blocks tg' - tg_blocks tg"
    using fr(3) out by (auto simp: balance_def tg_blocks_def)
qed

definition clear_result :: "CMistTemplate list \<Rightarrow> mem \<Rightarrow> CMistTemplate list \<times> mem \<Rightarrow> bool" where
  "clear_result G m res \<longleftrightarrow> (case res of (G', m') \<Rightarrow> list_all2 (\<lambda>t t'. revalued t t' \<and> elems (t_vals t') = [] \<and> \<not> t_is_evaluated t') G G'
     \<and> live m' - live m = gblocks G' - gblocks G \<and> never_fails m' = never_fails m)"

lemma clear_templates_returns:
  "\<forall>t \<in> set G. wf_t n t \<Longrightarrow> returns (clear_templates m G) (\<lambda>(G', m'). (\<forall>t \<in> set G'. wf_t n t) \<and> clear_result G m (G', m'))"
proof (induction G arbitrary: m)
  case Nil
  then show ?case by (simp add: clear_result_def)
next
  case (Cons t G)
  obtain t1 m1 where t1: "mist_template_clear_values m t = Some (t1, m1)" "revalued t t1" "wf_t n t1" "elems (t_vals t1) = []"
      "live m1 = live m + (tpl_blocks t1 - tpl_blocks t)" "never_fails m1 = never_fails m"
    using clear_values_returns [of n t m] Cons.prems by (auto simp: returns_iff)
  obtain G' m2 where r: "clear_templates m1 G = Some (G', m2)" "\<forall>t \<in> set G'. wf_t n t" "clear_result G m1 (G', m2)"
    using Cons.IH [of m1] Cons.prems by (auto simp: returns_iff)
  have "clear_result (t # G) m (without_flag t1 # G', m2)"
    using t1 r(3) by (simp add: clear_result_def revalued_def gblocks_def)
  then show ?case using t1 r by simp
qed

lemma clear_values_impl_returns:
  assumes tg: "tg_inv tg"
  shows "returns (mist_tg_clear_values_impl m tg) (\<lambda>(tg', m'). tg_inv tg' \<and> same_templates tg tg'
     \<and> (\<forall>t \<in> set (elems (tg_tpl tg')). elems (t_vals t) = [] \<and> \<not> t_is_evaluated t)
     \<and> live m' - live m = tg_blocks tg' - tg_blocks tg \<and> never_fails m' = never_fails m)"
proof -
  define G where "G = elems (tg_tpl tg)"
  have wf: "\<forall>t \<in> set G. wf_t (length G) t" using tg by (simp add: tg_inv_def wf_group_def G_def)
  obtain G' m' where r: "clear_templates m G = Some (G', m')" "\<forall>t \<in> set G'. wf_t (length G) t" "clear_result G m (G', m')"
    using clear_templates_returns [OF wf, of m] by (auto simp: returns_iff)
  define tg' where "tg' = tg\<lparr>tg_tpl := Grar G' (capacity (tg_tpl tg))\<rparr>"
  have l: "list_all2 (\<lambda>t t'. revalued t t' \<and> elems (t_vals t') = [] \<and> \<not> t_is_evaluated t') G G'" using r(3) by (simp add: clear_result_def)
  have len: "length G' = length G" using list_all2_lengthD [OF l] by simp
  have same: "same_templates tg tg'" using l by (auto simp: same_templates_def tg'_def G_def [symmetric] elim!: list_all2_mono intro: same_template_revalued)
  have "tg_inv tg'" by (rule same_templates_inv [OF tg same]) (use r(2) len in \<open>simp add: tg'_def wf_group_def\<close>)
  moreover have "elems (t_vals t) = [] \<and> \<not> t_is_evaluated t" if t: "t \<in> set G'" for t
  proof -
    obtain i where "i < length G'" "t = G' ! i" using t by (auto simp: in_set_conv_nth)
    then show ?thesis using list_all2_nthD2 [OF l, of i] by simp
  qed
  ultimately show ?thesis
    using r(1,3) same tg_invD [OF tg] by (simp add: mist_tg_clear_values_impl_def clear_result_def tg_blocks_def tg'_def G_def)
qed

section \<open>Setting all values\<close>

text \<open>A template to which the values of the pairs with its name have been added, in this order.\<close>

definition valued :: "TStringPair list \<Rightarrow> CMistTemplate \<Rightarrow> CMistTemplate \<Rightarrow> bool" where
  "valued ps t t' \<longleftrightarrow> revalued t t' \<and> elems (t_vals t') = elems (t_vals t) @ map sp_val (filter (\<lambda>p. sp_key p = t_name t) ps)"

definition set_values_result ::
  "CMistTemplateGroup \<Rightarrow> TStringPair list \<Rightarrow> mem \<Rightarrow> EMistErrorCode \<times> CMistTemplateGroup \<times> mem \<Rightarrow> bool" where
  "set_values_result tg ps m res \<longleftrightarrow> (case res of (ec, tg', m') \<Rightarrow> tg_inv tg' \<and> same_templates tg tg'
     \<and> live m' - live m = tg_blocks tg' - tg_blocks tg
     \<and> (ec = MIST_OK \<and> list_all2 (valued ps) (elems (tg_tpl tg)) (elems (tg_tpl tg')) \<or> ec = MIST_OUT_OF_MEMORY)
     \<and> (never_fails m \<and> (\<forall>p \<in> set ps. small (sp_key p) \<and> small (sp_val p))
          \<and> (\<forall>t \<in> set (elems (tg_tpl tg)). length (elems (t_vals t)) + length ps < 2 ^ 50) \<longrightarrow> never_fails m' \<and> ec = MIST_OK))"

lemma valued_Nil: "list_all2 (valued []) G G"
  by (simp add: valued_def revalued_def list_all2_refl)

lemma valued_Cons: "valued [p] t t1 \<Longrightarrow> valued ps t1 t2 \<Longrightarrow> valued (p # ps) t t2"
  by (simp add: valued_def revalued_def)

lemma valued_list_Cons: "list_all2 (valued [p]) G G1 \<Longrightarrow> list_all2 (valued ps) G1 G2 \<Longrightarrow> list_all2 (valued (p # ps)) G G2"
  by (rule list_all2_trans [OF valued_Cons])

lemma valued_one:
  assumes d: "distinct (map t_name G)" and k: "k < length G" "t_name (G ! k) = sp_key p" "revalued (G ! k) t"
    "elems (t_vals t) = elems (t_vals (G ! k)) @ [sp_val p]"
  shows "list_all2 (valued [p]) G (G[k := t])"
proof -
  have "valued [p] (G ! i) (G[k := t] ! i)" if i: "i < length G" for i
  proof (cases "i = k")
    case True
    then show ?thesis using k by (simp add: valued_def)
  next
    case False
    then have "t_name (G ! i) \<noteq> sp_key p" using d k(1,2) i nth_eq_iff_index_eq [OF d, of i k] by auto
    then show ?thesis using False by (simp add: valued_def revalued_def)
  qed
  then show ?thesis by (simp add: list_all2_conv_all_nth)
qed

lemma add_value_valued:
  assumes "add_value_result tg (sp_key p) (sp_val p) m (MIST_OK, tg1, m1)" "distinct (map t_name (elems (tg_tpl tg)))"
  shows "list_all2 (valued [p]) (elems (tg_tpl tg)) (elems (tg_tpl tg1))"
proof -
  define G where "G = elems (tg_tpl tg)"
  define G' where "G' = elems (tg_tpl tg1)"
  consider (unknown) "sp_key p \<notin> t_name ` set G" "tg1 = tg" | (known) k where "k < length G" "t_name (G ! k) = sp_key p" "revalued (G ! k) (G' ! k)"
      "elems (t_vals (G' ! k)) = elems (t_vals (G ! k)) @ [sp_val p]" "G' = G[k := G' ! k]"
    using assms(1) unfolding add_value_result_def prod.case Let_def G_def G'_def by (auto split: if_splits)
  then show ?thesis
  proof cases
    case unknown
    then have "\<forall>t \<in> set G. valued [p] t t" by (auto simp: valued_def revalued_def)
    then show ?thesis using unknown(2) by (auto simp: G_def intro: list.rel_refl_strong)
  next
    case known
    then have "list_all2 (valued [p]) G (G[k := G' ! k])" using assms(2) by (intro valued_one) (simp_all add: G_def)
    then show ?thesis using known(5) by (simp add: G_def G'_def)
  qed
qed

context group_libc
begin

lemma set_values_returns:
  "tg_inv tg \<Longrightarrow> distinct (map t_name (elems (tg_tpl tg))) \<Longrightarrow> \<forall>p \<in> set ps. no_nul (sp_val p) \<Longrightarrow>
     returns (set_values_loop bs m tg ps) (set_values_result tg ps m)"
proof (induction ps arbitrary: tg m)
  case Nil
  then show ?case by (simp add: set_values_result_def same_templates_refl valued_Nil)
next
  case (Cons p ps)
  obtain ec tg1 m1 where a: "mist_tg_add_value_impl bs m tg (sp_key p) (sp_val p) = Some (ec, tg1, m1)"
      "add_value_result tg (sp_key p) (sp_val p) m (ec, tg1, m1)"
    using add_value_impl_returns [OF Cons.prems(1), of "sp_val p" m "sp_key p"] Cons.prems(3) by (auto simp: returns_iff)
  have a1: "tg_inv tg1" "same_templates tg tg1" "live m1 - live m = tg_blocks tg1 - tg_blocks tg" "ec = MIST_OK \<or> ec = MIST_OUT_OF_MEMORY"
      "never_fails m \<and> small (sp_key p) \<and> small (sp_val p) \<and> (\<forall>t \<in> set (elems (tg_tpl tg)). small (elems (t_vals t))) \<longrightarrow> never_fails m1 \<and> ec = MIST_OK"
    using a(2) unfolding add_value_result_def prod.case Let_def by blast+
  show ?case
  proof (cases "ec = MIST_OK")
    case False
    then have "set_values_result tg (p # ps) m (ec, tg1, m1)"
      using a1 unfolding set_values_result_def prod.case by (fastforce simp: small_def)
    then show ?thesis using a(1) False by simp
  next
    case True
    have l1: "list_all2 (valued [p]) (elems (tg_tpl tg)) (elems (tg_tpl tg1))" using add_value_valued a(2) True Cons.prems(2) by blast
    have d1: "distinct (map t_name (elems (tg_tpl tg1)))" using same_templates_names [OF a1(2)] Cons.prems(2) by simp
    obtain ec2 tg2 m2 where r: "set_values_loop bs m1 tg1 ps = Some (ec2, tg2, m2)" "set_values_result tg1 ps m1 (ec2, tg2, m2)"
      using Cons.IH [OF a1(1) d1, of m1] Cons.prems(3) by (auto simp: returns_iff)
    have len: "\<forall>t \<in> set (elems (tg_tpl tg1)). length (elems (t_vals t)) + length ps < 2 ^ 50"
      if "\<forall>t \<in> set (elems (tg_tpl tg)). length (elems (t_vals t)) + length (p # ps) < 2 ^ 50"
    proof
      fix t assume "t \<in> set (elems (tg_tpl tg1))"
      then obtain i where i: "i < length (elems (tg_tpl tg1))" "t = elems (tg_tpl tg1) ! i" by (auto simp: in_set_conv_nth)
      then have "valued [p] (elems (tg_tpl tg) ! i) t" "elems (tg_tpl tg) ! i \<in> set (elems (tg_tpl tg))"
        using list_all2_nthD2 [OF l1, of i] list_all2_lengthD [OF l1] by auto
      then show "length (elems (t_vals t)) + length ps < 2 ^ 50" using that by (auto simp: valued_def)
    qed
    have "set_values_result tg (p # ps) m (ec2, tg2, m2)"
      unfolding set_values_result_def prod.case
    proof (intro conjI impI)
      show "tg_inv tg2" "same_templates tg tg2" "live m2 - live m = tg_blocks tg2 - tg_blocks tg"
        using r(2) a1(2,3) same_templates_trans by (auto simp: set_values_result_def)
      show "ec2 = MIST_OK \<and> list_all2 (valued (p # ps)) (elems (tg_tpl tg)) (elems (tg_tpl tg2)) \<or> ec2 = MIST_OUT_OF_MEMORY"
        using r(2) valued_list_Cons [OF l1] by (auto simp: set_values_result_def)
      assume b: "never_fails m \<and> (\<forall>q \<in> set (p # ps). small (sp_key q) \<and> small (sp_val q))
          \<and> (\<forall>t \<in> set (elems (tg_tpl tg)). length (elems (t_vals t)) + length (p # ps) < 2 ^ 50)"
      then have "never_fails m1" using a1(5) by (auto simp: small_def)
      then show "never_fails m2" "ec2 = MIST_OK" using r(2) b len unfolding set_values_result_def prod.case by auto
    qed
    then show ?thesis using a(1) r(1) True by simp
  qed
qed

end

section \<open>Any sequence of operations\<close>

inductive tg_run :: "CMistTemplate bsearch \<Rightarrow> CMistTemplateGroup \<times> mem \<Rightarrow> CMistTemplateGroup \<times> mem \<Rightarrow> bool" for bs s where
  start: "tg_run bs s s"
| add_value: "tg_run bs s (tg, m) \<Longrightarrow> no_nul v \<Longrightarrow> mist_tg_add_value_impl bs m tg name v = Some (ec, tg', m') \<Longrightarrow> tg_run bs s (tg', m')"
| evaluate: "tg_run bs s (tg, m) \<Longrightarrow> mist_tg_evaluate_impl n m tg = Some (vals, tg', m') \<Longrightarrow> tg_run bs s (tg', m')"
| clear: "tg_run bs s (tg, m) \<Longrightarrow> mist_tg_clear_values_impl m tg = Some (tg', m') \<Longrightarrow> tg_run bs s (tg', m')"

context group_libc
begin

lemma tg_run_keeps:
  "tg_run bs (tg, m) (tg', m') \<Longrightarrow> tg_inv tg \<Longrightarrow>
     tg_inv tg' \<and> same_templates tg tg' \<and> live m' - live m \<ge> tg_blocks tg' - tg_blocks tg"
proof (induction "(tg', m')" arbitrary: tg' m' rule: tg_run.induct)
  case start
  then show ?case by (simp add: same_templates_refl)
next
  case (add_value tg1 m1 v name ec tg' m')
  then have r: "add_value_result tg1 name v m1 (ec, tg', m')" using add_value_impl_returns [of tg1 v m1 name] by auto
  have "tg_inv tg'" "same_templates tg1 tg'" "live m' - live m1 = tg_blocks tg' - tg_blocks tg1"
    using r unfolding add_value_result_def prod.case by blast+
  then show ?case using add_value same_templates_trans [of tg tg1 tg'] by auto
next
  case (evaluate tg1 m1 n vals tg' m')
  then show ?case using evaluate_impl_keeps [of tg1 n m1 vals tg' m'] same_templates_trans [of tg tg1 tg'] by (auto split: if_splits)
next
  case (clear tg1 m1 tg' m')
  then show ?case using clear_values_impl_returns [of tg1 m1] same_templates_trans [of tg tg1 tg'] by auto
qed

end

lemma cleared_meaning:
  assumes "same_templates tg tg'" "\<forall>t \<in> set (elems (tg_tpl tg)). elems (t_vals t) = []" "\<forall>t \<in> set (elems (tg_tpl tg')). elems (t_vals t) = []"
  shows "map abs_t (elems (tg_tpl tg')) = map abs_t (elems (tg_tpl tg))"
proof (rule nth_equalityI)
  have l: "list_all2 same_template (elems (tg_tpl tg)) (elems (tg_tpl tg'))" using assms(1) by (simp add: same_templates_def)
  have len: "length (elems (tg_tpl tg')) = length (elems (tg_tpl tg))" using list_all2_lengthD [OF l] by simp
  then show "length (map abs_t (elems (tg_tpl tg'))) = length (map abs_t (elems (tg_tpl tg)))" by simp
  show "map abs_t (elems (tg_tpl tg')) ! i = map abs_t (elems (tg_tpl tg)) ! i" if "i < length (map abs_t (elems (tg_tpl tg')))" for i
    using list_all2_nthD2 [OF l, of i] that len assms(2,3) by (cases "elems (t_sch (elems (tg_tpl tg) ! i)) = []") (auto simp: same_template_def abs_t_eq)
qed

section \<open>Generating a string\<close>

text \<open>The meaning of a template once the values of the pairs have been added.\<close>

definition sem_with :: "TStringPair list \<Rightarrow> CMistTemplate \<Rightarrow> sem" where
  "sem_with ps t = (if elems (t_sch t) \<noteq> [] then abs_t t
     else (let vs = elems (t_vals t) @ map sp_val (filter (\<lambda>p. sp_key p = t_name t) ps) in Attr (if vs = [] then [[]] else vs)))"

lemma valued_sem: "list_all2 (valued ps) G G' \<Longrightarrow> map abs_t G' = map (sem_with ps) G"
  by (rule nth_equalityI) (auto simp: list_all2_conv_all_nth valued_def revalued_def sem_with_def abs_t_eq Let_def)

text \<open>Room for the pairs, so that an allocator that refuses nothing has no reason to.\<close>

definition pairs_fit :: "CMistTemplateGroup \<Rightarrow> TStringPair list \<Rightarrow> bool" where
  "pairs_fit tg ps \<longleftrightarrow> (\<forall>p \<in> set ps. small (sp_key p) \<and> small (sp_val p) \<and> no_nul (sp_val p))
     \<and> (\<forall>t \<in> set (elems (tg_tpl tg)). length (elems (t_vals t)) + length ps < 2 ^ 50)"

lemma evaluate_impl_run:
  assumes tg: "tg_inv tg" "tg_main tg = Ref k" and v: "tval value_limit (map abs_t (elems (tg_tpl tg))) h (abs_t (elems (tg_tpl tg) ! k)) = Some vs" "h \<le> n"
  obtains vals tg' m' where "mist_tg_evaluate_impl n m tg = Some (vals, tg', m')" "tg_main tg' = Ref k" "tg_inv tg'"
    "case vals of Some g \<Rightarrow> elems g = vs | None \<Rightarrow> \<not> never_fails m" "never_fails m \<longrightarrow> never_fails m'"
proof -
  define G where "G = map without_flag (elems (tg_tpl tg))"
  have k: "k < length (elems (tg_tpl tg))" using tg by (auto simp: tg_inv_def)
  have G: "wf_group G" "k < length G" "\<forall>t \<in> set G. \<not> t_is_evaluated t" "tval value_limit (map abs_t G) h (abs_t (G ! k)) = Some vs"
    using tg v k unfolding G_def without_flag_group by (auto simp: tg_inv_def)
  obtain ec G' m' where e: "mist_template_evaluate n m G (Ref k) = Some (ec, G', Ref k, m')" "frame G G'"
      "balance ec m m' (gblocks G' - gblocks G)" "never_fails m \<longrightarrow> never_fails m' \<and> ec = MIST_OK" "ec = MIST_OK \<longrightarrow> value_at G' (Ref k) vs"
    using evaluates_to [OF G v(2), of m] .
  have len: "length G' = length G" using frameD(1) [OF e(2)] .
  define vals where "vals = (if ec = MIST_OK then Some (t_vals (G' ! k)) else None)"
  have run: "mist_tg_evaluate_impl n m tg = Some (vals, \<lparr>tg_tpl = Grar G' (capacity (tg_tpl tg)), tg_main = Ref k\<rparr>, m')"
    using e len G(2) tg_invD [OF tg(1)] tg(2) by (simp add: mist_tg_evaluate_impl_def G_def [symmetric] vals_def Let_def)
  show ?thesis by (rule that [OF run _ evaluate_impl_keeps(1) [OF tg(1) run]]) (use e(4,5) G(2) len in \<open>auto simp: vals_def value_at_def\<close>)
qed

text \<open>Setting the values of a map and evaluating, with memory to spare.\<close>

lemma set_and_evaluate:
  assumes lib: "libc_search qs bs" and tg: "tg_inv tg" "distinct (map t_name (elems (tg_tpl tg)))" "tg_main tg = Ref k" and fit: "pairs_fit tg (smap_as_array sm)"
    and val: "tval value_limit (map (sem_with (smap_as_array sm)) (elems (tg_tpl tg))) h (sem_with (smap_as_array sm) (elems (tg_tpl tg) ! k)) = Some vs" "h \<le> n"
    and nf: "never_fails m"
  obtains tg1 m1 g tg2 m2 t where "mist_tg_set_values_impl bs m tg sm = Some (MIST_OK, tg1, m1)" "mist_tg_evaluate_impl n m1 tg1 = Some (Some g, tg2, m2)" "elems g = vs"
    "tg_inv tg2" "deref (elems (tg_tpl tg2)) (tg_main tg2) = Some t" "t_name t = t_name (elems (tg_tpl tg) ! k)" "live m2 - live m = tg_blocks tg2 - tg_blocks tg" "never_fails m2" "vs \<noteq> []"
proof -
  let ?ps = "smap_as_array sm"
  note gl = group_libc.intro [OF lib libc_ref.libc_search_axioms]
  have k: "k < length (elems (tg_tpl tg))" using tg(1,3) by (auto simp: tg_inv_def)
  have nn: "\<forall>p \<in> set ?ps. no_nul (sp_val p)" using fit by (simp add: pairs_fit_def)
  obtain ec tg1 m1 where s: "mist_tg_set_values_impl bs m tg sm = Some (ec, tg1, m1)" "set_values_result tg ?ps m (ec, tg1, m1)"
    unfolding mist_tg_set_values_impl_def using group_libc.set_values_returns [OF gl tg(1,2) nn, of m] by (auto simp: returns_iff)
  have s1: "tg_inv tg1" "same_templates tg tg1" "ec = MIST_OK" "never_fails m1" "list_all2 (valued ?ps) (elems (tg_tpl tg)) (elems (tg_tpl tg1))"
      "live m1 - live m = tg_blocks tg1 - tg_blocks tg"
    using s(2) fit nf unfolding set_values_result_def pairs_fit_def by auto
  have E: "map abs_t (elems (tg_tpl tg1)) = map (sem_with ?ps) (elems (tg_tpl tg))" by (rule valued_sem [OF s1(5)])
  then have "abs_t (elems (tg_tpl tg1) ! k) = sem_with ?ps (elems (tg_tpl tg) ! k)"
    using k list_all2_lengthD [OF s1(5)] by (metis nth_map)
  then have v: "tval value_limit (map abs_t (elems (tg_tpl tg1))) h (abs_t (elems (tg_tpl tg1) ! k)) = Some vs" using val(1) E by simp
  have main1: "tg_main tg1 = Ref k" using s1(2) tg(3) by (simp add: same_templates_def)
  obtain vals tg2 m2 where e: "mist_tg_evaluate_impl n m1 tg1 = Some (vals, tg2, m2)" "tg_main tg2 = Ref k" "tg_inv tg2"
      "case vals of Some g \<Rightarrow> elems g = vs | None \<Rightarrow> \<not> never_fails m1" "never_fails m1 \<longrightarrow> never_fails m2"
    using evaluate_impl_run [OF s1(1) main1 v val(2)] by metis
  obtain g where g: "vals = Some g" "elems g = vs" using e(4) s1(4) by (auto split: option.splits)
  have names: "map t_name (elems (tg_tpl tg2)) = map t_name (elems (tg_tpl tg))"
    using same_templates_names [OF same_templates_trans [OF s1(2) evaluate_impl_keeps(2) [OF s1(1) e(1)]]] .
  have t: "deref (elems (tg_tpl tg2)) (tg_main tg2) = Some (elems (tg_tpl tg2) ! k)" "t_name (elems (tg_tpl tg2) ! k) = t_name (elems (tg_tpl tg) ! k)"
    using names k e(2) map_eq_imp_length_eq [OF names] by (auto, metis nth_map)
  have "live m2 - live m = tg_blocks tg2 - tg_blocks tg" using evaluate_impl_keeps(4) [OF s1(1) e(1)] g(1) s1(6) by simp
  then show ?thesis using that [OF _ _ g(2) e(3) t] s(1) s1(3,4) e(1,5) g(1) tval_abs(1) [OF v] by simp
qed

section \<open>Example\<close>

text \<open>The group of the letter, as it is created.\<close>

definition letter_tg :: CMistTemplateGroup where
  "letter_tg = \<lparr>tg_tpl = Grar
     [Template ''letter'' (Grar [] 16) (Grar [''Dear '', '', '', []] 16)
        (Grar [Placeholder MPH_PLAIN ''who'' (Ref 2) None Null Null Null False, Placeholder MPH_PLAIN ''sign'' (Ref 1) None Null Null Null False] 16) False,
      Template ''sign'' (Grar [] 16) (Grar [''bye''] 16) (Grar [] 16) False,
      Template ''who'' (Grar [] 16) (Grar [] 16) (Grar [] 16) False] 16, tg_main = Ref 0\<rparr>"

lemma letter_tg_wf: "wf_group (elems (tg_tpl letter_tg))" "grar_ok (tg_tpl letter_tg)" "sorted (map t_name (elems (tg_tpl letter_tg)))"
  by (simp_all add: letter_tg_def wf_group_def wf_t_eq grar_ok_def grar_inv_def grar_consts refers_def NUL_def no_nul_def)

lemma letter_tg_spec: "group_spec [''letter'', ''sign''] [letter_tree, Tmpl ''bye'' []] ''letter'' letter_tg"
proof -
  define ix where "ix = (\<lambda>n. if n = ''letter'' then 0 else if n = ''sign'' then 1 else (2 :: nat))"
  show ?thesis
    unfolding group_spec_def Let_def
    using letter_tg_wf by (intro exI [of _ ix] exI [of _ "[''who'']"]) (auto simp: letter_tg_def letter_tree_def ix_def abs_t_eq)
qed

lemma letter_tg_inv: "tg_inv letter_tg"
  using letter_tg_spec by (rule group_spec_inv)

section \<open>Properties\<close>

text \<open>
  C10: \<open>mist_tg_set_values_impl\<close> adds to every template of a group with unique names exactly the values given for its name, in
  their order, after those it has, and ignores the names the group does not know. Where memory is refused it stops; in
  either case the group stays in order and owns all blocks allocated.
\<close>

theorem mist_tg_set_values_impl_correct:
  assumes "libc_search qs bs" and "tg_inv tg" and "distinct (map t_name (elems (tg_tpl tg)))" and "\<forall>p \<in> set (smap_as_array sm). no_nul (sp_val p)"
  shows "returns (mist_tg_set_values_impl bs m tg sm) (\<lambda>(ec, tg', m'). tg_inv tg' \<and> tg_main tg' = tg_main tg
     \<and> live m' - live m = tg_blocks tg' - tg_blocks tg
     \<and> (ec = MIST_OK \<and> list_all2 (\<lambda>t t'. t_name t' = t_name t \<and> t_sch t' = t_sch t \<and> t_ph t' = t_ph t
            \<and> elems (t_vals t') = elems (t_vals t) @ map sp_val (filter (\<lambda>p. sp_key p = t_name t) (smap_as_array sm)))
          (elems (tg_tpl tg)) (elems (tg_tpl tg'))
        \<or> ec = MIST_OUT_OF_MEMORY)
     \<and> (never_fails m \<and> (\<forall>p \<in> set (smap_as_array sm). small (sp_key p) \<and> small (sp_val p))
          \<and> (\<forall>t \<in> set (elems (tg_tpl tg)). length (elems (t_vals t)) + length (smap_as_array sm) < 2 ^ 50) \<longrightarrow> ec = MIST_OK))"
proof -
  note gl = group_libc.intro [OF assms(1) libc_ref.libc_search_axioms]
  have "returns (mist_tg_set_values_impl bs m tg sm) (set_values_result tg (smap_as_array sm) m)"
    unfolding mist_tg_set_values_impl_def by (rule group_libc.set_values_returns [OF gl assms(2-4)])
  then show ?thesis
    by (rule returns_mono)
      (auto simp: set_values_result_def same_templates_def valued_def [abs_def] revalued_def)
qed

theorem mist_tg_set_values_impl_correct_witness:
  "returns (mist_tg_set_values_impl ref_bsearch mem0 letter_tg
       \<lparr>container = Grar [\<lparr>sp_key = ''who'', sp_val = ''Ann''\<rparr>, \<lparr>sp_key = ''date'', sp_val = ''today''\<rparr>, \<lparr>sp_key = ''who'', sp_val = ''Bob''\<rparr>] 16, is_sorted = False\<rparr>)
     (\<lambda>(ec, tg', m'). ec = MIST_OK \<and> map (\<lambda>t. elems (t_vals t)) (elems (tg_tpl tg')) = [[], [], [''Ann'', ''Bob'']])"
  by (rule returns_mono [OF mist_tg_set_values_impl_correct [OF libc_ref.libc_search_axioms letter_tg_inv]])
    (auto simp: letter_tg_def smap_as_array_def NUL_def never_fails_def small_def list_all2_Cons1)

text \<open>
  C5: \<open>mist_tg_evaluate_impl\<close> gives the values of the main template in the reference semantics, whatever has been evaluated
  before, and keeps the meaning of all templates, so that evaluating again gives the same; only refused memory makes it fail.
\<close>

theorem mist_tg_evaluate_impl_correct:
  assumes "tg_inv tg" and "tg_main tg = Ref k" and "tval value_limit (map abs_t (elems (tg_tpl tg))) h (abs_t (elems (tg_tpl tg) ! k)) = Some vs" and "h \<le> n"
  shows "returns (mist_tg_evaluate_impl n m tg) (\<lambda>(vals, tg', m'). tg_inv tg' \<and> tg_main tg' = Ref k
     \<and> map abs_t (elems (tg_tpl tg')) = map abs_t (elems (tg_tpl tg))
     \<and> (case vals of Some g \<Rightarrow> elems g = vs \<and> live m' - live m = tg_blocks tg' - tg_blocks tg
                   | None \<Rightarrow> \<not> never_fails m))"
proof -
  obtain vals tg' m' where r: "mist_tg_evaluate_impl n m tg = Some (vals, tg', m')" "tg_main tg' = Ref k" "tg_inv tg'"
      "case vals of Some g \<Rightarrow> elems g = vs | None \<Rightarrow> \<not> never_fails m"
    using evaluate_impl_run [OF assms] by metis
  show ?thesis unfolding r(1) using r(2-4) evaluate_impl_keeps(3,4) [OF assms(1) r(1)] by (auto split: option.splits if_splits)
qed

lemma letter_value:
  "tval value_limit (map abs_t (elems (tg_tpl letter_tg))) 2 (abs_t (elems (tg_tpl letter_tg) ! 0)) = Some [''Dear , bye'']"
proof -
  have "tval value_limit (map abs_t (elems (tg_tpl letter_tg))) (Suc (Suc 0)) (abs_t (elems (tg_tpl letter_tg) ! 0)) = Some [''Dear , bye'']"
    by (simp add: letter_tg_def abs_t_eq pval_def expand_def pick_def longest_def room_def value_limit_def upt_rec)
  then show ?thesis by (simp only: numeral_2_eq_2)
qed

theorem mist_tg_evaluate_impl_correct_witness:
  "returns (mist_tg_evaluate_impl 2 mem0 letter_tg) (\<lambda>(vals, tg', m'). \<exists>g. vals = Some g \<and> elems g = [''Dear , bye''])"
  by (rule returns_mono [OF mist_tg_evaluate_impl_correct [OF letter_tg_inv _ letter_value order.refl]])
    (auto simp: letter_tg_def never_fails_def split: option.splits)

text \<open>
  C9: a group that has been created stays in order whatever values are added, however often it is evaluated or cleared and
  whatever memory is refused: its templates keep their names, their order and their texts, and no block that the group owns is
  released. Clearing the values then takes the group back to the meaning it had when it was created.
\<close>

theorem tg_run_reset:
  assumes "libc_search qs bs" and "group_spec names Ts name_main tg" and "tg_run bs (tg, m) (tg', m')"
  shows "tg_inv tg' \<and> tg_main tg' = tg_main tg \<and> map t_name (elems (tg_tpl tg')) = map t_name (elems (tg_tpl tg))
     \<and> live m' - live m \<ge> tg_blocks tg' - tg_blocks tg
     \<and> returns (mist_tg_clear_values_impl m' tg') (\<lambda>(tg'', m''). map abs_t (elems (tg_tpl tg'')) = map abs_t (elems (tg_tpl tg))
          \<and> (\<forall>t \<in> set (elems (tg_tpl tg'')). elems (t_vals t) = [] \<and> \<not> t_is_evaluated t)
          \<and> live m'' - live m' = tg_blocks tg'' - tg_blocks tg')"
proof -
  note gl = group_libc.intro [OF assms(1) libc_ref.libc_search_axioms]
  have k: "tg_inv tg'" "same_templates tg tg'" "live m' - live m \<ge> tg_blocks tg' - tg_blocks tg"
    using group_libc.tg_run_keeps [OF gl assms(3) group_spec_inv [OF assms(2)]] by auto
  have vals: "\<forall>t \<in> set (elems (tg_tpl tg)). elems (t_vals t) = []" using assms(2) unfolding group_spec_def Let_def by blast
  have "returns (mist_tg_clear_values_impl m' tg') (\<lambda>(tg'', m''). map abs_t (elems (tg_tpl tg'')) = map abs_t (elems (tg_tpl tg))
      \<and> (\<forall>t \<in> set (elems (tg_tpl tg'')). elems (t_vals t) = [] \<and> \<not> t_is_evaluated t) \<and> live m'' - live m' = tg_blocks tg'' - tg_blocks tg')"
    by (rule returns_mono [OF clear_values_impl_returns [OF k(1), of m']])
      (use cleared_meaning [OF same_templates_trans [OF k(2)] vals] in auto)
  then show ?thesis using k same_templates_names [OF k(2)] by (auto simp: same_templates_def)
qed

theorem tg_run_reset_witness:
  "\<exists>tg' m'. tg_run ref_bsearch (letter_tg, mem0) (tg', m')
     \<and> returns (mist_tg_clear_values_impl m' tg') (\<lambda>(tg'', m''). map abs_t (elems (tg_tpl tg'')) = map abs_t (elems (tg_tpl letter_tg)))"
proof -
  obtain ec tg1 m1 where a: "mist_tg_add_value_impl ref_bsearch mem0 letter_tg ''who'' ''Ann'' = Some (ec, tg1, m1)"
    using group_ref.add_value_impl_returns [OF letter_tg_inv, of "''Ann''" mem0 "''who''"] by (auto simp: returns_iff NUL_def)
  have run: "tg_run ref_bsearch (letter_tg, mem0) (tg1, m1)"
    by (rule tg_run.add_value [OF tg_run.start _ a]) (simp add: NUL_def)
  show ?thesis
    using tg_run_reset [OF libc_ref.libc_search_axioms letter_tg_spec run] run
    by (intro exI [of _ tg1] exI [of _ m1]) (auto elim!: returns_mono)
qed

text \<open>
  C14: \<open>mist_tg_generate_path_string_impl\<close> adds the parameters and evaluates: a single value that is not empty is the path;
  several values are an error with the name of the main template in its message. With memory to spare nothing else happens,
  except for a single empty value, where the last assertion fails.
\<close>

theorem mist_tg_generate_path_string_impl_correct:
  assumes "libc_search qs bs" and "tg_inv tg" and "distinct (map t_name (elems (tg_tpl tg)))" and "pairs_fit tg (smap_as_array sm)"
    and "tg_main tg = Ref k" and "tval value_limit (map (sem_with (smap_as_array sm)) (elems (tg_tpl tg))) h (sem_with (smap_as_array sm) (elems (tg_tpl tg) ! k)) = Some vs"
    and "h \<le> n" and "never_fails m"
  shows "if vs = [] \<or> vs = [[]] then mist_tg_generate_path_string_impl bs n m tg sm = None
     else returns (mist_tg_generate_path_string_impl bs n m tg sm) (\<lambda>(path, d, tg', m'). tg_inv tg'
       \<and> (if length vs = 1 then path = Some (hd vs) \<and> d = None
          else path = None \<and> (d = None \<or> d = Some (format_string errMainTplMultivalued [ArgS (t_name (elems (tg_tpl tg) ! k))]))))"
proof -
  obtain tg1 m1 g tg2 m2 t where s: "mist_tg_set_values_impl bs m tg sm = Some (MIST_OK, tg1, m1)" and e: "mist_tg_evaluate_impl n m1 tg1 = Some (Some g, tg2, m2)" and g: "elems g = vs"
      and inv: "tg_inv tg2" and t: "deref (elems (tg_tpl tg2)) (tg_main tg2) = Some t" "t_name t = t_name (elems (tg_tpl tg) ! k)"
    using set_and_evaluate [OF assms(1-3,5,4,6-8)] by metis
  define nm where "nm = t_name (elems (tg_tpl tg) ! k)"
  have msg: "returns (alloc_message m2 (length errMainTplMultivalued + length nm + 1) errMainTplMultivalued [ArgS nm])
      (\<lambda>(d, m'). d = None \<or> d = Some (format_string errMainTplMultivalued [ArgS nm]))"
    by (rule returns_mono [OF alloc_message_returns]) auto
  have run: "mist_tg_generate_path_string_impl bs n m tg sm = do {
      _ \<leftarrow> check (0 < length vs);
      if length vs \<noteq> 1 then do {
        (d, m) \<leftarrow> alloc_message m2 (length errMainTplMultivalued + length nm + 1) errMainTplMultivalued [ArgS nm];
        Some (None, d, tg2, m)
      } else do { path \<leftarrow> grar_get_element g 0; _ \<leftarrow> check (path \<noteq> []); Some (Some path, None, tg2, m2) }
    }"
    unfolding mist_tg_generate_path_string_impl_def using s e g t by (simp add: nm_def)
  show ?thesis
  proof (cases "length vs = 1")
    case True
    then obtain p where "vs = [p]" by (cases vs) auto
    then show ?thesis using run g inv by (simp add: grar_get_element_def)
  next
    case False
    then show ?thesis using run msg inv nm_def by (cases vs) (auto simp: returns_iff)
  qed
qed

definition letter_params :: CStringMap where
  "letter_params = \<lparr>container = Grar [\<lparr>sp_key = ''who'', sp_val = ''Ann''\<rparr>] 16, is_sorted = False\<rparr>"

lemma letter_value_with:
  "tval value_limit (map (sem_with (smap_as_array letter_params)) (elems (tg_tpl letter_tg))) 2
     (sem_with (smap_as_array letter_params) (elems (tg_tpl letter_tg) ! 0)) = Some [''Dear Ann, bye'']"
proof -
  have "tval value_limit (map (sem_with (smap_as_array letter_params)) (elems (tg_tpl letter_tg))) (Suc (Suc 0))
      (sem_with (smap_as_array letter_params) (elems (tg_tpl letter_tg) ! 0)) = Some [''Dear Ann, bye'']"
    by (simp add: letter_tg_def letter_params_def smap_as_array_def sem_with_def abs_t_eq pval_def expand_def pick_def longest_def room_def value_limit_def upt_rec)
  then show ?thesis by (simp only: numeral_2_eq_2)
qed

theorem mist_tg_generate_path_string_impl_correct_witness:
  "returns (mist_tg_generate_path_string_impl ref_bsearch 2 mem0 letter_tg letter_params) (\<lambda>(path, d, tg', m'). path = Some ''Dear Ann, bye'' \<and> d = None)"
proof -
  have fit: "pairs_fit letter_tg (smap_as_array letter_params)" "distinct (map t_name (elems (tg_tpl letter_tg)))" "tg_main letter_tg = Ref 0" "never_fails mem0"
    by (simp_all add: pairs_fit_def letter_tg_def letter_params_def smap_as_array_def small_def NUL_def never_fails_def)
  show ?thesis
    using mist_tg_generate_path_string_impl_correct [OF libc_ref.libc_search_axioms letter_tg_inv fit(2,1,3) letter_value_with order.refl fit(4)]
    by (auto elim!: returns_mono)
qed

end
