(* ===== verification/Mist_Meaning.thy ===== *)
theory Mist_Meaning
  imports Mist_Group_Ops
begin

text \<open>
  The meaning of named sources, without templates, positions or references: a name stands for the tree of
  the source with that name or, where there is none, for the values of the parameter with that name. The
  group \<open>group_spec\<close> describes has this meaning once the values are set (\<open>group_meaning\<close>), so that the
  operations on groups can be stated in terms of sources, names and values only.
\<close>

section \<open>Definition\<close>

datatype entity = Tree tmpl | Param "string list"

definition entity_of :: "(string \<Rightarrow> tmpl option) \<Rightarrow> (string \<Rightarrow> string list) \<Rightarrow> string \<Rightarrow> entity" where
  "entity_of S P n = (case S n of Some T \<Rightarrow> Tree T | None \<Rightarrow> Param (P n))"

definition phx_meaning ::
  "(string \<Rightarrow> string list option) \<Rightarrow> (tmpl \<Rightarrow> string list option) \<Rightarrow> phx \<Rightarrow> string list option" where
  "phx_meaning named tree p = (case p of
     Ph n sep \<Rightarrow> (case sep of None \<Rightarrow> named n | Some w \<Rightarrow> map_option (\<lambda>vs. [joined w vs]) (named n))
   | Cond n is_concat T F \<Rightarrow> do {
       cs \<leftarrow> named n;
       if is_concat then tree (if holds_some cs then T else F)
       else do {
         ts \<leftarrow> (if holds_some cs then tree T else Some []);
         es \<leftarrow> (if fails_some cs then tree F else Some []);
         Some (branch_values cs ts es)
       }
     })"

text \<open>\<open>h\<close> bounds the depth of the references, \<open>lim\<close> the sizes, as in \<open>tval\<close>.\<close>

primrec meaning :: "nat \<Rightarrow> (string \<Rightarrow> tmpl option) \<Rightarrow> (string \<Rightarrow> string list) \<Rightarrow> nat \<Rightarrow> entity \<Rightarrow> string list option" where
  "meaning lim S P 0 e = None"
| "meaning lim S P (Suc h) e = (case e of
     Param vs \<Rightarrow> if length vs < lim \<and> longest vs < lim then Some vs else None
   | Tree T \<Rightarrow> (case T of Tmpl c items \<Rightarrow> do {
       vss \<leftarrow> those (map (phx_meaning (\<lambda>n. meaning lim S P h (entity_of S P n)) (\<lambda>T. meaning lim S P h (Tree T))) (map fst items));
       if rows vss < lim \<and> room (c # map snd items) vss < lim then Some (expand (c # map snd items) vss) else None
     }))"

text \<open>The values set for a name; a parameter without values has the empty one.\<close>

definition values_for :: "TStringPair list \<Rightarrow> string \<Rightarrow> string list" where
  "values_for ps n = (let vs = map sp_val (filter (\<lambda>p. sp_key p = n) ps) in if vs = [] then [[]] else vs)"

section \<open>Linked trees have this meaning\<close>

fun link_e :: "(string \<Rightarrow> nat) \<Rightarrow> entity \<Rightarrow> sem" where
  "link_e ix (Tree T) = link_t ix T"
| "link_e ix (Param vs) = Attr vs"

fun entity_names :: "entity \<Rightarrow> string list" where
  "entity_names (Tree T) = tree_names T"
| "entity_names (Param vs) = []"

text \<open>The names \<open>N\<close> are closed under reference, and each leads to the meaning of its entity.\<close>

definition linked :: "(string \<Rightarrow> nat) \<Rightarrow> (string \<Rightarrow> tmpl option) \<Rightarrow> (string \<Rightarrow> string list) \<Rightarrow> string set \<Rightarrow> sem list \<Rightarrow> bool" where
  "linked ix S P N E \<longleftrightarrow> (\<forall>n \<in> N. ix n < length E \<and> E ! ix n = link_e ix (entity_of S P n) \<and> set (entity_names (entity_of S P n)) \<subseteq> N)"

lemma phx_meaning_link:
  assumes "linked ix S P N E" "set (phx_names p) \<subseteq> N"
    and "\<And>e. set (entity_names e) \<subseteq> N \<Longrightarrow> tv (link_e ix e) = den e"
  shows "pval tv E (link_p ix p) = phx_meaning (\<lambda>n. den (entity_of S P n)) (\<lambda>T. den (Tree T)) p"
proof -
  have at: "ix n < length E" "tv (E ! ix n) = den (entity_of S P n)" if "n \<in> N" for n using assms(1,3) that by (auto simp: linked_def)
  show ?thesis
  proof (cases p)
    case (Ph n sep)
    then show ?thesis using at [of n] assms(2) by (cases sep) (auto simp: pval_def phx_meaning_def)
  next
    case (Cond n ic T F)
    have "tv (link_t ix T) = den (Tree T)" "tv (link_t ix F) = den (Tree F)"
      using assms(3) [of "Tree T"] assms(3) [of "Tree F"] assms(2) Cond by auto
    moreover have "ix n < length E" "tv (E ! ix n) = den (entity_of S P n)" using at [of n] assms(2) Cond by simp_all
    ultimately show ?thesis
      unfolding Cond pval_def phx_meaning_def link_p.simps sph.case phx.case by (cases "den (entity_of S P n)") simp_all
  qed
qed

lemma tval_link:
  assumes "linked ix S P N E" "set (entity_names e) \<subseteq> N"
  shows "tval lim E h (link_e ix e) = meaning lim S P h e"
  using assms(2)
proof (induction h arbitrary: e)
  case (Suc h)
  show ?case
  proof (cases e)
    case (Tree T)
    obtain c items where T: "T = Tmpl c items" by (cases T)
    have "map (pval (tval lim E h) E) (map (link_p ix) (map fst items))
        = map (phx_meaning (\<lambda>n. meaning lim S P h (entity_of S P n)) (\<lambda>T. meaning lim S P h (Tree T))) (map fst items)"
      using Suc.prems unfolding Tree T map_map
      by (intro map_cong [OF refl]) (auto simp del: tval.simps meaning.simps intro!: phx_meaning_link [OF assms(1)] Suc.IH)
    then show ?thesis unfolding Tree T link_e.simps link_t.simps tval.simps meaning.simps sem.case entity.case tmpl.case by (simp only:)
  qed simp
qed simp

section \<open>The meaning of a group\<close>

lemma entity_of_source:
  "distinct names \<Longrightarrow> length Ts = length names \<Longrightarrow> (n, T) \<in> set (zip names Ts) \<Longrightarrow> entity_of (map_of (zip names Ts)) P n = Tree T"
  by (simp add: entity_of_def)

lemma entity_of_param: "length Ts = length names \<Longrightarrow> n \<notin> set names \<Longrightarrow> entity_of (map_of (zip names Ts)) P n = Param (P n)"
  unfolding entity_of_def using map_of_zip_is_None [of names Ts n] by (auto split: option.splits)

lemma sem_with_tree: "abs_t t = link_t ix T \<Longrightarrow> sem_with ps t = link_t ix T"
  by (cases T) (auto simp: sem_with_def abs_t_eq split: if_splits)

lemma sem_with_attr: "abs_t t = Attr [[]] \<Longrightarrow> elems (t_vals t) = [] \<Longrightarrow> sem_with ps t = Attr (values_for ps (t_name t))"
  by (auto simp: sem_with_def values_for_def abs_t_eq Let_def split: if_splits)

lemma group_linked:
  assumes "group_spec names Ts name_main tg" "distinct names" "length Ts = length names"
  obtains ix where "tg_main tg = Ref (ix name_main)"
    "linked ix (map_of (zip names Ts)) (values_for ps) (set names \<union> \<Union> (set ` tree_names ` set Ts)) (map (sem_with ps) (elems (tg_tpl tg)))"
    "name_main \<in> set names \<union> \<Union> (set ` tree_names ` set Ts)" "distinct (map t_name (elems (tg_tpl tg)))"
proof -
  define G where "G = elems (tg_tpl tg)"
  obtain ix attrs where sp: "\<forall>t \<in> set G. elems (t_vals t) = [] \<and> \<not> t_is_evaluated t" "distinct attrs" "set attrs = \<Union> (set ` tree_names ` set Ts) - set names"
      "mset (map (\<lambda>t. (t_name t, abs_t t)) G) = mset (zip names (map (link_t ix) Ts)) + mset (map (\<lambda>n. (n, Attr [[]])) attrs)"
      "\<forall>n \<in> set names \<union> set attrs. ix n < length G \<and> t_name (G ! ix n) = n" "name_main \<in> set names \<union> set attrs" "tg_main tg = Ref (ix name_main)"
    using assms(1) unfolding group_spec_def Let_def G_def [symmetric] by (elim exE conjE) (rule that)
  have known: "set names \<union> \<Union> (set ` tree_names ` set Ts) = set names \<union> set attrs" using sp(3) by blast
  have "linked ix (map_of (zip names Ts)) (values_for ps) (set names \<union> set attrs) (map (sem_with ps) G)"
    unfolding linked_def
  proof
    fix n assume n: "n \<in> set names \<union> set attrs"
    then have i: "ix n < length G" "t_name (G ! ix n) = n" using sp(5) by auto
    have "(n, abs_t (G ! ix n)) = map (\<lambda>t. (t_name t, abs_t t)) G ! ix n" using i by simp
    then have "(n, abs_t (G ! ix n)) \<in># mset (map (\<lambda>t. (t_name t, abs_t t)) G)" using i(1) unfolding set_mset_mset by (metis length_map nth_mem)
    then have "(n, abs_t (G ! ix n)) \<in> set (zip names (map (link_t ix) Ts)) \<or> (n \<in> set attrs \<and> abs_t (G ! ix n) = Attr [[]])"
      unfolding sp(4) by auto
    then consider (tree) T where "(n, T) \<in> set (zip names Ts)" "abs_t (G ! ix n) = link_t ix T" | (param) "n \<notin> set names" "abs_t (G ! ix n) = Attr [[]]"
      unfolding zip_map2 using sp(3) by auto
    then show "ix n < length (map (sem_with ps) G) \<and> map (sem_with ps) G ! ix n = link_e ix (entity_of (map_of (zip names Ts)) (values_for ps) n)
        \<and> set (entity_names (entity_of (map_of (zip names Ts)) (values_for ps) n)) \<subseteq> set names \<union> set attrs"
    proof cases
      case tree
      have "T \<in> set Ts" using tree(1) by (auto dest: set_zip_rightD)
      then show ?thesis using i tree sem_with_tree [OF tree(2)] entity_of_source [OF assms(2,3) tree(1)] known by auto
    next
      case param
      then show ?thesis using i sem_with_attr [OF param(2)] sp(1) entity_of_param [OF assms(3) param(1)] by simp
    qed
  qed
  moreover have "distinct (map t_name G)"
  proof -
    have "mset (map t_name G) = image_mset fst (mset (map (\<lambda>t. (t_name t, abs_t t)) G))" by (simp add: multiset.map_comp comp_def)
    also have "\<dots> = mset (names @ attrs)" unfolding sp(4) using assms(3) by (simp add: multiset.map_comp comp_def flip: mset_map)
    finally have "distinct (map t_name G) = distinct (names @ attrs)" by (rule mset_eq_imp_distinct_iff)
    then show ?thesis using assms(2) sp(2,3) by auto
  qed
  ultimately show ?thesis using sp(6,7) by (intro that [of ix, unfolded known, folded G_def])
qed

lemma group_meaning:
  assumes "group_spec names Ts name_main tg" "distinct names" "length Ts = length names"
    and "meaning lim (map_of (zip names Ts)) (values_for ps) h (entity_of (map_of (zip names Ts)) (values_for ps) name_main) = Some vs"
  obtains k where "tg_main tg = Ref k" "k < length (elems (tg_tpl tg))" "distinct (map t_name (elems (tg_tpl tg)))"
    "tval lim (map (sem_with ps) (elems (tg_tpl tg))) h (sem_with ps (elems (tg_tpl tg) ! k)) = Some vs"
proof -
  let ?N = "set names \<union> \<Union> (set ` tree_names ` set Ts)" and ?E = "map (sem_with ps) (elems (tg_tpl tg))"
  obtain ix where ix: "tg_main tg = Ref (ix name_main)" "linked ix (map_of (zip names Ts)) (values_for ps) ?N ?E" "name_main \<in> ?N"
      "distinct (map t_name (elems (tg_tpl tg)))"
    using group_linked [OF assms(1-3)] by metis
  have m: "ix name_main < length ?E" "?E ! ix name_main = link_e ix (entity_of (map_of (zip names Ts)) (values_for ps) name_main)"
      "set (entity_names (entity_of (map_of (zip names Ts)) (values_for ps) name_main)) \<subseteq> ?N"
    using ix(2) [unfolded linked_def, rule_format, OF ix(3)] by blast+
  show ?thesis
    by (rule that [OF ix(1) _ ix(4)]) (use m tval_link [OF ix(2) m(3), of lim h] assms(4) in simp_all)
qed

end
