(* ===== verification/Mist_Engine.thy ===== *)
theory Mist_Engine
  imports Mist_Meaning
begin

unbundle bit_operations_syntax

text \<open>
  The public interface of the library:
  \<^verbatim>\<open>src/snippets/code_generation/mist_gen.simple/src/mist_engine/src/mist_engine.c\<close>.

  \<open>mist_api_version\<close>, the static variable of the library, is the argument \<open>ver\<close> of every operation; only
  \<open>mist_engine_init\<close> changes it. The variables an operation writes through pointers are passed in and
  out, so that what it leaves untouched is visible: \<open>None\<close> is NULL in \<open>ptg\<close>, \<open>error_descr\<close> and \<open>presult\<close> and
  \<open>(size_t)(-1)\<close> in \<open>bad_index\<close>. \<open>nd\<close> says whether the library has been compiled with \<open>NDEBUG\<close>, which turns the
  assertions off: several conditions are asserted first and tested again afterwards. The version of the
  library is set by \<open>configure\<close>; \<open>minor\<close> and \<open>micro\<close> are its parts.
\<close>

section \<open>Data\<close>

record CMistNameValuePair =
  nv_name :: string
  nv_val :: string

record tg_out =
  ptg :: "CMistTemplateGroup option"
  bad_index :: "nat option"
  error_descr :: "string option"

definition MIST_ENGINE_API_VERSION :: "32 word \<Rightarrow> 32 word \<Rightarrow> 32 word" where
  "MIST_ENGINE_API_VERSION minor micro = (push_bit 8 minor OR (micro AND 0xFF)) + 1"

text \<open>\<open>assert\<close>, with and without \<open>NDEBUG\<close>.\<close>

definition assert_nd :: "bool \<Rightarrow> bool \<Rightarrow> unit option" where
  "assert_nd nd b = check (nd \<or> b)"

section \<open>Operations\<close>

text \<open>The result and the new value of \<open>mist_api_version\<close>.\<close>

definition mist_engine_init :: "32 word \<Rightarrow> 32 word \<Rightarrow> 32 word \<Rightarrow> 32 word \<Rightarrow> EMistErrorCode \<times> 32 word" where
  "mist_engine_init minor micro ver api_ver =
     (if api_ver = 0 \<or> api_ver > MIST_ENGINE_API_VERSION minor micro then (MIST_VERSION_NOT_SUPPORTED, ver)
      else (MIST_OK, api_ver))"

text \<open>The loop of \<open>mist_tg_create\<close> that fills the two arrays.\<close>

fun add_sources ::
  "mem \<Rightarrow> string grar \<Rightarrow> string grar \<Rightarrow> CMistNameValuePair list \<Rightarrow> (bool \<times> string grar \<times> string grar \<times> mem) option" where
  "add_sources m tpl_names tpl_strings [] = Some (True, tpl_names, tpl_strings, m)"
| "add_sources m tpl_names tpl_strings (p # ps) = do {
     (r, tpl_names, m) \<leftarrow> grar_add_element m tpl_names (nv_name p);
     if \<not> r then Some (False, tpl_names, tpl_strings, m)
     else do {
       (r, tpl_strings, m) \<leftarrow> grar_add_element m tpl_strings (nv_val p);
       if \<not> r then Some (False, tpl_names, tpl_strings, m)
       else add_sources m tpl_names tpl_strings ps
     }
   }"

definition mist_tg_create ::
  "bool \<Rightarrow> CMistTemplate qsort \<Rightarrow> string qsort \<Rightarrow> CMistTemplate bsearch \<Rightarrow> 32 word \<Rightarrow> mem \<Rightarrow> tg_out \<Rightarrow> CMistNameValuePair list \<Rightarrow> nat \<Rightarrow> nat
     \<Rightarrow> string \<Rightarrow> string \<Rightarrow> (EMistErrorCode \<times> tg_out \<times> mem) option" where
  "mist_tg_create nd qs qstr bs ver m out source num main_index begin_marker end_marker =
     (if ver = 0 then Some (MIST_LIBRARY_NOT_INITIALIZED, out, m)
      else do {
        _ \<leftarrow> assert_nd nd (begin_marker \<noteq> [] \<and> end_marker \<noteq> [] \<and> num > 0 \<and> main_index < num);
        if num = 0 \<or> main_index \<ge> num \<or> begin_marker = [] \<or> end_marker = [] then Some (MIST_UNSPECIFIED_ERROR, out, m)
        else do {
          let out = out\<lparr>ptg := None, bad_index := None\<rparr>;
          (case grar_create m of
             (None, m) \<Rightarrow> Some (MIST_OUT_OF_MEMORY, out, m)
           | (Some tpl_names, m) \<Rightarrow> do {
               (r, tpl_names, m) \<leftarrow> grar_reserve m tpl_names num;
               if \<not> r then Some (MIST_OUT_OF_MEMORY, out, snd (grar_destroy m tpl_names))
               else (case grar_create m of
                  (None, m) \<Rightarrow> Some (MIST_OUT_OF_MEMORY, out, snd (grar_destroy m tpl_names))
                | (Some tpl_strings, m) \<Rightarrow> do {
                    (r, tpl_strings, m) \<leftarrow> grar_reserve m tpl_strings num;
                    if \<not> r then Some (MIST_OUT_OF_MEMORY, out, snd (grar_destroy (snd (grar_destroy m tpl_names)) tpl_strings))
                    else do {
                      _ \<leftarrow> check (num \<le> length source);
                      (r, tpl_names, tpl_strings, m) \<leftarrow> add_sources m tpl_names tpl_strings (take num source);
                      if \<not> r then Some (MIST_OUT_OF_MEMORY, out, snd (grar_destroy (snd (grar_destroy m tpl_names)) tpl_strings))
                      else do {
                        (tg, bad, d, m) \<leftarrow> mist_tg_create_impl qs qstr bs m (nv_name (source ! main_index)) tpl_names tpl_strings begin_marker end_marker;
                        let m = snd (grar_destroy (snd (grar_destroy m tpl_names)) tpl_strings);
                        Some (if tg = None then MIST_UNSPECIFIED_ERROR else MIST_OK, \<lparr>ptg = tg, bad_index = bad, error_descr = d\<rparr>, m)
                      }
                    }
                  })
             })
        }
      })"

definition mist_tg_create_single ::
  "bool \<Rightarrow> CMistTemplate qsort \<Rightarrow> string qsort \<Rightarrow> CMistTemplate bsearch \<Rightarrow> 32 word \<Rightarrow> mem \<Rightarrow> tg_out \<Rightarrow> string \<Rightarrow> string
     \<Rightarrow> string \<Rightarrow> string \<Rightarrow> (EMistErrorCode \<times> tg_out \<times> mem) option" where
  "mist_tg_create_single nd qs qstr bs ver m out name str begin_marker end_marker =
     (if ver = 0 then Some (MIST_LIBRARY_NOT_INITIALIZED, out, m)
      else do {
        _ \<leftarrow> assert_nd nd (name \<noteq> [] \<and> begin_marker \<noteq> [] \<and> end_marker \<noteq> []);
        if name = [] \<or> begin_marker = [] \<or> end_marker = [] then Some (MIST_UNSPECIFIED_ERROR, out, m)
        else do {
          (tg, d, m) \<leftarrow> mist_tg_create_single_impl qs qstr bs m name str begin_marker end_marker;
          Some (if tg = None then MIST_UNSPECIFIED_ERROR else MIST_OK, out\<lparr>ptg := tg, error_descr := d\<rparr>, m)
        }
      })"

definition mist_tg_destroy :: "32 word \<Rightarrow> mem \<Rightarrow> CMistTemplateGroup \<Rightarrow> EMistErrorCode \<times> mem" where
  "mist_tg_destroy ver m mtg =
     (if ver = 0 then (MIST_LIBRARY_NOT_INITIALIZED, m) else (MIST_OK, mist_tg_destroy_impl m (tg_tpl mtg)))"

definition mist_tg_add_value ::
  "bool \<Rightarrow> CMistTemplate bsearch \<Rightarrow> 32 word \<Rightarrow> mem \<Rightarrow> CMistTemplateGroup \<Rightarrow> string \<Rightarrow> string \<Rightarrow> (EMistErrorCode \<times> CMistTemplateGroup \<times> mem) option" where
  "mist_tg_add_value nd bs ver m mtg name v =
     (if ver = 0 then Some (MIST_LIBRARY_NOT_INITIALIZED, mtg, m)
      else do {
        _ \<leftarrow> assert_nd nd (name \<noteq> []);
        if name = [] then Some (MIST_UNSPECIFIED_ERROR, mtg, m)
        else mist_tg_add_value_impl bs m mtg name v
      })"

text \<open>The loop of \<open>mist_tg_set_values\<close> that fills the map.\<close>

fun add_attrs :: "mem \<Rightarrow> CStringMap \<Rightarrow> CMistNameValuePair list \<Rightarrow> (bool \<times> CStringMap \<times> mem) option" where
  "add_attrs m sm [] = Some (True, sm, m)"
| "add_attrs m sm (p # ps) = do {
     (r, sm, m) \<leftarrow> smap_add_element m sm (nv_name p) (nv_val p);
     if \<not> r then Some (False, sm, m) else add_attrs m sm ps
   }"

definition mist_tg_set_values ::
  "CMistTemplate bsearch \<Rightarrow> 32 word \<Rightarrow> mem \<Rightarrow> CMistTemplateGroup \<Rightarrow> CMistNameValuePair list \<Rightarrow> nat \<Rightarrow> (EMistErrorCode \<times> CMistTemplateGroup \<times> mem) option" where
  "mist_tg_set_values bs ver m mtg attrs num =
     (if ver = 0 then Some (MIST_LIBRARY_NOT_INITIALIZED, mtg, m)
      else if num = 0 then Some (MIST_OK, mtg, m)
      else (case smap_create m of
          (None, m) \<Rightarrow> Some (MIST_OUT_OF_MEMORY, mtg, m)
        | (Some sm, m) \<Rightarrow> do {
            _ \<leftarrow> check (num \<le> length attrs);
            (r, sm, m) \<leftarrow> add_attrs m sm (take num attrs);
            if \<not> r then Some (MIST_OUT_OF_MEMORY, mtg, smap_destroy m sm)
            else do {
              (ec, mtg, m) \<leftarrow> mist_tg_set_values_impl bs m mtg sm;
              Some (ec, mtg, smap_destroy m sm)
            }
          }))"

definition mist_tg_clear_values :: "32 word \<Rightarrow> mem \<Rightarrow> CMistTemplateGroup \<Rightarrow> (EMistErrorCode \<times> CMistTemplateGroup \<times> mem) option" where
  "mist_tg_clear_values ver m mtg =
     (if ver = 0 then Some (MIST_LIBRARY_NOT_INITIALIZED, mtg, m)
      else do {
        (mtg, m) \<leftarrow> mist_tg_clear_values_impl m mtg;
        Some (MIST_OK, mtg, m)
      })"

text \<open>\<open>presult\<close> is the array of the values, which the group owns, \<open>nvals\<close> the number of its elements.\<close>

definition mist_tg_evaluate ::
  "bool \<Rightarrow> nat \<Rightarrow> 32 word \<Rightarrow> mem \<Rightarrow> CMistTemplateGroup \<Rightarrow> string list option \<Rightarrow> nat
     \<Rightarrow> (EMistErrorCode \<times> string list option \<times> nat \<times> CMistTemplateGroup \<times> mem) option" where
  "mist_tg_evaluate nd n ver m mtg presult nvals =
     (if ver = 0 then Some (MIST_LIBRARY_NOT_INITIALIZED, presult, nvals, mtg, m)
      else do {
        (vals, mtg, m) \<leftarrow> mist_tg_evaluate_impl n m mtg;
        (case vals of
           None \<Rightarrow> Some (MIST_OUT_OF_MEMORY, None, nvals, mtg, m)
         | Some vals \<Rightarrow> do {
             let nvals = grar_get_size vals;
             _ \<leftarrow> assert_nd nd (nvals > 0);
             Some (MIST_OK, Some (elems vals), nvals, mtg, m)
           })
      })"

end
