(* ===== verification/Mist_Engine_Correct.thy ===== *)
theory Mist_Engine_Correct
  imports Mist_Engine
begin

text \<open>
  The operations of the public interface against the specifications of the groups: the outcomes of
  \<open>mist_tg_create\<close> and \<open>mist_tg_set_values\<close>, a whole session with the library, whose result is the
  meaning of the named sources, and the state machine of the library, whose operations do nothing before
  a version has been accepted.
\<close>

section \<open>Creation\<close>

lemma add_sources_reserved:
  "grar_inv ns \<Longrightarrow> grar_inv ss \<Longrightarrow> length (elems ns) + length ps \<le> capacity ns \<Longrightarrow> length (elems ss) + length ps \<le> capacity ss \<Longrightarrow>
     \<exists>ns' ss'. add_sources m ns ss ps = Some (True, ns', ss', m) \<and> grar_inv ns' \<and> grar_inv ss'
       \<and> elems ns' = elems ns @ map nv_name ps \<and> elems ss' = elems ss @ map nv_val ps"
proof (induction ps arbitrary: ns ss)
  case (Cons p ps)
  have inv: "grar_inv (Grar (elems ns @ [nv_name p]) (capacity ns))" "grar_inv (Grar (elems ss @ [nv_val p]) (capacity ss))"
    using Cons.prems by (simp_all add: grar_inv_def)
  show ?case using Cons.IH [OF inv] Cons.prems by (auto simp: grar_add_element_reserved)
qed simp

text \<open>An array with room for \<open>num\<close> elements.\<close>

lemma reserve_fresh:
  assumes "grar_create m = (Some g, m1)" "num < 2 ^ 50"
  shows "returns (grar_reserve m1 g num) (\<lambda>(r, g', m'). grar_inv g' \<and> elems g' = [] \<and> live m' = live m + 1
     \<and> (r \<longrightarrow> num \<le> capacity g') \<and> (never_fails m \<longrightarrow> r \<and> never_fails m'))"
proof -
  have g: "grar_ok g" "elems g = []" "live m1 = live m + 1" "never_fails m \<longrightarrow> never_fails m1" using grar_create_ok [OF assms(1)] by auto
  have n: "num * SIZEOF_TGAELEM \<le> Suc PTRDIFF_MAX" using assms(2) by (simp add: grar_consts)
  have s: "small (elems g)" using g(2) by simp
  show ?thesis
    by (rule returns_mono [OF returns_conjI [OF grar_reserve_returns [OF grar_ok_inv [OF g(1)] n] grar_reserve_enough [OF g(1) s assms(2)]]])
      (use g in \<open>auto split: if_splits\<close>)
qed

text \<open>
  All outcomes of \<open>mist_tg_create\<close> for arguments that are in order: the outcome of \<open>mist_tg_create_impl\<close>, run with
  the two arrays allocated, or out of memory before it is called.
\<close>

definition api_create_result ::
  "CMistNameValuePair list \<Rightarrow> string \<Rightarrow> string \<Rightarrow> string \<Rightarrow> tg_out \<Rightarrow> mem \<Rightarrow> EMistErrorCode \<times> tg_out \<times> mem \<Rightarrow> bool" where
  "api_create_result src bm em name_main out m res \<longleftrightarrow> (case res of (ec, out', m') \<Rightarrow>
     ec = MIST_OUT_OF_MEMORY \<and> out' = out\<lparr>ptg := None, bad_index := None\<rparr> \<and> live m' = live m \<and> \<not> never_fails m
     \<or> ec = (if ptg out' = None then MIST_UNSPECIFIED_ERROR else MIST_OK)
       \<and> (\<exists>m1 m2. live m1 = live m + 2 \<and> (never_fails m \<longrightarrow> never_fails m1) \<and> live m' = live m2 - 2 \<and> never_fails m' = never_fails m2
            \<and> create_result (map nv_name src) (map nv_val src) bm em name_main m1 (ptg out', bad_index out', error_descr out', m2)))"

lemma api_create_returns:
  assumes lib: "libc_search qs bs" "libc_search qstr bstr" and v: "ver \<noteq> 0" and ms: "bm \<noteq> []" "em \<noteq> []"
    and src: "main_index < num" "num \<le> length source" "num < 2 ^ 50" "nv_name (source ! main_index) \<noteq> []"
      "\<forall>p \<in> set (take num source). no_nul (nv_val p) \<and> small (nv_name p)"
  shows "returns (mist_tg_create nd qs qstr bs ver m out source num main_index bm em)
     (api_create_result (take num source) bm em (nv_name (source ! main_index)) out m)"
proof -
  let ?R = "api_create_result (take num source) bm em (nv_name (source ! main_index)) out m"
  have oom: "?R (MIST_OUT_OF_MEMORY, out\<lparr>ptg := None, bad_index := None\<rparr>, m')" if "live m' = live m" "\<not> never_fails m" for m'
    using that by (simp add: api_create_result_def)
  have args: "num \<noteq> 0" "\<not> num \<le> main_index" using src(1) by auto
  obtain ga :: "string grar option" and m1 where g: "grar_create m = (ga, m1)" by fastforce
  show ?thesis
  proof (cases ga)
    case None
    then show ?thesis using g grar_create_ok [OF g] v ms args by (simp add: mist_tg_create_def assert_nd_def oom)
  next
    case (Some g0)
    obtain r ns m2 where ns: "grar_reserve m1 g0 num = Some (r, ns, m2)" "grar_inv ns" "elems ns = []" "live m2 = live m + 1"
        "r \<longrightarrow> num \<le> capacity ns" "never_fails m \<longrightarrow> r \<and> never_fails m2"
      using reserve_fresh [OF g [unfolded Some] src(3)] by (auto simp: returns_iff)
    obtain gb :: "string grar option" and m3 where g3: "grar_create m2 = (gb, m3)" by fastforce
    consider (full) "\<not> r" | (none) "r" "gb = None" | (some) g1 where "r" "gb = Some g1" by (cases gb) auto
    then show ?thesis
    proof cases
      case full
      then show ?thesis using g Some ns v ms args by (auto simp: mist_tg_create_def assert_nd_def intro!: oom)
    next
      case none
      then show ?thesis using g Some ns g3 grar_create_ok [OF g3] v ms args by (auto simp: mist_tg_create_def assert_nd_def intro!: oom)
    next
      case some
      obtain r2 ss m4 where ss: "grar_reserve m3 g1 num = Some (r2, ss, m4)" "grar_inv ss" "elems ss = []" "live m4 = live m2 + 1"
          "r2 \<longrightarrow> num \<le> capacity ss" "never_fails m2 \<longrightarrow> r2 \<and> never_fails m4"
        using reserve_fresh [OF g3 [unfolded some] src(3)] by (auto simp: returns_iff)
      show ?thesis
      proof (cases r2)
        case False
        then show ?thesis using g Some ns g3 some ss v ms args by (auto simp: mist_tg_create_def assert_nd_def intro!: oom)
      next
        case True
        obtain ns' ss' where f: "add_sources m4 ns ss (take num source) = Some (True, ns', ss', m4)" "grar_inv ns'" "grar_inv ss'"
            "elems ns' = map nv_name (take num source)" "elems ss' = map nv_val (take num source)"
          using add_sources_reserved [OF ns(2) ss(2), of "take num source" m4] ns(3,5) ss(3,5) some(1) True src(2) by (auto simp: min_absorb2)
        have "elems ns' \<noteq> []" using f(4) args(1) src(2) by auto
        then obtain tg bad d m5 where c: "mist_tg_create_impl qs qstr bs m4 (nv_name (source ! main_index)) ns' ss' bm em = Some (tg, bad, d, m5)"
            "create_result (elems ns') (elems ss') bm em (nv_name (source ! main_index)) m4 (tg, bad, d, m5)"
          using create_impl_returns [OF lib src(4) ms, of ns' ss' m4] f(4,5) src(5) unfolding returns_iff by (auto simp del: take_map)
        have "?R (if tg = None then MIST_UNSPECIFIED_ERROR else MIST_OK, \<lparr>ptg = tg, bad_index = bad, error_descr = d\<rparr>,
            snd (grar_destroy (snd (grar_destroy m5 ns')) ss'))"
          unfolding api_create_result_def prod.case
          by (intro disjI2 conjI exI [of _ m4] exI [of _ m5]) (use c(2) f ns ss in auto)
        then show ?thesis
          using g Some ns(1) g3 some ss(1) True f(1) c(1) v ms args src(2) by (simp add: mist_tg_create_def assert_nd_def)
      qed
    qed
  qed
qed

section \<open>Setting values\<close>

definition nv_pair :: "CMistNameValuePair \<Rightarrow> TStringPair" where
  "nv_pair p = \<lparr>sp_key = nv_name p, sp_val = nv_val p\<rparr>"

lemma nv_pair_sel [simp]: "sp_key (nv_pair p) = nv_name p" "sp_val (nv_pair p) = nv_val p"
  by (simp_all add: nv_pair_def)

lemma add_attrs_returns:
  "smap_inv sm \<Longrightarrow> returns (add_attrs m sm ps) (\<lambda>(r, sm', m'). live m' - live m = smap_blocks sm' - smap_blocks sm
     \<and> (r \<longrightarrow> elems (container sm') = elems (container sm) @ map nv_pair ps)
     \<and> (never_fails m \<and> length (elems (container sm)) + length ps < 2 ^ 50 \<and> (\<forall>p \<in> set ps. small (nv_name p) \<and> small (nv_val p)) \<longrightarrow> r \<and> never_fails m'))"
proof (induction ps arbitrary: sm m)
  case (Cons p ps)
  obtain res where res: "smap_add_element m sm (nv_name p) (nv_val p) = Some res"
      "case res of (r, sm1, m1) \<Rightarrow> smap_inv sm1 \<and> live m1 - live m = smap_blocks sm1 - smap_blocks sm
         \<and> (if r then elems (container sm1) = elems (container sm) @ [nv_pair p] else sm1 = sm)"
      "case res of (r, sm1, m1) \<Rightarrow> never_fails m \<and> small (elems (container sm)) \<and> small (nv_name p) \<and> small (nv_val p) \<longrightarrow> r \<and> never_fails m1"
    using returns_conjI [OF smap_add_element_returns [OF Cons.prems, of m "nv_name p" "nv_val p"] smap_add_element_enough [OF Cons.prems]]
    unfolding returns_iff nv_pair_def by blast
  obtain r sm1 m1 where r: "res = (r, sm1, m1)" by (cases res)
  note a = res [unfolded r prod.case]
  show ?case
  proof (cases r)
    case False
    then show ?thesis using a by (auto simp: small_def)
  next
    case True
    have "returns (add_attrs m1 sm1 ps) (\<lambda>(r, sm', m'). live m' - live m = smap_blocks sm' - smap_blocks sm
        \<and> (r \<longrightarrow> elems (container sm') = elems (container sm) @ map nv_pair (p # ps))
        \<and> (never_fails m \<and> length (elems (container sm)) + length (p # ps) < 2 ^ 50 \<and> (\<forall>q \<in> set (p # ps). small (nv_name q) \<and> small (nv_val q)) \<longrightarrow> r \<and> never_fails m'))"
      by (rule returns_mono [OF Cons.IH [of sm1 m1]]) (use a True in \<open>auto simp: small_def\<close>)
    then show ?thesis using a(1) True by simp
  qed
qed simp

lemma smap_destroy_never_fails [simp]: "never_fails (smap_destroy m sm) = never_fails m"
  by (simp add: smap_destroy_def grar_destroy_with_elements_def foldl_never_fails string_pair_dtor_def)

lemma smap_create_enough: "smap_create m = (r, m') \<Longrightarrow> never_fails m \<Longrightarrow> r \<noteq> None \<and> never_fails m'"
proof -
  assume s: "smap_create m = (r, m')" and nf: "never_fails m"
  obtain b m1 where b: "malloc m SIZEOF_CStringMap = (b, m1)" by fastforce
  obtain g :: "TStringPair grar option" and m2 where g: "grar_create m1 = (g, m2)" by fastforce
  have "b" "never_fails m1" using malloc_never_fails [OF nf _ b] by (auto simp: SIZEOF_CStringMap_def PTRDIFF_MAX_def)
  moreover from this have "g \<noteq> None" "never_fails m2" using grar_create_ok [OF g] by auto
  ultimately show "r \<noteq> None \<and> never_fails m'" using s b g by (auto simp: smap_create_def)
qed

lemma set_values_stop:
  "tg_inv tg \<Longrightarrow> live m' = live m \<Longrightarrow> \<not> never_fails m \<Longrightarrow> set_values_result tg ps m (MIST_OUT_OF_MEMORY, tg, m')"
  by (simp add: set_values_result_def same_templates_refl)

lemma api_set_values_returns:
  assumes lib: "libc_search qs bs" and v: "ver \<noteq> 0" and tg: "tg_inv tg" "distinct (map t_name (elems (tg_tpl tg)))"
    and ps: "num \<le> length attrs" "\<forall>p \<in> set (take num attrs). no_nul (nv_val p)"
    and fit: "num < 2 ^ 50" "\<forall>p \<in> set (take num attrs). small (nv_name p) \<and> small (nv_val p)"
  shows "returns (mist_tg_set_values bs ver m tg attrs num) (set_values_result tg (map nv_pair (take num attrs)) m)"
proof (cases "num = 0")
  case True
  then show ?thesis using v tg(1) by (simp add: mist_tg_set_values_def set_values_result_def same_templates_refl valued_Nil)
next
  case False
  let ?ps = "map nv_pair (take num attrs)"
  note gl = group_libc.intro [OF lib libc_ref.libc_search_axioms]
  obtain sm m1 where s: "smap_create m = (sm, m1)" by fastforce
  show ?thesis
  proof (cases sm)
    case None
    then show ?thesis using s smap_create_effect [OF s] smap_create_enough [OF s] False v tg(1) by (auto simp: mist_tg_set_values_def intro!: set_values_stop)
  next
    case (Some sm0)
    have sm0: "smap_inv sm0" "elems (container sm0) = []" "live m1 = live m + smap_blocks sm0" "never_fails m \<longrightarrow> never_fails m1"
      using smap_create_effect [OF s] smap_create_enough [OF s] Some by auto
    obtain r sm1 m2 where a: "add_attrs m1 sm0 (take num attrs) = Some (r, sm1, m2)" "live m2 - live m1 = smap_blocks sm1 - smap_blocks sm0"
        "r \<longrightarrow> elems (container sm1) = ?ps" "never_fails m1 \<longrightarrow> r \<and> never_fails m2"
      using add_attrs_returns [OF sm0(1), of m1 "take num attrs"] sm0(2) ps(1) fit by (auto simp: returns_iff)
    show ?thesis
    proof (cases r)
      case False
      have "set_values_result tg ?ps m (MIST_OUT_OF_MEMORY, tg, smap_destroy m2 sm1)"
        by (rule set_values_stop [OF tg(1)]) (use a sm0 False in \<open>auto simp: smap_destroy_effect\<close>)
      then show ?thesis using s Some a(1) False \<open>num \<noteq> 0\<close> v ps(1) by (simp add: mist_tg_set_values_def)
    next
      case True
      have arr: "smap_as_array sm1 = ?ps" using a(3) True by (simp add: smap_as_array_def)
      obtain ec tg' m3 where i: "mist_tg_set_values_impl bs m2 tg sm1 = Some (ec, tg', m3)" "set_values_result tg ?ps m2 (ec, tg', m3)"
        unfolding mist_tg_set_values_impl_def arr using group_libc.set_values_returns [OF gl tg, of ?ps m2] ps(2) by (auto simp: returns_iff)
      have "set_values_result tg ?ps m (ec, tg', smap_destroy m3 sm1)"
        using i(2) a(2,4) sm0(3,4) by (auto simp: set_values_result_def smap_destroy_effect)
      then show ?thesis using s Some a(1) True i(1) \<open>num \<noteq> 0\<close> v ps(1) by (simp add: mist_tg_set_values_def)
    qed
  qed
qed

section \<open>Destruction\<close>

lemma api_destroy_live: "tg_inv tg \<Longrightarrow> ver \<noteq> 0 \<Longrightarrow> mist_tg_destroy ver m tg = (ec, m') \<Longrightarrow> ec = MIST_OK \<and> live m' = live m - tg_blocks tg"
  using grar_destroy_with_elements_effect [of mist_template_destroy tpl_blocks m "tg_tpl tg"] destroy_live
  by (auto simp: mist_tg_destroy_def mist_tg_destroy_impl_def tg_blocks_def gblocks_def tg_inv_def)

section \<open>A session\<close>

text \<open>A client of the library: it makes a group, sets values, takes the result and destroys the group.\<close>

definition engine_session ::
  "bool \<Rightarrow> CMistTemplate qsort \<Rightarrow> string qsort \<Rightarrow> CMistTemplate bsearch \<Rightarrow> 32 word \<Rightarrow> 32 word \<Rightarrow> 32 word \<Rightarrow> nat \<Rightarrow> mem \<Rightarrow> CMistNameValuePair list \<Rightarrow> nat
     \<Rightarrow> string \<Rightarrow> string \<Rightarrow> CMistNameValuePair list \<Rightarrow> (EMistErrorCode list \<times> string list option \<times> nat \<times> mem) option" where
  "engine_session nd qs qstr bs minor micro api_ver n m source main_index bm em attrs = (case mist_engine_init minor micro 0 api_ver of (ec0, ver) \<Rightarrow> do {
     (ec1, out, m) \<leftarrow> mist_tg_create nd qs qstr bs ver m \<lparr>ptg = None, bad_index = None, error_descr = None\<rparr> source (length source) main_index bm em;
     mtg \<leftarrow> ptg out;
     (ec2, mtg, m) \<leftarrow> mist_tg_set_values bs ver m mtg attrs (length attrs);
     (ec3, presult, nvals, mtg, m) \<leftarrow> mist_tg_evaluate nd n ver m mtg None 0;
     (case mist_tg_destroy ver m mtg of (ec4, m) \<Rightarrow> Some ([ec0, ec1, ec2, ec3, ec4], presult, nvals, m))
   })"

text \<open>Sources as the documentation wants them: unique names that name templates, C strings of sensible sizes.\<close>

definition sources_ok :: "CMistNameValuePair list \<Rightarrow> nat \<Rightarrow> string \<Rightarrow> string \<Rightarrow> bool" where
  "sources_ok src main_index bm em \<longleftrightarrow> bm \<noteq> [] \<and> em \<noteq> [] \<and> main_index < length src \<and> distinct (map nv_name src)
     \<and> (\<forall>p \<in> set src. \<not> mist_name_is_bad (nv_name p) \<and> small (nv_name p) \<and> no_nul (nv_val p))
     \<and> length src + sum_list (map (\<lambda>p. length (nv_val p)) src) < 2 ^ 50"

definition attrs_ok :: "CMistNameValuePair list \<Rightarrow> bool" where
  "attrs_ok attrs \<longleftrightarrow> length attrs < 2 ^ 50 \<and> (\<forall>p \<in> set attrs. small (nv_name p) \<and> small (nv_val p) \<and> no_nul (nv_val p))"

lemma created_group:
  assumes "libc_search qs bs" "libc_search qstr bstr" "ver \<noteq> 0" "sources_ok source main_index bm em" "never_fails m"
    "list_all2 (\<lambda>p T. reads (nv_val p) bm em (Inr T)) source Ts"
  obtains tg m' where "mist_tg_create nd qs qstr bs ver m out source (length source) main_index bm em = Some (MIST_OK, \<lparr>ptg = Some tg, bad_index = None, error_descr = None\<rparr>, m')"
    "group_spec (map nv_name source) Ts (nv_name (source ! main_index)) tg" "live m' = live m + tg_blocks tg" "never_fails m'"
proof -
  let ?main = "nv_name (source ! main_index)"
  have ok: "bm \<noteq> []" "em \<noteq> []" "main_index < length source" "length source < 2 ^ 50" "\<not> mist_name_is_bad ?main" "small ?main"
      "\<forall>p \<in> set (take (length source) source). no_nul (nv_val p) \<and> small (nv_name p)"
      "length (map nv_name source) + sum_list (map length (map nv_val source)) < 2 ^ 50"
    using assms(4) by (auto simp: sources_ok_def comp_def)
  have ne: "?main \<noteq> []" using ok(5) by (auto simp: mist_name_is_bad_def)
  have rd: "list_all2 (\<lambda>s T. reads s bm em (Inr T)) (map nv_val source) Ts" using assms(6) by (simp add: list_all2_map1)
  obtain res where res: "mist_tg_create nd qs qstr bs ver m out source (length source) main_index bm em = Some res" "api_create_result source bm em ?main out m res"
    using api_create_returns [OF assms(1-3) ok(1-3) order.refl ok(4) ne ok(7), of nd m out] unfolding returns_iff take_all [OF order.refl] by blast
  obtain ec out' m' where r: "res = (ec, out', m')" by (cases res)
  obtain m1 m2 where c: "ec = (if ptg out' = None then MIST_UNSPECIFIED_ERROR else MIST_OK)" "live m1 = live m + 2" "never_fails m1" "live m' = live m2 - 2"
      "never_fails m' = never_fails m2" "create_result (map nv_name source) (map nv_val source) bm em ?main m1 (ptg out', bad_index out', error_descr out', m2)"
    using res(2) assms(5) unfolding r api_create_result_def by auto
  have nf: "never_fails m2" using c(3,6) ok(6,8) unfolding create_result_def prod.case by blast
  have no: "\<not> refused (map nv_name source ! k) (map nv_val source ! k) bm em d" if "k < length source" for k d
    using refused_no_tree [OF _ _ ok(1,2)] list_all2_nthD [OF assms(6) that] assms(4) that by (auto simp: sources_ok_def)
  have "?main \<in> set (map nv_name source)" using ok(3) by simp
  then obtain tg where tg: "ptg out' = Some tg"
    using c(3,6) ok(6,8) no unfolding create_result_def prod.case by (cases "ptg out'") auto
  then obtain Us where us: "bad_index out' = None" "error_descr out' = None" "live m2 = live m1 + 2 + gblocks (elems (tg_tpl tg))"
      "list_all2 (\<lambda>s T. reads s bm em (Inr T)) (map nv_val source) Us" "group_spec (map nv_name source) Us ?main tg"
    using c(6) unfolding create_result_def tg prod.case option.case by blast
  have "Us = Ts" by (rule reads_list_unique [OF rd us(4) ok(1,2)])
  show ?thesis
  proof (rule that [of tg m'])
    show "mist_tg_create nd qs qstr bs ver m out source (length source) main_index bm em = Some (MIST_OK, \<lparr>ptg = Some tg, bad_index = None, error_descr = None\<rparr>, m')"
      unfolding res(1) r using c(1) tg us(1,2) by (cases out') auto
  qed (use us(5) \<open>Us = Ts\<close> c(2,4,5) us(3) nf in \<open>simp_all add: tg_blocks_def\<close>)
qed

lemma valued_group_run:
  assumes tg: "tg_inv tg" "distinct (map t_name (elems (tg_tpl tg)))" "tg_main tg = Ref k" and lib: "libc_search qs bs" and v: "ver \<noteq> 0" and ok: "attrs_ok attrs"
    and fresh: "\<forall>t \<in> set (elems (tg_tpl tg)). elems (t_vals t) = []" and nf: "never_fails m"
    and val: "tval value_limit (map (sem_with (map nv_pair attrs)) (elems (tg_tpl tg))) h (sem_with (map nv_pair attrs) (elems (tg_tpl tg) ! k)) = Some vs" "h \<le> n"
  obtains tg1 m1 tg2 m2 where "mist_tg_set_values bs ver m tg attrs (length attrs) = Some (MIST_OK, tg1, m1)"
    "mist_tg_evaluate nd n ver m1 tg1 presult nvals = Some (MIST_OK, Some vs, length vs, tg2, m2)" "tg_inv tg2" "live m2 - live m = tg_blocks tg2 - tg_blocks tg"
proof -
  let ?ps = "map nv_pair attrs"
  have a: "length attrs < 2 ^ 50" "\<forall>p \<in> set (take (length attrs) attrs). small (nv_name p) \<and> small (nv_val p)" "\<forall>p \<in> set (take (length attrs) attrs). no_nul (nv_val p)"
    using ok by (auto simp: attrs_ok_def)
  obtain res where res: "mist_tg_set_values bs ver m tg attrs (length attrs) = Some res" "set_values_result tg ?ps m res"
    using api_set_values_returns [OF lib v tg(1,2) order.refl a(3,1,2), of m] unfolding returns_iff take_all [OF order.refl] by blast
  obtain ec tg1 m1 where r: "res = (ec, tg1, m1)" by (cases res)
  have s: "tg_inv tg1" "same_templates tg tg1" "live m1 - live m = tg_blocks tg1 - tg_blocks tg" "ec = MIST_OK" "never_fails m1"
      "list_all2 (valued ?ps) (elems (tg_tpl tg)) (elems (tg_tpl tg1))"
    using res(2) nf fresh a unfolding r set_values_result_def by auto
  have k: "k < length (elems (tg_tpl tg))" using tg(1,3) by (auto simp: tg_inv_def)
  have E: "map abs_t (elems (tg_tpl tg1)) = map (sem_with ?ps) (elems (tg_tpl tg))" by (rule valued_sem [OF s(6)])
  then have "abs_t (elems (tg_tpl tg1) ! k) = sem_with ?ps (elems (tg_tpl tg) ! k)" using k list_all2_lengthD [OF s(6)] by (metis nth_map)
  then have v1: "tval value_limit (map abs_t (elems (tg_tpl tg1))) h (abs_t (elems (tg_tpl tg1) ! k)) = Some vs" using val(1) E by simp
  have main1: "tg_main tg1 = Ref k" using s(2) tg(3) by (simp add: same_templates_def)
  obtain vals tg2 m2 where e: "mist_tg_evaluate_impl n m1 tg1 = Some (vals, tg2, m2)" "tg_inv tg2" "case vals of Some g \<Rightarrow> elems g = vs | None \<Rightarrow> \<not> never_fails m1"
    using evaluate_impl_run [OF s(1) main1 v1 val(2)] by metis
  obtain g where g: "vals = Some g" "elems g = vs" using e(3) s(5) by (auto split: option.splits)
  have "vs \<noteq> []" by (rule tval_abs(1) [OF v1])
  then have ev: "mist_tg_evaluate nd n ver m1 tg1 presult nvals = Some (MIST_OK, Some vs, length vs, tg2, m2)"
    using e(1) g v by (simp add: mist_tg_evaluate_def assert_nd_def grar_get_size_def)
  have "live m2 - live m1 = tg_blocks tg2 - tg_blocks tg1" using evaluate_impl_keeps(4) [OF s(1) e(1)] g(1) by simp
  then show ?thesis using that [OF _ ev e(2)] res(1) r s(3,4) by simp
qed

section \<open>The state machine of the library\<close>

text \<open>
  Everything a client with one group can do, in any order: the version accepted, the group and the memory.
  The client makes a group where it has none, from sources that are in order, releases the description of an
  error, and calls the other operations for its group.
\<close>

inductive engine_run ::
  "bool \<Rightarrow> CMistTemplate qsort \<Rightarrow> string qsort \<Rightarrow> CMistTemplate bsearch \<Rightarrow> 32 word \<Rightarrow> 32 word \<Rightarrow> mem
     \<Rightarrow> 32 word \<times> CMistTemplateGroup option \<times> mem \<Rightarrow> bool" for nd qs qstr bs minor micro m0 where
  start: "engine_run nd qs qstr bs minor micro m0 (0, None, m0)"
| init: "engine_run nd qs qstr bs minor micro m0 (ver, tg, m) \<Longrightarrow> mist_engine_init minor micro ver api_ver = (ec, ver')
    \<Longrightarrow> engine_run nd qs qstr bs minor micro m0 (ver', tg, m)"
| create: "engine_run nd qs qstr bs minor micro m0 (ver, None, m) \<Longrightarrow> sources_ok source main_index bm em
    \<Longrightarrow> mist_tg_create nd qs qstr bs ver m \<lparr>ptg = None, bad_index = None, error_descr = None\<rparr> source (length source) main_index bm em = Some (ec, out, m')
    \<Longrightarrow> engine_run nd qs qstr bs minor micro m0 (ver, ptg out, if error_descr out = None then m' else free m')"
| destroy: "engine_run nd qs qstr bs minor micro m0 (ver, Some tg, m) \<Longrightarrow> mist_tg_destroy ver m tg = (ec, m')
    \<Longrightarrow> engine_run nd qs qstr bs minor micro m0 (ver, None, m')"
| add_value: "engine_run nd qs qstr bs minor micro m0 (ver, Some tg, m) \<Longrightarrow> no_nul v \<Longrightarrow> mist_tg_add_value nd bs ver m tg name v = Some (ec, tg', m')
    \<Longrightarrow> engine_run nd qs qstr bs minor micro m0 (ver, Some tg', m')"
| set_values: "engine_run nd qs qstr bs minor micro m0 (ver, Some tg, m) \<Longrightarrow> attrs_ok attrs
    \<Longrightarrow> mist_tg_set_values bs ver m tg attrs (length attrs) = Some (ec, tg', m')
    \<Longrightarrow> engine_run nd qs qstr bs minor micro m0 (ver, Some tg', m')"
| clear_values: "engine_run nd qs qstr bs minor micro m0 (ver, Some tg, m) \<Longrightarrow> mist_tg_clear_values ver m tg = Some (ec, tg', m')
    \<Longrightarrow> engine_run nd qs qstr bs minor micro m0 (ver, Some tg', m')"
| evaluate: "engine_run nd qs qstr bs minor micro m0 (ver, Some tg, m) \<Longrightarrow> mist_tg_evaluate nd n ver m tg presult nvals = Some (ec, vals, k, tg', m')
    \<Longrightarrow> engine_run nd qs qstr bs minor micro m0 (ver, Some tg', m')"

definition engine_inv :: "32 word \<Rightarrow> mem \<Rightarrow> 32 word \<times> CMistTemplateGroup option \<times> mem \<Rightarrow> bool" where
  "engine_inv max_ver m0 st \<longleftrightarrow> (case st of (ver, tg, m) \<Rightarrow> ver \<le> max_ver \<and> (ver = 0 \<longrightarrow> tg = None \<and> m = m0)
     \<and> (case tg of None \<Rightarrow> live m0 \<le> live m
        | Some g \<Rightarrow> tg_inv g \<and> distinct (map t_name (elems (tg_tpl g))) \<and> live m0 + tg_blocks g \<le> live m))"

lemma engine_inv_group:
  assumes "engine_inv mx m0 (ver, Some tg, m)" "tg_inv tg'" "same_templates tg tg'" "live m' - live m \<ge> tg_blocks tg' - tg_blocks tg"
  shows "engine_inv mx m0 (ver, Some tg', m')"
  using assms same_templates_names [OF assms(3)] by (auto simp: engine_inv_def)

lemma engine_inv_create:
  assumes inv: "engine_inv mx m0 (ver, None, m)" and lib: "libc_search qs bs" "libc_search qstr bstr" and src: "sources_ok source main_index bm em"
    and c: "mist_tg_create nd qs qstr bs ver m \<lparr>ptg = None, bad_index = None, error_descr = None\<rparr> source (length source) main_index bm em = Some (ec, out, m')"
  shows "engine_inv mx m0 (ver, ptg out, if error_descr out = None then m' else free m')"
proof (cases "ver = 0")
  case True
  then show ?thesis using inv c by (auto simp: mist_tg_create_def)
next
  case False
  let ?main = "nv_name (source ! main_index)" and ?out = "\<lparr>ptg = None, bad_index = None, error_descr = None\<rparr>"
  have ok: "bm \<noteq> []" "em \<noteq> []" "main_index < length source" "length source < 2 ^ 50" "?main \<noteq> []" "distinct (map nv_name source)"
      "\<forall>p \<in> set (take (length source) source). no_nul (nv_val p) \<and> small (nv_name p)"
    using src unfolding sources_ok_def by (auto simp: mist_name_is_bad_def)
  have "api_create_result source bm em ?main ?out m (ec, out, m')"
    using api_create_returns [OF lib False ok(1-3) order.refl ok(4,5,7), of nd m ?out] c by simp
  then consider (oom) "out = ?out" "live m' = live m"
    | (made) m1 m2 where "live m1 = live m + 2" "live m' = live m2 - 2"
      "create_result (map nv_name source) (map nv_val source) bm em ?main m1 (ptg out, bad_index out, error_descr out, m2)"
    unfolding api_create_result_def by auto
  then show ?thesis
  proof cases
    case oom
    then show ?thesis using inv False by (simp add: engine_inv_def)
  next
    case made
    show ?thesis
    proof (cases "ptg out")
      case None
      then show ?thesis using made inv False by (auto simp: engine_inv_def create_result_def)
    next
      case (Some g)
      then obtain Ts where t: "error_descr out = None" "live m2 = live m1 + 2 + gblocks (elems (tg_tpl g))"
          "list_all2 (\<lambda>s T. reads s bm em (Inr T)) (map nv_val source) Ts" "group_spec (map nv_name source) Ts ?main g"
        using made(3) unfolding create_result_def prod.case by auto
      have l: "length Ts = length (map nv_name source)" using list_all2_lengthD [OF t(3)] by simp
      have "distinct (map t_name (elems (tg_tpl g)))" by (rule group_linked [OF t(4) ok(6) l])
      then show ?thesis using Some made(1,2) t(1,2) group_spec_inv [OF t(4)] inv False by (simp add: engine_inv_def tg_blocks_def)
    qed
  qed
qed

text \<open>The operations on the group of the client return, whatever the memory.\<close>

lemma engine_group_returns:
  assumes inv: "engine_inv mx m0 (ver, Some tg, m)" and lib: "libc_search qs bs"
  shows "no_nul v \<Longrightarrow> name \<noteq> [] \<Longrightarrow> returns (mist_tg_add_value nd bs ver m tg name v) (add_value_result tg name v m)"
    "attrs_ok attrs \<Longrightarrow> returns (mist_tg_set_values bs ver m tg attrs (length attrs)) (set_values_result tg (map nv_pair attrs) m)"
    "returns (mist_tg_clear_values ver m tg) (\<lambda>(ec, tg', m'). ec = MIST_OK \<and> tg_inv tg' \<and> same_templates tg tg'
        \<and> (\<forall>t \<in> set (elems (tg_tpl tg')). elems (t_vals t) = [] \<and> \<not> t_is_evaluated t) \<and> live m' - live m = tg_blocks tg' - tg_blocks tg)"
proof -
  note gl = group_libc.intro [OF lib libc_ref.libc_search_axioms]
  have i: "ver \<noteq> 0" "tg_inv tg" "distinct (map t_name (elems (tg_tpl tg)))" using inv by (auto simp: engine_inv_def)
  show "returns (mist_tg_add_value nd bs ver m tg name v) (add_value_result tg name v m)" if "no_nul v" "name \<noteq> []"
    using group_libc.add_value_impl_returns [OF gl i(2) that(1)] that(2) i(1) by (simp add: mist_tg_add_value_def assert_nd_def)
  show "returns (mist_tg_set_values bs ver m tg attrs (length attrs)) (set_values_result tg (map nv_pair attrs) m)" if "attrs_ok attrs"
    using api_set_values_returns [OF lib i order.refl, of attrs m] that by (auto simp: attrs_ok_def)
  show "returns (mist_tg_clear_values ver m tg) (\<lambda>(ec, tg', m'). ec = MIST_OK \<and> tg_inv tg' \<and> same_templates tg tg'
        \<and> (\<forall>t \<in> set (elems (tg_tpl tg')). elems (t_vals t) = [] \<and> \<not> t_is_evaluated t) \<and> live m' - live m = tg_blocks tg' - tg_blocks tg)"
    using clear_values_impl_returns [OF i(2), of m] i(1) unfolding mist_tg_clear_values_def by (auto simp: returns_iff)
qed

lemma engine_run_inv:
  assumes lib: "libc_search qs bs" "libc_search qstr bstr" and run: "engine_run nd qs qstr bs minor micro m0 st"
  shows "engine_inv (MIST_ENGINE_API_VERSION minor micro) m0 st"
  using run
proof induction
  case start
  then show ?case by (simp add: engine_inv_def)
next
  case (init ver tg m api_ver ec ver')
  then show ?case by (auto simp: engine_inv_def mist_engine_init_def split: if_splits)
next
  case (create ver m source main_index bm em ec out m')
  then show ?case by (intro engine_inv_create [OF _ lib])
next
  case (destroy ver tg m ec m')
  then show ?case using api_destroy_live [OF _ _ destroy(2)] by (auto simp: engine_inv_def)
next
  case (add_value ver tg m v name ec tg' m')
  show ?case
  proof (cases "name = []")
    case True
    then show ?thesis using add_value by (auto simp: mist_tg_add_value_def assert_nd_def engine_inv_def split: if_splits)
  next
    case False
    then have "add_value_result tg name v m (ec, tg', m')" using engine_group_returns(1) [OF add_value(4) lib(1) add_value(2), of name nd] add_value(3) by simp
    then show ?thesis using engine_inv_group [OF add_value(4)] by (auto simp: add_value_result_def)
  qed
next
  case (set_values ver tg m attrs ec tg' m')
  have "set_values_result tg (map nv_pair attrs) m (ec, tg', m')" using engine_group_returns(2) [OF set_values(4) lib(1) set_values(2)] set_values(3) by simp
  then show ?case using engine_inv_group [OF set_values(4)] by (auto simp: set_values_result_def)
next
  case (clear_values ver tg m ec tg' m')
  then show ?case using engine_group_returns(3) [OF clear_values(3) lib(1)] engine_inv_group [OF clear_values(3)] by auto
next
  case (evaluate ver tg m n presult nvals ec vals k tg' m')
  have i: "ver \<noteq> 0" "tg_inv tg" using evaluate(3) by (auto simp: engine_inv_def)
  obtain r where r: "mist_tg_evaluate_impl n m tg = Some (r, tg', m')"
    using evaluate(2) i(1) by (auto simp: mist_tg_evaluate_def assert_nd_def Let_def check_def split: Option.bind_splits option.splits if_splits)
  show ?case
    by (rule engine_inv_group [OF evaluate(3) evaluate_impl_keeps(1,2) [OF i(2) r]]) (use evaluate_impl_keeps(4) [OF i(2) r] in \<open>simp split: if_splits\<close>)
qed

section \<open>Properties\<close>

text \<open>
  C1: a client that requests a version the library supports, makes a group from named sources, sets values and evaluates the group
  gets exactly the values that the meaning of the sources gives the main template for these values, the calls all report success,
  and after the group has been destroyed no block is left.
\<close>

theorem mist_engine_session_correct:
  assumes "libc_search qs bs" and "libc_search qstr bstr" and "0 < api_ver" and "api_ver \<le> MIST_ENGINE_API_VERSION minor micro"
    and "sources_ok source main_index bm em" and "list_all2 (\<lambda>p T. reads (nv_val p) bm em (Inr T)) source Ts" and "attrs_ok attrs"
    and "let S = map_of (zip (map nv_name source) Ts); P = values_for (map nv_pair attrs)
         in meaning value_limit S P h (entity_of S P (nv_name (source ! main_index))) = Some vs"
    and "h \<le> n" and "never_fails m"
  shows "returns (engine_session nd qs qstr bs minor micro api_ver n m source main_index bm em attrs) (\<lambda>(codes, presult, nvals, m').
     codes = replicate 5 MIST_OK \<and> presult = Some vs \<and> nvals = length vs \<and> live m' = live m)"
proof -
  let ?out = "\<lparr>ptg = None, bad_index = None, error_descr = None\<rparr>"
  have v: "api_ver \<noteq> 0" "mist_engine_init minor micro 0 api_ver = (MIST_OK, api_ver)" using assms(3,4) by (auto simp: mist_engine_init_def)
  obtain tg m1 where c: "mist_tg_create nd qs qstr bs api_ver m ?out source (length source) main_index bm em = Some (MIST_OK, \<lparr>ptg = Some tg, bad_index = None, error_descr = None\<rparr>, m1)"
      "group_spec (map nv_name source) Ts (nv_name (source ! main_index)) tg" "live m1 = live m + tg_blocks tg" "never_fails m1"
    using created_group [OF assms(1,2) v(1) assms(5,10,6)] by metis
  have d: "distinct (map nv_name source)" "length Ts = length (map nv_name source)" using assms(5) list_all2_lengthD [OF assms(6)] by (simp_all add: sources_ok_def)
  obtain k where k: "tg_main tg = Ref k" "distinct (map t_name (elems (tg_tpl tg)))"
      "tval value_limit (map (sem_with (map nv_pair attrs)) (elems (tg_tpl tg))) h (sem_with (map nv_pair attrs) (elems (tg_tpl tg) ! k)) = Some vs"
    using group_meaning [OF c(2) d assms(8) [unfolded Let_def]] by metis
  have fresh: "\<forall>t \<in> set (elems (tg_tpl tg)). elems (t_vals t) = []" using c(2) unfolding group_spec_def Let_def by blast
  obtain tg1 m2 tg2 m3 where r: "mist_tg_set_values bs api_ver m1 tg attrs (length attrs) = Some (MIST_OK, tg1, m2)"
      "mist_tg_evaluate nd n api_ver m2 tg1 None 0 = Some (MIST_OK, Some vs, length vs, tg2, m3)" "tg_inv tg2" "live m3 - live m1 = tg_blocks tg2 - tg_blocks tg"
    using valued_group_run [OF group_spec_inv [OF c(2)] k(2,1) assms(1) v(1) assms(7) fresh c(4) k(3) assms(9)] by metis
  obtain ec m4 where e: "mist_tg_destroy api_ver m3 tg2 = (ec, m4)" by fastforce
  show ?thesis using v(2) c(1,3) r e api_destroy_live [OF r(3) v(1) e] by (simp add: engine_session_def eval_nat_numeral)
qed

text \<open>
  C12: whatever a client does, in any order and whatever memory is refused, the version in use is 0 or one the library supports;
  before one has been accepted there is no group and nothing has been allocated; a group is always in order, with unique names,
  and owns its blocks; and adding, setting and clearing values always return, never with a message that the library is not initialised.
\<close>

theorem engine_run_safe:
  assumes "libc_search qs bs" and "libc_search qstr bstr" and "engine_run nd qs qstr bs minor micro m0 (ver, tg, m)"
  shows "ver \<le> MIST_ENGINE_API_VERSION minor micro \<and> (ver = 0 \<longrightarrow> tg = None \<and> m = m0)
     \<and> (case tg of None \<Rightarrow> live m0 \<le> live m
        | Some g \<Rightarrow> tg_inv g \<and> distinct (map t_name (elems (tg_tpl g))) \<and> live m0 + tg_blocks g \<le> live m
            \<and> (\<forall>name v. name \<noteq> [] \<and> no_nul v \<longrightarrow> returns (mist_tg_add_value nd bs ver m g name v) (\<lambda>(ec, _). ec \<in> {MIST_OK, MIST_OUT_OF_MEMORY}))
            \<and> (\<forall>attrs. attrs_ok attrs \<longrightarrow> returns (mist_tg_set_values bs ver m g attrs (length attrs)) (\<lambda>(ec, _). ec \<in> {MIST_OK, MIST_OUT_OF_MEMORY}))
            \<and> returns (mist_tg_clear_values ver m g) (\<lambda>(ec, _). ec = MIST_OK))"
proof -
  have inv: "engine_inv (MIST_ENGINE_API_VERSION minor micro) m0 (ver, tg, m)" by (rule engine_run_inv [OF assms])
  show ?thesis
  proof (cases tg)
    case None
    then show ?thesis using inv by (simp add: engine_inv_def)
  next
    case (Some g)
    note ops = engine_group_returns [OF inv [unfolded Some] assms(1)]
    have "returns (mist_tg_add_value nd bs ver m g name v) (\<lambda>(ec, _). ec \<in> {MIST_OK, MIST_OUT_OF_MEMORY})" if "name \<noteq> []" "no_nul v" for name v
      by (rule returns_mono [OF ops(1) [OF that(2,1)]]) (auto simp: add_value_result_def Let_def)
    moreover have "returns (mist_tg_set_values bs ver m g attrs (length attrs)) (\<lambda>(ec, _). ec \<in> {MIST_OK, MIST_OUT_OF_MEMORY})" if "attrs_ok attrs" for attrs
      by (rule returns_mono [OF ops(2) [OF that]]) (auto simp: set_values_result_def)
    moreover have "returns (mist_tg_clear_values ver m g) (\<lambda>(ec, _). ec = MIST_OK)" by (rule returns_mono [OF ops(3)]) auto
    ultimately show ?thesis using inv Some by (simp add: engine_inv_def)
  qed
qed

definition letter_source :: "CMistNameValuePair list" where
  "letter_source = [\<lparr>nv_name = ''letter'', nv_val = ''Dear <$who$>, <$sign$>''\<rparr>, \<lparr>nv_name = ''sign'', nv_val = ''bye''\<rparr>]"

definition letter_attrs :: "CMistNameValuePair list" where
  "letter_attrs = [\<lparr>nv_name = ''who'', nv_val = ''Ann''\<rparr>, \<lparr>nv_name = ''date'', nv_val = ''today''\<rparr>, \<lparr>nv_name = ''who'', nv_val = ''Bob''\<rparr>]"

lemma letter_source_ok:
  "sources_ok letter_source 0 ''<$'' ''$>''" "list_all2 (\<lambda>p T. reads (nv_val p) ''<$'' ''$>'' (Inr T)) letter_source [letter_tree, Tmpl ''bye'' []]"
  "attrs_ok letter_attrs"
  using letter_reads
  by (simp_all add: letter_source_def letter_attrs_def sources_ok_def attrs_ok_def NUL_def mist_name_is_bad_def char_is_bad_iff name_char_def small_def)

lemma letter_meaning:
  "let S = map_of (zip (map nv_name letter_source) [letter_tree, Tmpl ''bye'' []]); P = values_for (map nv_pair letter_attrs)
   in meaning value_limit S P 2 (entity_of S P (nv_name (letter_source ! 0))) = Some [''Dear Ann, bye'', ''Dear Bob, bye'']"
proof -
  let ?S = "map_of (zip (map nv_name letter_source) [letter_tree, Tmpl ''bye'' []])" and ?P = "values_for (map nv_pair letter_attrs)"
  have "meaning value_limit ?S ?P (Suc (Suc 0)) (entity_of ?S ?P (nv_name (letter_source ! 0))) = Some [''Dear Ann, bye'', ''Dear Bob, bye'']"
    by (simp add: letter_source_def letter_attrs_def letter_tree_def entity_of_def values_for_def nv_pair_def phx_meaning_def
        expand_def pick_def longest_def room_def rows_def value_limit_def upt_rec)
  then show ?thesis by (simp only: numeral_2_eq_2 Let_def)
qed

theorem mist_engine_session_correct_witness:
  "returns (engine_session False ref_qsort ref_qsort ref_bsearch 1 0 1 2 mem0 letter_source 0 ''<$'' ''$>'' letter_attrs) (\<lambda>(codes, presult, nvals, m').
     codes = replicate 5 MIST_OK \<and> presult = Some [''Dear Ann, bye'', ''Dear Bob, bye''] \<and> nvals = 2 \<and> live m' = 0)"
proof -
  have v: "(1 :: 32 word) \<le> MIST_ENGINE_API_VERSION 1 0" "0 < (1 :: 32 word)" "never_fails mem0" by (simp_all add: MIST_ENGINE_API_VERSION_def never_fails_def)
  show ?thesis
    by (rule returns_mono [OF mist_engine_session_correct [OF libc_ref.libc_search_axioms libc_ref.libc_search_axioms v(2,1) letter_source_ok letter_meaning order.refl v(3)]]) auto
qed

theorem engine_run_safe_witness:
  "\<exists>ver g m. engine_run False ref_qsort ref_qsort ref_bsearch 1 0 mem0 (ver, Some g, m) \<and> ver = 1 \<and> tg_inv g \<and> tg_blocks g \<le> live m"
proof -
  let ?run = "engine_run False ref_qsort ref_qsort ref_bsearch 1 0 mem0"
  have nf: "never_fails mem0" by (simp add: never_fails_def)
  have v: "mist_engine_init 1 0 0 1 = (MIST_OK, 1)" by (simp add: mist_engine_init_def MIST_ENGINE_API_VERSION_def)
  have i: "?run (1, None, mem0)" by (rule engine_run.init [OF engine_run.start v])
  obtain tg m where c: "mist_tg_create False ref_qsort ref_qsort ref_bsearch 1 mem0 \<lparr>ptg = None, bad_index = None, error_descr = None\<rparr> letter_source (length letter_source) 0 ''<$'' ''$>''
      = Some (MIST_OK, \<lparr>ptg = Some tg, bad_index = None, error_descr = None\<rparr>, m)"
    using created_group [OF libc_ref.libc_search_axioms libc_ref.libc_search_axioms one_neq_zero letter_source_ok(1) nf letter_source_ok(2)] by metis
  have r: "?run (1, Some tg, m)" using engine_run.create [OF i letter_source_ok(1) c] by simp
  show ?thesis
    using engine_run_safe [OF libc_ref.libc_search_axioms libc_ref.libc_search_axioms r] r by (intro exI [of _ 1] exI [of _ tg] exI [of _ m]) auto
qed

text \<open>
  C13: all outcomes of \<open>mist_tg_create\<close> once the library is initialised: a group as specified, whose blocks are all that has been
  allocated; an unspecified error, where with memory to spare \<open>bad_index\<close> and \<open>error_descr\<close> tell the first source that cannot be
  loaded and why; or out of memory, in which case \<open>error_descr\<close> is not set to NULL but keeps what it held before the call.
\<close>

theorem mist_tg_create_outcomes:
  assumes "libc_search qs bs" and "libc_search qstr bstr" and "ver \<noteq> 0" and "bm \<noteq> []" and "em \<noteq> []"
    and "main_index < num" and "num \<le> length source" and "num < 2 ^ 50" and "nv_name (source ! main_index) \<noteq> []"
    and "\<forall>p \<in> set (take num source). no_nul (nv_val p) \<and> small (nv_name p)"
  shows "returns (mist_tg_create nd qs qstr bs ver m out source num main_index bm em) (\<lambda>(ec, out', m').
     let names = map nv_name (take num source); strings = map nv_val (take num source) in
     ec = MIST_OK \<and> (\<exists>g Ts. out' = \<lparr>ptg = Some g, bad_index = None, error_descr = None\<rparr> \<and> (\<forall>n \<in> set names. \<not> mist_name_is_bad n)
        \<and> list_all2 (\<lambda>s T. reads s bm em (Inr T)) strings Ts \<and> group_spec names Ts (nv_name (source ! main_index)) g \<and> live m' = live m + tg_blocks g)
     \<or> ec = MIST_UNSPECIFIED_ERROR \<and> ptg out' = None
        \<and> (never_fails m \<and> num + sum_list (map length strings) < 2 ^ 50 \<longrightarrow> live m' = live m + 1
             \<and> (\<exists>k < num. bad_index out' = Some k \<and> refused (names ! k) (strings ! k) bm em (error_descr out')
                  \<and> (\<forall>j < k. \<not> mist_name_is_bad (names ! j) \<and> (\<exists>T. reads (strings ! j) bm em (Inr T)))))
     \<or> ec = MIST_OUT_OF_MEMORY \<and> \<not> never_fails m \<and> out' = \<lparr>ptg = None, bad_index = None, error_descr = error_descr out\<rparr> \<and> live m' = live m)"
proof (rule returns_mono [OF api_create_returns [OF assms]], clarify)
  fix ec out' m'
  let ?names = "map nv_name (take num source)" and ?strings = "map nv_val (take num source)" and ?main = "nv_name (source ! main_index)"
  assume "api_create_result (take num source) bm em ?main out m (ec, out', m')"
  then consider (oom) "ec = MIST_OUT_OF_MEMORY" "out' = out\<lparr>ptg := None, bad_index := None\<rparr>" "live m' = live m" "\<not> never_fails m"
    | (made) m1 m2 where "ec = (if ptg out' = None then MIST_UNSPECIFIED_ERROR else MIST_OK)" "live m1 = live m + 2" "never_fails m \<longrightarrow> never_fails m1" "live m' = live m2 - 2"
      "create_result ?names ?strings bm em ?main m1 (ptg out', bad_index out', error_descr out', m2)"
    unfolding api_create_result_def by auto
  then show "let names = ?names; strings = ?strings in
     ec = MIST_OK \<and> (\<exists>g Ts. out' = \<lparr>ptg = Some g, bad_index = None, error_descr = None\<rparr> \<and> (\<forall>n \<in> set names. \<not> mist_name_is_bad n)
        \<and> list_all2 (\<lambda>s T. reads s bm em (Inr T)) strings Ts \<and> group_spec names Ts ?main g \<and> live m' = live m + tg_blocks g)
     \<or> ec = MIST_UNSPECIFIED_ERROR \<and> ptg out' = None
        \<and> (never_fails m \<and> num + sum_list (map length strings) < 2 ^ 50 \<longrightarrow> live m' = live m + 1
             \<and> (\<exists>k < num. bad_index out' = Some k \<and> refused (names ! k) (strings ! k) bm em (error_descr out')
                  \<and> (\<forall>j < k. \<not> mist_name_is_bad (names ! j) \<and> (\<exists>T. reads (strings ! j) bm em (Inr T)))))
     \<or> ec = MIST_OUT_OF_MEMORY \<and> \<not> never_fails m \<and> out' = \<lparr>ptg = None, bad_index = None, error_descr = error_descr out\<rparr> \<and> live m' = live m"
    (is "let names = _; strings = _ in ?ok names strings \<or> ?bad names strings \<or> ?oom")
  proof cases
    case oom
    then show ?thesis by (cases out) simp
  next
    case made
    have len: "length ?names = num" using assms(7) by simp
    have "source ! main_index \<in> set (take num source)" using assms(6,7) by (metis in_set_conv_nth length_take min_absorb2 nth_take)
    then have main: "?main \<in> set ?names" "small ?main" using assms(10) by auto
    show ?thesis
    proof (cases "ptg out'")
      case None
      have "?bad ?names ?strings" using made main None len unfolding create_result_def prod.case None option.case by fastforce
      then show ?thesis unfolding Let_def by blast
    next
      case (Some g)
      obtain Ts where t: "bad_index out' = None" "error_descr out' = None" "live m2 = live m1 + 2 + gblocks (elems (tg_tpl g))" "\<forall>n \<in> set ?names. \<not> mist_name_is_bad n"
          "list_all2 (\<lambda>s T. reads s bm em (Inr T)) ?strings Ts" "group_spec ?names Ts ?main g"
        using made(5) unfolding create_result_def prod.case Some option.case by blast
      have "out' = \<lparr>ptg = Some g, bad_index = None, error_descr = None\<rparr>" using t(1,2) Some by (cases out') simp
      moreover have "live m' = live m + tg_blocks g" "ec = MIST_OK" using made(1,2,4) t(3) Some by (simp_all add: tg_blocks_def)
      ultimately have "?ok ?names ?strings" using t(4-6) by blast
      then show ?thesis unfolding Let_def by blast
    qed
  qed
qed

theorem mist_tg_create_outcomes_witness:
  "returns (mist_tg_create False ref_qsort ref_qsort ref_bsearch 1 \<lparr>script = [False], live = 0, junk = (\<lambda>_. CHR 0x00)\<rparr> \<lparr>ptg = None, bad_index = None, error_descr = Some ''old''\<rparr>
       letter_source 2 0 ''<$'' ''$>'') (\<lambda>(ec, out', m'). ec = MIST_OUT_OF_MEMORY \<and> error_descr out' = Some ''old'')"
proof -
  let ?m = "\<lparr>script = [False], live = 0, junk = (\<lambda>_. CHR 0x00)\<rparr>" and ?out = "\<lparr>ptg = None, bad_index = None, error_descr = Some ''old''\<rparr>"
  have src: "0 < (2 :: nat)" "2 \<le> length letter_source" "nv_name (letter_source ! 0) \<noteq> []" "\<forall>p \<in> set (take 2 letter_source). no_nul (nv_val p) \<and> small (nv_name p)"
    by (simp_all add: letter_source_def NUL_def small_def)
  have run: "mist_tg_create False ref_qsort ref_qsort ref_bsearch 1 ?m ?out letter_source 2 0 ''<$'' ''$>''
      = Some (MIST_OUT_OF_MEMORY, ?out, ?m\<lparr>script := []\<rparr>)"
    by (simp add: mist_tg_create_def assert_nd_def grar_create_def malloc_def next_answer_def)
  show ?thesis
    using mist_tg_create_outcomes [OF libc_ref.libc_search_axioms libc_ref.libc_search_axioms, of 1 "''<$''" "''$>''" 0 2 letter_source False ?m ?out] src
    unfolding run by auto
qed

end
