(* ===== verification/Mist_Path.thy ===== *)
theory Mist_Path
  imports Grar Mist_String
begin

text \<open>
  Paths: the functions on paths and directories of
  \<^verbatim>\<open>src/snippets/code_generation/mist_gen.simple/src/mist_engine/src/mist_file_utils.c\<close>.

  The calls of the operating system are parameters: the record \<open>posix\<close> holds \<open>getcwd\<close> (\<open>None\<close> where it returns NULL),
  \<open>chdir\<close> and \<open>mkdir\<close> (\<open>True\<close> where they return 0) as functions on a state of the system of any type. Memory is passed as
  in the other theories; pointers into a string are offsets.
\<close>

record 's posix =
  getcwd :: "'s \<Rightarrow> string option"
  chdir :: "string \<Rightarrow> 's \<Rightarrow> bool \<times> 's"
  mkdir :: "string \<Rightarrow> 's \<Rightarrow> bool \<times> 's"

section \<open>Strings\<close>

abbreviation slash :: char where
  "slash \<equiv> CHR ''/''"

text \<open>\<open>strrchr\<close>: the offset of the last occurrence.\<close>

fun strrchr :: "string \<Rightarrow> char \<Rightarrow> nat option" where
  "strrchr [] c = None"
| "strrchr (x # s) c = (case strrchr s c of Some k \<Rightarrow> Some (Suc k) | None \<Rightarrow> if x = c then Some 0 else None)"

definition mist_path_to_unix_slashes :: "string \<Rightarrow> string" where
  "mist_path_to_unix_slashes str = map (\<lambda>c. if c = CHR 0x5C then slash else c) str"

definition mist_path_is_absolute :: "string \<Rightarrow> bool" where
  "mist_path_is_absolute path \<longleftrightarrow>
     path \<noteq> [] \<and> (hd path = slash \<or> hd path = CHR 0x5C \<or> hd path = CHR ''~'') \<or> strchr path (CHR '':'') \<noteq> None"

definition mist_dir_is_root :: "string \<Rightarrow> bool option" where
  "mist_dir_is_root path = do {
     _ \<leftarrow> check (path \<noteq> []);
     if path = [slash] \<or> path = [CHR 0x5C] then Some True
     else if 1 < length path \<and> path ! 1 = CHR '':'' then do {
       pos \<leftarrow> mist_find_first_not_of (drop 2 path) [slash, CHR 0x5C];
       Some (pos = None)
     } else Some False
   }"

definition mist_dir_is_special :: "string \<Rightarrow> bool option" where
  "mist_dir_is_special path = do {
     _ \<leftarrow> check (path \<noteq> []);
     let pos = (case strrchr path slash of None \<Rightarrow> path | Some k \<Rightarrow> drop (k + 1) path);
     Some (pos \<noteq> [] \<and> hd pos = CHR ''.'' \<or> strcmp pos ''CVS'' = 0)
   }"

definition mist_path_sum :: "mem \<Rightarrow> string \<Rightarrow> string \<Rightarrow> (string option \<times> mem) option" where
  "mist_path_sum m path_left path_right =
     (if mist_path_is_absolute path_right then Some (strdup m path_right)
      else do {
        let len = length path_left;
        (case malloc m (len + length path_right + 2) of (b, m) \<Rightarrow>
           if \<not> b then Some (None, m)
           else do {
             res \<leftarrow> write_at (fresh m 0 (len + length path_right + 2)) 0 (path_left @ [NUL]);
             (res, len) \<leftarrow> (if len \<noteq> 0 then do {
                 let len = (if path_left ! (len - 1) = slash then len - 1 else len);
                 res \<leftarrow> write_at res len [slash];
                 Some (res, len + 1)
               } else Some (res, len));
             res \<leftarrow> write_at res len ((if path_right \<noteq> [] \<and> hd path_right = slash then tl path_right else path_right) @ [NUL]);
             sum \<leftarrow> string_at res 0;
             Some (Some sum, m)
           })
      })"

section \<open>Absolute paths\<close>

text \<open>
  The loop that splits the path: \<open>pos\<close> is what is left of it. A component ends where the code puts a NUL in place of the next
  separator.
\<close>

function split_path :: "mem \<Rightarrow> string grar \<Rightarrow> string \<Rightarrow> (bool \<times> string grar \<times> mem) option" where
  "split_path m comps pos =
     (if pos = [] then Some (True, comps, m)
      else do {
        (r, comps, m) \<leftarrow> grar_add_element m comps (takeWhile (\<lambda>c. c \<noteq> slash) pos);
        if \<not> r then Some (False, comps, m)
        else (case strchr pos slash of
           None \<Rightarrow> Some (True, comps, m)
         | Some k \<Rightarrow> split_path m comps (dropWhile (\<lambda>c. c = slash) (drop (k + 1) pos)))
      })"
  by pat_completeness auto
termination
  by (relation "measure (\<lambda>(m, comps, pos). length pos)") (auto simp: less_Suc_eq_le intro!: le_less_trans [OF length_dropWhile_le])

declare split_path.simps [simp del]

text \<open>The components before the index \<open>j\<close>: the last one that is left is removed.\<close>

fun remove_before :: "nat \<Rightarrow> string option list \<Rightarrow> string option list" where
  "remove_before 0 cs = cs"
| "remove_before (Suc j) cs = (if cs ! j \<noteq> None then cs[j := None] else remove_before j cs)"

lemma remove_before_length [simp]: "length (remove_before j cs) = length cs"
  by (induction j) auto

function remove_dots :: "nat \<Rightarrow> string option list \<Rightarrow> string option list option" where
  "remove_dots i cs =
     (if i < length cs then
        (case cs ! i of
           None \<Rightarrow> None
         | Some c \<Rightarrow>
           if strcmp c ''.'' = 0 then remove_dots (i + 1) (cs[i := None])
           else if strcmp c ''..'' = 0 then remove_dots (i + 1) (remove_before i (cs[i := None]))
           else remove_dots (i + 1) cs)
      else Some cs)"
  by pat_completeness auto
termination
  by (relation "measure (\<lambda>(i, cs). length cs - i)") auto

declare remove_dots.simps [simp del]

text \<open>The loop that writes the components.\<close>

fun emit_components :: "char list \<times> nat \<Rightarrow> string option list \<Rightarrow> (char list \<times> nat) option" where
  "emit_components d [] = Some d"
| "emit_components d (None # cs) = emit_components d cs"
| "emit_components d (Some c # cs) = do {
     d \<leftarrow> emit d [slash];
     d \<leftarrow> emit d (strncpy_bytes c (length c));
     emit_components d cs
   }"

definition mist_path_absolute :: "('s, 'x) posix_scheme \<Rightarrow> 's \<Rightarrow> mem \<Rightarrow> string \<Rightarrow> (string option \<times> mem) option" where
  "mist_path_absolute P s m path = do {
     _ \<leftarrow> check (path \<noteq> []);
     (raw, m) \<leftarrow> (if \<not> mist_path_is_absolute path then
         (case getcwd P s of None \<Rightarrow> Some (None, m) | Some cwd \<Rightarrow> mist_path_sum m cwd path)
       else Some (strdup m path));
     (case raw of
        None \<Rightarrow> Some (None, m)
      | Some raw \<Rightarrow> do {
          _ \<leftarrow> check (raw = [] \<or> hd raw \<noteq> CHR ''.'' \<and> hd raw \<noteq> CHR '':'');
          (case malloc m (length raw + 1) of (b, m) \<Rightarrow>
             if \<not> b then Some (None, free m)
             else do {
               let res = fresh m 0 (length raw + 1);
               let raw = mist_path_to_unix_slashes raw;
               (case strchr raw slash of
                  None \<Rightarrow> do {
                    res \<leftarrow> write_at res 0 (raw @ [NUL]);
                    r \<leftarrow> string_at res 0;
                    Some (Some r, free m)
                  }
                | Some k \<Rightarrow> (case grar_create m of
                    (None, m) \<Rightarrow> Some (None, free (free m))
                  | (Some comps, m) \<Rightarrow> do {
                      d \<leftarrow> emit (res, 0) (strncpy_bytes raw k);
                      (r, comps, m) \<leftarrow> split_path m comps (dropWhile (\<lambda>c. c = slash) (drop k raw));
                      if \<not> r then Some (None, free (free (snd (grar_destroy m comps))))
                      else do {
                        cs \<leftarrow> remove_dots 0 (map Some (elems comps));
                        (res, cur) \<leftarrow> emit_components d cs;
                        (res, cur) \<leftarrow> (if cur = 0 then emit (res, cur) [slash] else Some (res, cur));
                        res \<leftarrow> write_at res cur [NUL];
                        r \<leftarrow> string_at res 0;
                        Some (Some r, free (snd (grar_destroy m comps)))
                      }
                    }))
             })
        })
   }"

section \<open>Parts of a path\<close>

text \<open>The loops of \<open>mist_path_get_last\<close>, which go back from the offset \<open>i\<close>; reading before the start is undefined.\<close>

fun skip_slashes_back :: "string \<Rightarrow> nat \<Rightarrow> nat option" where
  "skip_slashes_back path 0 = (if path ! 0 = slash then None else Some 0)"
| "skip_slashes_back path (Suc i) = (if path ! Suc i = slash then skip_slashes_back path i else Some (Suc i))"

fun component_start :: "string \<Rightarrow> nat \<Rightarrow> nat" where
  "component_start path 0 = (if path ! 0 = slash then 1 else 0)"
| "component_start path (Suc i) = (if path ! Suc i = slash then Suc (Suc i) else component_start path i)"

definition mist_path_get_last :: "mem \<Rightarrow> string \<Rightarrow> (string option \<times> mem) option" where
  "mist_path_get_last m path = do {
     _ \<leftarrow> check (path \<noteq> []);
     end \<leftarrow> skip_slashes_back path (length path - 1);
     let beg = component_start path end;
     let len = end + 1 - beg;
     (case malloc m (len + 1 + length ''.cfg'') of (b, m) \<Rightarrow>
        if \<not> b then Some (None, m)
        else do {
          res \<leftarrow> write_at (fresh m 0 (len + 1 + length ''.cfg'')) 0 (strncpy_bytes (drop beg path) len);
          res \<leftarrow> write_at res len [NUL];
          r \<leftarrow> string_at res 0;
          Some (Some r, m)
        })
   }"

definition mist_path_get_containing_dir :: "('s, 'x) posix_scheme \<Rightarrow> 's \<Rightarrow> mem \<Rightarrow> string \<Rightarrow> (string option \<times> mem) option" where
  "mist_path_get_containing_dir P s m path = do {
     (dpath, m) \<leftarrow> mist_path_absolute P s m path;
     (case dpath of
        None \<Rightarrow> Some (None, m)
      | Some dpath \<Rightarrow> do {
          last_slash \<leftarrow> strrchr dpath slash;
          _ \<leftarrow> check (last_slash + 1 < length dpath);
          Some (Some (take last_slash dpath), m)
        })
   }"

section \<open>Directories\<close>

definition mist_dir_exists :: "('s, 'x) posix_scheme \<Rightarrow> 's \<Rightarrow> string \<Rightarrow> (bool \<times> 's) option" where
  "mist_dir_exists P s path = do {
     _ \<leftarrow> check (path \<noteq> []);
     (case getcwd P s of
        None \<Rightarrow> Some (False, s)
      | Some cwd \<Rightarrow> (case chdir P path s of (b, s) \<Rightarrow> if b then Some (chdir P cwd s) else Some (False, s)))
   }"

definition mist_subdir_exists :: "('s, 'x) posix_scheme \<Rightarrow> 's \<Rightarrow> string \<Rightarrow> string \<Rightarrow> (bool \<times> 's) option" where
  "mist_subdir_exists P s dir subdir = do {
     _ \<leftarrow> check (dir \<noteq> [] \<and> subdir \<noteq> []);
     (r, s) \<leftarrow> mist_dir_exists P s dir;
     _ \<leftarrow> check r;
     (case getcwd P s of
        None \<Rightarrow> Some (False, s)
      | Some cwd \<Rightarrow> (case chdir P dir s of (b, s) \<Rightarrow>
          if b then
            (case chdir P subdir s of (b1, s) \<Rightarrow> (case chdir P cwd s of (b2, s) \<Rightarrow> Some (b1 \<and> b2, s)))
          else Some (False, s)))
   }"

definition mist_create_directory :: "('s, 'x) posix_scheme \<Rightarrow> 's \<Rightarrow> string \<Rightarrow> (bool \<times> 's) option" where
  "mist_create_directory P s path = do {
     _ \<leftarrow> check (path \<noteq> []);
     Some (mkdir P path s)
   }"

text \<open>
  The loop of \<open>mist_create_path\<close>. \<open>pos\<close> is the offset in the path; the search starts behind it, which must still be in the
  string, its terminating NUL included. The result has the flags \<open>created_something\<close> and \<open>is_error\<close>.
\<close>

function create_path_loop :: "('s, 'x) posix_scheme \<Rightarrow> 's \<Rightarrow> string \<Rightarrow> nat \<Rightarrow> bool \<Rightarrow> (bool \<times> bool \<times> 's) option" where
  "create_path_loop P s path pos created =
     (if length path < pos + 1 then None
      else do {
        let pos' = strstr_from path (pos + 1) [slash];
        let dir = (case pos' of None \<Rightarrow> path | Some k \<Rightarrow> take k path);
        (r, s) \<leftarrow> mist_dir_exists P s dir;
        (ok, created, s) \<leftarrow> (if \<not> r then do {
            (r, s) \<leftarrow> mist_create_directory P s dir;
            Some (r, created \<or> r, s)
          } else Some (True, created, s));
        (case pos' of
           None \<Rightarrow> Some (created, \<not> ok, s)
         | Some k \<Rightarrow> if \<not> ok then Some (created, True, s) else create_path_loop P s path k created)
      })"
  by pat_completeness auto
termination
proof (relation "measure (\<lambda>(P, s, path, pos, created). length path - pos)", goal_cases)
  case (2 P s path pos created x xa xb _ _ xc _ _ _ _ xd)
  then have "strstr_from path (pos + 1) [slash] = Some xd" by simp
  then have "pos + 1 \<le> xd" by (auto simp: strstr_from_def)
  then show ?case using 2 by auto
qed simp

declare create_path_loop.simps [simp del]

definition mist_create_path :: "('s, 'x) posix_scheme \<Rightarrow> 's \<Rightarrow> mem \<Rightarrow> string \<Rightarrow> (bool \<times> 's \<times> mem) option" where
  "mist_create_path P s m path = do {
     _ \<leftarrow> check (path \<noteq> []);
     (full_path, m) \<leftarrow> mist_path_absolute P s m path;
     (case full_path of
        None \<Rightarrow> Some (False, s, m)
      | Some full_path \<Rightarrow> do {
          let pos = (if full_path \<noteq> [] \<and> hd full_path = slash then 1 else 0);
          _ \<leftarrow> check (\<not> (pos < length full_path \<and> full_path ! pos = slash));
          (created, is_error, s) \<leftarrow> create_path_loop P s full_path pos False;
          Some (\<not> is_error \<and> created, s, free m)
        })
   }"

definition mist_create_path_for_file :: "('s, 'x) posix_scheme \<Rightarrow> 's \<Rightarrow> mem \<Rightarrow> string \<Rightarrow> (bool \<times> 's \<times> mem) option" where
  "mist_create_path_for_file P s m file_path = do {
     (path, m) \<leftarrow> mist_path_absolute P s m file_path;
     (case path of
        None \<Rightarrow> Some (False, s, m)
      | Some path \<Rightarrow> do {
          r \<leftarrow> mist_dir_is_root path;
          if r then Some (False, s, free m)
          else do {
            pos \<leftarrow> strrchr path slash;
            let path = take pos path;
            (r, s) \<leftarrow> mist_dir_exists P s path;
            if r then Some (True, s, free m)
            else do {
              (r, s, m) \<leftarrow> mist_create_path P s m path;
              Some (r, s, free m)
            }
          }
        })
   }"

end
