(* ===== verification/Mist_Config.thy ===== *)
theory Mist_Config
  imports Mist_Path Smap
begin

text \<open>
  Configuration files and the reading of files:
  \<^verbatim>\<open>src/snippets/code_generation/mist_gen.simple/src/mist_engine/src/mist_file_utils.c\<close>.

  A stream that is open for reading is a record: the contents of the file, the position, the indicators for the end of the
  file and for errors, and a script with the answers of the system to the calls that can fail (as for memory; an empty script
  stands for calls that succeed). Which stream a path leads to, and that it is closed, is up to the parameters \<open>fopen\<close> and
  \<open>fclose\<close>, functions on the state of the system.
\<close>

section \<open>Streams\<close>

record CFile =
  f_data :: string
  f_pos :: nat
  f_eof :: bool
  f_err :: bool
  f_script :: "bool list"

record 's stdio = "'s posix" +
  fopen :: "string \<Rightarrow> 's \<Rightarrow> CFile option \<times> 's"
  fclose :: "'s \<Rightarrow> 's"

definition file_answer :: "CFile \<Rightarrow> bool \<times> CFile" where
  "file_answer fs = (case f_script fs of [] \<Rightarrow> (True, fs) | b # bs \<Rightarrow> (b, fs\<lparr>f_script := bs\<rparr>))"

text \<open>What \<open>fgets\<close> takes: at most \<open>n\<close> characters, up to the first newline.\<close>

fun take_line :: "nat \<Rightarrow> string \<Rightarrow> string" where
  "take_line n [] = []"
| "take_line n (c # s) = (if n = 0 then [] else if c = CHR 0x0A then [c] else c # take_line (n - 1) s)"

text \<open>
  \<open>fgets (buf, n, fs)\<close>: the characters it stores before the NUL, or \<open>None\<close> for NULL. The end of the file is noticed where it
  stops the reading. For \<open>n < 2\<close> nothing could be read; the model has no outcome for it.
\<close>

definition fgets :: "CFile \<Rightarrow> int \<Rightarrow> (string option \<times> CFile) option" where
  "fgets fs n = do {
     _ \<leftarrow> check (n \<ge> 2);
     (case file_answer fs of (b, fs) \<Rightarrow>
        if \<not> b then Some (None, fs\<lparr>f_err := True\<rparr>)
        else do {
          let line = take_line (nat n - 1) (drop (f_pos fs) (f_data fs));
          let at_end = (f_pos fs + length line \<ge> length (f_data fs) \<and> length line < nat n - 1 \<and> (line = [] \<or> last line \<noteq> CHR 0x0A));
          let fs = fs\<lparr>f_pos := f_pos fs + length line, f_eof := f_eof fs \<or> at_end\<rparr>;
          Some (if line = [] then None else Some line, fs)
        })
   }"

text \<open>\<open>fread\<close> of \<open>n\<close> bytes.\<close>

definition fread :: "CFile \<Rightarrow> nat \<Rightarrow> string \<times> CFile" where
  "fread fs n = (case file_answer fs of (b, fs) \<Rightarrow>
     if \<not> b then ([], fs\<lparr>f_err := True\<rparr>)
     else (let bytes = take n (drop (f_pos fs) (f_data fs)) in
       (bytes, fs\<lparr>f_pos := f_pos fs + length bytes, f_eof := f_eof fs \<or> length bytes < n\<rparr>)))"

text \<open>\<open>ftell\<close> (\<open>-1\<close> for an error) and \<open>fseek\<close> to a position (\<open>True\<close> for 0), which clears the indicator for the end.\<close>

definition ftell :: "CFile \<Rightarrow> int \<times> CFile" where
  "ftell fs = (case file_answer fs of (b, fs) \<Rightarrow> (if b then int (f_pos fs) else - 1, fs))"

definition fseek :: "CFile \<Rightarrow> nat \<Rightarrow> bool \<times> CFile" where
  "fseek fs pos = (case file_answer fs of (b, fs) \<Rightarrow> if b then (True, fs\<lparr>f_pos := pos, f_eof := False\<rparr>) else (False, fs))"

definition mist_file_get_size :: "CFile \<Rightarrow> int \<times> CFile" where
  "mist_file_get_size fd = (case ftell fd of (old_pos, fd) \<Rightarrow>
     if old_pos = - 1 then (- 1, fd)
     else (case fseek fd (length (f_data fd)) of (res, fd) \<Rightarrow>
       if res then
         (case ftell fd of (sz, fd) \<Rightarrow> (case fseek fd (nat old_pos) of (res, fd) \<Rightarrow> (if res then sz else - 1, fd)))
       else (- 1, fd)))"

section \<open>Lines\<close>

datatype EMistLineType = MLT_SINGLE | MLT_MULTI | MLT_COMMENT | MLT_BLANK | MLT_NOEQ | MLT_BAD_MULTI

definition errNoMemory :: string where
  "errNoMemory = ''there is not enough memory to complete the operation''"

definition errFileOpenFailed :: string where
  "errFileOpenFailed = ''failed to open file, please check if it exists and has appropriate permissions set''"

definition errFileReadFailed :: string where
  "errFileReadFailed = ''an error occured while trying to read data from the file''"

definition errUnexpectedEOF :: string where
  "errUnexpectedEOF = ''unexpected end of the file found''"

definition errEqExpected :: string where
  "errEqExpected = ''line %u: expected '' @ [CHR 0x27] @ ''='' @ [CHR 0x27]"

definition errBadCharsAfterMLBegin :: string where
  "errBadCharsAfterMLBegin = ''line %u: only whitespace characters are allowed after '' @ [CHR 0x22] @ ''=>>'' @ [CHR 0x22] @ '' at the same line''"

definition errEmptyName :: string where
  "errEmptyName = ''line %u: name of a parameter is missing''"

definition ml_beg :: string where
  "ml_beg = ''=>>''"

definition ml_end :: string where
  "ml_end = ''<<''"

definition mist_cfg_get_line_type :: "mem \<Rightarrow> CMistString \<Rightarrow> (EMistLineType \<times> string option \<times> CMistString \<times> mem) option" where
  "mist_cfg_get_line_type m ms = do {
     ms \<leftarrow> mist_string_trim ms;
     s \<leftarrow> string_at (ms_buf ms) (ms_str ms);
     if s \<noteq> [] \<and> hd s = CHR ''#'' then Some (MLT_COMMENT, None, ms, m)
     else if s = [] then Some (MLT_BLANK, None, ms, m)
     else do {
       let end = length s;
       name_end \<leftarrow> mist_find_in_range_first_of s 0 end [CHR '' '', CHR 0x09, CHR ''=''];
       pos \<leftarrow> mist_find_in_range_first_not_of s name_end end wspace;
       if \<not> (pos < length s \<and> s ! pos = CHR ''='') then Some (MLT_NOEQ, None, ms, m)
       else if strncmp (drop pos s) ml_beg (length ml_beg) = 0 then do {
         pos \<leftarrow> mist_find_in_range_first_not_of s (pos + length ml_beg) end wspace;
         if pos \<noteq> end then Some (MLT_BAD_MULTI, None, ms, m)
         else do {
           (pname, m) \<leftarrow> mist_get_substring m s 0 name_end;
           ms \<leftarrow> mist_string_reset ms;
           Some (MLT_MULTI, pname, ms, m)
         }
       } else do {
         (pname, m) \<leftarrow> mist_get_substring m s 0 name_end;
         pos \<leftarrow> mist_find_in_range_first_not_of s (pos + 1) end wspace;
         Some (MLT_SINGLE, pname, ms\<lparr>ms_str := ms_str ms + pos\<rparr>, m)
       }
     }
   }"

section \<open>Values\<close>

text \<open>The description is written through \<open>err\<close>, and the code is returned.\<close>

type_synonym load_state = "CStringMap \<times> string option option \<times> CFile \<times> mem"

definition cfg_fail :: "EMistErrorCode \<Rightarrow> string \<Rightarrow> 32 word \<Rightarrow> load_state \<Rightarrow> (EMistErrorCode \<times> load_state) option" where
  "cfg_fail ec fmt ln st = (case st of (sm, err, fs, m) \<Rightarrow> do {
     (err, m) \<leftarrow> mist_format_parse_error m err fmt ln;
     Some (ec, sm, err, fs, m)
   })"

text \<open>The last step of both kinds of values.\<close>

definition cfg_add :: "string \<Rightarrow> string \<Rightarrow> load_state \<Rightarrow> (EMistErrorCode \<times> load_state) option" where
  "cfg_add name val st = (case st of (sm, err, fs, m) \<Rightarrow> do {
     (r, sm, m) \<leftarrow> smap_add_element m sm name val;
     if \<not> r then cfg_fail MIST_OUT_OF_MEMORY errNoMemory 0 (sm, err, fs, m) else Some (MIST_OK, sm, err, fs, m)
   })"

text \<open>The conversion to \<open>int\<close> wraps around.\<close>

definition to_int :: "int \<Rightarrow> int" where
  "to_int x = sint (word_of_int x :: 32 word)"

text \<open>
  The loop over the lines of a multiline value: \<open>Inl\<close> the buffer with the value, or \<open>Inr\<close> where reading failed. \<open>beg\<close> is an
  offset in the buffer.
\<close>

partial_function (option) multiline_loop :: "CFile \<Rightarrow> int \<Rightarrow> char list \<Rightarrow> nat \<Rightarrow> 32 word \<Rightarrow> ((char list + unit) \<times> 32 word \<times> CFile) option" where
  "multiline_loop fs bsize buf beg line_no = do {
     (p, fs) \<leftarrow> fgets fs (to_int bsize);
     (case p of
        None \<Rightarrow> Some (Inr (), line_no, fs)
      | Some p \<Rightarrow> do {
          buf \<leftarrow> write_at buf beg (p @ [NUL]);
          s \<leftarrow> string_at buf beg;
          let len = length s;
          pos_beg \<leftarrow> mist_find_in_range_first_not_of s 0 len wspace;
          pos_end \<leftarrow> mist_find_in_range_last_not_of s 0 len wspace;
          if pos_end = pos_beg + (length ml_end - 1) \<and> strncmp (drop pos_beg s) ml_end (length ml_end) = 0 then do {
            buf \<leftarrow> write_at buf beg [NUL];
            Some (Inl buf, line_no + 1, fs)
          } else multiline_loop fs (bsize - int len) buf (beg + len) (line_no + 1)
        })
   }"

declare multiline_loop.simps [code]

definition mist_cfg_get_multiline_value ::
  "string \<Rightarrow> int \<Rightarrow> CMistString \<Rightarrow> 32 word \<Rightarrow> load_state \<Rightarrow> (EMistErrorCode \<times> CMistString \<times> 32 word \<times> load_state) option" where
  "mist_cfg_get_multiline_value name bsize val line_no st = (case st of (sm, err, fs, m) \<Rightarrow> do {
     _ \<leftarrow> check (name \<noteq> [] \<and> bsize \<ge> 1 \<and> line_no \<ge> 1);
     (r, line_no, fs) \<leftarrow> multiline_loop fs bsize (ms_buf val) (ms_str val) line_no;
     (case r of
        Inl buf \<Rightarrow> do {
          val \<leftarrow> mist_string_trim (val\<lparr>ms_buf := buf\<rparr>);
          v \<leftarrow> string_at (ms_buf val) (ms_str val);
          (ec, st) \<leftarrow> cfg_add name v (sm, err, fs, m);
          Some (ec, val, line_no, st)
        }
      | Inr _ \<Rightarrow> do {
          (ec, st) \<leftarrow> (if f_err fs then cfg_fail MIST_READ_FILE_FAILED errFileReadFailed 0 (sm, err, fs, m)
                      else cfg_fail MIST_SYNTAX_ERROR errUnexpectedEOF 0 (sm, err, fs, m));
          Some (ec, val, line_no, st)
        })
   })"

text \<open>
  The loop of a single-line value: \<open>beg\<close> and \<open>end\<close> are offsets, \<open>end\<close> that of the last character. It ends with the buffer, or
  with the code and the message for a failure.
\<close>

partial_function (option) singleline_loop ::
  "CFile \<Rightarrow> int \<Rightarrow> char list \<Rightarrow> nat \<Rightarrow> nat \<Rightarrow> 32 word \<Rightarrow> mem \<Rightarrow> ((char list + EMistErrorCode \<times> string) \<times> char list \<times> 32 word \<times> CFile \<times> mem) option" where
  "singleline_loop fs bsize buf beg end line_no m = do {
     _ \<leftarrow> check (end < length buf);
     if buf ! end \<noteq> CHR 0x5C then Some (Inl buf, buf, line_no, fs, m)
     else do {
       s \<leftarrow> string_at buf beg;
       pos \<leftarrow> mist_find_in_range_last_not_of s 0 (end - beg) wspace;
       let beg = beg + pos;
       let beg = (if beg \<noteq> end then beg + 1 else beg);
       buf \<leftarrow> write_at buf beg [CHR '' ''];
       let beg = beg + 1;
       (p, fs) \<leftarrow> fgets fs (to_int bsize);
       (case p of
          None \<Rightarrow> Some (Inr (if f_err fs then (MIST_READ_FILE_FAILED, errFileReadFailed) else (MIST_SYNTAX_ERROR, errUnexpectedEOF)), buf, line_no, fs, m)
        | Some p \<Rightarrow> do {
            buf \<leftarrow> write_at buf beg (p @ [NUL]);
            let line_no = line_no + 1;
            t \<leftarrow> string_at buf beg;
            (ts, m) \<leftarrow> mist_string_create m (Some t);
            (case ts of
               None \<Rightarrow> Some (Inr (MIST_OUT_OF_MEMORY, errNoMemory), buf, line_no, fs, m)
             | Some ts \<Rightarrow> do {
                 ts \<leftarrow> mist_string_trim ts;
                 t \<leftarrow> string_at (ms_buf ts) (ms_str ts);
                 let len = length t;
                 if len > 0 then do {
                   buf \<leftarrow> write_at buf beg (strncpy_bytes (t @ [NUL]) (len + 1));
                   let m = mist_string_destroy m ts;
                   let bsize = bsize - int len;
                   if bsize < 1 then Some (Inr (MIST_READ_FILE_FAILED, errFileReadFailed), buf, line_no, fs, m)
                   else singleline_loop fs bsize buf beg (beg + (len - 1)) line_no m
                 } else do {
                   buf \<leftarrow> write_at buf (beg - 1) [NUL];
                   Some (Inl buf, buf, line_no, fs, mist_string_destroy m ts)
                 }
               })
          })
     }
   }"

declare singleline_loop.simps [code]

definition mist_cfg_get_singleline_value ::
  "string \<Rightarrow> int \<Rightarrow> CMistString \<Rightarrow> 32 word \<Rightarrow> load_state \<Rightarrow> (EMistErrorCode \<times> CMistString \<times> 32 word \<times> load_state) option" where
  "mist_cfg_get_singleline_value name bsize val line_no st = (case st of (sm, err, fs, m) \<Rightarrow> do {
     _ \<leftarrow> check (name \<noteq> [] \<and> bsize \<ge> 1 \<and> line_no \<ge> 1);
     s \<leftarrow> string_at (ms_buf val) (ms_str val);
     let len = length s;
     if len = 0 then do {
       (ec, st) \<leftarrow> cfg_add name s (sm, err, fs, m);
       Some (ec, val, line_no, st)
     } else do {
       let bsize = bsize - int (ms_str val + len);
       _ \<leftarrow> check (bsize \<ge> 1);
       (r, buf, line_no, fs, m) \<leftarrow> singleline_loop fs bsize (ms_buf val) (ms_str val) (ms_str val + (len - 1)) line_no m;
       let val = val\<lparr>ms_buf := buf\<rparr>;
       (case r of
          Inl buf \<Rightarrow> do {
            v \<leftarrow> string_at buf (ms_str val);
            (ec, st) \<leftarrow> cfg_add name v (sm, err, fs, m);
            Some (ec, val, line_no, st)
          }
        | Inr (ec, msg) \<Rightarrow> do {
            (ec, st) \<leftarrow> cfg_fail ec msg 0 (sm, err, fs, m);
            Some (ec, val, line_no, st)
          })
     }
   })"

section \<open>The file\<close>

text \<open>
  The value of a definition: the two cases \<open>MLT_SINGLE\<close> and \<open>MLT_MULTI\<close> of the \<open>switch\<close>. \<open>None\<close> in the result means that the
  loop goes on. The copy of an empty name is not released.
\<close>

definition cfg_define ::
  "EMistLineType \<Rightarrow> string option \<Rightarrow> int \<Rightarrow> CMistString \<Rightarrow> 32 word \<Rightarrow> load_state \<Rightarrow> (EMistErrorCode option \<times> CMistString \<times> 32 word \<times> load_state) option" where
  "cfg_define mlt name bsize ms line_no st = (case st of (sm, err, fs, m) \<Rightarrow>
     (case name of
        None \<Rightarrow> do {
          (ec, st) \<leftarrow> cfg_fail MIST_OUT_OF_MEMORY errNoMemory 0 (sm, err, fs, m);
          Some (Some ec, ms, line_no, st)
        }
      | Some name \<Rightarrow>
        if name = [] then do {
          (ec, st) \<leftarrow> cfg_fail MIST_SYNTAX_ERROR errEmptyName line_no (sm, err, fs, m);
          Some (Some ec, ms, line_no, st)
        } else do {
          (ec, ms, line_no, sm, err, fs, m) \<leftarrow>
            (if mlt = MLT_SINGLE then mist_cfg_get_singleline_value name bsize ms line_no (sm, err, fs, m)
             else mist_cfg_get_multiline_value name bsize ms line_no (sm, err, fs, m));
          Some (if ec \<noteq> MIST_OK then Some ec else None, ms, line_no, sm, err, fs, free m)
        }))"

definition cfg_line ::
  "int \<Rightarrow> CMistString \<Rightarrow> 32 word \<Rightarrow> load_state \<Rightarrow> (EMistErrorCode option \<times> CMistString \<times> 32 word \<times> load_state) option" where
  "cfg_line bsize ms line_no st = (case st of (sm, err, fs, m) \<Rightarrow> do {
     (mlt, name, ms, m) \<leftarrow> mist_cfg_get_line_type m ms;
     (case mlt of
        MLT_NOEQ \<Rightarrow> do {
          (ec, st) \<leftarrow> cfg_fail MIST_SYNTAX_ERROR errEqExpected line_no (sm, err, fs, m);
          Some (Some ec, ms, line_no, st)
        }
      | MLT_BAD_MULTI \<Rightarrow> do {
          (ec, st) \<leftarrow> cfg_fail MIST_SYNTAX_ERROR errBadCharsAfterMLBegin line_no (sm, err, fs, m);
          Some (Some ec, ms, line_no, st)
        }
      | MLT_COMMENT \<Rightarrow> Some (None, ms, line_no, sm, err, fs, m)
      | MLT_BLANK \<Rightarrow> Some (None, ms, line_no, sm, err, fs, m)
      | _ \<Rightarrow> cfg_define mlt name bsize ms line_no (sm, err, fs, m))
   })"

text \<open>
  The loop over the file. In the source every failure destroys \<open>ms\<close> and closes the file on its own, most of them before the
  message is made; here the caller does this once, afterwards. Releasing a block has no influence on later answers of the
  allocator, so that the outcome is the same.
\<close>

partial_function (option) load_loop ::
  "int \<Rightarrow> CMistString \<Rightarrow> 32 word \<Rightarrow> CStringMap \<Rightarrow> string option option \<Rightarrow> CFile \<Rightarrow> mem \<Rightarrow> (EMistErrorCode \<times> load_state) option" where
  "load_loop bsize ms line_no sm err fs m = do {
     ms \<leftarrow> mist_string_reset ms;
     (p, fs) \<leftarrow> fgets fs (to_int bsize);
     (ec, ms, line_no, sm, err, fs, m) \<leftarrow> (case p of
         None \<Rightarrow> Some (None, ms, line_no, sm, err, fs, m)
       | Some p \<Rightarrow> do {
           buf \<leftarrow> write_at (ms_buf ms) (ms_str ms) (p @ [NUL]);
           cfg_line bsize (ms\<lparr>ms_buf := buf\<rparr>) (line_no + 1) (sm, err, fs, m)
         });
     (case ec of
        Some ec \<Rightarrow> Some (ec, sm, err, fs, m)
      | None \<Rightarrow>
        if f_err fs then cfg_fail MIST_READ_FILE_FAILED errFileReadFailed 0 (sm, err, fs, m)
        else if f_eof fs then Some (MIST_OK, sm, err, fs, m)
        else load_loop bsize ms line_no sm err fs m)
   }"

declare load_loop.simps [code]

definition mist_load_config_file ::
  "('s, 'x) stdio_scheme \<Rightarrow> 's \<Rightarrow> mem \<Rightarrow> string \<Rightarrow> CStringMap \<Rightarrow> string option option
     \<Rightarrow> (EMistErrorCode \<times> CStringMap \<times> string option option \<times> 's \<times> mem) option" where
  "mist_load_config_file P s m path sm err = do {
     let err = map_option (\<lambda>_. None) err;
     (case fopen P path s of
        (None, s) \<Rightarrow> do {
          (err, m) \<leftarrow> mist_format_parse_error m err errFileOpenFailed 0;
          Some (MIST_OPEN_FILE_FAILED, sm, err, s, m)
        }
      | (Some fs, s) \<Rightarrow> (case mist_file_get_size fs of (sz, fs) \<Rightarrow>
          if sz = - 1 then do {
            (err, m) \<leftarrow> mist_format_parse_error m err errFileOpenFailed 0;
            Some (MIST_OPEN_FILE_FAILED, sm, err, fclose P s, m)
          } else do {
            let sz = sz + 2;
            (ms, m) \<leftarrow> mist_string_create m None;
            (case ms of
               None \<Rightarrow> do {
                 (err, m) \<leftarrow> mist_format_parse_error m err errNoMemory 0;
                 Some (MIST_OUT_OF_MEMORY, sm, err, fclose P s, m)
               }
             | Some ms \<Rightarrow> do {
                 (ec, ms, m) \<leftarrow> mist_string_reserve m ms (nat sz);
                 if ec \<noteq> MIST_OK then do {
                   (err, m) \<leftarrow> mist_format_parse_error (mist_string_destroy m ms) err errNoMemory 0;
                   Some (ec, sm, err, fclose P s, m)
                 } else do {
                   (ec, sm, err, fs, m) \<leftarrow> load_loop sz ms 0 sm err fs m;
                   Some (ec, sm, err, fclose P s, mist_string_destroy m ms)
                 }
               })
          }))
   }"

definition cfg_ext :: string where
  "cfg_ext = ''.cfg''"

definition mist_load_config_file_for_name ::
  "('s, 'x) stdio_scheme \<Rightarrow> 's \<Rightarrow> mem \<Rightarrow> string \<Rightarrow> string \<Rightarrow> CStringMap \<Rightarrow> string option option
     \<Rightarrow> (EMistErrorCode \<times> CStringMap \<times> string option option \<times> 's \<times> mem) option" where
  "mist_load_config_file_for_name P s m base_dir name sm err = do {
     _ \<leftarrow> check (base_dir \<noteq> [] \<and> name \<noteq> []);
     let base_dir_len = length base_dir;
     let name_len = length name;
     let n = base_dir_len + name_len + length cfg_ext + 2;
     (case malloc m n of (b, m) \<Rightarrow>
        if \<not> b then Some (MIST_OUT_OF_MEMORY, sm, err, s, m)
        else do {
          path \<leftarrow> write_at (fresh m 0 n) 0 (strncpy_bytes (base_dir @ [NUL]) (base_dir_len + 1));
          str \<leftarrow> string_at path 0;
          path \<leftarrow> write_at path 0 (mist_path_to_unix_slashes str);
          let last_part = base_dir_len - 1;
          (path, last_part) \<leftarrow> (if path ! last_part \<noteq> slash then do {
              path \<leftarrow> write_at path (last_part + 1) [slash];
              Some (path, last_part + 1)
            } else Some (path, last_part));
          let last_part = last_part + 1;
          path \<leftarrow> write_at path last_part (strncpy_bytes (name @ [NUL]) (name_len + 1));
          let last_part = last_part + name_len;
          path \<leftarrow> write_at path last_part (strncpy_bytes (cfg_ext @ [NUL]) (length cfg_ext + 1));
          path \<leftarrow> string_at path 0;
          (res, sm, err, s, m) \<leftarrow> mist_load_config_file P s m path sm err;
          Some (res, sm, err, s, free m)
        })
   }"

definition mist_load_config_file_from_dir ::
  "('s, 'x) stdio_scheme \<Rightarrow> 's \<Rightarrow> mem \<Rightarrow> string \<Rightarrow> CStringMap \<Rightarrow> string option option
     \<Rightarrow> (EMistErrorCode \<times> CStringMap \<times> string option option \<times> 's \<times> mem) option" where
  "mist_load_config_file_from_dir P s m base_dir sm err = do {
     _ \<leftarrow> check (base_dir \<noteq> [] \<and> strchr base_dir (CHR 0x5C) = None);
     (tname, m) \<leftarrow> mist_path_get_last m base_dir;
     (case tname of
        None \<Rightarrow> Some (MIST_OUT_OF_MEMORY, sm, err, s, m)
      | Some tname \<Rightarrow> do {
          let suffix = ''-t2c'';
          let len = length tname;
          let tname = (if len > length suffix \<and> strncmp (drop (len - length suffix) tname) suffix (length suffix) = 0
                       then take (len - length suffix) tname else tname);
          (res, sm, err, s, m) \<leftarrow> mist_load_config_file_for_name P s m base_dir tname sm err;
          Some (res, sm, err, s, free m)
        })
   }"

definition mist_file_exists :: "('s, 'x) stdio_scheme \<Rightarrow> 's \<Rightarrow> string \<Rightarrow> (bool \<times> 's) option" where
  "mist_file_exists P s path = do {
     _ \<leftarrow> check (path \<noteq> []);
     (case fopen P path s of (None, s) \<Rightarrow> Some (False, s) | (Some fd, s) \<Rightarrow> Some (True, fclose P s))
   }"

definition mist_file_read_all :: "('s, 'x) stdio_scheme \<Rightarrow> 's \<Rightarrow> mem \<Rightarrow> string \<Rightarrow> (EMistErrorCode \<times> string option \<times> 's \<times> mem) option" where
  "mist_file_read_all P s m path = do {
     (r, s) \<leftarrow> mist_file_exists P s path;
     _ \<leftarrow> check r;
     (case fopen P path s of
        (None, s) \<Rightarrow> Some (MIST_OPEN_FILE_FAILED, None, s, m)
      | (Some fd, s) \<Rightarrow> (case mist_file_get_size fd of (sz, fd) \<Rightarrow>
          if sz = - 1 then Some (MIST_READ_FILE_FAILED, None, fclose P s, m)
          else (case malloc m (nat sz + 1) of (b, m) \<Rightarrow>
            if \<not> b then Some (MIST_OUT_OF_MEMORY, None, fclose P s, m)
            else (case fread fd (nat sz) of (bytes, fd) \<Rightarrow>
              if f_err fd then Some (MIST_READ_FILE_FAILED, None, fclose P s, free m)
              else do {
                buf \<leftarrow> write_at (fresh m 0 (nat sz + 1)) 0 bytes;
                buf \<leftarrow> write_at buf (length bytes) [NUL];
                str \<leftarrow> string_at buf 0;
                Some (MIST_OK, Some str, fclose P s, m)
              }))))
   }"

end
