(* ===== verification/Mist_Group_Files.thy ===== *)
theory Mist_Group_Files
  imports Mist_Group Mist_Config
begin

text \<open>
  Groups of templates in files: the functions of
  \<^verbatim>\<open>src/snippets/code_generation/mist_gen.simple/src/mist_engine/src/mist_base.c\<close> that load the two groups of a directory,
  one for the text and one for the path of the file to be generated, and that write the generated file.

  The record \<open>filesys\<close> extends the calls of the system: \<open>opendir\<close> gives the names that \<open>readdir\<close> will return (\<open>None\<close> for
  NULL), \<open>fopen_write\<close> is \<open>fopen\<close> with the mode \<open>w\<close>, and \<open>fwrite\<close> says whether there was no error. \<open>qs\<close>, \<open>qstr\<close>, \<open>bs\<close> are as in
  \<open>Mist_Group\<close>; \<open>qsp\<close> and \<open>bsp\<close> are \<open>qsort\<close> and \<open>bsearch\<close> on pairs of strings.
\<close>

record 's filesys = "'s stdio" +
  opendir :: "string \<Rightarrow> 's \<Rightarrow> string list option \<times> 's"
  closedir :: "'s \<Rightarrow> 's"
  fopen_write :: "string \<Rightarrow> 's \<Rightarrow> bool \<times> 's"
  fwrite :: "string \<Rightarrow> 's \<Rightarrow> bool \<times> 's"

section \<open>Messages\<close>

definition errUnableToLoadConf :: string where
  "errUnableToLoadConf = ''unable to load configuration from \"%s\": %s''"

definition errDupParam :: string where
  "errDupParam = ''\"%s\" is set more than once in the .cfg file in \"%s\"''"

definition errMissingParam :: string where
  "errMissingParam = ''required parameter \"%s\" is empty or missing from the .cfg file in \"%s\"''"

definition errReadDirFailed :: string where
  "errReadDirFailed = ''unable to read the contents of \"%s\"''"

definition errReadFileFailed :: string where
  "errReadFileFailed = ''unable to read the contents of \"%s\"''"

definition errWriteFileFailed :: string where
  "errWriteFileFailed = ''unable to write to \"%s\"''"

definition errNoTplFiles :: string where
  "errNoTplFiles = ''template files (*.tpl) are not found in \"%s\"''"

definition errFailedToLoadTpl :: string where
  "errFailedToLoadTpl = ''failed to load template \"%s\": %s''"

definition errCreateDirFailed :: string where
  "errCreateDirFailed = ''failed to create directory for file \"%s\"''"

definition errBadGroupName :: string where
  "errBadGroupName = ''\"%s\" is not allowed as the name of a template group (directory: \"%s\")''"

definition errBadTemplateName :: string where
  "errBadTemplateName = ''\"%s\" is not allowed as the name of a template (file: \"%s\")''"

definition errUnspecifiedError :: string where
  "errUnspecifiedError = ''unspecified error''"

definition errEmptyParam :: string where
  "errEmptyParam = ''parameter \"%s\" has empty value in the .cfg file in \"%s\"''"

text \<open>The block for a message has the size of the format and of the arguments.\<close>

definition message :: "mem \<Rightarrow> string \<Rightarrow> string list \<Rightarrow> (string option \<times> mem) option" where
  "message m fmt args = alloc_message m (length fmt + sum_list (map length args) + 1) fmt (map ArgS args)"

section \<open>The configuration of a group\<close>

definition def_beg :: string where
  "def_beg = ''<$''"

definition def_end :: string where
  "def_end = ''$>''"

definition fpt_name :: string where
  "fpt_name = ''FILE_PATH_TEMPLATE''"

definition beg_name :: string where
  "beg_name = ''PH_BEGIN_MARKER''"

definition end_name :: string where
  "end_name = ''PH_END_MARKER''"

text \<open>What is read from the configuration: \<open>tpath\<close>, \<open>begm\<close> and \<open>endm\<close>, \<open>None\<close> for NULL.\<close>

record conf =
  tpath :: "string option"
  begm :: "string option"
  endm :: "string option"

definition no_conf :: conf where
  "no_conf = \<lparr>tpath = None, begm = None, endm = None\<rparr>"

text \<open>The second half of \<open>mist_tg_load_conf\<close>, from the lookup of the first parameter on.\<close>

definition conf_values ::
  "TStringPair qsort \<Rightarrow> TStringPair bsearch \<Rightarrow> mem \<Rightarrow> string \<Rightarrow> CStringMap \<Rightarrow> (EMistErrorCode \<times> conf \<times> string option \<times> mem) option" where
  "conf_values qsp bsp m dir params = (case smap_lookup qsp bsp params beg_name of (val, params) \<Rightarrow>
     if val = Some [] then do {
       (d, m) \<leftarrow> message (smap_destroy m params) errEmptyParam [beg_name, dir];
       Some (MIST_MISSING_PARAM, no_conf, d, m)
     } else (case strdup m (case val of Some v \<Rightarrow> v | None \<Rightarrow> def_beg) of
        (None, m) \<Rightarrow> Some (MIST_OUT_OF_MEMORY, no_conf, None, smap_destroy m params)
      | (Some bm, m) \<Rightarrow> (case smap_lookup qsp bsp params end_name of (val, params) \<Rightarrow>
          if val = Some [] then do {
            (d, m) \<leftarrow> message (smap_destroy (free m) params) errEmptyParam [end_name, dir];
            Some (MIST_MISSING_PARAM, no_conf, d, m)
          } else (case strdup m (case val of Some v \<Rightarrow> v | None \<Rightarrow> def_end) of
             (None, m) \<Rightarrow> Some (MIST_OUT_OF_MEMORY, no_conf, None, smap_destroy (free m) params)
           | (Some em, m) \<Rightarrow> (case smap_lookup qsp bsp params fpt_name of (path, params) \<Rightarrow>
               (case path of
                  Some (c # cs) \<Rightarrow> (case strdup m (c # cs) of
                      (None, m) \<Rightarrow> Some (MIST_OUT_OF_MEMORY, no_conf, None, smap_destroy (free (free m)) params)
                    | (Some path, m) \<Rightarrow> Some (MIST_OK, \<lparr>tpath = Some path, begm = Some bm, endm = Some em\<rparr>, None, smap_destroy m params))
                | _ \<Rightarrow> do {
                    (d, m) \<leftarrow> message m errMissingParam [fpt_name, dir];
                    Some (MIST_MISSING_PARAM, no_conf, d, smap_destroy (free (free m)) params)
                  }))))))"

definition mist_tg_load_conf ::
  "TStringPair qsort \<Rightarrow> TStringPair bsearch \<Rightarrow> ('s, 'x) stdio_scheme \<Rightarrow> 's \<Rightarrow> mem \<Rightarrow> string
     \<Rightarrow> (EMistErrorCode \<times> conf \<times> string option \<times> 's \<times> mem) option" where
  "mist_tg_load_conf qsp bsp P s m dir = do {
     (r, s) \<leftarrow> mist_dir_exists P s dir;
     special \<leftarrow> mist_dir_is_special dir;
     _ \<leftarrow> check (r \<and> \<not> special);
     (case smap_create m of
        (None, m) \<Rightarrow> Some (MIST_OUT_OF_MEMORY, no_conf, None, s, m)
      | (Some params, m) \<Rightarrow> do {
          (ec, params, err, s, m) \<leftarrow> mist_load_config_file_from_dir P s m dir params (Some None);
          if ec \<noteq> MIST_OK then
            (case (case err of Some (Some e) \<Rightarrow> (Some e, m) | _ \<Rightarrow> strdup m errUnspecifiedError) of
               (None, m) \<Rightarrow> Some (ec, no_conf, None, s, smap_destroy m params)
             | (Some err, m) \<Rightarrow> do {
                 (d, m) \<leftarrow> message m errUnableToLoadConf [dir, err];
                 Some (ec, no_conf, d, s, smap_destroy (free m) params)
               })
          else (case smap_check_duplicate_keys qsp params of
             (Some key, params) \<Rightarrow> do {
               (d, m) \<leftarrow> message m errDupParam [key, dir];
               Some (MIST_DUP_PARAM, no_conf, d, s, smap_destroy m params)
             }
           | (None, params) \<Rightarrow> do {
               (ec, c, d, m) \<leftarrow> conf_values qsp bsp m dir params;
               Some (ec, c, d, s, m)
             })
        })
   }"

section \<open>The templates of a directory\<close>

definition tpl_ext :: string where
  "tpl_ext = ''.tpl''"

text \<open>
  One template: \<open>pfile\<close>, which is released at the end, is the path of the file \<open>d_name\<close>. The result has the code, the description
  and the arrays of names and texts.
\<close>

definition process_file ::
  "('s, 'x) stdio_scheme \<Rightarrow> 's \<Rightarrow> mem \<Rightarrow> string \<Rightarrow> string \<Rightarrow> string grar \<Rightarrow> string grar
     \<Rightarrow> (EMistErrorCode \<times> string option \<times> string grar \<times> string grar \<times> 's \<times> mem) option" where
  "process_file P s m pfile d_name tpl_names tpl_strings = do {
     let name_len = length d_name - length tpl_ext;
     (case malloc m (name_len + 1) of (b, m) \<Rightarrow>
        if \<not> b then Some (MIST_OUT_OF_MEMORY, None, tpl_names, tpl_strings, s, free m)
        else do {
          buf \<leftarrow> write_at (fresh m 0 (name_len + 1)) 0 (strncpy_bytes d_name name_len);
          buf \<leftarrow> write_at buf name_len [NUL];
          name \<leftarrow> string_at buf 0;
          if mist_name_is_bad name then do {
            (d, m) \<leftarrow> message m errBadTemplateName [name, pfile];
            Some (MIST_BAD_NAME, d, tpl_names, tpl_strings, s, free (free m))
          } else do {
            (ec, contents, s, m) \<leftarrow> mist_file_read_all P s m pfile;
            if ec \<noteq> MIST_OK then do {
              (d, m) \<leftarrow> (if ec = MIST_OPEN_FILE_FAILED \<or> ec = MIST_READ_FILE_FAILED then message m errReadFileFailed [pfile] else Some (None, m));
              Some (ec, d, tpl_names, tpl_strings, s, free (free m))
            } else do {
              contents \<leftarrow> contents;
              (r, tpl_names, m) \<leftarrow> grar_add_element m tpl_names name;
              if \<not> r then Some (MIST_OUT_OF_MEMORY, None, tpl_names, tpl_strings, s, free (free (free m)))
              else do {
                (r, tpl_strings, m) \<leftarrow> grar_add_element m tpl_strings contents;
                if \<not> r then Some (MIST_OUT_OF_MEMORY, None, tpl_names, tpl_strings, s, free (free m))
                else Some (MIST_OK, None, tpl_names, tpl_strings, s, free m)
              }
            }
          }
        })
   }"

text \<open>
  The loop over the directory. After a failure the caller closes the directory and destroys the arrays, which the source does at
  each of the failures.
\<close>

fun process_entries ::
  "('s, 'x) stdio_scheme \<Rightarrow> 's \<Rightarrow> mem \<Rightarrow> string \<Rightarrow> string grar \<Rightarrow> string grar \<Rightarrow> string list
     \<Rightarrow> (EMistErrorCode \<times> string option \<times> string grar \<times> string grar \<times> 's \<times> mem) option" where
  "process_entries P s m dir tpl_names tpl_strings [] = Some (MIST_OK, None, tpl_names, tpl_strings, s, m)"
| "process_entries P s m dir tpl_names tpl_strings (d_name # entries) = do {
     let len = length d_name;
     if len > length tpl_ext \<and> strncmp (drop (len - length tpl_ext) d_name) tpl_ext (length tpl_ext) = 0 then do {
       (pfile, m) \<leftarrow> mist_path_sum m dir d_name;
       (case pfile of
          None \<Rightarrow> Some (MIST_OUT_OF_MEMORY, None, tpl_names, tpl_strings, s, m)
        | Some pfile \<Rightarrow> do {
            (r, s) \<leftarrow> mist_file_exists P s pfile;
            if \<not> r then process_entries P s (free m) dir tpl_names tpl_strings entries
            else do {
              (ec, d, tpl_names, tpl_strings, s, m) \<leftarrow> process_file P s m pfile d_name tpl_names tpl_strings;
              if ec \<noteq> MIST_OK then Some (ec, d, tpl_names, tpl_strings, s, m)
              else process_entries P s m dir tpl_names tpl_strings entries
            }
          })
     } else process_entries P s m dir tpl_names tpl_strings entries
   }"

text \<open>The arrays are only there where the code is \<open>MIST_OK\<close>.\<close>

definition mist_tg_process_dir ::
  "('s, 'x) filesys_scheme \<Rightarrow> 's \<Rightarrow> mem \<Rightarrow> string
     \<Rightarrow> (EMistErrorCode \<times> (string grar \<times> string grar) option \<times> string option \<times> 's \<times> mem) option" where
  "mist_tg_process_dir P s m dir = (case grar_create m of
     (None, m) \<Rightarrow> Some (MIST_OUT_OF_MEMORY, None, None, s, m)
   | (Some tpl_names, m) \<Rightarrow> (case grar_create m of
       (None, m) \<Rightarrow> Some (MIST_OUT_OF_MEMORY, None, None, s, snd (grar_destroy m tpl_names))
     | (Some tpl_strings, m) \<Rightarrow> (case opendir P dir s of
         (None, s) \<Rightarrow> do {
           (d, m) \<leftarrow> message m errReadDirFailed [dir];
           Some (MIST_READ_DIR_FAILED, None, d, s, snd (grar_destroy (snd (grar_destroy m tpl_names)) tpl_strings))
         }
       | (Some entries, s) \<Rightarrow> do {
           (ec, d, tpl_names, tpl_strings, s, m) \<leftarrow> process_entries P s m dir tpl_names tpl_strings entries;
           let s = closedir P s;
           if ec \<noteq> MIST_OK then
             Some (ec, None, d, s, snd (grar_destroy_with_elements (snd (grar_destroy_with_elements m tpl_names None)) tpl_strings None))
           else if grar_get_size tpl_names = 0 then do {
             (d, m) \<leftarrow> message (snd (grar_destroy (snd (grar_destroy m tpl_names)) tpl_strings)) errNoTplFiles [dir];
             Some (MIST_NO_TPL_FILES, None, d, s, m)
           } else Some (MIST_OK, Some (tpl_names, tpl_strings), None, s, m)
         })))"

section \<open>Loading the groups of a directory\<close>

definition fp_tpl_name :: string where
  "fp_tpl_name = ''file_path''"

text \<open>The description of a template that could not be loaded.\<close>

definition failed_to_load :: "mem \<Rightarrow> string \<Rightarrow> string option \<Rightarrow> (string option \<times> mem) option" where
  "failed_to_load m bad err = (case err of
     None \<Rightarrow> Some (None, m)
   | Some err \<Rightarrow> do {
       (d, m) \<leftarrow> message m errFailedToLoadTpl [bad, err];
       Some (d, free m)
     })"

text \<open>The end of \<open>mist_tg_load_from_dir_impl\<close>, which makes the two groups; the rest is released by the caller.\<close>

definition make_groups ::
  "CMistTemplate qsort \<Rightarrow> string qsort \<Rightarrow> CMistTemplate bsearch \<Rightarrow> mem \<Rightarrow> string \<Rightarrow> string \<Rightarrow> string \<Rightarrow> string \<Rightarrow> string grar \<Rightarrow> string grar
     \<Rightarrow> (EMistErrorCode \<times> (CMistTemplateGroup \<times> CMistTemplateGroup) option \<times> string option \<times> mem) option" where
  "make_groups qs qstr bs m name_main path bm em tpl_names tpl_strings = do {
     _ \<leftarrow> check (grar_get_size tpl_names = grar_get_size tpl_strings);
     (path_tg, err, m) \<leftarrow> mist_tg_create_single_impl qs qstr bs m fp_tpl_name path bm em;
     (case path_tg of
        None \<Rightarrow> do {
          (d, m) \<leftarrow> failed_to_load m fp_tpl_name err;
          Some (MIST_FAILED_TO_LOAD_TEMPLATE, None, d, m)
        }
      | Some path_tg \<Rightarrow> do {
          (main_tg, bad_index, err, m) \<leftarrow> mist_tg_create_impl qs qstr bs m name_main tpl_names tpl_strings bm em;
          (case main_tg of
             None \<Rightarrow> do {
               bad \<leftarrow> (case bad_index of None \<Rightarrow> Some name_main | Some i \<Rightarrow> grar_get_element tpl_names i);
               (d, m) \<leftarrow> failed_to_load m bad err;
               Some (MIST_FAILED_TO_LOAD_TEMPLATE, None, d, mist_tg_destroy_impl m (tg_tpl path_tg))
             }
           | Some main_tg \<Rightarrow> Some (MIST_OK, Some (main_tg, path_tg), None, m))
        })
   }"

text \<open>The two groups are \<open>main_tg\<close> and \<open>path_tg\<close>, both NULL where the code is not \<open>MIST_OK\<close>.\<close>

definition mist_tg_load_from_dir_impl ::
  "CMistTemplate qsort \<Rightarrow> string qsort \<Rightarrow> CMistTemplate bsearch \<Rightarrow> TStringPair qsort \<Rightarrow> TStringPair bsearch \<Rightarrow> ('s, 'x) filesys_scheme \<Rightarrow> 's \<Rightarrow> mem \<Rightarrow> string
     \<Rightarrow> (EMistErrorCode \<times> (CMistTemplateGroup \<times> CMistTemplateGroup) option \<times> string option \<times> 's \<times> mem) option" where
  "mist_tg_load_from_dir_impl qs qstr bs qsp bsp P s m dir = do {
     (name_main, m) \<leftarrow> mist_path_get_last m dir;
     (case name_main of
        None \<Rightarrow> Some (MIST_OUT_OF_MEMORY, None, None, s, m)
      | Some name_main \<Rightarrow>
        if mist_name_is_bad name_main then do {
          (d, m) \<leftarrow> message m errBadGroupName [name_main, dir];
          Some (MIST_BAD_NAME, None, d, s, free m)
        } else do {
          (ec, c, d, s, m) \<leftarrow> mist_tg_load_conf qsp bsp P s m dir;
          if ec \<noteq> MIST_OK then Some (ec, None, d, s, free m)
          else do {
            path \<leftarrow> tpath c;
            bm \<leftarrow> begm c;
            em \<leftarrow> endm c;
            (ec, arrays, d, s, m) \<leftarrow> mist_tg_process_dir P s m dir;
            if ec \<noteq> MIST_OK then Some (ec, None, d, s, free (free (free (free m))))
            else do {
              (tpl_names, tpl_strings) \<leftarrow> arrays;
              (ec, tgs, d, m) \<leftarrow> make_groups qs qstr bs m name_main path bm em tpl_names tpl_strings;
              let m = snd (grar_destroy_with_elements (snd (grar_destroy_with_elements m tpl_names None)) tpl_strings None);
              Some (ec, tgs, d, s, free (free (free (free m))))
            }
          }
        })
   }"

section \<open>Writing the generated file\<close>

definition mist_tg_generate_file_impl ::
  "CMistTemplate bsearch \<Rightarrow> nat \<Rightarrow> ('s, 'x) filesys_scheme \<Rightarrow> 's \<Rightarrow> mem \<Rightarrow> CMistTemplateGroup \<Rightarrow> string \<Rightarrow> CStringMap
     \<Rightarrow> (EMistErrorCode \<times> string option \<times> CMistTemplateGroup \<times> 's \<times> mem) option" where
  "mist_tg_generate_file_impl bs n P s m contents_tg path params = do {
     (ec, contents_tg, m) \<leftarrow> mist_tg_set_values_impl bs m contents_tg params;
     if ec \<noteq> MIST_OK then Some (ec, None, contents_tg, s, m)
     else do {
       (vals, contents_tg, m) \<leftarrow> mist_tg_evaluate_impl n m contents_tg;
       (case vals of
          None \<Rightarrow> Some (MIST_OUT_OF_MEMORY, None, contents_tg, s, m)
        | Some vals \<Rightarrow> do {
            _ \<leftarrow> check (grar_get_size vals > 0);
            if grar_get_size vals \<noteq> 1 then do {
              mt \<leftarrow> deref (elems (tg_tpl contents_tg)) (tg_main contents_tg);
              (d, m) \<leftarrow> message m errMainTplMultivalued [t_name mt];
              Some (MIST_MAIN_TPL_MULTIVALUED, d, contents_tg, s, m)
            } else do {
              contents \<leftarrow> grar_get_element vals 0;
              (r, s, m) \<leftarrow> mist_create_path_for_file P s m path;
              if \<not> r then do {
                (d, m) \<leftarrow> message m errCreateDirFailed [path];
                Some (MIST_CREATE_DIR_FAILED, d, contents_tg, s, m)
              } else (case fopen_write P path s of (b, s) \<Rightarrow>
                if \<not> b then do {
                  (d, m) \<leftarrow> message m errWriteFileFailed [path];
                  Some (MIST_WRITE_FILE_FAILED, d, contents_tg, s, m)
                } else (case fwrite P contents s of (b, s) \<Rightarrow>
                  if \<not> b then do {
                    (d, m) \<leftarrow> message m errWriteFileFailed [path];
                    Some (MIST_WRITE_FILE_FAILED, d, contents_tg, fclose P s, m)
                  } else Some (MIST_OK, None, contents_tg, fclose P s, m)))
            }
          })
     }
   }"

end
