(* ===== verification/Mist_Config_Correct.thy ===== *)
theory Mist_Config_Correct
  imports Mist_Config Mist_Expr
begin

text \<open>
  Configuration files: \<open>mist_load_config_file\<close> agrees with a reference parser that works on the list of lines of the file. It
  never writes past the end of its buffer, and reads every line whole.
\<close>

section \<open>Lines of a file\<close>

function file_lines :: "string \<Rightarrow> string list" where
  "file_lines s = (if s = [] then [] else take_line (length s) s # file_lines (drop (length (take_line (length s) s)) s))"
  by pat_completeness auto

lemma take_line_nonempty: "s \<noteq> [] \<Longrightarrow> n \<noteq> 0 \<Longrightarrow> take_line n s \<noteq> []"
  by (cases s) auto

termination file_lines
proof (relation "measure length")
  fix s :: string
  assume "s \<noteq> []"
  then have "take_line (length s) s \<noteq> []" by (simp add: take_line_nonempty)
  then show "(drop (length (take_line (length s) s)) s, s) \<in> measure length" using \<open>s \<noteq> []\<close> by simp
qed simp

declare file_lines.simps [simp del]

lemma file_lines_Nil [simp]: "file_lines [] = []"
  by (simp add: file_lines.simps)

lemma length_file_lines: "length (file_lines s) \<le> length s"
proof (induction s rule: file_lines.induct)
  case (1 s)
  show ?case
  proof (cases "s = []")
    case False
    have "take_line (length s) s \<noteq> []" using False by (simp add: take_line_nonempty)
    then have "0 < length (take_line (length s) s)" "0 < length s" using False by auto
    then have "Suc (length (file_lines (drop (length (take_line (length s) s)) s))) \<le> length s" using 1 [OF False] unfolding length_drop by linarith
    then show ?thesis using False by (simp add: file_lines.simps [of s])
  qed simp
qed

lemma take_line_prefix: "s = take_line n s @ drop (length (take_line n s)) s"
  by (induction n s rule: take_line.induct) auto

lemma take_line_enough: "length s \<le> n \<Longrightarrow> take_line n s = take_line (length s) s"
proof (induction s arbitrary: n)
  case (Cons c s)
  have "length s \<le> n - 1" "n \<noteq> 0" using Cons.prems by auto
  then show ?case using Cons.IH [of "n - 1"] by simp
qed simp

lemma take_line_stop: "length s \<le> n \<Longrightarrow> take_line n s = s \<or> last (take_line n s) = CHR 0x0A \<and> take_line n s \<noteq> []"
proof (induction s arbitrary: n)
  case (Cons c s)
  have "length s \<le> n - 1" "n \<noteq> 0" using Cons.prems by auto
  then show ?case using Cons.IH [of "n - 1"] by auto
qed simp

definition unread :: "CFile \<Rightarrow> string" where
  "unread fs = drop (f_pos fs) (f_data fs)"

definition reads_ok :: "CFile \<Rightarrow> bool" where
  "reads_ok fs \<longleftrightarrow> False \<notin> set (f_script fs)"

definition stream_ok :: "CFile \<Rightarrow> bool" where
  "stream_ok fs \<longleftrightarrow> no_nul (unread fs) \<and> \<not> f_err fs \<and> (f_eof fs \<longrightarrow> unread fs = [])"

lemma fgets_returns:
  assumes "stream_ok fs" "int (length (unread fs)) + 2 \<le> n"
  shows "returns (fgets fs n) (\<lambda>(p, fs').
     (case p of
        None \<Rightarrow> f_err fs' \<or> unread fs = [] \<and> f_eof fs' \<and> stream_ok fs'
      | Some l \<Rightarrow> l \<noteq> [] \<and> no_nul l \<and> stream_ok fs' \<and> unread fs = l @ unread fs' \<and> file_lines (unread fs) = l # file_lines (unread fs'))
     \<and> (reads_ok fs \<longrightarrow> reads_ok fs' \<and> \<not> f_err fs'))"
proof -
  obtain b f1 where a: "file_answer fs = (b, f1)" by fastforce
  then have f1: "unread f1 = unread fs" "f_pos f1 = f_pos fs" "f_data f1 = f_data fs" "f_eof f1 = f_eof fs" "f_err f1 = f_err fs" "reads_ok fs \<longrightarrow> b \<and> reads_ok f1"
    by (auto simp: file_answer_def unread_def reads_ok_def split: list.splits)
  let ?r = "unread fs" and ?k = "nat n - 1"
  define l where "l = take_line ?k ?r"
  have k: "length ?r < ?k" using assms(2) by linarith
  have l: "?r = l @ drop (length l) ?r" "l = take_line (length ?r) ?r" "l = ?r \<or> last l = CHR 0x0A \<and> l \<noteq> []"
    using take_line_prefix [of ?r ?k] take_line_enough [of ?r ?k] take_line_stop [of ?r ?k] k by (auto simp: l_def)
  have ne: "l = [] \<longleftrightarrow> ?r = []" using l take_line_nonempty [of ?r ?k] k by (auto simp: l_def)
  have lk: "length l < ?k" using l(1) k by (metis length_append trans_less_add1 le_less_trans le_add1)
  let ?f = "f1\<lparr>f_pos := f_pos f1 + length l, f_eof := f_eof f1 \<or> (f_pos f1 + length l \<ge> length (f_data f1) \<and> length l < ?k \<and> (l = [] \<or> last l \<noteq> CHR 0x0A))\<rparr>"
  have u: "unread ?f = drop (length l) ?r" using f1 by (simp add: unread_def add.commute)
  have e: "f_pos f1 + length l \<ge> length (f_data f1) \<longleftrightarrow> drop (length l) ?r = []" using f1 by (simp add: unread_def) linarith
  have eq: "fgets fs n = Some (if b then (if l = [] then None else Some l, ?f) else (None, f1\<lparr>f_err := True\<rparr>))"
    using assms(2) a f1 l_def by (simp add: fgets_def Let_def unread_def [symmetric] check_def)
  have ok: "stream_ok ?f"
  proof -
    have "no_nul (drop (length l) ?r)" using assms(1) by (simp add: stream_ok_def)
    moreover have "drop (length l) ?r = []" if "f_eof ?f" using that assms(1) f1 e by (auto simp: stream_ok_def)
    ultimately show ?thesis using assms(1) f1 unfolding stream_ok_def u by simp
  qed
  show ?thesis
  proof (cases b)
    case False
    then show ?thesis using eq f1 by simp
  next
    case b: True
    have ro: "reads_ok fs \<longrightarrow> reads_ok ?f \<and> \<not> f_err ?f" using assms(1) f1 by (simp add: stream_ok_def reads_ok_def)
    show ?thesis
    proof (cases "l = []")
      case True
      then show ?thesis using eq b ok ne ro e lk by simp
    next
      case False
      have "file_lines ?r = l # file_lines (drop (length l) ?r)" using False ne l(2) by (subst file_lines.simps) (metis)
      moreover have "no_nul l" using assms(1) l(1) unfolding stream_ok_def by (metis no_nul_simps(3))
      ultimately show ?thesis using False eq b ok ro l(1) u by simp
    qed
  qed
qed

section \<open>The type of a line\<close>

text \<open>The type of a trimmed line, with the name and the beginning of the value.\<close>

definition line_kind :: "string \<Rightarrow> EMistLineType \<times> string \<times> string" where
  "line_kind t =
     (if t \<noteq> [] \<and> hd t = CHR ''#'' then (MLT_COMMENT, [], [])
      else if t = [] then (MLT_BLANK, [], [])
      else
        (let name = takeWhile (\<lambda>c. c \<notin> {CHR '' '', CHR 0x09, CHR ''=''}) t; r = dropWhile is_ws (drop (length name) t) in
         if r = [] \<or> hd r \<noteq> CHR ''='' then (MLT_NOEQ, [], [])
         else if take 3 r = ''=>>'' then (if list_all is_ws (drop 3 r) then (MLT_MULTI, name, []) else (MLT_BAD_MULTI, [], []))
         else (MLT_SINGLE, name, dropWhile is_ws (tl r))))"

lemma trim_returns_at:
  assumes "holds_string ms s"
  shows "returns (mist_string_trim ms) (\<lambda>ms'. holds_string ms' (trim s) \<and> length (ms_buf ms') = length (ms_buf ms)
     \<and> ms_str ms' + length (trim s) \<le> ms_str ms + length s)"
proof -
  obtain pre post where b: "ms_buf ms = pre @ s @ NUL # post" "length pre = ms_str ms" "no_nul s"
    using assms by (auto simp: holds_string_def string_at_iff)
  then have ms: "ms = \<lparr>ms_str = length pre, ms_buf = pre @ s @ NUL # post\<rparr>" by (cases ms) simp
  have "trim_lead s + length (trim s) \<le> length s"
  proof (cases "trim s = []")
    case False
    obtain l r where "s = l @ trim s @ r" "l = takeWhile is_ws s" using trim_parts [of s] False by blast
    then have "length s = length l + length (trim s) + length r" "trim_lead s = length l" using False by (metis length_append add.assoc, simp add: trim_lead_def)
    then show ?thesis by simp
  qed (simp add: trim_lead_def)
  then show ?thesis using trim_buffer [OF b(3), of pre post] string_at_trimmed [OF b(3), of pre post] unfolding ms by (simp add: holds_string_def)
qed

lemma drop_length_takeWhile: "drop (length (takeWhile P s)) s = dropWhile P s"
  by (induction s) auto

lemma slice_to_end: "slice s k (length s) = drop k s"
  by (simp add: slice_def)

lemma string_at_drop:
  assumes "string_at b off = Some s" "q \<le> length s"
  shows "string_at b (off + q) = Some (drop q s)"
proof -
  obtain pre post where b: "b = pre @ s @ NUL # post" "length pre = off" "no_nul s" using assms(1) by (auto simp: string_at_iff)
  have "b = (pre @ take q s) @ drop q s @ NUL # post" using b(1) by (metis append.assoc append_take_drop_id)
  then show ?thesis unfolding string_at_iff using b assms(2) by (intro exI [of _ "pre @ take q s"] exI [of _ post]) simp
qed

definition line_result :: "CMistString \<Rightarrow> string \<Rightarrow> mem \<Rightarrow> EMistLineType \<times> string option \<times> CMistString \<times> mem \<Rightarrow> bool" where
  "line_result ms s m res \<longleftrightarrow> (case res of (mlt, name, ms', m') \<Rightarrow> (case line_kind (trim s) of (k, n, v) \<Rightarrow>
     mlt = k \<and> length (ms_buf ms') = length (ms_buf ms) \<and> ms_valid ms' \<and> live m' = live m + of_bool (name \<noteq> None)
     \<and> (k = MLT_SINGLE \<longrightarrow> holds_string ms' v \<and> ms_str ms' + length v \<le> ms_str ms + length s)
     \<and> (k = MLT_MULTI \<longrightarrow> ms_str ms' = 0)
     \<and> (name = None \<or> name = Some n) \<and> (k \<noteq> MLT_SINGLE \<and> k \<noteq> MLT_MULTI \<longrightarrow> name = None)
     \<and> (never_fails m \<and> small s \<longrightarrow> never_fails m' \<and> (k = MLT_SINGLE \<or> k = MLT_MULTI \<longrightarrow> name \<noteq> None))))"

lemma line_type_returns:
  assumes "holds_string ms s"
  shows "returns (mist_cfg_get_line_type m ms) (line_result ms s m)"
proof -
  define t where "t = trim s"
  obtain ms1 where ms1: "mist_string_trim ms = Some ms1" "holds_string ms1 t" "length (ms_buf ms1) = length (ms_buf ms)" "ms_str ms1 + length t \<le> ms_str ms + length s"
    using trim_returns_at [OF assms] by (auto simp: returns_iff t_def)
  note st = holds_stringD [OF ms1(2)] and valid = holds_string_valid [OF ms1(2)] and nn = holds_string_no_nul [OF ms1(2)]
  consider (hash) "t \<noteq> []" "hd t = CHR ''#''" | (blank) "t = []" | (other) "t \<noteq> []" "hd t \<noteq> CHR ''#''" by blast
  then show ?thesis
  proof cases
    case hash
    then have "line_kind t = (MLT_COMMENT, [], [])" by (simp add: line_kind_def)
    then show ?thesis using hash ms1 st valid by (simp add: mist_cfg_get_line_type_def line_result_def t_def [symmetric])
  next
    case blank
    then have "line_kind t = (MLT_BLANK, [], [])" by (simp add: line_kind_def)
    then show ?thesis using blank ms1 st valid by (simp add: mist_cfg_get_line_type_def line_result_def t_def [symmetric])
  next
    case other
    define syms where "syms = [CHR '' '', CHR 0x09, CHR ''='']"
    define name where "name = takeWhile (\<lambda>c. c \<notin> set syms) t"
    define k where "k = length name"
    define r where "r = dropWhile is_ws (drop k t)"
    define p where "p = k + length (takeWhile is_ws (drop k t))"
    have k: "k \<le> length t" "name = take k t" unfolding k_def name_def by (rule length_takeWhile_le, rule takeWhile_eq_take)
    have r: "r = drop p t" "p \<le> length t" unfolding r_def p_def using k(1) length_takeWhile_le [of is_ws "drop k t"]
      by (simp_all add: drop_length_takeWhile [of is_ws "drop k t", symmetric] add.commute)
    have find: "mist_find_in_range_first_of t 0 (length t) syms = Some k"
      by (simp add: mist_find_in_range_first_of_def check_def find_forward_eq k_def name_def)
    have find2: "mist_find_in_range_first_not_of t k (length t) wspace = Some p" using k by (simp add: find_first_not_ws slice_to_end p_def)
    have eq: "p < length t \<and> t ! p = CHR ''='' \<longleftrightarrow> r \<noteq> [] \<and> hd r = CHR ''=''" using r by (auto simp: hd_drop_conv_nth)
    have kind: "line_kind t = (if r = [] \<or> hd r \<noteq> CHR ''='' then (MLT_NOEQ, [], [])
         else if take 3 r = ''=>>'' then (if list_all is_ws (drop 3 r) then (MLT_MULTI, name, []) else (MLT_BAD_MULTI, [], []))
         else (MLT_SINGLE, name, dropWhile is_ws (tl r)))"
      using other by (simp add: line_kind_def Let_def r_def k_def name_def syms_def)
    obtain nm m1 where sub: "mist_get_substring m t 0 k = Some (nm, m1)" "live m1 = live m + of_bool (nm \<noteq> None)" "nm = None \<or> nm = Some name"
        "never_fails m \<and> small t \<longrightarrow> never_fails m1 \<and> nm \<noteq> None"
      using get_substring_returns [OF nn, of 0 k m] k by (auto simp: returns_iff slice_def)
    have small: "small s \<Longrightarrow> small t" using ms1(4) length_trim [of s] by (simp add: small_def t_def)
    have ml: "strncmp (drop p t) ml_beg (length ml_beg) = 0 \<longleftrightarrow> take 3 r = ''=>>''" using r(1) by (simp add: strncmp_def ml_beg_def eval_nat_numeral)
    have head: "mist_cfg_get_line_type m ms = (if r = [] \<or> hd r \<noteq> CHR ''='' then Some (MLT_NOEQ, None, ms1, m)
       else if take 3 r = ''=>>'' then do {
         pos \<leftarrow> mist_find_in_range_first_not_of t (p + 3) (length t) wspace;
         if pos \<noteq> length t then Some (MLT_BAD_MULTI, None, ms1, m)
         else do { (pname, m) \<leftarrow> mist_get_substring m t 0 k; ms \<leftarrow> mist_string_reset ms1; Some (MLT_MULTI, pname, ms, m) }
       } else do {
         (pname, m) \<leftarrow> mist_get_substring m t 0 k;
         pos \<leftarrow> mist_find_in_range_first_not_of t (p + 1) (length t) wspace;
         Some (MLT_SINGLE, pname, ms1\<lparr>ms_str := ms_str ms1 + pos\<rparr>, m)
       })"
    proof -
      have "length ml_beg = 3" by (simp add: ml_beg_def)
      note ml3 = ml [unfolded this] and this
      then show ?thesis unfolding mist_cfg_get_line_type_def ms1(1) bind.bind_lunit st using other find find2 eq
        by (cases "r \<noteq> [] \<and> hd r = CHR ''=''") (simp_all add: Let_def syms_def [symmetric] ml3)
    qed
    note res = line_result_def [of ms s m, folded t_def, unfolded kind]
    consider (noeq) "r = [] \<or> hd r \<noteq> CHR ''=''" | (marker) "r \<noteq> []" "hd r = CHR ''=''" "take 3 r = ''=>>''"
      | (single) "r \<noteq> []" "hd r = CHR ''=''" "take 3 r \<noteq> ''=>>''" by blast
    then show ?thesis
    proof cases
      case noeq
      then show ?thesis using head ms1 valid by (auto simp: res)
    next
      case marker
      define q where "q = p + 3 + length (takeWhile is_ws (drop 3 r))"
      have "length (take 3 r) = 3" using marker(3) by simp
      then have len: "p + 3 \<le> length t" using r by (simp add: min_def split: if_splits)
      have find3: "mist_find_in_range_first_not_of t (p + 3) (length t) wspace = Some q"
        using find_first_not_ws [OF len] by (simp add: slice_to_end q_def r(1) add.commute)
      have q: "q = length t \<longleftrightarrow> list_all is_ws (drop 3 r)"
      proof -
        have "length (drop 3 r) = length t - (p + 3)" using r by simp
        then have "q = length t \<longleftrightarrow> length (takeWhile is_ws (drop 3 r)) = length (drop 3 r)" using len by (simp add: q_def) linarith
        also have "\<dots> \<longleftrightarrow> list_all is_ws (drop 3 r)" by (metis list_all_iff takeWhile_eq_all_conv takeWhile_eq_take take_all order.refl)
        finally show ?thesis .
      qed
      obtain ms2 where ms2: "mist_string_reset ms1 = Some ms2" "holds_string ms2 []" "ms_str ms2 = 0" "length (ms_buf ms2) = length (ms_buf ms1)"
        using reset_returns [OF ms1(2)] by (auto simp: returns_iff mist_string_reset_def write_at_def split: if_splits)
      show ?thesis using head marker find3 q sub ms2 ms1 valid small holds_string_valid [OF ms2(2)] by (auto simp: res)
    next
      case single
      have len: "p + 1 \<le> length t" using single(1) r by (cases "p = length t") auto
      define q where "q = p + 1 + length (takeWhile is_ws (tl r))"
      have tl: "drop (p + 1) t = tl r" using r by (simp add: drop_Suc tl_drop)
      have find3: "mist_find_in_range_first_not_of t (p + 1) (length t) wspace = Some q"
        using find_first_not_ws [OF len] tl by (simp add: slice_to_end q_def)
      have v: "drop q t = dropWhile is_ws (tl r)" using drop_length_takeWhile [of is_ws "tl r"] tl unfolding q_def by (metis add.commute drop_drop)
      have ql: "q \<le> length t" using length_takeWhile_le [of is_ws "tl r"] len r by (auto simp: q_def)
      have hs: "holds_string (ms1\<lparr>ms_str := ms_str ms1 + q\<rparr>) (drop q t)" using string_at_drop ms1(2) ql by (simp add: holds_string_def)
      have "q + length (dropWhile is_ws (tl r)) = length t" using ql v by (metis le_add_diff_inverse length_drop)
      then have "ms_str ms1 + q + length (dropWhile is_ws (tl r)) \<le> ms_str ms + length s" using ms1(4) by simp
      then show ?thesis using head single find3 v sub ms1 small hs holds_string_valid [OF hs] by (auto simp: res)
    qed
  qed
qed

section \<open>Values\<close>

text \<open>
  A multiline value: the lines up to one that has only the end marker. A value in one line: as long as its last line ends with a
  backslash, the next line follows, separated by a space; an empty line ends it.
\<close>

fun multi_lines :: "string \<Rightarrow> string list \<Rightarrow> (string \<times> string list) option" where
  "multi_lines acc [] = None"
| "multi_lines acc (l # ls) = (if trim l = ml_end then Some (acc, ls) else multi_lines (acc @ l) ls)"

fun merge_lines :: "string \<Rightarrow> string \<Rightarrow> string list \<Rightarrow> (string \<times> string list) option" where
  "merge_lines acc seg [] = (if seg \<noteq> [] \<and> last seg = CHR 0x5C then None else Some (acc @ seg, []))"
| "merge_lines acc seg (l # ls) = (if seg \<noteq> [] \<and> last seg = CHR 0x5C then
      let acc = acc @ rtrim (butlast seg) in if trim l = [] then Some (acc, ls) else merge_lines (acc @ '' '') (trim l) ls
    else Some (acc @ seg, l # ls))"

lemma multi_lines_length: "multi_lines acc ls = Some (v, ls') \<Longrightarrow> length ls' \<le> length ls"
  by (induction acc ls rule: multi_lines.induct) (auto split: if_splits)

lemma merge_lines_length: "merge_lines acc seg ls = Some (v, ls') \<Longrightarrow> length ls' \<le> length ls"
  by (induction acc seg ls rule: merge_lines.induct) (auto simp: Let_def split: if_splits)

lemma line_count: "j \<le> n \<Longrightarrow> word_of_nat (Suc n - j) = (1 + word_of_nat (n - j) :: 32 word)"
  by (simp add: Suc_diff_le)

lemma to_int_id: "0 \<le> x \<Longrightarrow> x < 2 ^ 31 \<Longrightarrow> to_int x = x"
  unfolding to_int_def sint_sbintrunc' by (rule signed_take_bit_int_eq_self) simp_all

text \<open>The room that is left: enough for what is unread, and within the buffer.\<close>

definition room :: "CFile \<Rightarrow> int \<Rightarrow> nat \<Rightarrow> nat \<Rightarrow> bool" where
  "room fs bsize used n \<longleftrightarrow> int (length (unread fs)) + 2 \<le> bsize \<and> int used + bsize \<le> int n \<and> bsize < 2 ^ 31"

lemma end_marker:
  assumes "s \<noteq> []" "no_nul s"
  obtains pb pe where "mist_find_in_range_first_not_of s 0 (length s) wspace = Some pb" "mist_find_in_range_last_not_of s 0 (length s) wspace = Some pe"
    "pe = pb + (length ml_end - 1) \<and> strncmp (drop pb s) ml_end (length ml_end) = 0 \<longleftrightarrow> trim s = ml_end"
proof -
  let ?pb = "length (takeWhile is_ws s)" and ?pe = "if rtrim s = [] then length s else length (rtrim s) - 1"
  have f: "mist_find_in_range_first_not_of s 0 (length s) wspace = Some ?pb" "mist_find_in_range_last_not_of s 0 (length s) wspace = Some ?pe"
    by (simp_all add: find_first_not_ws find_last_not_ws)
  have "?pe = ?pb + (length ml_end - 1) \<and> strncmp (drop ?pb s) ml_end (length ml_end) = 0 \<longleftrightarrow> trim s = ml_end"
  proof (cases "trim s = []")
    case True
    then have tw: "takeWhile is_ws s = s" using trim_Nil_iff by blast
    then have "rtrim s = []" unfolding rtrim_Nil_iff by (metis set_takeWhileD)
    moreover have "length (takeWhile is_ws s) = length s" by (simp only: tw)
    ultimately show ?thesis using True by (simp add: ml_end_def)
  next
    case False
    obtain l r where s: "s = l @ trim s @ r" "l = takeWhile is_ws s" "\<forall>c \<in> set r. is_ws c" using trim_parts [of s] False by auto
    have rt: "rtrim s = l @ trim s" using rtrim_of_trim [OF False] s by (metis append_eq_conv_conj trim_lead_def False)
    have d: "drop ?pb s = trim s @ r" using s by (metis append_eq_conv_conj)
    have "?pe = ?pb + 1 \<longleftrightarrow> length (trim s) = 2" using rt s(2) False by (cases "trim s") auto
    moreover have "strncmp (drop ?pb s) ml_end 2 = 0 \<longleftrightarrow> trim s = ml_end" if "length (trim s) = 2" using that unfolding d strncmp_def by (simp add: ml_end_def)
    ultimately show ?thesis by (auto simp: ml_end_def numeral_2_eq_2)
  qed
  then show ?thesis using that f by blast
qed

lemma multiline_loop_returns:
  "stream_ok fs \<Longrightarrow> room fs bsize (length acc) (length buf) \<Longrightarrow> take (length acc) buf = acc \<Longrightarrow> no_nul acc \<Longrightarrow>
   returns (multiline_loop fs bsize buf (length acc) ln) (\<lambda>(r, ln', fs').
     (reads_ok fs \<longrightarrow> reads_ok fs' \<and> \<not> f_err fs')
     \<and> (case r of
          Inl buf' \<Rightarrow> stream_ok fs' \<and> length (unread fs') \<le> length (unread fs) \<and> length buf' = length buf
            \<and> (\<exists>v. multi_lines acc (file_lines (unread fs)) = Some (v, file_lines (unread fs')) \<and> string_at buf' 0 = Some v)
            \<and> ln' = ln + of_nat (length (file_lines (unread fs)) - length (file_lines (unread fs')))
        | Inr _ \<Rightarrow> f_err fs' \<or> multi_lines acc (file_lines (unread fs)) = None))"
proof (induction "length (unread fs)" arbitrary: fs bsize buf acc ln rule: less_induct)
  case less
  note ok = less.prems(1) and room = less.prems(2) [unfolded room_def]
  have ti: "to_int bsize = bsize" using room by (intro to_int_id) auto
  obtain p fs1 where g: "fgets fs bsize = Some (p, fs1)" "case p of None \<Rightarrow> f_err fs1 \<or> unread fs = [] \<and> f_eof fs1 \<and> stream_ok fs1
      | Some l \<Rightarrow> l \<noteq> [] \<and> no_nul l \<and> stream_ok fs1 \<and> unread fs = l @ unread fs1 \<and> file_lines (unread fs) = l # file_lines (unread fs1)"
      "reads_ok fs \<longrightarrow> reads_ok fs1 \<and> \<not> f_err fs1"
    using fgets_returns [OF ok, of bsize] room unfolding returns_iff by auto
  show ?case
  proof (cases p)
    case None
    then have "multiline_loop fs bsize buf (length acc) ln = Some (Inr (), ln, fs1)" using g(1) ti by (subst multiline_loop.simps) simp
    then show ?thesis using None g by auto
  next
    case (Some l)
    then have l: "l \<noteq> []" "no_nul l" "stream_ok fs1" "unread fs = l @ unread fs1" "file_lines (unread fs) = l # file_lines (unread fs1)" using g(2) by auto
    have fit: "length acc + length l + 2 \<le> length buf" using room l(4) by auto
    define b1 where "b1 = acc @ l @ NUL # drop (length acc + length l + 1) buf"
    have w: "write_at buf (length acc) (l @ [NUL]) = Some b1" "length b1 = length buf" using fit less.prems(3) by (auto simp: write_at_def b1_def)
    have sa: "string_at b1 (length acc) = Some l" unfolding string_at_iff using l(2) by (auto simp: b1_def)
    obtain pb pe where f: "mist_find_in_range_first_not_of l 0 (length l) wspace = Some pb" "mist_find_in_range_last_not_of l 0 (length l) wspace = Some pe"
        "pe = pb + (length ml_end - 1) \<and> strncmp (drop pb l) ml_end (length ml_end) = 0 \<longleftrightarrow> trim l = ml_end"
      using end_marker [OF l(1,2)] .
    have step: "multiline_loop fs bsize buf (length acc) ln = (if trim l = ml_end then do { buf \<leftarrow> write_at b1 (length acc) [NUL]; Some (Inl buf, ln + 1, fs1) }
        else multiline_loop fs1 (bsize - int (length l)) b1 (length acc + length l) (ln + 1))"
      by (subst multiline_loop.simps) (simp only: ti g(1) Some bind.bind_lunit prod.case option.case w sa f Let_def)
    show ?thesis
    proof (cases "trim l = ml_end")
      case True
      define b2 where "b2 = acc @ NUL # drop (length acc + 1) b1"
      have w2: "write_at b1 (length acc) [NUL] = Some b2" "length b2 = length buf" using fit w(2) by (auto simp: write_at_def b2_def b1_def)
      have "string_at b2 0 = Some acc" unfolding string_at_iff using less.prems(4) by (auto simp: b2_def)
      then show ?thesis using step True w2 l g(3) by simp
    next
      case False
      have n: "length (unread fs1) < length (unread fs)" using l(1,4) by simp
      have r: "room fs1 (bsize - int (length l)) (length (acc @ l)) (length b1)" using room l(4) w(2) by (simp add: room_def)
      have "take (length (acc @ l)) b1 = acc @ l" "no_nul (acc @ l)" using less.prems(4) l(2) by (auto simp: b1_def)
      note ih = less.hyps [OF n l(3) r this, of "ln + 1"]
      show ?thesis unfolding step if_not_P [OF False]
        by (rule returns_mono [OF ih [unfolded length_append]]) (use False l g(3) n w(2) in \<open>auto simp: line_count [OF multi_lines_length] split: sum.splits\<close>)
    qed
  qed
qed

text \<open>A segment without whitespace at its beginning that ends with a backslash.\<close>

lemma cut_backslash:
  assumes "seg \<noteq> []" "last seg = CHR 0x5C" "\<not> is_ws (hd seg)"
  obtains pos where "mist_find_in_range_last_not_of seg 0 (length seg - 1) wspace = Some pos"
    "(if pos \<noteq> length seg - 1 then pos + 1 else pos) = length (rtrim (butlast seg))"
proof -
  let ?b = "butlast seg"
  have b: "slice seg 0 (length seg - 1) = ?b" by (simp add: slice_def butlast_conv_take)
  have f: "mist_find_in_range_last_not_of seg 0 (length seg - 1) wspace = Some (if rtrim ?b = [] then length seg - 1 else length (rtrim ?b) - 1)"
    using find_last_not_ws [of 0 "length seg - 1" seg] b by simp
  have "rtrim ?b = [] \<Longrightarrow> ?b = []" using assms(1,3) by (cases seg) (auto simp: rtrim_Nil_iff split: if_splits)
  moreover have "length (rtrim ?b) \<le> length ?b" using length_rtrim [of ?b] by simp
  ultimately have "(if rtrim ?b = [] then length ?b else length (rtrim ?b) - 1) \<noteq> length ?b \<longleftrightarrow> rtrim ?b \<noteq> []" by (cases "rtrim ?b") auto
  then show ?thesis using that [OF f] \<open>rtrim ?b = [] \<Longrightarrow> ?b = []\<close> length_butlast [of seg] by (cases "rtrim ?b = []") (simp_all add: length_butlast)
qed

definition single_result :: "CFile \<Rightarrow> nat \<Rightarrow> string \<Rightarrow> string \<Rightarrow> nat \<Rightarrow> 32 word \<Rightarrow> mem
    \<Rightarrow> (char list + EMistErrorCode \<times> string) \<times> char list \<times> 32 word \<times> CFile \<times> mem \<Rightarrow> bool" where
  "single_result fs off acc seg n ln m res \<longleftrightarrow> (case res of (r, buf', ln', fs', m') \<Rightarrow>
     live m' = live m \<and> length buf' = n \<and> (reads_ok fs \<longrightarrow> reads_ok fs' \<and> \<not> f_err fs') \<and> (never_fails m \<longrightarrow> never_fails m')
     \<and> (case r of
          Inl b \<Rightarrow> b = buf' \<and> stream_ok fs' \<and> length (unread fs') \<le> length (unread fs)
            \<and> (\<exists>v. merge_lines acc seg (file_lines (unread fs)) = Some (v, file_lines (unread fs')) \<and> string_at b off = Some v)
            \<and> ln' = ln + of_nat (length (file_lines (unread fs)) - length (file_lines (unread fs')))
        | Inr (ec, msg) \<Rightarrow> ec = MIST_READ_FILE_FAILED \<and> msg = errFileReadFailed \<and> f_err fs'
            \<or> ec = MIST_SYNTAX_ERROR \<and> msg = errUnexpectedEOF \<and> \<not> f_err fs' \<and> merge_lines acc seg (file_lines (unread fs)) = None
            \<or> ec = MIST_OUT_OF_MEMORY \<and> msg = errNoMemory \<and> \<not> never_fails m))"

lemma string_at_last: "string_at buf beg = Some seg \<Longrightarrow> seg \<noteq> [] \<Longrightarrow> beg + (length seg - 1) < length buf \<and> buf ! (beg + (length seg - 1)) = last seg"
  by (auto simp: string_at_iff nth_append last_conv_nth)

lemma append_at:
  assumes "take k buf = a" "length a = k" "k + length w \<le> length buf"
  obtains b where "write_at buf k w = Some b" "length b = length buf" "take (k + length w) b = a @ w"
  using assms by (auto simp: write_at_def)

lemma append_string_at:
  assumes "take k buf = a" "length a = k" "k + length w < length buf" "no_nul w"
  obtains b where "write_at buf k (w @ [NUL]) = Some b" "length b = length buf" "take k b = a" "string_at b k = Some w"
proof -
  let ?b = "a @ w @ NUL # drop (k + length w + 1) buf"
  have "write_at buf k (w @ [NUL]) = Some ?b" "length ?b = length buf" "take k ?b = a" using assms by (auto simp: write_at_def)
  moreover have "string_at ?b k = Some w" unfolding string_at_iff using assms by blast
  ultimately show ?thesis using that by blast
qed

lemma singleline_loop_returns:
  assumes "stream_ok fs" "room fs bsize (beg + length seg) (length buf)" "take beg buf = pre @ acc" "length (pre @ acc) = beg" "no_nul acc"
    "string_at buf beg = Some seg" "seg \<noteq> []" "\<not> is_ws (hd seg)"
  shows "returns (singleline_loop fs bsize buf beg (beg + (length seg - 1)) ln m) (single_result fs (length pre) acc seg (length buf) ln m)"
  using assms
proof (induction "length (unread fs)" arbitrary: fs bsize buf beg acc seg ln m rule: less_induct)
  case less
  note ok = less.prems(1) and room = less.prems(2) [unfolded room_def]
  have ti: "to_int bsize = bsize" using room by (intro to_int_id) auto
  note lst = string_at_last [OF less.prems(6,7)]
  obtain q where q: "buf = (pre @ acc) @ seg @ NUL # q" "no_nul seg"
    using less.prems(3,4,6) unfolding string_at_iff by (metis append_eq_conv_conj)
  show ?case
  proof (cases "last seg = CHR 0x5C")
    case False
    then have "singleline_loop fs bsize buf beg (beg + (length seg - 1)) ln m = Some (Inl buf, buf, ln, fs, m)"
      using lst by (subst singleline_loop.simps) (simp add: check_def)
    moreover have "merge_lines acc seg ls = Some (acc @ seg, ls)" for ls using False by (cases ls) auto
    moreover have "string_at buf (length pre) = Some (acc @ seg)" unfolding string_at_iff using q less.prems(5) by auto
    ultimately show ?thesis using ok less.prems(1) by (auto simp: single_result_def stream_ok_def)
  next
    case bs: True
    define c where "c = rtrim (butlast seg)"
    obtain pos where pos: "mist_find_in_range_last_not_of seg 0 (length seg - 1) wspace = Some pos" "(if pos \<noteq> length seg - 1 then pos + 1 else pos) = length c"
      using cut_backslash [OF less.prems(7) bs less.prems(8)] unfolding c_def .
    have pos': "(if beg + pos \<noteq> beg + (length seg - 1) then beg + pos + 1 else beg + pos) = beg + length c" using pos(2) by (auto split: if_splits)
    obtain r where cr: "seg = c @ r" "r \<noteq> []"
    proof -
      obtain u where "butlast seg = c @ u" using rtrim_prefix [of "butlast seg"] unfolding c_def by blast
      then have "seg = c @ u @ [last seg]" using less.prems(7) by (metis append.assoc append_butlast_last_id)
      then show ?thesis using that by blast
    qed
    define k where "k = beg + length c"
    have k: "k + 1 \<le> beg + length seg" "take k buf = pre @ acc @ c" "length (pre @ acc @ c) = k"
      using cr q(1) less.prems(4) by (auto simp: k_def) (cases r; auto)
    obtain b1 where b1: "write_at buf k [CHR '' ''] = Some b1" "length b1 = length buf" "take (k + 1) b1 = pre @ acc @ c @ '' ''"
      using append_at [of k buf "pre @ acc @ c" "'' ''"] k room by auto
    obtain p fs1 where g: "fgets fs bsize = Some (p, fs1)" "case p of None \<Rightarrow> f_err fs1 \<or> unread fs = [] \<and> f_eof fs1 \<and> stream_ok fs1
        | Some l \<Rightarrow> l \<noteq> [] \<and> no_nul l \<and> stream_ok fs1 \<and> unread fs = l @ unread fs1 \<and> file_lines (unread fs) = l # file_lines (unread fs1)"
        "reads_ok fs \<longrightarrow> reads_ok fs1 \<and> \<not> f_err fs1"
      using fgets_returns [OF ok, of bsize] room unfolding returns_iff by auto
    have at_end: "check (beg + (length seg - 1) < length buf) = Some ()" "(buf ! (beg + (length seg - 1)) \<noteq> CHR 0x5C) = False"
      using lst bs by (simp_all add: check_def)
    have pos0: "mist_find_in_range_last_not_of seg 0 (beg + (length seg - 1) - beg) wspace = Some pos" using pos(1) by simp
    show ?thesis
    proof (cases p)
      case None
      then have "singleline_loop fs bsize buf beg (beg + (length seg - 1)) ln m =
          Some (Inr (if f_err fs1 then (MIST_READ_FILE_FAILED, errFileReadFailed) else (MIST_SYNTAX_ERROR, errUnexpectedEOF)), b1, ln, fs1, m)"
        by (subst singleline_loop.simps) (simp only: at_end if_False less.prems(6) pos0 pos' [folded k_def] Let_def b1(1) ti g(1)
          bind.bind_lunit prod.case option.case)
      then show ?thesis using None g b1 bs less.prems(7) by (auto simp: single_result_def)
    next
      case (Some l)
      then have l: "l \<noteq> []" "no_nul l" "stream_ok fs1" "unread fs = l @ unread fs1" "file_lines (unread fs) = l # file_lines (unread fs1)" using g(2) by auto
      obtain b2 where b2: "write_at b1 (k + 1) (l @ [NUL]) = Some b2" "length b2 = length buf" "take (k + 1) b2 = pre @ acc @ c @ '' ''" "string_at b2 (k + 1) = Some l"
        using append_string_at [OF b1(3), of l] k b1(2) room l by auto
      have sl: "small l" using room l(4) by (auto simp: small_def)
      obtain ts m1 where ts: "mist_string_create m (Some l) = Some (ts, m1)"
          "case ts of None \<Rightarrow> live m1 = live m | Some ms \<Rightarrow> holds_string ms l \<and> ms_str ms = 0 \<and> live m1 = live m + 2"
          "never_fails m \<longrightarrow> never_fails m1 \<and> ts \<noteq> None"
        using create_returns [of "Some l" m, unfolded option.case, OF l(2)] sl unfolding returns_iff by blast
      have step: "singleline_loop fs bsize buf beg (beg + (length seg - 1)) ln m = (case ts of
            None \<Rightarrow> Some (Inr (MIST_OUT_OF_MEMORY, errNoMemory), b2, ln + 1, fs1, m1)
          | Some ts \<Rightarrow> do {
              ts \<leftarrow> mist_string_trim ts;
              t \<leftarrow> string_at (ms_buf ts) (ms_str ts);
              if length t > 0 then do {
                buf \<leftarrow> write_at b2 (k + 1) (strncpy_bytes (t @ [NUL]) (length t + 1));
                if bsize - int (length t) < 1 then Some (Inr (MIST_READ_FILE_FAILED, errFileReadFailed), buf, ln + 1, fs1, mist_string_destroy m1 ts)
                else singleline_loop fs1 (bsize - int (length t)) buf (k + 1) (k + 1 + (length t - 1)) (ln + 1) (mist_string_destroy m1 ts)
              } else do {
                buf \<leftarrow> write_at b2 (k + 1 - 1) [NUL];
                Some (Inl buf, buf, ln + 1, fs1, mist_string_destroy m1 ts)
              }
            })"
        by (subst singleline_loop.simps) (simp only: at_end if_False less.prems(6) pos0 pos' [folded k_def] Let_def b1(1) ti g(1) Some b2(1,4) ts(1)
          bind.bind_lunit prod.case option.case)
      show ?thesis
      proof (cases ts)
        case None
        then show ?thesis using step ts l g(3) b2(2) by (auto simp: single_result_def)
      next
        case (Some ms)
        then obtain ms1 where ms1: "mist_string_trim ms = Some ms1" "string_at (ms_buf ms1) (ms_str ms1) = Some (trim l)" "live m1 = live m + 2"
          using trim_returns_at [of ms l] ts(2) by (auto simp: returns_iff holds_string_def)
        have nn: "no_nul (trim l)" using l(2) by simp
        have lt: "length (trim l) \<le> length l" by (rule length_trim)
        have cp: "strncpy_bytes (trim l @ [NUL]) (length (trim l) + 1) = trim l @ [NUL]" using nn by (simp add: strncpy_bytes_def)
        show ?thesis
        proof (cases "trim l = []")
          case True
          have "take k b2 = take k (take (k + 1) b2)" by simp
          also have "\<dots> = pre @ acc @ c" unfolding b2(3) using k(3) by simp
          finally have tk: "take k b2 = pre @ acc @ c" .
          obtain b3 where b3: "write_at b2 k [NUL] = Some b3" "length b3 = length buf" "take (k + 1) b3 = pre @ acc @ c @ [NUL]"
            using append_at [OF tk k(3), of "[NUL]"] b2(2) k(1) room by auto
          have "b3 = pre @ (acc @ c) @ NUL # drop (k + 1) b3" using append_take_drop_id [of "k + 1" b3] unfolding b3(3) by simp
          then have "string_at b3 (length pre) = Some (acc @ c)" unfolding string_at_iff using q(2) less.prems(5) cr(1) by auto
          moreover have "merge_lines acc seg (l # ls) = Some (acc @ c, ls)" for ls using True bs less.prems(7) by (simp add: c_def)
          ultimately show ?thesis using step Some ms1 True b3 l ts(3) g(3) by (simp add: single_result_def)
        next
          case False
          have "k + 1 + length (trim l) < length b2" using b2(2) k(1) room l(4) lt by simp
          then obtain b3 where b3: "write_at b2 (k + 1) (trim l @ [NUL]) = Some b3" "length b3 = length buf" "take (k + 1) b3 = pre @ acc @ c @ '' ''" "string_at b3 (k + 1) = Some (trim l)"
            using append_string_at [OF b2(3) _ _ nn] k(3) b2(2) by auto
          have n: "length (unread fs1) < length (unread fs)" using l(1,4) by simp
          have big: "\<not> bsize - int (length (trim l)) < 1" using room l(4) lt by simp
          have r: "room fs1 (bsize - int (length (trim l))) (k + 1 + length (trim l)) (length b3)" using room l(4) lt k(1) b3(2) by (simp add: room_def)
          have ws: "\<not> is_ws (hd (trim l))" using trim_parts [of l] False by blast
          have nc: "no_nul (acc @ c @ '' '')" using less.prems(5) q(2) cr(1) by (simp add: NUL_def)
          have kl: "length (pre @ acc @ c @ '' '') = k + 1" using k(3) by simp
          note ih = less.hyps [OF n l(3) r b3(3) kl nc b3(4) False ws, of "ln + 1" "mist_string_destroy m1 ms1"]
          have mg: "merge_lines acc seg (l # ls) = merge_lines (acc @ c @ '' '') (trim l) ls" for ls using False bs less.prems(7) by (simp add: c_def Let_def)
          have eq: "singleline_loop fs bsize buf beg (beg + (length seg - 1)) ln m =
              singleline_loop fs1 (bsize - int (length (trim l))) b3 (k + 1) (k + 1 + (length (trim l) - 1)) (ln + 1) (mist_string_destroy m1 ms1)"
            using step Some ms1 False cp b3(1) big by simp
          show ?thesis unfolding eq
            by (rule returns_mono [OF ih]) (use n l g(3) ts(3) ms1(3) b3(2) mg in \<open>auto simp: single_result_def line_count [OF merge_lines_length] split: sum.splits prod.splits\<close>)
        qed
      qed
    qed
  qed
qed

section \<open>Definitions\<close>

text \<open>The message that is handed out is a block of memory.\<close>

definition err_blocks :: "string option option \<Rightarrow> int" where
  "err_blocks err = of_bool (\<exists>d. err = Some (Some d))"

definition fresh_err :: "string option option \<Rightarrow> bool" where
  "fresh_err err \<longleftrightarrow> err = None \<or> err = Some None"

lemma fresh_err_blocks [simp]: "fresh_err err \<Longrightarrow> err_blocks err = 0"
  by (auto simp: fresh_err_def err_blocks_def)

text \<open>Where a description was asked for, the message is given, unless memory is refused.\<close>

definition reported :: "mem \<Rightarrow> string option option \<Rightarrow> string option option \<Rightarrow> string \<Rightarrow> bool" where
  "reported m err err' msg \<longleftrightarrow> (if err = None then err' = None else (err' = Some None \<and> \<not> never_fails m) \<or> err' = Some (Some msg))"

lemma cfg_fail_returns:
  assumes "fresh_err err" "length fmt < 1000"
  shows "returns (cfg_fail ec fmt ln (sm, err, fs, m)) (\<lambda>(ec', sm', err', fs', m'). ec' = ec \<and> sm' = sm \<and> fs' = fs \<and> live m' = live m + err_blocks err'
     \<and> reported m err err' (if ln > 0 then format_string fmt [ArgU (unat ln)] else fmt) \<and> (never_fails m \<longrightarrow> never_fails m'))"
proof (cases err)
  case None
  then show ?thesis by (simp add: cfg_fail_def mist_format_parse_error_def reported_def err_blocks_def)
next
  case (Some d)
  have "small fmt" using assms(2) by (simp add: small_def)
  then show ?thesis using assms(1) Some unfolding cfg_fail_def
    by (auto simp: reported_def err_blocks_def intro!: returns_mono [OF format_parse_error_returns])
qed

lemma cfg_add_returns:
  assumes "smap_inv sm" "fresh_err err"
  shows "returns (cfg_add name v (sm, err, fs, m)) (\<lambda>(ec, sm', err', fs', m'). fs' = fs \<and> smap_inv sm'
     \<and> live m' = live m + smap_blocks sm' - smap_blocks sm + err_blocks err'
     \<and> (ec = MIST_OK \<and> err' = err \<and> elems (container sm') = elems (container sm) @ [\<lparr>sp_key = name, sp_val = v\<rparr>] \<or> ec = MIST_OUT_OF_MEMORY \<and> sm' = sm)
     \<and> (never_fails m \<and> small (elems (container sm)) \<and> small name \<and> small v \<longrightarrow> never_fails m' \<and> ec = MIST_OK))"
proof -
  obtain r sm1 m1 where a: "smap_add_element m sm name v = Some (r, sm1, m1)" "smap_inv sm1" "live m1 - live m = smap_blocks sm1 - smap_blocks sm"
      "if r then elems (container sm1) = elems (container sm) @ [\<lparr>sp_key = name, sp_val = v\<rparr>] else sm1 = sm"
      "never_fails m \<and> small (elems (container sm)) \<and> small name \<and> small v \<longrightarrow> r \<and> never_fails m1"
    using smap_add_element_returns [OF assms(1), of m name v] smap_add_element_enough [OF assms(1), of m name v] by (auto simp: returns_iff)
  show ?thesis
  proof (cases r)
    case True
    then show ?thesis using a assms(2) by (auto simp: cfg_add_def)
  next
    case False
    have "length errNoMemory < 1000" by (simp add: errNoMemory_def)
    from cfg_fail_returns [OF assms(2) this, of MIST_OUT_OF_MEMORY 0 sm fs m1]
    show ?thesis using False a by (auto simp: cfg_add_def elim!: returns_mono)
  qed
qed

text \<open>The errors, with the line, and one step of the reference parser: the line \<open>l\<close> has the number \<open>n\<close>, the lines \<open>ls\<close> follow.\<close>

datatype cfg_error = No_eq nat | Bad_multi nat | No_name nat | Early_end

fun cfg_message :: "cfg_error \<Rightarrow> string" where
  "cfg_message (No_eq n) = format_string errEqExpected [ArgU n]"
| "cfg_message (Bad_multi n) = format_string errBadCharsAfterMLBegin [ArgU n]"
| "cfg_message (No_name n) = format_string errEmptyName [ArgU n]"
| "cfg_message Early_end = errUnexpectedEOF"

fun is_No_name :: "cfg_error \<Rightarrow> bool" where
  "is_No_name (No_name n) = True"
| "is_No_name e = False"

definition define_step :: "nat \<Rightarrow> EMistLineType \<Rightarrow> string \<Rightarrow> string \<Rightarrow> string list \<Rightarrow> cfg_error + (string \<times> string) option \<times> string list" where
  "define_step n mlt name v ls =
     (if name = [] then Inl (No_name n)
      else (case if mlt = MLT_SINGLE then merge_lines [] v ls else map_option (\<lambda>(v, ls). (trim v, ls)) (multi_lines [] ls) of
         None \<Rightarrow> Inl Early_end
       | Some (val, ls') \<Rightarrow> Inr (Some (name, val), ls')))"

definition config_step :: "nat \<Rightarrow> string \<Rightarrow> string list \<Rightarrow> cfg_error + (string \<times> string) option \<times> string list" where
  "config_step n l ls = (case line_kind (trim l) of (mlt, name, v) \<Rightarrow>
     (case mlt of
        MLT_COMMENT \<Rightarrow> Inr (None, ls)
      | MLT_BLANK \<Rightarrow> Inr (None, ls)
      | MLT_NOEQ \<Rightarrow> Inl (No_eq n)
      | MLT_BAD_MULTI \<Rightarrow> Inl (Bad_multi n)
      | _ \<Rightarrow> define_step n mlt name v ls))"

text \<open>What one step of the program yields.\<close>

definition step_result :: "cfg_error + (string \<times> string) option \<times> string list \<Rightarrow> nat \<Rightarrow> CStringMap \<Rightarrow> string option option \<Rightarrow> CFile \<Rightarrow> mem \<Rightarrow> nat
    \<Rightarrow> EMistErrorCode option \<times> CMistString \<times> 32 word \<times> load_state \<Rightarrow> bool" where
  "step_result spec n sm err fs m len res \<longleftrightarrow> (case res of (ec, ms', ln', sm', err', fs', m') \<Rightarrow>
     ms_valid ms' \<and> length (ms_buf ms') = len \<and> smap_inv sm' \<and> (reads_ok fs \<longrightarrow> reads_ok fs' \<and> \<not> f_err fs')
     \<and> (never_fails m \<and> small (elems (container sm)) \<longrightarrow> never_fails m' \<and> ec \<noteq> Some MIST_OUT_OF_MEMORY)
     \<and> (case ec of
          None \<Rightarrow> stream_ok fs' \<and> length (unread fs') \<le> length (unread fs) \<and> err' = err \<and> live m' = live m + smap_blocks sm' - smap_blocks sm
            \<and> (\<exists>d. spec = Inr (d, file_lines (unread fs'))
                 \<and> elems (container sm') = elems (container sm) @ (case d of None \<Rightarrow> [] | Some (k, v) \<Rightarrow> [\<lparr>sp_key = k, sp_val = v\<rparr>]))
            \<and> ln' = of_nat (n + (length (file_lines (unread fs)) - length (file_lines (unread fs'))))
        | Some c \<Rightarrow> sm' = sm
            \<and> (c = MIST_SYNTAX_ERROR \<and> (case spec of Inr _ \<Rightarrow> False
                   | Inl e \<Rightarrow> live m' = live m + err_blocks err' + of_bool (is_No_name e) \<and> (never_fails m \<longrightarrow> reported m err err' (cfg_message e)))
               \<or> c = MIST_READ_FILE_FAILED \<and> f_err fs' \<and> live m' = live m + err_blocks err'
               \<or> c = MIST_OUT_OF_MEMORY \<and> live m' = live m + err_blocks err')))"

text \<open>What the functions for values need.\<close>

definition value_pre :: "string \<Rightarrow> int \<Rightarrow> CMistString \<Rightarrow> nat \<Rightarrow> load_state \<Rightarrow> bool" where
  "value_pre name bsize val n st \<longleftrightarrow> (case st of (sm, err, fs, m) \<Rightarrow> name \<noteq> [] \<and> small name \<and> stream_ok fs \<and> length (ms_buf val) < 2 ^ 40
     \<and> smap_inv sm \<and> fresh_err err \<and> 1 \<le> n \<and> n < 2 ^ 32)"

lemma line_no_positive: "1 \<le> n \<Longrightarrow> n < 2 ^ 32 \<Longrightarrow> (1 :: 32 word) \<le> of_nat n \<and> (of_nat n :: 32 word) > 0 \<and> unat (of_nat n :: 32 word) = n"
  by (simp add: word_le_nat_alt word_less_nat_alt unat_of_nat)

lemma cfg_messages_short [simp]: "length errNoMemory < 1000" "length errFileReadFailed < 1000" "length errUnexpectedEOF < 1000" "length errEqExpected < 1000"
  "length errBadCharsAfterMLBegin < 1000" "length errEmptyName < 1000" "length errFileOpenFailed < 1000"
  by (simp_all add: errNoMemory_def errFileReadFailed_def errUnexpectedEOF_def errEqExpected_def errBadCharsAfterMLBegin_def errEmptyName_def errFileOpenFailed_def)

lemma small_string_at: "string_at b off = Some v \<Longrightarrow> length b < 2 ^ 40 \<Longrightarrow> small v"
  using string_at_bound [of b off v] by (simp add: small_def)

lemma value_added:
  assumes "value_pre name bsize val n (sm, err, fs, m)" "stream_ok fs'" "length (unread fs') \<le> length (unread fs)" "reads_ok fs \<longrightarrow> reads_ok fs'"
    "spec = Inr (Some (name, v), file_lines (unread fs'))" "small v" "ms_valid ms'" "length (ms_buf ms') = length (ms_buf val)"
    "ln' = of_nat (n + (length (file_lines (unread fs)) - length (file_lines (unread fs'))))" "live m1 = live m" "never_fails m \<longrightarrow> never_fails m1"
  shows "returns (cfg_add name v (sm, err, fs', m1)) (\<lambda>(ec, st). step_result spec n sm err fs m (length (ms_buf val)) (if ec \<noteq> MIST_OK then Some ec else None, ms', ln', st))"
proof -
  have p: "smap_inv sm" "fresh_err err" "small name" using assms(1) by (auto simp: value_pre_def)
  show ?thesis
    by (rule returns_mono [OF cfg_add_returns [OF p(1,2)]]) (use assms p in \<open>auto simp: step_result_def stream_ok_def\<close>)
qed

lemma value_failed:
  assumes "value_pre name bsize val n (sm, err, fs, m)" "reads_ok fs \<longrightarrow> reads_ok fs' \<and> \<not> f_err fs'" "ms_valid ms'" "length (ms_buf ms') = length (ms_buf val)"
    "ec = MIST_READ_FILE_FAILED \<and> msg = errFileReadFailed \<and> f_err fs' \<or> ec = MIST_SYNTAX_ERROR \<and> msg = errUnexpectedEOF \<and> spec = Inl Early_end
      \<or> ec = MIST_OUT_OF_MEMORY \<and> msg = errNoMemory \<and> \<not> never_fails m"
    "live m1 = live m" "never_fails m \<longrightarrow> never_fails m1"
  shows "returns (cfg_fail ec msg 0 (sm, err, fs', m1)) (\<lambda>(ec, st). step_result spec n sm err fs m (length (ms_buf val)) (if ec \<noteq> MIST_OK then Some ec else None, ms', ln', st))"
proof -
  have p: "smap_inv sm" "fresh_err err" "length msg < 1000" using assms(1,5) by (auto simp: value_pre_def)
  show ?thesis
    by (rule returns_mono [OF cfg_fail_returns [OF p(2,3)]]) (use assms p in \<open>auto simp: step_result_def reported_def\<close>)
qed

definition value_result :: "cfg_error + (string \<times> string) option \<times> string list \<Rightarrow> nat \<Rightarrow> load_state \<Rightarrow> nat
    \<Rightarrow> EMistErrorCode \<times> CMistString \<times> 32 word \<times> load_state \<Rightarrow> bool" where
  "value_result spec n st len res \<longleftrightarrow> (case st of (sm, err, fs, m) \<Rightarrow> (case res of (ec, ms', ln', st') \<Rightarrow>
     step_result spec n sm err fs m len (if ec \<noteq> MIST_OK then Some ec else None, ms', ln', st')))"

lemma multiline_value_returns:
  assumes pre: "value_pre name bsize val n (sm, err, fs, m)" and "ms_str val = 0" "room fs bsize 0 (length (ms_buf val))" "ms_valid val"
  shows "returns (mist_cfg_get_multiline_value name bsize val (of_nat n) (sm, err, fs, m))
     (value_result (define_step n MLT_MULTI name [] (file_lines (unread fs))) n (sm, err, fs, m) (length (ms_buf val)))"
proof -
  let ?ls = "file_lines (unread fs)"
  have p: "name \<noteq> []" "stream_ok fs" "1 \<le> n" "n < 2 ^ 32" "length (ms_buf val) < 2 ^ 40" using pre by (auto simp: value_pre_def)
  have spec: "define_step n MLT_MULTI name [] ?ls = (case map_option (\<lambda>(v, ls). (trim v, ls)) (multi_lines [] ?ls) of None \<Rightarrow> Inl Early_end | Some (val, ls') \<Rightarrow> Inr (Some (name, val), ls'))"
    using p(1) by (simp add: define_step_def)
  have chk: "check (name \<noteq> [] \<and> bsize \<ge> 1 \<and> (of_nat n :: 32 word) \<ge> 1) = Some ()"
    using p line_no_positive [OF p(3,4)] assms(3) by (simp add: check_def room_def)
  obtain r ln' fs' where l: "multiline_loop fs bsize (ms_buf val) 0 (of_nat n) = Some (r, ln', fs')" "reads_ok fs \<longrightarrow> reads_ok fs' \<and> \<not> f_err fs'"
      "case r of Inl buf' \<Rightarrow> stream_ok fs' \<and> length (unread fs') \<le> length (unread fs) \<and> length buf' = length (ms_buf val)
            \<and> (\<exists>v. multi_lines [] ?ls = Some (v, file_lines (unread fs')) \<and> string_at buf' 0 = Some v)
            \<and> ln' = of_nat n + of_nat (length ?ls - length (file_lines (unread fs')))
        | Inr _ \<Rightarrow> f_err fs' \<or> multi_lines [] ?ls = None"
    using multiline_loop_returns [OF p(2), of bsize "[]" "ms_buf val" "of_nat n"] assms(3) unfolding returns_iff by (auto simp: NUL_def)
  show ?thesis
  proof (cases r)
    case (Inr u)
    let ?ec = "if f_err fs' then MIST_READ_FILE_FAILED else MIST_SYNTAX_ERROR" and ?msg = "if f_err fs' then errFileReadFailed else errUnexpectedEOF"
    have "returns (cfg_fail ?ec ?msg 0 (sm, err, fs', m)) (\<lambda>(ec, st). step_result (define_step n MLT_MULTI name [] ?ls) n sm err fs m (length (ms_buf val)) (if ec \<noteq> MIST_OK then Some ec else None, val, ln', st))"
      by (rule value_failed [OF pre]) (use l Inr assms(4) spec in auto)
    then show ?thesis using chk l(1) Inr assms(2) by (cases "f_err fs'") (auto simp: mist_cfg_get_multiline_value_def value_result_def elim!: returns_mono)
  next
    case (Inl buf)
    then obtain v where v: "multi_lines [] ?ls = Some (v, file_lines (unread fs'))" "string_at buf 0 = Some v" "length buf = length (ms_buf val)" using l(3) by auto
    have h: "holds_string (val\<lparr>ms_buf := buf\<rparr>) v" using v(2) assms(2) by (simp add: holds_string_def)
    obtain ms' where t: "mist_string_trim (val\<lparr>ms_buf := buf\<rparr>) = Some ms'" "holds_string ms' (trim v)" "length (ms_buf ms') = length (ms_buf val)"
      using trim_returns [OF h] v(3) by (auto simp: returns_iff)
    have "returns (cfg_add name (trim v) (sm, err, fs', m)) (\<lambda>(ec, st). step_result (define_step n MLT_MULTI name [] ?ls) n sm err fs m (length (ms_buf val)) (if ec \<noteq> MIST_OK then Some ec else None, ms', ln', st))"
      by (rule value_added [OF pre]) (use l Inl v t p(5) spec holds_string_valid [OF t(2)] small_string_at [OF holds_stringD [OF t(2)]] in auto)
    then show ?thesis using chk l(1) Inl assms(2) t holds_stringD [OF t(2)] by (auto simp: mist_cfg_get_multiline_value_def value_result_def elim!: returns_mono)
  qed
qed

lemma singleline_value_returns:
  assumes pre: "value_pre name bsize val n (sm, err, fs, m)" and h: "holds_string val s" and "room fs (bsize - int (ms_str val + length s)) (ms_str val + length s) (length (ms_buf val))"
    and ws: "s \<noteq> [] \<longrightarrow> \<not> is_ws (hd s)"
  shows "returns (mist_cfg_get_singleline_value name bsize val (of_nat n) (sm, err, fs, m))
     (value_result (define_step n MLT_SINGLE name s (file_lines (unread fs))) n (sm, err, fs, m) (length (ms_buf val)))"
proof -
  let ?ls = "file_lines (unread fs)" and ?off = "ms_str val"
  have p: "name \<noteq> []" "stream_ok fs" "1 \<le> n" "n < 2 ^ 32" "length (ms_buf val) < 2 ^ 40" using pre by (auto simp: value_pre_def)
  have spec: "define_step n MLT_SINGLE name s ?ls = (case merge_lines [] s ?ls of None \<Rightarrow> Inl Early_end | Some (val, ls') \<Rightarrow> Inr (Some (name, val), ls'))"
    using p(1) by (simp add: define_step_def)
  have b1: "bsize - int (?off + length s) \<ge> 1" using assms(3) by (simp add: room_def)
  have chk: "check (name \<noteq> [] \<and> bsize \<ge> 1 \<and> (of_nat n :: 32 word) \<ge> 1) = Some ()"
    using p line_no_positive [OF p(3,4)] b1 by (simp add: check_def)
  note st = holds_stringD [OF h] and valid = holds_string_valid [OF h]
  show ?thesis
  proof (cases "s = []")
    case True
    have "merge_lines [] [] ?ls = Some ([], ?ls)" by (cases ?ls) auto
    then have "returns (cfg_add name [] (sm, err, fs, m)) (\<lambda>(ec, st). step_result (define_step n MLT_SINGLE name s ?ls) n sm err fs m (length (ms_buf val)) (if ec \<noteq> MIST_OK then Some ec else None, val, of_nat n, st))"
      by (intro value_added [OF pre p(2)]) (use True valid spec in auto)
    then show ?thesis using chk st True by (auto simp: mist_cfg_get_singleline_value_def value_result_def elim!: returns_mono)
  next
    case False
    define b0 where "b0 = take ?off (ms_buf val)"
    have off: "length b0 = ?off" using valid by (simp add: b0_def ms_valid_def)
    have "returns (singleline_loop fs (bsize - int (?off + length s)) (ms_buf val) ?off (?off + (length s - 1)) (of_nat n) m) (single_result fs (length b0) [] s (length (ms_buf val)) (of_nat n) m)"
      by (rule singleline_loop_returns [OF p(2) assms(3)]) (use off st False ws in \<open>auto simp: b0_def\<close>)
    then obtain r buf ln' fs' m1 where l: "singleline_loop fs (bsize - int (?off + length s)) (ms_buf val) ?off (?off + (length s - 1)) (of_nat n) m = Some (r, buf, ln', fs', m1)"
        "single_result fs ?off [] s (length (ms_buf val)) (of_nat n) m (r, buf, ln', fs', m1)" unfolding off returns_iff by auto
    have gv: "mist_cfg_get_singleline_value name bsize val (of_nat n) (sm, err, fs, m) = (case r of
          Inl buf' \<Rightarrow> do { v \<leftarrow> string_at buf' ?off; (ec, st) \<leftarrow> cfg_add name v (sm, err, fs', m1); Some (ec, val\<lparr>ms_buf := buf\<rparr>, ln', st) }
        | Inr (ec, msg) \<Rightarrow> do { (ec, st) \<leftarrow> cfg_fail ec msg 0 (sm, err, fs', m1); Some (ec, val\<lparr>ms_buf := buf\<rparr>, ln', st) })"
      using chk st False b1 l(1) by (cases r) (simp_all add: mist_cfg_get_singleline_value_def Let_def check_def)
    have v': "ms_valid (val\<lparr>ms_buf := buf\<rparr>)" "length (ms_buf (val\<lparr>ms_buf := buf\<rparr>)) = length (ms_buf val)" using l(2) valid by (auto simp: single_result_def ms_valid_def)
    show ?thesis
    proof (cases r)
      case (Inl b)
      then obtain v where v: "merge_lines [] s ?ls = Some (v, file_lines (unread fs'))" "string_at b ?off = Some v" "b = buf" using l(2) by (auto simp: single_result_def)
      have "returns (cfg_add name v (sm, err, fs', m1)) (\<lambda>(ec, st). step_result (define_step n MLT_SINGLE name s ?ls) n sm err fs m (length (ms_buf val)) (if ec \<noteq> MIST_OK then Some ec else None, val\<lparr>ms_buf := buf\<rparr>, ln', st))"
        by (rule value_added [OF pre]) (use l(2) Inl v v' p(5) spec small_string_at [OF v(2)] in \<open>auto simp: single_result_def\<close>)
      then show ?thesis using gv Inl v by (auto simp: value_result_def elim!: returns_mono)
    next
      case (Inr q)
      obtain ec msg where q: "q = (ec, msg)" by fastforce
      have "returns (cfg_fail ec msg 0 (sm, err, fs', m1)) (\<lambda>(ec, st). step_result (define_step n MLT_SINGLE name s ?ls) n sm err fs m (length (ms_buf val)) (if ec \<noteq> MIST_OK then Some ec else None, val\<lparr>ms_buf := buf\<rparr>, ln', st))"
        by (rule value_failed [OF pre]) (use l(2) Inr q v' spec in \<open>auto simp: single_result_def\<close>)
      then show ?thesis using gv Inr q by (auto simp: value_result_def elim!: returns_mono)
    qed
  qed
qed

lemma line_kind_value: "line_kind (trim l) = (MLT_SINGLE, name, v) \<Longrightarrow> v \<noteq> [] \<longrightarrow> \<not> is_ws (hd v)"
  using hd_dropWhile [of is_ws] by (auto simp: line_kind_def Let_def split: if_splits)

lemma line_kind_name: "line_kind t = (mlt, name, v) \<Longrightarrow> length name \<le> length t"
  by (auto simp: line_kind_def Let_def length_takeWhile_le split: if_splits)

lemma step_result_free:
  assumes "step_result spec n sm err fs m len (ec, ms, ln, sm', err', fs', m')" "live m0 = live m - 1" "never_fails m0 \<longrightarrow> never_fails m"
  shows "step_result spec n sm err fs m0 len (ec, ms, ln, sm', err', fs', free m')"
proof -
  have r: "reported m0 = reported m" if "never_fails m0" using assms(3) that by (simp add: reported_def fun_eq_iff)
  have e: "live (free m') = live m0 + x \<longleftrightarrow> live m' = live m + x" "live (free m') = live m0 + x - y \<longleftrightarrow> live m' = live m + x - y"
      "live (free m') = live m0 + x + y \<longleftrightarrow> live m' = live m + x + y" for x y using assms(2) by auto
  show ?thesis
  proof (cases "never_fails m0")
    case True
    then have "never_fails m" using assms(3) by blast
    show ?thesis using assms(1) unfolding step_result_def prod.case r [OF True] e by (cases ec; cases spec) (simp_all add: True \<open>never_fails m\<close>)
  next
    case False
    show ?thesis using assms(1) unfolding step_result_def prod.case e by (cases ec; cases spec) (simp_all add: False, auto)
  qed
qed

lemma config_step_fail:
  assumes "fresh_err err" "smap_inv sm" "ms_valid ms'" "length (ms_buf ms') = len" "stream_ok fs" "length fmt < 1000"
    "spec = Inl e" "cfg_message e = (if ln > 0 then format_string fmt [ArgU (unat ln)] else fmt)" "live m1 = live m + of_bool (is_No_name e)" "never_fails m \<longrightarrow> never_fails m1"
  shows "returns (do { (ec, st) \<leftarrow> cfg_fail MIST_SYNTAX_ERROR fmt ln (sm, err, fs, m1); Some (Some ec, ms', ln', st) }) (step_result spec n sm err fs m len)"
proof -
  obtain err' m2 where f: "cfg_fail MIST_SYNTAX_ERROR fmt ln (sm, err, fs, m1) = Some (MIST_SYNTAX_ERROR, sm, err', fs, m2)" "live m2 = live m1 + err_blocks err'"
      "reported m1 err err' (cfg_message e)" "never_fails m1 \<longrightarrow> never_fails m2"
    using cfg_fail_returns [OF assms(1,6), of MIST_SYNTAX_ERROR ln sm fs m1] unfolding returns_iff assms(8) by auto
  have "never_fails m \<longrightarrow> reported m err err' (cfg_message e)" using f(3) assms(10) by (auto simp: reported_def split: if_splits)
  moreover have "\<not> f_err fs" using assms(5) by (simp add: stream_ok_def)
  ultimately show ?thesis using f assms(2-4,7,9,10) by (simp add: step_result_def)
qed

text \<open>The whole of one line: the buffer holds it.\<close>

lemma cfg_line_returns:
  assumes h: "holds_string ms l" "ms_str ms = 0" and "room fs (bsize - int (length l)) (length l) (length (ms_buf ms))" "bsize < 2 ^ 31"
    and "stream_ok fs" "length (ms_buf ms) < 2 ^ 40" "smap_inv sm" "fresh_err err" "1 \<le> n" "n < 2 ^ 32"
  shows "returns (cfg_line bsize ms (of_nat n) (sm, err, fs, m)) (step_result (config_step n l (file_lines (unread fs))) n sm err fs m (length (ms_buf ms)))"
proof -
  let ?ls = "file_lines (unread fs)"
  obtain mlt nm v where k: "line_kind (trim l) = (mlt, nm, v)" by (cases "line_kind (trim l)")
  have sl: "small l" "small nm" using small_string_at [OF holds_stringD [OF h(1)] assms(6)] line_kind_name [OF k] length_trim [of l] by (auto simp: small_def)
  obtain name ms1 m1 where t: "mist_cfg_get_line_type m ms = Some (mlt, name, ms1, m1)" "line_result ms l m (mlt, name, ms1, m1)"
    using line_type_returns [OF h(1), of m] k by (auto simp: returns_iff line_result_def split: prod.splits)
  have t': "length (ms_buf ms1) = length (ms_buf ms)" "ms_valid ms1" "live m1 = live m + of_bool (name \<noteq> None)"
      "mlt = MLT_SINGLE \<Longrightarrow> holds_string ms1 v \<and> ms_str ms1 + length v \<le> length l" "mlt = MLT_MULTI \<Longrightarrow> ms_str ms1 = 0"
      "name = None \<or> name = Some nm" "mlt \<noteq> MLT_SINGLE \<and> mlt \<noteq> MLT_MULTI \<Longrightarrow> name = None"
      "never_fails m \<Longrightarrow> never_fails m1 \<and> (mlt = MLT_SINGLE \<or> mlt = MLT_MULTI \<longrightarrow> name \<noteq> None)"
    using t(2) h(2) sl(1) unfolding line_result_def k prod.case by auto
  note pos = line_no_positive [OF assms(9,10)]
  have fail: "returns (do { (ec, st) \<leftarrow> cfg_fail MIST_SYNTAX_ERROR fmt (of_nat n) (sm, err, fs, m1); Some (Some ec, ms1, ln', st) }) (step_result (Inl e) n sm err fs m (length (ms_buf ms)))"
    if "length fmt < 1000" "cfg_message e = format_string fmt [ArgU n]" "name = None \<longleftrightarrow> \<not> is_No_name e" for fmt e ln'
    by (rule config_step_fail [OF assms(8,7) t'(2,1) assms(5) that(1)]) (use that pos t' in auto)
  have def: "returns (cfg_define mlt name bsize ms1 (of_nat n) (sm, err, fs, m1)) (step_result (define_step n mlt nm v ?ls) n sm err fs m (length (ms_buf ms)))"
    if d: "mlt = MLT_SINGLE \<or> mlt = MLT_MULTI"
  proof -
    consider (none) "name = None" | (empty) "name = Some []" "nm = []" | (name) "name = Some nm" "nm \<noteq> []" using t'(6) by auto
    then show ?thesis
    proof cases
      case none
      have "returns (do { (ec, st) \<leftarrow> cfg_fail MIST_OUT_OF_MEMORY errNoMemory 0 (sm, err, fs, m1); Some (Some ec, ms1, of_nat n, st) })
          (step_result (define_step n mlt nm v ?ls) n sm err fs m (length (ms_buf ms)))"
        by (rule returns_bindI [OF cfg_fail_returns [OF assms(8) cfg_messages_short(1)]])
          (use none t' d assms(5,7) in \<open>auto simp: step_result_def stream_ok_def\<close>)
      then show ?thesis using none by (simp add: cfg_define_def)
    next
      case empty
      then show ?thesis using fail [of errEmptyName "No_name n" "of_nat n"] by (simp add: cfg_define_def define_step_def)
    next
      case name
      have pre: "value_pre nm bsize ms1 n (sm, err, fs, m1)" using name sl assms t' by (simp add: value_pre_def)
      have "returns (if mlt = MLT_SINGLE then mist_cfg_get_singleline_value nm bsize ms1 (of_nat n) (sm, err, fs, m1) else mist_cfg_get_multiline_value nm bsize ms1 (of_nat n) (sm, err, fs, m1))
          (value_result (define_step n mlt nm v ?ls) n (sm, err, fs, m1) (length (ms_buf ms1)))"
      proof (cases "mlt = MLT_SINGLE")
        case True
        have "room fs (bsize - int (ms_str ms1 + length v)) (ms_str ms1 + length v) (length (ms_buf ms1))" using t'(1,4) True assms(3,4) by (auto simp: room_def)
        then show ?thesis using singleline_value_returns [OF pre] True t'(4) line_kind_value [of l nm v] k by simp
      next
        case False
        then have "mlt = MLT_MULTI" "v = []" using d k by (auto simp: line_kind_def Let_def split: if_splits)
        moreover have "room fs bsize 0 (length (ms_buf ms1))" using t'(1) assms(3,4) by (auto simp: room_def)
        ultimately show ?thesis using multiline_value_returns [OF pre] t'(2,5) by simp
      qed
      then have "returns (do { (ec, ms, line_no, sm, err, fs, m) \<leftarrow> (if mlt = MLT_SINGLE then mist_cfg_get_singleline_value nm bsize ms1 (of_nat n) (sm, err, fs, m1) else mist_cfg_get_multiline_value nm bsize ms1 (of_nat n) (sm, err, fs, m1));
            Some (if ec \<noteq> MIST_OK then Some ec else None, ms, line_no, sm, err, fs, free m) }) (step_result (define_step n mlt nm v ?ls) n sm err fs m (length (ms_buf ms)))"
        by (rule returns_bindI) (use t' name in \<open>auto simp: value_result_def intro: step_result_free\<close>)
      then show ?thesis using name by (simp add: cfg_define_def)
    qed
  qed
  show ?thesis
  proof (cases mlt)
    case MLT_NOEQ
    then show ?thesis using fail [of errEqExpected "No_eq n" "of_nat n"] t(1) k t'(7) by (simp add: cfg_line_def config_step_def)
  next
    case MLT_BAD_MULTI
    then show ?thesis using fail [of errBadCharsAfterMLBegin "Bad_multi n" "of_nat n"] t(1) k t'(7) by (simp add: cfg_line_def config_step_def)
  next
    case MLT_COMMENT
    then show ?thesis using t(1) k t' assms by (auto simp: cfg_line_def config_step_def step_result_def stream_ok_def)
  next
    case MLT_BLANK
    then show ?thesis using t(1) k t' assms by (auto simp: cfg_line_def config_step_def step_result_def stream_ok_def)
  next
    case MLT_SINGLE
    then show ?thesis using t(1) k def by (simp add: cfg_line_def config_step_def)
  next
    case MLT_MULTI
    then show ?thesis using t(1) k def by (simp add: cfg_line_def config_step_def)
  qed
qed

section \<open>The whole file\<close>

lemma config_step_length: "config_step n l ls = Inr (d, ls') \<Longrightarrow> length ls' \<le> length ls"
  by (auto simp: config_step_def define_step_def split: prod.splits EMistLineType.splits option.splits if_splits dest: merge_lines_length multi_lines_length)

text \<open>The definitions of a file up to the first error; \<open>n\<close> lines come before.\<close>

function config :: "nat \<Rightarrow> string list \<Rightarrow> (string \<times> string) list \<times> cfg_error option" where
  "config n [] = ([], None)"
| "config n (l # ls) = (case config_step (n + 1) l ls of
      Inl e \<Rightarrow> ([], Some e)
    | Inr (d, ls') \<Rightarrow> (case config (n + 1 + (length ls - length ls')) ls' of (ps, e) \<Rightarrow> (case d of None \<Rightarrow> ps | Some p \<Rightarrow> p # ps, e)))"
  by pat_completeness auto
termination
  by (relation "measure (\<lambda>(n, ls). length ls)") (auto dest: config_step_length)

definition pair_of :: "string \<times> string \<Rightarrow> TStringPair" where
  "pair_of p = \<lparr>sp_key = fst p, sp_val = snd p\<rparr>"

definition cfg_result :: "(string \<times> string) list \<times> cfg_error option \<Rightarrow> CStringMap \<Rightarrow> string option option \<Rightarrow> mem \<Rightarrow> bool
    \<Rightarrow> EMistErrorCode \<times> CStringMap \<times> string option option \<times> mem \<Rightarrow> bool" where
  "cfg_result spec sm err m fine res \<longleftrightarrow> (case spec of (ps, e) \<Rightarrow> (case res of (ec, sm', err', m') \<Rightarrow>
     smap_inv sm' \<and> (\<exists>k. elems (container sm') = elems (container sm) @ map pair_of (take k ps))
     \<and> live m' = live m + smap_blocks sm' - smap_blocks sm + err_blocks err' + of_bool (ec = MIST_SYNTAX_ERROR \<and> pred_option is_No_name e)
     \<and> (ec = MIST_OK \<and> e = None \<and> err' = err \<or> ec = MIST_SYNTAX_ERROR \<and> e \<noteq> None \<or> ec = MIST_READ_FILE_FAILED \<or> ec = MIST_OUT_OF_MEMORY)
     \<and> (ec = MIST_OK \<or> ec = MIST_SYNTAX_ERROR \<longrightarrow> elems (container sm') = elems (container sm) @ map pair_of ps)
     \<and> (fine \<and> never_fails m \<longrightarrow> never_fails m' \<and> (case e of
          None \<Rightarrow> ec = MIST_OK | Some e \<Rightarrow> ec = MIST_SYNTAX_ERROR \<and> err' = map_option (\<lambda>_. Some (cfg_message e)) err))))"

lemma cfg_result_step:
  assumes "cfg_result (ps, e) sm1 err m1 fine (ec, sm', err', m')" "live m1 = live m + smap_blocks sm1 - smap_blocks sm"
    "elems (container sm1) = elems (container sm) @ map pair_of qs" "fine0 \<and> never_fails m \<longrightarrow> fine \<and> never_fails m1"
  shows "cfg_result (qs @ ps, e) sm err m fine0 (ec, sm', err', m')"
proof -
  obtain k where k: "elems (container sm') = elems (container sm1) @ map pair_of (take k ps)" using assms(1) by (auto simp: cfg_result_def)
  have "\<exists>k. elems (container sm') = elems (container sm) @ map pair_of (take k (qs @ ps))"
    using k assms(3) by (intro exI [of _ "length qs + k"]) simp
  then show ?thesis using assms unfolding cfg_result_def prod.case by simp
qed

lemma cfg_result_stop:
  assumes "smap_inv sm" "live m' = live m + err_blocks err' + of_bool (ec = MIST_SYNTAX_ERROR \<and> pred_option is_No_name e)"
    "ec = MIST_OK \<and> e = None \<and> ps = [] \<and> err' = err \<or> ec = MIST_SYNTAX_ERROR \<and> e \<noteq> None \<and> ps = [] \<or> ec = MIST_READ_FILE_FAILED \<or> ec = MIST_OUT_OF_MEMORY"
    "fine \<and> never_fails m \<longrightarrow> never_fails m' \<and> (case e of None \<Rightarrow> ec = MIST_OK | Some e \<Rightarrow> ec = MIST_SYNTAX_ERROR \<and> err' = map_option (\<lambda>_. Some (cfg_message e)) err)"
  shows "cfg_result (ps, e) sm err m fine (ec, sm, err', m')"
  unfolding cfg_result_def prod.case using assms by (auto intro: exI [of _ 0])

lemma load_loop_returns:
  assumes "ms_valid ms" "length (ms_buf ms) < 2 ^ 40" "int (length (unread fs)) + 2 \<le> bsize" "bsize < 2 ^ 31" "bsize \<le> int (length (ms_buf ms))"
    "stream_ok fs" "smap_inv sm" "fresh_err err" "n + length (file_lines (unread fs)) < 2 ^ 31"
  shows "returns (load_loop bsize ms (of_nat n) sm err fs m) (\<lambda>(ec, sm', err', fs', m'). cfg_result (config n (file_lines (unread fs))) sm err m
     (reads_ok fs \<and> length (elems (container sm)) + length (unread fs) < 2 ^ 50) (ec, sm', err', m'))"
  using assms
proof (induction "length (unread fs)" arbitrary: ms fs sm n m rule: less_induct)
  case less
  note ok = less.prems(6) and inv = less.prems(7) and fe = less.prems(8)
  obtain ps e where cfg: "config n (file_lines (unread fs)) = (ps, e)" by fastforce
  let ?fine = "reads_ok fs \<and> length (elems (container sm)) + length (unread fs) < 2 ^ 50"
  have ti: "to_int bsize = bsize" using less.prems(3,4) by (intro to_int_id) auto
  obtain ms1 where ms1: "mist_string_reset ms = Some ms1" "ms_str ms1 = 0" "length (ms_buf ms1) = length (ms_buf ms)" "ms_valid ms1"
    using less.prems(1) by (cases "ms_buf ms") (auto simp: mist_string_reset_def write_at_def ms_valid_def check_def)
  obtain p fs1 where g: "fgets fs bsize = Some (p, fs1)" "case p of None \<Rightarrow> f_err fs1 \<or> unread fs = [] \<and> f_eof fs1 \<and> stream_ok fs1
      | Some l \<Rightarrow> l \<noteq> [] \<and> no_nul l \<and> stream_ok fs1 \<and> unread fs = l @ unread fs1 \<and> file_lines (unread fs) = l # file_lines (unread fs1)"
      "reads_ok fs \<longrightarrow> reads_ok fs1 \<and> \<not> f_err fs1"
    using fgets_returns [OF ok less.prems(3)] unfolding returns_iff by auto
  show ?case
  proof (cases p)
    case None
    show ?thesis
    proof (cases "f_err fs1")
      case True
      have "load_loop bsize ms (of_nat n) sm err fs m = cfg_fail MIST_READ_FILE_FAILED errFileReadFailed 0 (sm, err, fs1, m)"
        using None True ms1(1) g(1) ti by (subst load_loop.simps) simp
      then show ?thesis using g(3) True unfolding cfg
        by (auto intro!: returns_mono [OF cfg_fail_returns [OF fe cfg_messages_short(2)]] cfg_result_stop inv)
    next
      case False
      then have "unread fs = []" "f_eof fs1" using g(2) None by auto
      moreover from this have "load_loop bsize ms (of_nat n) sm err fs m = Some (MIST_OK, sm, err, fs1, m)"
        using None False ms1(1) g(1) ti by (subst load_loop.simps) simp
      ultimately show ?thesis using fe inv by (auto intro!: cfg_result_stop)
    qed
  next
    case (Some l)
    then have l: "l \<noteq> []" "no_nul l" "stream_ok fs1" "unread fs = l @ unread fs1" "file_lines (unread fs) = l # file_lines (unread fs1)" using g(2) by auto
    let ?ls = "file_lines (unread fs1)"
    have fit: "length l + 1 \<le> length (ms_buf ms1)" using less.prems(3,5) l(4) ms1(3) by simp
    define ms2 where "ms2 = ms1\<lparr>ms_buf := l @ NUL # drop (length l + 1) (ms_buf ms1)\<rparr>"
    have w: "write_at (ms_buf ms1) (ms_str ms1) (l @ [NUL]) = Some (ms_buf ms2)" using fit ms1(2) by (simp add: write_at_def ms2_def)
    have h: "holds_string ms2 l" "ms_str ms2 = 0" "length (ms_buf ms2) = length (ms_buf ms)" "ms1\<lparr>ms_buf := ms_buf ms2\<rparr> = ms2"
      using l(2) ms1 fit by (auto simp: ms2_def holds_string_def string_at_iff)
    have rm: "room fs1 (bsize - int (length l)) (length l) (length (ms_buf ms2))" using less.prems(3-5) l(4) h(3) by (simp add: room_def)
    have n: "1 \<le> n + 1" "n + 1 < 2 ^ 32" using less.prems(9) l(5) by auto
    obtain ec ms3 ln sm1 err1 fs2 m1 where c: "cfg_line bsize ms2 (of_nat (n + 1)) (sm, err, fs1, m) = Some (ec, ms3, ln, sm1, err1, fs2, m1)"
        "step_result (config_step (n + 1) l ?ls) (n + 1) sm err fs1 m (length (ms_buf ms)) (ec, ms3, ln, sm1, err1, fs2, m1)"
      using cfg_line_returns [OF h(1,2) rm less.prems(4) l(3) _ inv fe n, of m] less.prems(2) h(3) unfolding returns_iff by auto
    have step: "load_loop bsize ms (of_nat n) sm err fs m = (case ec of Some ec \<Rightarrow> Some (ec, sm1, err1, fs2, m1)
        | None \<Rightarrow> if f_err fs2 then cfg_fail MIST_READ_FILE_FAILED errFileReadFailed 0 (sm1, err1, fs2, m1)
                  else if f_eof fs2 then Some (MIST_OK, sm1, err1, fs2, m1) else load_loop bsize ms3 ln sm1 err1 fs2 m1)"
      using c(1) h(4) by (subst load_loop.simps) (simp add: ms1(1) ti g(1) Some w add.commute)
    show ?thesis
    proof (cases ec)
      case (Some c)
      note sr = c(2) [unfolded step_result_def prod.case Some option.case]
      have sm: "sm1 = sm" using sr by blast
      have "cfg_result (ps, e) sm err m ?fine (c, sm, err1, m1)"
      proof (cases "config_step (n + 1) l ?ls")
        case (Inl e0)
        then have pe: "ps = []" "e = Some e0" using cfg l(5) by auto
        have rep: "reported m err err1 (cfg_message e0) \<Longrightarrow> never_fails m \<Longrightarrow> err1 = map_option (\<lambda>_. Some (cfg_message e0)) err"
          using fe by (auto simp: reported_def fresh_err_def)
        show ?thesis using sr l(4) g(3) rep unfolding Inl sum.case pe sm by (intro cfg_result_stop [OF inv]) (auto simp: small_def)
      next
        case (Inr d)
        show ?thesis using sr l(4) g(3) unfolding Inr sum.case sm by (intro cfg_result_stop [OF inv]) (auto simp: small_def)
      qed
      then show ?thesis using step Some sm by (simp add: cfg)
    next
      case None
      note sr = c(2) [unfolded step_result_def prod.case None option.case]
      then obtain d where d: "config_step (n + 1) l ?ls = Inr (d, file_lines (unread fs2))" 
          "elems (container sm1) = elems (container sm) @ (case d of None \<Rightarrow> [] | Some (k, v) \<Rightarrow> [\<lparr>sp_key = k, sp_val = v\<rparr>])" by blast
      let ?n = "n + 1 + (length ?ls - length (file_lines (unread fs2)))"
      have ll: "length (file_lines (unread fs2)) \<le> length ?ls" using config_step_length [OF d(1)] .
      obtain ps' where cfg': "config ?n (file_lines (unread fs2)) = (ps', e)" "ps = (case d of None \<Rightarrow> [] | Some p \<Rightarrow> [p]) @ ps'"
        using cfg l(5) d(1) by (auto split: prod.splits option.splits)
      define qs where "qs = (case d of None \<Rightarrow> [] | Some p \<Rightarrow> [p])"
      have qs: "elems (container sm1) = elems (container sm) @ map pair_of qs" "length qs \<le> 1" "ps = qs @ ps'"
        using d(2) cfg'(2) by (auto simp: qs_def pair_of_def split: option.splits)
      have n2: "length (unread fs2) < length (unread fs)" using sr l(1,4) by (cases l) auto
      have fine: "?fine \<and> never_fails m \<longrightarrow> (reads_ok fs2 \<and> length (elems (container sm1)) + length (unread fs2) < 2 ^ 50) \<and> never_fails m1"
        using sr g(3) qs(1,2) n2 by (auto simp: small_def)
      have err: "err1 = err" "\<not> f_err fs2" "stream_ok fs2" using sr by (auto simp: stream_ok_def)
      have fin: "cfg_result (ps, e) sm err m ?fine (ec', sm', err', m')"
        if "cfg_result (ps', e) sm1 err m1 (reads_ok fs2 \<and> length (elems (container sm1)) + length (unread fs2) < 2 ^ 50) (ec', sm', err', m')" for ec' sm' err' m'
        unfolding qs(3) by (rule cfg_result_step [OF that _ qs(1) fine]) (use sr in blast)
      show ?thesis
      proof (cases "f_eof fs2")
        case True
        then have pe: "ps' = []" "e = None" using err(3) cfg' by (auto simp: stream_ok_def)
        have "smap_inv sm1" using sr by blast
        then have "cfg_result (ps', e) sm1 err m1 (reads_ok fs2 \<and> length (elems (container sm1)) + length (unread fs2) < 2 ^ 50) (MIST_OK, sm1, err, m1)"
          by (rule cfg_result_stop) (use fe pe in auto)
        then show ?thesis using step None err True fin unfolding cfg by simp
      next
        case False
        have "load_loop bsize ms (of_nat n) sm err fs m = load_loop bsize ms3 (of_nat ?n) sm1 err fs2 m1" using step None err False sr by simp
        moreover have r: "returns (load_loop bsize ms3 (of_nat ?n) sm1 err fs2 m1) (\<lambda>(ec, sm', err', fs', m'). cfg_result (config ?n (file_lines (unread fs2))) sm1 err m1
            (reads_ok fs2 \<and> length (elems (container sm1)) + length (unread fs2) < 2 ^ 50) (ec, sm', err', m'))"
          by (rule less.hyps [OF n2]) (use less.prems sr n2 ll l(5) err fe in auto)
        ultimately show ?thesis unfolding cfg by (simp only:) (rule returns_mono [OF r [unfolded cfg'(1)]], simp only: split_paired_all prod.case fin)
      qed
    qed
  qed
qed

lemma file_answer_effect:
  assumes "file_answer fs = (b, fs')"
  shows "f_data fs' = f_data fs" "f_pos fs' = f_pos fs" "f_eof fs' = f_eof fs" "f_err fs' = f_err fs" "reads_ok fs \<Longrightarrow> b \<and> reads_ok fs'"
  using assms by (auto simp: file_answer_def reads_ok_def split: list.splits)

lemma file_get_size_effect:
  assumes "mist_file_get_size fs = (sz, fs')"
  shows "sz = - 1 \<or> sz = int (length (f_data fs)) \<and> f_data fs' = f_data fs \<and> f_pos fs' = f_pos fs \<and> \<not> f_eof fs' \<and> f_err fs' = f_err fs"
    "reads_ok fs \<Longrightarrow> sz \<noteq> - 1 \<and> reads_ok fs'"
proof -
  obtain b1 f1 where 1: "file_answer fs = (b1, f1)" by fastforce
  obtain b2 f2 where 2: "file_answer f1 = (b2, f2)" by fastforce
  obtain b3 f3 where 3: "file_answer (f2\<lparr>f_pos := length (f_data f1), f_eof := False\<rparr>) = (b3, f3)" by fastforce
  obtain b4 f4 where 4: "file_answer f3 = (b4, f4)" by fastforce
  note e1 = file_answer_effect [OF 1] and e2 = file_answer_effect [OF 2] and e3 = file_answer_effect [OF 3] and e4 = file_answer_effect [OF 4]
  have eq: "mist_file_get_size fs = (if \<not> b1 then (- 1, f1) else if \<not> b2 then (- 1, f2)
      else if b4 then (if b3 then int (length (f_data fs)) else - 1, f4\<lparr>f_pos := f_pos fs, f_eof := False\<rparr>) else (- 1, f4))"
    using 1 2 3 4 e1 e2 e3 by (auto simp: mist_file_get_size_def ftell_def fseek_def)
  show "sz = - 1 \<or> sz = int (length (f_data fs)) \<and> f_data fs' = f_data fs \<and> f_pos fs' = f_pos fs \<and> \<not> f_eof fs' \<and> f_err fs' = f_err fs"
    using assms e1 e2 e3 e4 unfolding eq by (auto split: if_splits)
  show "reads_ok fs \<Longrightarrow> sz \<noteq> - 1 \<and> reads_ok fs'"
    using assms e1(5) e2(5) e3(5) e4(5) unfolding eq by (auto simp: reads_ok_def split: if_splits)
qed

lemma created_length: "mist_string_create m None = Some (Some ms, m') \<Longrightarrow> length (ms_buf ms) = 16"
  by (auto simp: mist_string_create_def mist_string_create_from_range_def MIST_INIT_BUFFER_SIZE_def fresh_def write_at_def check_def Let_def split: prod.splits if_splits)

lemma reserved_length: "mist_string_reserve m ms sz = Some (MIST_OK, ms', m') \<Longrightarrow> length (ms_buf ms') \<le> max (length (ms_buf ms)) (sz + 1)"
  by (auto simp: mist_string_reserve_def fresh_def check_def Let_def split: prod.splits if_splits)

lemma load_config_file_returns:
  assumes "fopen P path s = (Some fs, s1)" "f_pos fs = 0" "\<not> f_err fs" "no_nul (f_data fs)" "length (f_data fs) + 2 < 2 ^ 31" "smap_inv sm"
  shows "returns (mist_load_config_file P s m path sm err) (\<lambda>(ec, sm', err', s', m'). s' = fclose P s1
     \<and> (ec = MIST_OPEN_FILE_FAILED \<and> \<not> reads_ok fs \<and> sm' = sm \<and> live m' = live m + err_blocks err'
        \<or> cfg_result (config 0 (file_lines (f_data fs))) sm (map_option (\<lambda>_. None) err) m (reads_ok fs \<and> length (elems (container sm)) + length (f_data fs) < 2 ^ 50) (ec, sm', err', m')))"
proof -
  obtain ps e where cfg: "config 0 (file_lines (f_data fs)) = (ps, e)" by fastforce
  define er where "er = map_option (\<lambda>_. None :: string option) err"
  have fe: "fresh_err er" by (auto simp: er_def fresh_err_def)
  let ?fine = "reads_ok fs \<and> length (elems (container sm)) + length (f_data fs) < 2 ^ 50"
  have msg: "\<exists>err' m'. mist_format_parse_error m er fmt 0 = Some (err', m') \<and> live m' = live m + err_blocks err'" if "length fmt < 1000" for m fmt
    using cfg_fail_returns [OF fe that, of MIST_OK 0 sm fs m] by (cases "mist_format_parse_error m er fmt 0") (auto simp: cfg_fail_def)
  obtain sz fs1 where sz: "mist_file_get_size fs = (sz, fs1)" by fastforce
  note sz1 = file_get_size_effect [OF sz]
  show ?thesis
  proof (cases "sz = - 1")
    case True
    obtain err' m' where "mist_format_parse_error m er errFileOpenFailed 0 = Some (err', m')" "live m' = live m + err_blocks err'" using msg [OF cfg_messages_short(7), of m] by blast
    then show ?thesis using True sz1(2) assms(1) sz by (auto simp: mist_load_config_file_def er_def [symmetric])
  next
    case False
    then have f1: "sz = int (length (f_data fs))" "unread fs1 = f_data fs" "stream_ok fs1" "reads_ok fs \<longrightarrow> reads_ok fs1"
      using sz1 assms(2-4) by (auto simp: unread_def stream_ok_def)
    define bs where "bs = sz + 2"
    obtain r m1 where r: "mist_string_create m None = Some (r, m1)" "case r of None \<Rightarrow> live m1 = live m | Some ms \<Rightarrow> holds_string ms [] \<and> ms_str ms = 0 \<and> live m1 = live m + 2"
        "never_fails m \<longrightarrow> never_fails m1 \<and> r \<noteq> None"
      using create_returns [of None m, unfolded option.case, OF no_nul_simps(1)] small_Nil unfolding returns_iff by blast
    show ?thesis
    proof (cases r)
      case None
      obtain err' m' where f: "mist_format_parse_error m1 er errNoMemory 0 = Some (err', m')" "live m' = live m1 + err_blocks err'" using msg [OF cfg_messages_short(1), of m1] by blast
      have "cfg_result (ps, e) sm er m ?fine (MIST_OUT_OF_MEMORY, sm, err', m')" by (rule cfg_result_stop [OF assms(6)]) (use None r f in auto)
      then show ?thesis using None False r(1) f assms(1) sz by (auto simp: mist_load_config_file_def er_def [symmetric] cfg)
    next
      case (Some ms)
      have h: "holds_string ms []" "live m1 = live m + 2" "length (ms_buf ms) = 16" using Some r created_length by auto
      obtain ec ms2 m2 where v: "mist_string_reserve m1 ms (nat bs) = Some (ec, ms2, m2)" "live m2 = live m1"
          "ec = MIST_OK \<and> holds_string ms2 [] \<and> nat bs < length (ms_buf ms2) \<or> ec = MIST_OUT_OF_MEMORY \<and> ms2 = ms" "never_fails m1 \<longrightarrow> never_fails m2 \<and> ec = MIST_OK"
        using reserve_returns [OF h(1), of m1 "nat bs"] f1(1) assms(5) by (auto simp: returns_iff bs_def)
      show ?thesis
      proof (cases "ec = MIST_OK")
        case oom: False
        obtain err' m' where f: "mist_format_parse_error (mist_string_destroy m2 ms2) er errNoMemory 0 = Some (err', m')" "live m' = live (mist_string_destroy m2 ms2) + err_blocks err'"
          using msg [OF cfg_messages_short(1)] by blast
        have "cfg_result (ps, e) sm er m ?fine (ec, sm, err', m')" by (rule cfg_result_stop [OF assms(6)]) (use oom Some r v f h in auto)
        then show ?thesis using Some oom False r(1) v(1) f assms(1) sz by (auto simp: mist_load_config_file_def er_def [symmetric] bs_def [symmetric] cfg)
      next
        case True
        have len: "int (length (ms_buf ms2)) \<ge> bs" "length (ms_buf ms2) < 2 ^ 40" "ms_valid ms2"
          using True v(1,3) reserved_length [of m1 ms "nat bs" ms2 m2] h(3) f1(1) assms(5) holds_string_valid by (auto simp: bs_def)
        have "returns (load_loop bs ms2 (of_nat 0) sm er fs1 m2) (\<lambda>(ec, sm', err', fs', m'). cfg_result (config 0 (file_lines (unread fs1))) sm er m2
            (reads_ok fs1 \<and> length (elems (container sm)) + length (unread fs1) < 2 ^ 50) (ec, sm', err', m'))"
          by (rule load_loop_returns) (use len f1 assms(5,6) fe length_file_lines [of "f_data fs"] in \<open>auto simp: bs_def\<close>)
        then obtain ec' sm' err' fs' m' where l: "load_loop bs ms2 0 sm er fs1 m2 = Some (ec', sm', err', fs', m')"
            "cfg_result (ps, e) sm er m2 (reads_ok fs1 \<and> length (elems (container sm)) + length (f_data fs) < 2 ^ 50) (ec', sm', err', m')"
          unfolding f1(2) cfg returns_iff of_nat_0 by auto
        have "cfg_result (ps, e) sm er m ?fine (ec', sm', err', mist_string_destroy m' ms2)"
          using l(2) h(2) v(2,4) r(3) f1(4) True unfolding cfg_result_def prod.case by auto
        then show ?thesis using Some True False r(1) v(1) l(1) assms(1) sz by (auto simp: mist_load_config_file_def er_def [symmetric] bs_def [symmetric] cfg)
      qed
    qed
  qed
qed

end
