(* ===== verification/Mist_Config_File.thy ===== *)
theory Mist_Config_File
  imports Mist_Config_Correct
begin

text \<open>
  Files: what \<open>mist_load_config_file\<close> loads is what the reference parser \<open>config\<close> reads from the lines of the file, and
  definitions that are written one per line are read back. \<open>mist_file_read_all\<close> returns the contents of a file.
\<close>

section \<open>Writing definitions\<close>

definition plain_name :: "string \<Rightarrow> bool" where
  "plain_name name \<longleftrightarrow> name \<noteq> [] \<and> hd name \<noteq> CHR ''#'' \<and> list_all (\<lambda>c. \<not> is_ws c \<and> c \<noteq> CHR ''='' \<and> c \<noteq> NUL) name"

text \<open>A value that needs no markers: one line without whitespace at its ends that does not end with a backslash.\<close>

definition plain_value :: "string \<Rightarrow> bool" where
  "plain_value v \<longleftrightarrow> trim v = v \<and> no_nul v \<and> CHR 0x0A \<notin> set v \<and> (v \<noteq> [] \<longrightarrow> last v \<noteq> CHR 0x5C)"

definition write_line :: "string \<times> string \<Rightarrow> string" where
  "write_line d = fst d @ '' = '' @ snd d @ [CHR 0x0A]"

definition write_config :: "(string \<times> string) list \<Rightarrow> string" where
  "write_config ds = concat (map write_line ds)"

lemma take_line_newline: "CHR 0x0A \<notin> set w \<Longrightarrow> length w < n \<Longrightarrow> take_line n (w @ CHR 0x0A # s) = w @ [CHR 0x0A]"
  by (induction w arbitrary: n) auto

lemma file_lines_newline:
  assumes "CHR 0x0A \<notin> set w"
  shows "file_lines (w @ CHR 0x0A # s) = (w @ [CHR 0x0A]) # file_lines s"
  using take_line_newline [OF assms, of "length (w @ CHR 0x0A # s)" s] by (subst file_lines.simps) simp

lemma trim_surrounded:
  assumes "u \<noteq> []" "\<not> is_ws (hd u)" "\<not> is_ws (last u)" "\<forall>c \<in> set r. is_ws c"
  shows "trim (u @ r) = u"
proof -
  have "dropWhile is_ws (u @ r) = u @ r" using assms(1,2) by (cases u) auto
  then show ?thesis using assms by (simp add: trim_def rtrim_snoc_ws rtrim_id)
qed

lemma write_line_kind:
  assumes "plain_name name" "plain_value v"
  shows "line_kind (trim (write_line (name, v))) = (MLT_SINGLE, name, v)"
proof -
  define rest where "rest = (if v = [] then [] else '' '' @ v)"
  let ?t = "name @ '' ='' @ rest"
  have name: "name \<noteq> []" "hd name \<noteq> CHR ''#''" "\<not> is_ws (hd name)" "\<forall>c \<in> set name. c \<notin> {CHR '' '', CHR 0x09, CHR ''=''}"
    using assms(1) by (auto simp: plain_name_def list_all_iff is_ws_def wspace_def)
  have v: "v \<noteq> [] \<Longrightarrow> \<not> is_ws (hd v) \<and> \<not> is_ws (last v)" using trim_parts [of v] assms(2) by (auto simp: plain_value_def)
  have ws: "is_ws (CHR '' '')" "is_ws (CHR 0x0A)" "\<not> is_ws (CHR ''='')" by (simp_all add: is_ws_def wspace_def)
  have "trim (write_line (name, v)) = ?t"
  proof (cases "v = []")
    case True
    then have "write_line (name, v) = (name @ '' ='') @ '' '' @ [CHR 0x0A]" by (simp add: write_line_def)
    then show ?thesis using trim_surrounded [of "name @ '' =''" "'' '' @ [CHR 0x0A]"] name ws True by (simp add: rest_def)
  next
    case False
    then have "write_line (name, v) = (name @ '' = '' @ v) @ [CHR 0x0A]" by (simp add: write_line_def)
    then show ?thesis using trim_surrounded [of "name @ '' = '' @ v" "[CHR 0x0A]"] name ws v False by (simp add: rest_def)
  qed
  moreover have tw: "takeWhile (\<lambda>c. c \<notin> {CHR '' '', CHR 0x09, CHR ''=''}) ?t = name" using name(4) by (subst takeWhile_append2) auto
  have "dropWhile is_ws (drop (length name) ?t) = CHR ''='' # rest" using ws by simp
  moreover have "take 3 (CHR ''='' # rest) \<noteq> ''=>>''" by (cases v) (auto simp: rest_def)
  moreover have "dropWhile is_ws rest = v" using v ws by (cases v) (auto simp: rest_def)
  ultimately show ?thesis using name tw unfolding line_kind_def Let_def by simp
qed

lemma config_write:
  assumes "list_all (\<lambda>(name, v). plain_name name \<and> plain_value v) ds"
  shows "config n (file_lines (write_config ds)) = (ds, None)"
  using assms
proof (induction ds arbitrary: n)
  case (Cons d ds)
  obtain name v where d: "d = (name, v)" "plain_name name" "plain_value v" using Cons.prems by (cases d) auto
  have nl: "CHR 0x0A \<notin> set (name @ '' = '' @ v)" using d(2,3) by (auto simp: plain_name_def plain_value_def list_all_iff is_ws_def wspace_def)
  have "write_config (d # ds) = (name @ '' = '' @ v) @ CHR 0x0A # write_config ds" by (simp add: write_config_def write_line_def d(1))
  then have ls: "file_lines (write_config (d # ds)) = write_line d # file_lines (write_config ds)"
    using file_lines_newline [OF nl] by (simp add: write_line_def d(1))
  have "merge_lines [] v ls = Some (v, ls)" for ls using d(3) by (cases ls) (auto simp: plain_value_def)
  then have "config_step k (write_line d) ls = Inr (Some d, ls)" for k ls
    using write_line_kind [OF d(2,3)] d(1,2) by (simp add: config_step_def define_step_def plain_name_def)
  then show ?case using ls Cons by simp
qed (simp add: write_config_def)

text \<open>A system on which every path leads to the same file.\<close>

definition text_file :: "string \<Rightarrow> CFile" where
  "text_file txt = \<lparr>f_data = txt, f_pos = 0, f_eof = False, f_err = False, f_script = []\<rparr>"

definition text_system :: "string \<Rightarrow> unit stdio" where
  "text_system txt = \<lparr>getcwd = (\<lambda>s. None), chdir = (\<lambda>p s. (False, s)), mkdir = (\<lambda>p s. (False, s)),
     fopen = (\<lambda>p s. (Some (text_file txt), s)), fclose = (\<lambda>s. s)\<rparr>"

lemma text_file_simps [simp]: "f_data (text_file txt) = txt" "f_pos (text_file txt) = 0" "\<not> f_err (text_file txt)" "reads_ok (text_file txt)"
  by (simp_all add: text_file_def reads_ok_def)

lemma text_system_fopen: "fopen (text_system txt) path s = (Some (text_file txt), s)"
  by (simp add: text_system_def)

definition sample_config :: string where
  "sample_config = ''# sample'' @ [CHR 0x0A] @ ''A = b '' @ [CHR 0x5C, CHR 0x0A] @ '' c'' @ [CHR 0x0A] @ ''M =>>'' @ [CHR 0x0A] @ ''x'' @ [CHR 0x0A] @ ''<<'' @ [CHR 0x0A] @ ''bad''"

definition no_pairs :: CStringMap where
  "no_pairs = \<lparr>container = Grar [] 16, is_sorted = False\<rparr>"

lemma no_pairs_inv: "smap_inv no_pairs" "elems (container no_pairs) = []"
  by (simp_all add: no_pairs_def smap_inv_def grar_inv_def grar_consts PTRDIFF_MAX_def)

lemma sample_config_eq: "config 0 (file_lines sample_config) = ([(''A'', ''b c''), (''M'', ''x'')], Some (No_eq 7))"
  by code_simp

lemma write_config_no_nul: "list_all (\<lambda>(name, v). plain_name name \<and> plain_value v) defs \<Longrightarrow> no_nul (write_config defs)"
proof (induction defs)
  case (Cons d defs)
  have "plain_name (fst d)" "plain_value (snd d)" using Cons.prems by (cases d, simp)+
  then have "no_nul (fst d)" "no_nul (snd d)" unfolding plain_name_def plain_value_def no_nul_def list_all_iff by blast+
  then show ?case using Cons by (simp add: write_config_def write_line_def NUL_def)
qed (simp add: write_config_def)

section \<open>Properties\<close>

text \<open>
  C20: \<open>mist_load_config_file\<close> always returns, reads every line whole without leaving its buffer, and adds to the map what the
  reference parser reads from the lines of the file: comments and blank lines skipped, values split over lines by backslashes or
  put between markers, in order, up to the first error, which it reports with its line. It closes the file. The only block it
  loses is the empty name of a definition without one. Where memory or reading fails, what was added is a beginning of that.
\<close>

theorem mist_load_config_file_correct:
  assumes "fopen P path s = (Some fs, s1)" "f_pos fs = 0" "\<not> f_err fs" "no_nul (f_data fs)" "length (f_data fs) + 2 < 2 ^ 31"
    and "smap_inv sm" "length (elems (container sm)) < 2 ^ 49" and "config 0 (file_lines (f_data fs)) = (defs, e)"
  shows "returns (mist_load_config_file P s m path sm err) (\<lambda>(ec, sm', err', s', m'). s' = fclose P s1 \<and> smap_inv sm'
     \<and> (\<exists>k. elems (container sm') = elems (container sm) @ map pair_of (take k defs))
     \<and> live m' = live m + smap_blocks sm' - smap_blocks sm + err_blocks err' + of_bool (ec = MIST_SYNTAX_ERROR \<and> pred_option is_No_name e)
     \<and> (ec = MIST_OK \<longrightarrow> e = None \<and> elems (container sm') = elems (container sm) @ map pair_of defs)
     \<and> (never_fails m \<and> reads_ok fs \<longrightarrow> elems (container sm') = elems (container sm) @ map pair_of defs \<and> (case e of
          None \<Rightarrow> ec = MIST_OK | Some e \<Rightarrow> ec = MIST_SYNTAX_ERROR \<and> err' = map_option (\<lambda>_. Some (cfg_message e)) err)))"
proof -
  have fine: "length (elems (container sm)) + length (f_data fs) < 2 ^ 50" using assms(5,7) by simp
  show ?thesis
    by (rule returns_mono [OF load_config_file_returns [OF assms(1-6), of m err, unfolded assms(8)]])
      (use fine assms(6) in \<open>auto simp: cfg_result_def option.map_comp comp_def split: option.splits intro: exI [of _ 0]\<close>)
qed

theorem mist_load_config_file_correct_witness:
  "returns (mist_load_config_file (text_system sample_config) () mem0 ''sample.cfg'' no_pairs (Some None)) (\<lambda>(ec, sm', err', s', m').
     ec = MIST_SYNTAX_ERROR \<and> elems (container sm') = map pair_of [(''A'', ''b c''), (''M'', ''x'')] \<and> err' = Some (Some (cfg_message (No_eq 7))))"
proof -
  have c: "config 0 (file_lines (f_data (text_file sample_config))) = ([(''A'', ''b c''), (''M'', ''x'')], Some (No_eq 7))" using sample_config_eq by simp
  have "no_nul (f_data (text_file sample_config))" "length (f_data (text_file sample_config)) + 2 < 2 ^ 31"
    by (simp_all add: sample_config_def no_nul_def NUL_def)
  note r = mist_load_config_file_correct [OF text_system_fopen _ _ this no_pairs_inv(1) _ c]
  show ?thesis by (rule returns_mono [OF r]) (auto simp: no_pairs_inv never_fails_def)
qed

text \<open>
  C21: definitions written one per line are read back: from a file that consists of lines \<open>name = value\<close> the loader adds exactly
  these pairs, in this order.
\<close>

theorem mist_load_config_file_roundtrip:
  assumes "list_all (\<lambda>(name, v). plain_name name \<and> plain_value v) defs" and "fopen P path s = (Some fs, s1)" "f_data fs = write_config defs"
    "f_pos fs = 0" "\<not> f_err fs" "reads_ok fs" "length (f_data fs) + 2 < 2 ^ 31" and "smap_inv sm" "length (elems (container sm)) < 2 ^ 49" "never_fails m"
  shows "returns (mist_load_config_file P s m path sm err) (\<lambda>(ec, sm', err', s', m').
     ec = MIST_OK \<and> elems (container sm') = elems (container sm) @ map pair_of defs \<and> s' = fclose P s1)"
proof -
  have nn: "no_nul (f_data fs)" unfolding assms(3) using assms(1) by (rule write_config_no_nul)
  have cfg: "config 0 (file_lines (f_data fs)) = (defs, None)" unfolding assms(3) by (rule config_write [OF assms(1)])
  have fine: "reads_ok fs \<and> length (elems (container sm)) + length (f_data fs) < 2 ^ 50" using assms(6,7,9) by simp
  note r = load_config_file_returns [OF assms(2,4,5) nn assms(7,8), of m err, unfolded cfg cfg_result_def prod.case option.case]
  show ?thesis by (rule returns_mono [OF r]) (use assms(10) fine in auto)
qed

theorem mist_load_config_file_roundtrip_witness:
  "returns (mist_load_config_file (text_system (write_config [(''CC'', ''gcc -O2''), (''OPT'', [])])) () mem0 ''sample.cfg'' no_pairs None)
     (\<lambda>(ec, sm', err', s', m'). ec = MIST_OK \<and> elems (container sm') = map pair_of [(''CC'', ''gcc -O2''), (''OPT'', [])])"
proof -
  have "list_all (\<lambda>(name, v). plain_name name \<and> plain_value v) [(''CC'', ''gcc -O2''), (''OPT'', [])]" by code_simp
  note r = mist_load_config_file_roundtrip [OF this text_system_fopen _ _ _ _ _ no_pairs_inv(1)]
  show ?thesis by (rule returns_mono [OF r]) (auto simp: no_pairs_inv never_fails_def write_config_def write_line_def)
qed

end
