(* ===== verification/Mist_Path_Correct.thy ===== *)
theory Mist_Path_Correct
  imports Mist_Path Mist_Expr
begin

text \<open>
  Paths are lists of components: \<open>mist_path_absolute\<close> resolves the components \<open>.\<close> and \<open>..\<close> the way a stack does and
  \<open>mist_path_get_last\<close> is the last component.
\<close>

section \<open>Components\<close>

fun split_on :: "'a \<Rightarrow> 'a list \<Rightarrow> 'a list list" where
  "split_on c [] = [[]]"
| "split_on c (x # s) = (if x = c then [] # split_on c s else (x # hd (split_on c s)) # tl (split_on c s))"

definition components :: "string \<Rightarrow> string list" where
  "components s = filter (\<lambda>w. w \<noteq> []) (split_on slash s)"

text \<open>A component \<open>..\<close> takes the component before it away.\<close>

definition resolve_step :: "string list \<Rightarrow> string \<Rightarrow> string list" where
  "resolve_step st c = (if c = ''.'' then st else if c = ''..'' then butlast st else st @ [c])"

definition resolve :: "string list \<Rightarrow> string list" where
  "resolve cs = foldl resolve_step [] cs"

definition path_of :: "string list \<Rightarrow> string" where
  "path_of cs = concat (map (Cons slash) cs)"

text \<open>What stands before the first separator is kept; it is the name of a drive or empty.\<close>

definition absolute_path :: "string \<Rightarrow> string" where
  "absolute_path raw = (let raw = mist_path_to_unix_slashes raw; w = takeWhile (\<lambda>c. c \<noteq> slash) raw; cs = resolve (components (dropWhile (\<lambda>c. c \<noteq> slash) raw)) in
     if slash \<notin> set raw then raw else if w = [] \<and> cs = [] then [slash] else w @ path_of cs)"

definition path_join :: "string \<Rightarrow> string \<Rightarrow> string" where
  "path_join l r = (if l = [] then r else (if last l = slash then butlast l else l) @ slash # r)"

lemma split_on_not_Nil [simp]: "split_on c s \<noteq> []"
  by (cases s) auto

lemma split_on_append: "c \<notin> set w \<Longrightarrow> split_on c (w @ c # s) = w # split_on c s"
  by (induction w) auto

lemma split_on_single: "c \<notin> set w \<Longrightarrow> split_on c w = [w]"
  by (induction w) auto

lemma components_Nil [simp]: "components [] = []"
  by (simp add: components_def)

lemma components_slash [simp]: "components (slash # s) = components s"
  by (simp add: components_def)

lemma components_dropWhile [simp]: "components (dropWhile (\<lambda>c. c = slash) s) = components s"
  by (induction s) auto

lemma components_word:
  assumes "s \<noteq> []" "hd s \<noteq> slash"
  shows "components s = takeWhile (\<lambda>c. c \<noteq> slash) s # components (dropWhile (\<lambda>c. c \<noteq> slash) s)"
proof -
  define w where "w = takeWhile (\<lambda>c. c \<noteq> slash) s"
  have w: "slash \<notin> set w" "w \<noteq> []" using assms by (auto simp: w_def dest: set_takeWhileD) (cases s; simp)
  show ?thesis
  proof (cases "dropWhile (\<lambda>c. c \<noteq> slash) s")
    case Nil
    then have "s = w" unfolding w_def by (metis takeWhile_dropWhile_id append_Nil2)
    then have "components s = [w]" using w by (simp add: components_def split_on_single)
    then show ?thesis unfolding Nil w_def by simp
  next
    case (Cons x r)
    then have "x = slash" by (metis (mono_tags, lifting) hd_dropWhile list.distinct(1) list.sel(1))
    then have "s = w @ slash # r" unfolding w_def using Cons by (metis takeWhile_dropWhile_id)
    then have "components s = w # components r" using w(1,2) by (simp add: components_def split_on_append)
    then show ?thesis unfolding Cons w_def using \<open>x = slash\<close> by simp
  qed
qed

lemma components_no_slash: "w \<in> set (components s) \<Longrightarrow> slash \<notin> set w \<and> w \<noteq> []"
proof -
  have "w \<in> set (split_on slash s) \<Longrightarrow> slash \<notin> set w"
    by (induction s arbitrary: w) (auto split: if_splits dest: list.set_sel(2) [rotated])
  then show "w \<in> set (components s) \<Longrightarrow> slash \<notin> set w \<and> w \<noteq> []" by (auto simp: components_def)
qed

section \<open>Joining and splitting\<close>

lemma path_sum_returns:
  assumes "no_nul l" "no_nul r"
  shows "returns (mist_path_sum m l r) (\<lambda>(res, m'). live m' = live m + of_bool (res \<noteq> None)
     \<and> (res = None \<or> res = Some (if mist_path_is_absolute r then r else path_join l r))
     \<and> (never_fails m \<and> length l + length r < 2 ^ 50 \<longrightarrow> never_fails m' \<and> res \<noteq> None))"
proof (cases "mist_path_is_absolute r")
  case True
  obtain d m' where d: "strdup m r = (d, m')" by fastforce
  then show ?thesis using True strdup_effect [OF d] strdup_never_fails [OF _ _ d] by (auto simp: mist_path_sum_def PTRDIFF_MAX_def)
next
  case False
  let ?n = "length l + length r + 2"
  obtain b m' where b: "malloc m ?n = (b, m')" by fastforce
  have nf: "never_fails m \<and> length l + length r < 2 ^ 50 \<longrightarrow> never_fails m' \<and> b" using malloc_never_fails [OF _ _ b] by (auto simp: PTRDIFF_MAX_def)
  have r: "(if r \<noteq> [] \<and> hd r = slash then tl r else r) = r" using False by (auto simp: mist_path_is_absolute_def)
  define buf where "buf = fresh m' 0 ?n"
  have len: "length buf = ?n" by (simp add: buf_def fresh_def)
  show ?thesis
  proof (cases "l = []")
    case True
    define b0 where "b0 = fresh m' 0 (Suc (Suc (length r)))"
    have l0: "length b0 = length r + 2" by (simp add: b0_def fresh_def)
    have 1: "write_at b0 0 [NUL] = Some (NUL # drop 1 b0)" using l0 by (simp add: write_at_def)
    have 2: "write_at (NUL # drop 1 b0) 0 (r @ [NUL]) = Some (r @ NUL # drop (length r) (drop 1 b0))"
      using l0 by (simp add: write_at_def)
    have 3: "string_at (r @ NUL # drop (length r) (drop 1 b0)) 0 = Some r" using assms(2) by (auto simp: string_at_iff)
    have "mist_path_sum m l r = Some (if b then Some r else None, m')"
      using b False 1 2 3 unfolding True mist_path_sum_def Let_def r by (simp add: b0_def [symmetric])
    then show ?thesis using malloc_effect [OF b] nf True False by (auto simp: path_join_def)
  next
    case ne: False
    define l' where "l' = (if last l = slash then butlast l else l)"
    define k where "k = (if l ! (length l - 1) = slash then length l - 1 else length l)"
    have k: "k = length l'" "k \<le> length l" "take k l = l'" using ne by (auto simp: k_def l'_def last_conv_nth butlast_conv_take)
    define b1 where "b1 = l @ NUL # drop (length l + 1) buf"
    have 1: "write_at buf 0 (l @ [NUL]) = Some b1" using len by (simp add: write_at_def b1_def)
    have l1: "length b1 = ?n" "take k b1 = l'" using len k by (auto simp: b1_def)
    define b2 where "b2 = l' @ slash # drop (k + 1) b1"
    have 2: "write_at b1 k [slash] = Some b2" using l1 k by (simp add: write_at_def b2_def)
    have l2: "length b2 = ?n" "take (k + 1) b2 = l' @ [slash]" using l1 k by (auto simp: b2_def)
    have 3: "write_at b2 (k + 1) (r @ [NUL]) = Some ((l' @ [slash]) @ r @ NUL # drop (k + 1 + length r + 1) b2)"
      using l2 k by (simp add: write_at_def)
    have "no_nul l'" using assms(1) k(3) no_nul_take by metis
    then have 4: "string_at ((l' @ [slash]) @ r @ NUL # drop (k + 1 + length r + 1) b2) 0 = Some (l' @ slash # r)"
      using assms(2) by (auto simp: string_at_iff NUL_def intro!: exI [of _ "drop (k + 1 + length r + 1) b2"])
    have "mist_path_sum m l r = Some (if b then Some (l' @ slash # r) else None, m')"
      using False ne 1 2 3 4 unfolding mist_path_sum_def Let_def b prod.case r k_def [symmetric] buf_def [symmetric] by simp
    then show ?thesis using malloc_effect [OF b] nf ne False by (auto simp: path_join_def l'_def)
  qed
qed

lemma split_path_returns:
  "grar_ok comps \<Longrightarrow> pos = [] \<or> hd pos \<noteq> slash \<Longrightarrow> returns (split_path m comps pos) (\<lambda>(r, comps', m'). grar_ok comps' \<and> live m' = live m
     \<and> (r \<longrightarrow> elems comps' = elems comps @ components pos)
     \<and> (never_fails m \<and> length (elems comps) + length pos < 2 ^ 50 \<longrightarrow> r \<and> never_fails m'))"
proof (induction "length pos" arbitrary: pos comps m rule: less_induct)
  case less
  show ?case
  proof (cases "pos = []")
    case True
    then show ?thesis using less.prems by (simp add: split_path.simps)
  next
    case False
    then have hd: "hd pos \<noteq> slash" using less.prems(2) by simp
    define w where "w = takeWhile (\<lambda>c. c \<noteq> slash) pos"
    obtain r c1 m1 where a: "grar_add_element m comps w = Some (r, c1, m1)" "grar_ok c1" "live m1 = live m"
        "if r then elems c1 = elems comps @ [w] else c1 = comps" "never_fails m \<and> small (elems comps) \<longrightarrow> r \<and> never_fails m1"
      using grar_add_element_ok [OF less.prems(1), of m w] by (auto simp: returns_iff)
    have cw: "components pos = w # components (dropWhile (\<lambda>c. c \<noteq> slash) pos)" using components_word [OF False hd] by (simp add: w_def)
    show ?thesis
    proof (cases "\<not> r \<or> strchr pos slash = None")
      case True
      have c: "components pos = [w]" if n: "strchr pos slash = None"
      proof -
        have d: "dropWhile (\<lambda>c. c \<noteq> slash) pos = []" using n by (auto simp: strchr_None dropWhile_eq_Nil_conv)
        show ?thesis using cw unfolding d by simp
      qed
      have "split_path m comps pos = Some (r, c1, m1)" using True False a(1) by (subst split_path.simps) (auto simp: w_def [symmetric])
      then show ?thesis using True a c by (auto simp: small_def)
    next
      case ok: False
      then obtain k where k: "strchr pos slash = Some k" "r" by auto
      have kw: "k = length w" "drop (k + 1) pos = tl (dropWhile (\<lambda>c. c \<noteq> slash) pos)" "w \<noteq> []" "k < length pos"
      proof -
        obtain u v where uv: "pos = u @ slash # v" "length u = k" "\<not> occurs [slash] (butlast (u @ [slash]))"
          using k(1) unfolding strchr_def by (subst (asm) strstr_Some_iff) auto
        then have u: "slash \<notin> set u" by (auto simp: occurs_def in_set_conv_decomp)
        have "takeWhile (\<lambda>c. c \<noteq> slash) (u @ slash # v) = u" "dropWhile (\<lambda>c. c \<noteq> slash) (u @ slash # v) = slash # v"
          using u by (induction u) auto
        then show "k = length w" "drop (k + 1) pos = tl (dropWhile (\<lambda>c. c \<noteq> slash) pos)" "w \<noteq> []" "k < length pos"
          using uv hd by (auto simp: w_def) 
      qed
      define rest where "rest = dropWhile (\<lambda>c. c = slash) (drop (k + 1) pos)"
      have len: "length rest < length pos" using length_dropWhile_le [of "\<lambda>c. c = slash" "drop (k + 1) pos"] kw(4) by (simp add: rest_def)
      have hdr: "rest = [] \<or> hd rest \<noteq> slash" unfolding rest_def using hd_dropWhile [of "\<lambda>c. c = slash" "drop (k + 1) pos"] by auto
      have "dropWhile (\<lambda>c. c \<noteq> slash) pos \<noteq> []" "hd (dropWhile (\<lambda>c. c \<noteq> slash) pos) = slash"
        using k(1) hd_dropWhile [of "\<lambda>c. c \<noteq> slash" pos] strchr_None [of pos slash] by (auto simp: dropWhile_eq_Nil_conv)
      then have "components (dropWhile (\<lambda>c. c \<noteq> slash) pos) = components (drop (k + 1) pos)"
        unfolding kw(2) by (metis components_slash list.collapse)
      then have cr: "components pos = w # components rest" using cw by (simp add: rest_def)
      have "returns (split_path m1 c1 rest) (\<lambda>(r, comps', m'). grar_ok comps' \<and> live m' = live m \<and> (r \<longrightarrow> elems comps' = elems comps @ components pos)
          \<and> (never_fails m \<and> length (elems comps) + length pos < 2 ^ 50 \<longrightarrow> r \<and> never_fails m'))"
        by (rule returns_mono [OF less.hyps [OF len a(2) hdr, of m1]]) (use a(3-5) k(2) cr len in \<open>auto simp: small_def\<close>)
      then show ?thesis using False a(1) k by (subst split_path.simps) (simp add: w_def [symmetric] rest_def)
    qed
  qed
qed

section \<open>Resolving dots\<close>

definition somes :: "'a option list \<Rightarrow> 'a list" where
  "somes xs = List.map_filter (\<lambda>x. x) xs"

lemma somes_simps [simp]: "somes [] = []" "somes (None # xs) = somes xs" "somes (Some x # xs) = x # somes xs" "somes (xs @ ys) = somes xs @ somes ys"
  "somes (map Some zs) = zs"
  by (simp_all add: somes_def List.map_filter_def comp_def)

lemma remove_before_prefix:
  "\<exists>pre'. remove_before (length pre) (pre @ ys) = pre' @ ys \<and> length pre' = length pre \<and> somes pre' = butlast (somes pre)"
proof (induction pre arbitrary: ys rule: rev_induct)
  case Nil
  then show ?case by simp
next
  case (snoc x pre)
  show ?case
  proof (cases x)
    case None
    obtain pre' where "remove_before (length pre) (pre @ x # ys) = pre' @ x # ys" "length pre' = length pre" "somes pre' = butlast (somes pre)"
      using snoc [of "x # ys"] by auto
    then show ?thesis using None by (intro exI [of _ "pre' @ [x]"]) (simp add: nth_append)
  next
    case (Some c)
    then show ?thesis by (intro exI [of _ "pre @ [None]"]) (simp add: nth_append list_update_append)
  qed
qed

lemma remove_dots_resolve:
  "\<exists>cs'. remove_dots (length pre) (pre @ map Some cs) = Some cs' \<and> somes cs' = foldl resolve_step (somes pre) cs"
proof (induction cs arbitrary: pre)
  case Nil
  then show ?case by (simp add: remove_dots.simps)
next
  case (Cons c cs)
  have step: "remove_dots (length pre) (pre @ map Some (c # cs)) =
      (if c = ''.'' then remove_dots (length (pre @ [None])) ((pre @ [None]) @ map Some cs)
       else if c = ''..'' then remove_dots (Suc (length pre)) (remove_before (length pre) (pre @ None # map Some cs))
       else remove_dots (length (pre @ [Some c])) ((pre @ [Some c]) @ map Some cs))"
    by (subst remove_dots.simps) (simp add: nth_append list_update_append)
  consider (dot) "c = ''.''" | (up) "c = ''..''" | (name) "c \<noteq> ''.''" "c \<noteq> ''..''" by blast
  then show ?case
  proof cases
    case dot
    then show ?thesis using step Cons.IH [of "pre @ [None]"] by (simp add: resolve_step_def)
  next
    case up
    obtain pre' where p: "remove_before (length pre) (pre @ None # map Some cs) = pre' @ None # map Some cs" "length pre' = length pre" "somes pre' = butlast (somes pre)"
      using remove_before_prefix [of pre "None # map Some cs"] by auto
    then show ?thesis using step up Cons.IH [of "pre' @ [None]"] by (simp add: resolve_step_def)
  next
    case name
    then show ?thesis using step Cons.IH [of "pre @ [Some c]"] by (simp add: resolve_step_def)
  qed
qed

lemma emit_components_filled:
  "filled d out n \<Longrightarrow> length out + length (path_of (somes cs)) \<le> n \<Longrightarrow> \<forall>c \<in> set (somes cs). no_nul c
     \<Longrightarrow> returns (emit_components d cs) (\<lambda>d'. filled d' (out @ path_of (somes cs)) n)"
proof (induction d cs arbitrary: out rule: emit_components.induct)
  case (3 d c cs)
  obtain d1 where d1: "emit d [slash] = Some d1" "filled d1 (out @ [slash]) n"
    using emit_filled [OF "3.prems"(1), of "[slash]"] "3.prems"(2) by (auto simp: returns_iff path_of_def)
  have c: "strncpy_bytes c (length c) = c" using "3.prems"(3) by (simp add: strncpy_bytes_exact)
  obtain d2 where d2: "emit d1 (strncpy_bytes c (length c)) = Some d2" "filled d2 (out @ slash # c) n"
    using emit_filled [OF d1(2), of c] "3.prems"(2) unfolding c by (auto simp: returns_iff path_of_def)
  show ?case using "3.IH" [OF d1(1) d2(1) d2(2)] d1 d2 "3.prems"(2,3) by (simp add: path_of_def)
qed (simp_all add: path_of_def)

section \<open>Sizes\<close>

lemma path_of_append [simp]: "path_of (xs @ ys) = path_of xs @ path_of ys" "path_of [] = []" "path_of (c # cs) = slash # c @ path_of cs"
  by (simp_all add: path_of_def)

lemma path_of_butlast: "length (path_of (butlast cs)) \<le> length (path_of cs)"
  by (induction cs) auto

lemma resolve_length: "length (path_of (foldl resolve_step st cs)) \<le> length (path_of st) + length (path_of cs)"
proof (induction cs arbitrary: st)
  case (Cons c cs)
  have "length (path_of (resolve_step st c)) \<le> length (path_of st) + Suc (length c)"
    using path_of_butlast [of st] by (auto simp: resolve_step_def intro: le_trans)
  then show ?case using Cons.IH [of "resolve_step st c"] by simp
qed simp

lemma components_length: "length (path_of (components s)) \<le> Suc (length s)" "length (path_of (components (slash # s))) \<le> length (slash # s)"
proof -
  have "length (path_of (filter (\<lambda>w. w \<noteq> []) ws)) \<le> length (path_of ws)" for ws by (induction ws) auto
  moreover have "length (path_of (split_on slash s)) = Suc (length s)"
  proof (induction s)
    case (Cons x s)
    then show ?case by (cases "split_on slash s") auto
  qed simp
  ultimately show "length (path_of (components s)) \<le> Suc (length s)" "length (path_of (components (slash # s))) \<le> length (slash # s)"
    unfolding components_def by (metis, simp) (metis)
qed

lemma resolve_set: "set (foldl resolve_step st cs) \<subseteq> set st \<union> set cs"
proof (induction cs arbitrary: st)
  case (Cons c cs)
  have "set (resolve_step st c) \<subseteq> set st \<union> {c}" by (auto simp: resolve_step_def dest: in_set_butlastD)
  then show ?case using Cons.IH [of "resolve_step st c"] by auto
qed simp

lemma components_chars: "w \<in> set (components s) \<Longrightarrow> set w \<subseteq> set s"
proof -
  have "w \<in> set (split_on slash s) \<Longrightarrow> set w \<subseteq> set s"
  proof (induction s arbitrary: w)
    case (Cons x s)
    then show ?case by (cases "split_on slash s") (fastforce split: if_splits)+
  qed simp
  then show "w \<in> set (components s) \<Longrightarrow> set w \<subseteq> set s" by (auto simp: components_def)
qed

section \<open>Absolute paths\<close>

lemma unix_slashes_simps [simp]:
  "length (mist_path_to_unix_slashes s) = length s" "no_nul s \<Longrightarrow> no_nul (mist_path_to_unix_slashes s)" "mist_path_to_unix_slashes [] = []"
  by (auto simp: mist_path_to_unix_slashes_def no_nul_def NUL_def)

definition raw_result :: "string \<Rightarrow> mem \<Rightarrow> string option \<times> mem \<Rightarrow> bool" where
  "raw_result raw m res \<longleftrightarrow> (case res of (r, m') \<Rightarrow> live m' = live m + of_bool (r \<noteq> None) \<and> (r = None \<or> r = Some raw)
     \<and> (never_fails m \<and> small raw \<longrightarrow> never_fails m' \<and> r \<noteq> None))"

text \<open>From the string \<open>raw\<close> on.\<close>

definition absolute_from :: "mem \<Rightarrow> string \<Rightarrow> (string option \<times> mem) option" where
  "absolute_from m raw = (case malloc m (length raw + 1) of (b, m) \<Rightarrow>
     if \<not> b then Some (None, free m)
     else do {
       let res = fresh m 0 (length raw + 1);
       let raw = mist_path_to_unix_slashes raw;
       (case strchr raw slash of
          None \<Rightarrow> do { res \<leftarrow> write_at res 0 (raw @ [NUL]); r \<leftarrow> string_at res 0; Some (Some r, free m) }
        | Some k \<Rightarrow> (case grar_create m of
            (None, m) \<Rightarrow> Some (None, free (free m))
          | (Some comps, m) \<Rightarrow> do {
              d \<leftarrow> emit (res, 0) (strncpy_bytes raw k);
              (r, comps, m) \<leftarrow> split_path m comps (dropWhile (\<lambda>c. c = slash) (drop k raw));
              if \<not> r then Some (None, free (free (snd (grar_destroy m comps))))
              else do {
                cs \<leftarrow> remove_dots 0 (map Some (elems comps));
                (res, cur) \<leftarrow> emit_components d cs;
                (res, cur) \<leftarrow> (if cur = 0 then emit (res, cur) [slash] else Some (res, cur));
                res \<leftarrow> write_at res cur [NUL];
                r \<leftarrow> string_at res 0;
                Some (Some r, free (snd (grar_destroy m comps)))
              }
            }))
     })"

lemma strchr_split:
  assumes "strchr s c = Some k"
  shows "s = take k s @ c # drop (Suc k) s" "takeWhile (\<lambda>x. x \<noteq> c) s = take k s" "dropWhile (\<lambda>x. x \<noteq> c) s = drop k s" "k < length s"
proof -
  obtain u v where uv: "s = u @ c # v" "length u = k" "\<not> occurs [c] (butlast (u @ [c]))"
    using assms unfolding strchr_def by (subst (asm) strstr_Some_iff) auto
  then have u: "c \<notin> set u" by (auto simp: occurs_def in_set_conv_decomp)
  have "takeWhile (\<lambda>x. x \<noteq> c) (u @ c # v) = u" "dropWhile (\<lambda>x. x \<noteq> c) (u @ c # v) = c # v" using u by (induction u) auto
  then show "s = take k s @ c # drop (Suc k) s" "takeWhile (\<lambda>x. x \<noteq> c) s = take k s" "dropWhile (\<lambda>x. x \<noteq> c) s = drop k s" "k < length s"
    using uv by auto
qed

lemma emit_path:
  assumes nn: "no_nul raw" and k: "strchr raw slash = Some k" and cs: "remove_dots 0 (map Some (components (drop k raw))) = Some cs"
    and buf: "length res = length raw + 1"
  shows "returns (do { d \<leftarrow> emit (res, 0) (strncpy_bytes raw k); (res, cur) \<leftarrow> emit_components d cs;
      (res, cur) \<leftarrow> (if cur = 0 then emit (res, cur) [slash] else Some (res, cur)); res \<leftarrow> write_at res cur [NUL]; string_at res 0 })
    (\<lambda>r. r = (let c = resolve (components (drop k raw)) in if take k raw = [] \<and> c = [] then [slash] else take k raw @ path_of c))"
proof -
  note sp = strchr_split [OF k]
  let ?n = "length raw + 1" and ?w = "take k raw" and ?c = "resolve (components (drop k raw))"
  have c: "somes cs = ?c" using remove_dots_resolve [of "[]" "components (drop k raw)"] cs by (auto simp: resolve_def)
  have w: "strncpy_bytes raw k = ?w" "no_nul ?w" using nn sp(4) by (simp_all add: strncpy_bytes_exact)
  have dk: "drop k raw = slash # drop (Suc k) raw" using sp(4) sp(1) by (metis Cons_nth_drop_Suc append_take_drop_id nth_append_length_plus nth_via_drop same_append_eq)
  have len: "length (path_of ?c) \<le> length (drop k raw)"
    using resolve_length [of "[]" "components (drop k raw)"] components_length(2) [of "drop (Suc k) raw"] unfolding dk resolve_def by simp
  have cn: "no_nul w" if "w \<in> set ?c" for w
  proof -
    have "w \<in> set (components (drop k raw))" using that resolve_set [of "[]" "components (drop k raw)"] by (auto simp: resolve_def)
    then have "set w \<subseteq> set raw" using components_chars [of w "drop k raw"] set_drop_subset [of k raw] by blast
    then show ?thesis using nn by (auto simp: no_nul_def)
  qed
  have pn: "no_nul (path_of ?c)" using cn by (induction ?c) (auto simp: path_of_def no_nul_def NUL_def)
  have "filled (res, 0) [] ?n" using buf by (simp add: filled_def)
  then obtain d where d: "emit (res, 0) ?w = Some d" "filled d ?w ?n" using emit_filled [of "(res, 0)" "[]" ?n ?w] sp(4) by (auto simp: returns_iff)
  have room: "length ?w + length (path_of (somes cs)) \<le> ?n" using len sp(4) unfolding c by simp
  have "\<forall>w \<in> set (somes cs). no_nul w" using cn unfolding c by blast
  from emit_components_filled [OF d(2) room this]
  obtain res2 cur where e: "emit_components d cs = Some (res2, cur)" "filled (res2, cur) (?w @ path_of ?c) ?n"
    unfolding c by (auto simp: returns_iff)
  define out where "out = (if ?w = [] \<and> ?c = [] then [slash] else ?w @ path_of ?c)"
  have cur: "cur = 0 \<longleftrightarrow> ?w = [] \<and> ?c = []" using e(2) by (cases ?c) (auto simp: filled_def)
  obtain res3 cur3 where f: "(if cur = 0 then emit (res2, cur) [slash] else Some (res2, cur)) = Some (res3, cur3)" "filled (res3, cur3) out ?n"
  proof (cases "cur = 0")
    case True
    then show ?thesis using that emit_filled [OF e(2), of "[slash]"] cur sp(4) by (fastforce simp: returns_iff out_def)
  next
    case False
    then show ?thesis using that e(2) cur by (auto simp: out_def)
  qed
  have "no_nul out" "length out < ?n" using w(2) pn len sp(4) dk by (auto simp: out_def NUL_def)
  then obtain res4 where g: "write_at res3 cur3 [NUL] = Some res4" "string_at res4 0 = Some out"
    using write_at_finish [OF f(2)] by (auto simp: returns_iff)
  show ?thesis using w(1) d(1) e(1) f(1) g by (simp add: out_def Let_def)
qed

lemma absolute_path_slash:
  assumes "strchr (mist_path_to_unix_slashes raw) slash = Some k"
  shows "absolute_path raw = (let raw = mist_path_to_unix_slashes raw; c = resolve (components (drop k raw)) in
     if take k raw = [] \<and> c = [] then [slash] else take k raw @ path_of c)"
  using strchr_split [OF assms] strchr_None [of "mist_path_to_unix_slashes raw" slash] assms unfolding absolute_path_def Let_def by simp

lemma absolute_from_returns:
  assumes nn: "no_nul raw" and ne: "raw \<noteq> []"
  shows "returns (absolute_from m raw) (\<lambda>(r, m'). live m' = live m - 1 + of_bool (r \<noteq> None) \<and> (r = None \<or> r = Some (absolute_path raw))
     \<and> (never_fails m \<and> small raw \<longrightarrow> never_fails m' \<and> r \<noteq> None))"
proof -
  define u where "u = mist_path_to_unix_slashes raw"
  have u: "no_nul u" "length u = length raw" using nn by (simp_all add: u_def)
  obtain b m1 where b: "malloc m (length raw + 1) = (b, m1)" by fastforce
  have m1: "live m1 = live m + of_bool b" "never_fails m \<and> small raw \<longrightarrow> never_fails m1 \<and> b"
    using malloc_effect [OF b] malloc_never_fails [OF _ _ b] by (auto simp: small_def PTRDIFF_MAX_def)
  define res where "res = fresh m1 0 (Suc (length raw))"
  have len: "length res = length u + 1" using u by (simp add: res_def fresh_def)
  obtain ga :: "string grar option" and m2 where g: "grar_create m1 = (ga, m2)" by fastforce
  note g' = grar_create_ok [OF g]
  consider (full) "\<not> b" | (plain) "b" "strchr u slash = None" | (no_array) k where "b" "strchr u slash = Some k" "ga = None"
    | (array) k comps where "b" "strchr u slash = Some k" "ga = Some comps" by (cases "strchr u slash"; cases ga) auto
  then show ?thesis
  proof cases
    case full
    then show ?thesis using b m1 by (auto simp: absolute_from_def)
  next
    case plain
    have 1: "write_at res 0 (u @ [NUL]) = Some (u @ [NUL])" using len by (simp add: write_at_def)
    have 2: "string_at (u @ [NUL]) 0 = Some u" using u(1) by (auto simp: string_at_iff)
    have "absolute_path raw = u" using plain by (simp add: absolute_path_def u_def strchr_None)
    then have "absolute_from m raw = Some (Some (absolute_path raw), free m1)"
      using plain b 1 2 by (simp add: absolute_from_def Let_def u_def [symmetric] res_def [symmetric])
    then show ?thesis using m1 plain by simp
  next
    case no_array
    then show ?thesis using b m1 g g' by (auto simp: absolute_from_def Let_def u_def [symmetric])
  next
    case array
    let ?pos = "dropWhile (\<lambda>c. c = slash) (drop k u)"
    have ok: "grar_ok comps" "elems comps = []" using g' array by auto
    have hd: "?pos = [] \<or> hd ?pos \<noteq> slash" using hd_dropWhile [of "\<lambda>c. c = slash" "drop k u"] by auto
    have pl: "length ?pos \<le> length raw" using length_dropWhile_le [of "\<lambda>c. c = slash" "drop k u"] u(2) by simp
    obtain r c1 m3 where s: "split_path m2 comps ?pos = Some (r, c1, m3)" "grar_ok c1" "live m3 = live m2" "r \<longrightarrow> elems c1 = components (drop k u)"
        "never_fails m2 \<and> small raw \<longrightarrow> r \<and> never_fails m3"
      using split_path_returns [OF ok(1) hd, of m2] ok(2) pl unfolding returns_iff small_def by fastforce
    have gd: "grar_blocks c1 = 1" using s(2) by (simp add: grar_ok_def grar_inv_def grar_blocks_def)
    obtain cs where cs: "remove_dots 0 (map Some (components (drop k u))) = Some cs"
      using remove_dots_resolve [of "[]" "components (drop k u)"] by auto
    note e = emit_path [OF u(1) array(2) cs len]
    obtain d where d: "emit (res, 0) (strncpy_bytes u k) = Some d" using e by (cases "emit (res, 0) (strncpy_bytes u k)") auto
    have ap: "absolute_path raw = (let c = resolve (components (drop k u)) in if take k u = [] \<and> c = [] then [slash] else take k u @ path_of c)"
      using absolute_path_slash [of raw k] array(2) by (simp add: u_def Let_def)
    show ?thesis
    proof (cases r)
      case False
      then have "absolute_from m raw = Some (None, free (free (snd (grar_destroy m3 c1))))"
        using array b g d s(1) by (simp add: absolute_from_def Let_def u_def [symmetric] res_def [symmetric])
      then show ?thesis using False m1 g' array s gd by auto
    next
      case True
      have "absolute_from m raw = do {
          r \<leftarrow> do { d \<leftarrow> emit (res, 0) (strncpy_bytes u k); (res, cur) \<leftarrow> emit_components d cs;
            (res, cur) \<leftarrow> (if cur = 0 then emit (res, cur) [slash] else Some (res, cur)); res \<leftarrow> write_at res cur [NUL]; string_at res 0 };
          Some (Some r, free (snd (grar_destroy m3 c1)))}"
        using array b g d s True cs by (simp add: absolute_from_def Let_def u_def [symmetric] res_def [symmetric] case_prod_beta')
      then have "absolute_from m raw = Some (Some (absolute_path raw), free (snd (grar_destroy m3 c1)))"
        using e unfolding ap [symmetric] returns_iff by (elim exE conjE) (simp only: bind.bind_lunit)
      then show ?thesis using True m1 g' array s gd by (auto simp: never_fails_def)
    qed
  qed
qed

text \<open>The string the components are taken from.\<close>

definition raw_path :: "('s, 'x) posix_scheme \<Rightarrow> 's \<Rightarrow> string \<Rightarrow> string option" where
  "raw_path P s path = (if mist_path_is_absolute path then Some path else map_option (\<lambda>cwd. path_join cwd path) (getcwd P s))"

lemma mist_path_absolute_unfold:
  "mist_path_absolute P s m path = do {
     _ \<leftarrow> check (path \<noteq> []);
     (raw, m) \<leftarrow> (if \<not> mist_path_is_absolute path then
         (case getcwd P s of None \<Rightarrow> Some (None, m) | Some cwd \<Rightarrow> mist_path_sum m cwd path)
       else Some (strdup m path));
     (case raw of None \<Rightarrow> Some (None, m)
      | Some raw \<Rightarrow> do { _ \<leftarrow> check (raw = [] \<or> hd raw \<noteq> CHR ''.'' \<and> hd raw \<noteq> CHR '':''); absolute_from m raw })
   }"
  unfolding mist_path_absolute_def absolute_from_def ..

lemma raw_path_returns:
  assumes "no_nul path" "\<And>cwd. \<not> mist_path_is_absolute path \<Longrightarrow> getcwd P s = Some cwd \<Longrightarrow> no_nul cwd"
  shows "returns (if \<not> mist_path_is_absolute path then (case getcwd P s of None \<Rightarrow> Some (None, m) | Some cwd \<Rightarrow> mist_path_sum m cwd path)
       else Some (strdup m path))
     (\<lambda>(r, m'). live m' = live m + of_bool (r \<noteq> None) \<and> (r = None \<or> r = raw_path P s path)
       \<and> (never_fails m \<and> pred_option (\<lambda>raw. length raw < 2 ^ 49) (raw_path P s path) \<longrightarrow> never_fails m' \<and> r = raw_path P s path))"
proof (cases "mist_path_is_absolute path")
  case True
  obtain d m' where d: "strdup m path = (d, m')" by fastforce
  then show ?thesis using True strdup_effect [OF d] strdup_never_fails [OF _ _ d] by (auto simp: raw_path_def PTRDIFF_MAX_def)
next
  case rel: False
  show ?thesis
  proof (cases "getcwd P s")
    case None
    then show ?thesis using rel by (auto simp: raw_path_def)
  next
    case (Some cwd)
    have "length cwd + length path \<le> 1 + length (path_join cwd path)" by (auto simp: path_join_def)
    then show ?thesis using path_sum_returns [OF assms(2) [OF rel Some] assms(1), of m] rel Some
      by (fastforce simp: raw_path_def returns_iff)
  qed
qed

section \<open>Canonical paths\<close>

text \<open>The paths \<open>mist_path_absolute\<close> returns on a Unix system: single separators, no \<open>.\<close> and no \<open>..\<close>.\<close>

definition proper :: "string \<Rightarrow> bool" where
  "proper c \<longleftrightarrow> c \<noteq> [] \<and> no_nul c \<and> slash \<notin> set c \<and> CHR 0x5C \<notin> set c \<and> c \<noteq> ''.'' \<and> c \<noteq> ''..''"

definition canonical :: "string \<Rightarrow> bool" where
  "canonical path \<longleftrightarrow> path = [slash] \<or> (\<exists>cs. cs \<noteq> [] \<and> list_all proper cs \<and> path = path_of cs)"

lemma resolve_proper:
  "list_all proper st \<Longrightarrow> \<forall>c \<in> set cs. c \<noteq> [] \<and> no_nul c \<and> slash \<notin> set c \<and> CHR 0x5C \<notin> set c \<Longrightarrow> list_all proper (foldl resolve_step st cs)"
proof (induction cs arbitrary: st)
  case (Cons c cs)
  have "list_all proper (resolve_step st c)" using Cons.prems by (auto simp: resolve_step_def list_all_iff proper_def dest: in_set_butlastD)
  then show ?case using Cons by simp
qed simp

lemma resolve_id: "list_all proper cs \<Longrightarrow> foldl resolve_step st cs = st @ cs"
  by (induction cs arbitrary: st) (auto simp: resolve_step_def proper_def)

lemma components_path_of: "list_all proper cs \<Longrightarrow> components (path_of cs) = cs"
proof (induction cs)
  case (Cons c cs)
  show ?case
  proof (cases cs)
    case Nil
    then show ?thesis using Cons.prems by (auto simp: components_def split_on_single proper_def)
  next
    case (Cons d ds)
    then have "components (c @ path_of cs) = c # components (path_of cs)" using Cons.prems
      by (auto simp: components_def split_on_append proper_def)
    then show ?thesis using Cons.IH Cons.prems by simp
  qed
qed simp

lemma absolute_path_canonical:
  assumes "raw \<noteq> []" "hd raw = slash \<or> hd raw = CHR 0x5C" "no_nul raw"
  shows "canonical (absolute_path raw)"
proof -
  define u where "u = mist_path_to_unix_slashes raw"
  obtain v where u: "u = slash # v" using assms by (cases raw) (auto simp: u_def mist_path_to_unix_slashes_def)
  have b: "CHR 0x5C \<notin> set u" "no_nul u" using assms(3) by (auto simp: u_def) (auto simp: mist_path_to_unix_slashes_def)
  have "c \<noteq> [] \<and> no_nul c \<and> slash \<notin> set c \<and> CHR 0x5C \<notin> set c" if c: "c \<in> set (components u)" for c
    using components_no_slash [OF c] components_chars [OF c] b by (auto simp: no_nul_def)
  then have "list_all proper (resolve (components u))" unfolding resolve_def by (intro resolve_proper) auto
  moreover have "absolute_path raw = (if resolve (components u) = [] then [slash] else path_of (resolve (components u)))"
    using u unfolding absolute_path_def u_def [symmetric] Let_def by simp
  ultimately show ?thesis by (auto simp: canonical_def)
qed

lemma absolute_path_id:
  assumes "canonical path"
  shows "absolute_path path = path"
  using assms unfolding canonical_def
proof (elim disjE exE conjE)
  fix cs assume cs: "cs \<noteq> []" "list_all proper cs" "path = path_of cs"
  then obtain v where v: "path = slash # v" by (cases cs) auto
  have "CHR 0x5C \<notin> set path" using cs(2,3) by (auto simp: path_of_def list_all_iff proper_def)
  then have u: "mist_path_to_unix_slashes path = path" by (auto simp: mist_path_to_unix_slashes_def intro: map_idI)
  have "resolve (components path) = cs" using cs resolve_id [of cs "[]"] by (simp add: components_path_of resolve_def)
  then show ?thesis using v cs unfolding absolute_path_def u Let_def by simp
qed (simp add: absolute_path_def mist_path_to_unix_slashes_def resolve_def)

lemma mist_path_absolute_returns:
  assumes "path \<noteq> []" "no_nul path" "\<And>cwd. \<not> mist_path_is_absolute path \<Longrightarrow> getcwd P s = Some cwd \<Longrightarrow> no_nul cwd"
    "\<And>raw. raw_path P s path = Some raw \<Longrightarrow> raw \<noteq> [] \<and> hd raw \<noteq> CHR ''.'' \<and> hd raw \<noteq> CHR '':''"
  shows "returns (mist_path_absolute P s m path) (\<lambda>(r, m'). live m' = live m + of_bool (r \<noteq> None)
     \<and> (r = None \<or> r = map_option absolute_path (raw_path P s path))
     \<and> (never_fails m \<and> pred_option (\<lambda>raw. length raw < 2 ^ 49) (raw_path P s path)
          \<longrightarrow> never_fails m' \<and> r = map_option absolute_path (raw_path P s path)))"
proof -
  obtain r m1 where r: "(if \<not> mist_path_is_absolute path then (case getcwd P s of None \<Rightarrow> Some (None, m) | Some cwd \<Rightarrow> mist_path_sum m cwd path)
       else Some (strdup m path)) = Some (r, m1)" "live m1 = live m + of_bool (r \<noteq> None)" "r = None \<or> r = raw_path P s path"
      "never_fails m \<and> pred_option (\<lambda>raw. length raw < 2 ^ 49) (raw_path P s path) \<longrightarrow> never_fails m1 \<and> r = raw_path P s path"
    using raw_path_returns [of path P s m] assms(2,3) unfolding returns_iff by blast
  have eq: "mist_path_absolute P s m path = (case r of None \<Rightarrow> Some (None, m1)
      | Some raw \<Rightarrow> do { _ \<leftarrow> check (raw = [] \<or> hd raw \<noteq> CHR ''.'' \<and> hd raw \<noteq> CHR '':''); absolute_from m1 raw })"
    using r(1) assms(1) unfolding mist_path_absolute_unfold by simp
  show ?thesis
  proof (cases r)
    case None
    then show ?thesis using eq r by auto
  next
    case (Some raw)
    then have rp: "raw_path P s path = Some raw" using r(3) by simp
    have "no_nul raw" using rp assms(2,3) by (auto simp: raw_path_def path_join_def no_nul_def NUL_def split: if_splits dest!: in_set_butlastD)
    then show ?thesis using eq assms(4) [OF rp] Some r rp absolute_from_returns [of raw m1]
      by (auto simp: returns_iff small_def)
  qed
qed

lemma path_absolute_returns:
  assumes "path \<noteq> []" "no_nul path" "CHR '':'' \<notin> set path" "hd path \<noteq> CHR ''~''" "getcwd P s = Some cwd" "no_nul cwd" "cwd \<noteq> []" "hd cwd = slash"
  shows "returns (mist_path_absolute P s m path) (\<lambda>(r, m'). live m' = live m + of_bool (r \<noteq> None)
     \<and> (\<forall>p. r = Some p \<longrightarrow> p = absolute_path (if mist_path_is_absolute path then path else path_join cwd path) \<and> canonical p \<and> absolute_path p = p)
     \<and> (never_fails m \<and> length cwd + length path < 2 ^ 48 \<longrightarrow> never_fails m' \<and> r \<noteq> None))"
proof -
  define raw where "raw = (if mist_path_is_absolute path then path else path_join cwd path)"
  have rp: "raw_path P s path = Some raw" using assms(5) by (simp add: raw_path_def raw_def)
  have raw: "raw \<noteq> []" "hd raw = slash \<or> hd raw = CHR 0x5C" "length raw \<le> length cwd + length path + 1"
    using assms(1,3,4,7,8) by (cases cwd; auto simp: raw_def path_join_def mist_path_is_absolute_def strchr_None)+
  have nn: "no_nul raw" using assms(2,6) by (auto simp: raw_def path_join_def no_nul_def NUL_def dest!: in_set_butlastD)
  show ?thesis
    by (rule returns_mono [OF mist_path_absolute_returns [OF assms(1,2), of P s m]])
      (use rp raw assms(5,6) absolute_path_canonical [OF raw(1,2) nn] absolute_path_id [of "absolute_path raw"] in \<open>auto simp: raw_def [symmetric]\<close>)
qed

section \<open>The last component\<close>

lemma split_on_mid: "split_on c (a @ c # b) = split_on c a @ split_on c b"
  by (induction a) auto

lemma components_mid: "components (a @ slash # b) = components a @ components b"
  by (simp add: components_def split_on_mid)

lemma components_replicate [simp]: "components (replicate n slash) = []"
  by (induction n) simp_all

lemma components_slashes [simp]: "components (a @ replicate n slash) = components a"
  by (cases n) (simp_all add: components_mid)

lemma skip_slashes_back_body:
  assumes "body \<noteq> []" "last body \<noteq> slash"
  shows "i \<le> n \<Longrightarrow> skip_slashes_back (body @ replicate n slash) (length body - 1 + i) = Some (length body - 1)"
proof (induction i)
  case 0
  have "(body @ replicate n slash) ! (length body - 1) \<noteq> slash" using assms by (simp add: nth_append last_conv_nth)
  then show ?case by (cases "length body - 1") auto
next
  case (Suc i)
  have "(body @ replicate n slash) ! Suc (length body - 1 + i) = slash" using assms(1) Suc.prems by (cases body) (auto simp: nth_append)
  then show ?case using Suc by simp
qed

lemma component_start_body:
  assumes "pre = [] \<or> last pre = slash" "slash \<notin> set c"
  shows "i < length c \<Longrightarrow> component_start (pre @ c @ t) (length pre + i) = length pre"
proof (induction i)
  case 0
  have c: "(pre @ c @ t) ! length pre \<noteq> slash" using assms(2) 0 by (cases c) auto
  show ?case
  proof (cases "length pre")
    case 0
    then show ?thesis using c by simp
  next
    case (Suc k)
    then have "(pre @ c @ t) ! k = slash" using assms(1) last_conv_nth [of pre] by (cases "pre = []") (auto simp: nth_append)
    then have "component_start (pre @ c @ t) k = Suc k" by (cases k) auto
    then show ?thesis using c Suc by simp
  qed
next
  case (Suc i)
  have "(pre @ c @ t) ! (length pre + Suc i) \<noteq> slash" using assms(2) Suc.prems nth_mem [of "Suc i" c] by (auto simp: nth_append simp del: nth_mem)
  then show ?case using Suc by simp
qed

lemma path_parts:
  assumes "\<exists>c \<in> set path. c \<noteq> slash"
  obtains pre c n where "path = pre @ c @ replicate n slash" "pre = [] \<or> last pre = slash" "slash \<notin> set c" "c \<noteq> []"
proof -
  define body where "body = rev (dropWhile (\<lambda>c. c = slash) (rev path))"
  define n where "n = length (takeWhile (\<lambda>c. c = slash) (rev path))"
  have ne: "dropWhile (\<lambda>c. c = slash) (rev path) \<noteq> []" using assms by (auto simp: dropWhile_eq_Nil_conv)
  have "takeWhile (\<lambda>c. c = slash) (rev path) = replicate n slash" unfolding n_def
    by (rule replicate_length_same [symmetric]) (auto dest: set_takeWhileD)
  then have path: "path = body @ replicate n slash" unfolding body_def by (metis rev_append rev_replicate rev_rev_ident takeWhile_dropWhile_id)
  define c where "c = rev (takeWhile (\<lambda>c. c \<noteq> slash) (rev body))"
  define pre where "pre = rev (dropWhile (\<lambda>c. c \<noteq> slash) (rev body))"
  have body: "body = pre @ c" unfolding pre_def c_def by (metis rev_append rev_rev_ident takeWhile_dropWhile_id)
  have "hd (rev body) \<noteq> slash" "rev body \<noteq> []" using ne hd_dropWhile [OF ne] by (simp_all add: body_def)
  then have "c \<noteq> []" unfolding c_def by (cases "rev body") auto
  moreover have "slash \<notin> set c" by (auto simp: c_def dest: set_takeWhileD)
  moreover have "pre = [] \<or> last pre = slash" using hd_dropWhile [of "\<lambda>c. c \<noteq> slash" "rev body"] by (auto simp: pre_def last_rev)
  ultimately show ?thesis using that path body by simp
qed

text \<open>
  \<open>mist_path_get_last\<close> returns the last component of the path, trailing separators ignored, in a new block of memory.
\<close>

lemma mist_path_get_last_correct:
  assumes "no_nul path" "\<exists>c \<in> set path. c \<noteq> slash"
  shows "returns (mist_path_get_last m path) (\<lambda>(r, m'). live m' = live m + of_bool (r \<noteq> None) \<and> (r = None \<or> r = Some (last (components path)))
     \<and> (never_fails m \<and> small path \<longrightarrow> never_fails m' \<and> r \<noteq> None))"
proof -
  obtain pre c n where p: "path = pre @ c @ replicate n slash" "pre = [] \<or> last pre = slash" "slash \<notin> set c" "c \<noteq> []"
    using path_parts [OF assms(2)] .
  have e: "skip_slashes_back path (length path - 1) = Some (length pre + length c - 1)"
  proof -
    have "last c \<noteq> slash" using p(3,4) last_in_set by metis
    moreover have "length path - 1 = length (pre @ c) - 1 + n" using p(1,4) by (cases c) auto
    ultimately show ?thesis using skip_slashes_back_body [of "pre @ c" n n] p(1,4) by simp
  qed
  have b: "component_start path (length pre + length c - 1) = length pre"
    using component_start_body [OF p(2,3), of "length c - 1" "replicate n slash"] p(1,4) by (cases c) auto
  have cc: "components c = [c]" using p by (simp add: components_def split_on_single)
  have "components path = components pre @ [c]"
  proof (cases "pre = []")
    case True
    then show ?thesis using p(1) cc by simp
  next
    case False
    then obtain q where "pre = q @ [slash]" using p(2) by (metis append_butlast_last_id)
    then show ?thesis using cc p(1) components_mid [of q "c @ replicate n slash"] components_mid [of q "[]"] by simp
  qed
  then have last: "last (components path) = c" by simp
  let ?n = "length c + 1 + length ''.cfg''"
  obtain ok m1 where a: "malloc m ?n = (ok, m1)" by fastforce
  have m1: "live m1 = live m + of_bool ok" "never_fails m \<and> small path \<longrightarrow> never_fails m1 \<and> ok"
    using malloc_effect [OF a] malloc_never_fails [OF _ _ a] p(1) by (auto simp: small_def PTRDIFF_MAX_def)
  define buf where "buf = fresh m1 0 ?n"
  have len: "length buf = ?n" by (simp add: buf_def fresh_def)
  have nn: "no_nul c" using assms(1) p(1) by simp
  have cp: "strncpy_bytes (drop (length pre) path) (length c) = c" using nn p(1) by (simp add: strncpy_bytes_def)
  have 1: "write_at buf 0 c = Some (c @ drop (length c) buf)" using len by (simp add: write_at_def)
  have 2: "write_at (c @ drop (length c) buf) (length c) [NUL] = Some (c @ NUL # drop (length c + 1) buf)" using len by (simp add: write_at_def)
  have 3: "string_at (c @ NUL # drop (length c + 1) buf) 0 = Some c" using nn by (auto simp: string_at_iff)
  obtain en where en: "skip_slashes_back path (length path - 1) = Some en" "component_start path en = length pre" "en + 1 - length pre = length c"
    using e b p(4) by (cases c) auto
  have "path \<noteq> []" using p(1,4) by simp
  then have "mist_path_get_last m path = Some (if ok then Some c else None, m1)"
    by (simp only: mist_path_get_last_def check_def if_True simp_thms en Let_def bind.bind_lunit cp a prod.case buf_def [symmetric] 1 2 3 split: if_split) simp
  then show ?thesis using m1 last by auto
qed

lemma canonical_no_nul: "canonical path \<Longrightarrow> no_nul path"
proof -
  have "list_all proper cs \<Longrightarrow> no_nul (path_of cs)" for cs by (induction cs) (auto simp: proper_def NUL_def)
  then show "canonical path \<Longrightarrow> no_nul path" by (auto simp: canonical_def NUL_def)
qed

end
