(* ===== verification/Mist_Dirs.thy ===== *)
theory Mist_Dirs
  imports Mist_Path_Correct
begin

text \<open>
  Directories: \<open>mist_dir_exists\<close> asks the operating system and comes back to the current directory, \<open>mist_create_path\<close>
  leaves every directory on the way to the path behind. The locale \<open>posix_dirs\<close> states what POSIX promises of \<open>getcwd\<close>,
  \<open>chdir\<close> and \<open>mkdir\<close> on canonical paths, \<open>posix_writable\<close> that a directory may be made where its parent is one; a
  small file system is an instance of both.
\<close>

section \<open>What POSIX promises\<close>

definition dir_path :: "string list \<Rightarrow> string" where
  "dir_path cs = (if cs = [] then [slash] else path_of cs)"

text \<open>The directories on the way from \<open>pre\<close> down to a path.\<close>

fun dirs_to :: "string list \<Rightarrow> string list \<Rightarrow> string list" where
  "dirs_to pre [] = []"
| "dirs_to pre (c # cs) = path_of (pre @ [c]) # dirs_to (pre @ [c]) cs"

lemma canonical_dir_path: "list_all proper cs \<Longrightarrow> canonical (dir_path cs)"
  by (auto simp: canonical_def dir_path_def)

lemma canonical_not_Nil: "canonical p \<Longrightarrow> p \<noteq> []"
  by (auto simp: canonical_def path_of_def)

lemma strchr_app: "c \<notin> set w \<Longrightarrow> strchr (w @ c # v) c = Some (length w)"
  by (induction w) (auto simp: strchr_def)

lemma next_slash:
  assumes "proper c" "length (path_of pre) \<le> pos" "pos \<le> length (path_of pre) + length c"
  shows "strstr_from (path_of (pre @ c # post)) (pos + 1) [slash] = (if post = [] then None else Some (length (path_of (pre @ [c]))))"
proof -
  obtain j where j: "pos = length (path_of pre) + j" "j \<le> length c" using assms(2,3) by (metis add_le_cancel_left le_Suc_ex)
  have d: "drop (pos + 1) (path_of (pre @ c # post)) = drop j c @ path_of post" using j by simp
  have sl: "slash \<notin> set (drop j c)" using assms(1) by (auto simp: proper_def dest: in_set_dropD)
  show ?thesis
  proof (cases post)
    case Nil
    then show ?thesis using sl d strchr_None [of "drop j c" slash] by (simp add: strstr_from_def strchr_def [symmetric] del: drop_append)
  next
    case (Cons x xs)
    then show ?thesis using d j strchr_app [OF sl] by (simp add: strstr_from_def strchr_def [symmetric] del: drop_append)
  qed
qed

lemma last_dir_to: "cs \<noteq> [] \<Longrightarrow> path_of (pre @ cs) \<in> set (dirs_to pre cs)"
proof (induction cs arbitrary: pre)
  case (Cons c cs)
  then show ?case using Cons.IH [of "pre @ [c]"] by (cases "cs = []") simp_all
qed simp

lemma strrchr_none: "c \<notin> set s \<Longrightarrow> strrchr s c = None"
  by (induction s) auto

lemma strrchr_last: "c \<notin> set v \<Longrightarrow> strrchr (w @ c # v) c = Some (length w)"
  by (induction w) (simp_all add: strrchr_none)

locale posix_dirs =
  fixes P :: "('s, 'x) posix_scheme" and is_dir :: "'s \<Rightarrow> string \<Rightarrow> bool" and cwd :: "'s \<Rightarrow> string" and ok :: "'s \<Rightarrow> bool"
  assumes root: "ok s \<Longrightarrow> is_dir s [slash]"
    and getcwd: "ok s \<Longrightarrow> getcwd P s = Some (cwd s)"
    and cwd: "ok s \<Longrightarrow> canonical (cwd s) \<and> is_dir s (cwd s)"
    and chdir: "ok s \<Longrightarrow> canonical p \<Longrightarrow> chdir P p s = (b, s')
      \<Longrightarrow> b = is_dir s p \<and> ok s' \<and> is_dir s' = is_dir s \<and> cwd s' = (if b then p else cwd s)"
    and mkdir: "ok s \<Longrightarrow> canonical p \<Longrightarrow> mkdir P p s = (b, s')
      \<Longrightarrow> ok s' \<and> cwd s' = cwd s \<and> is_dir s' = (if b then (is_dir s)(p := True) else is_dir s)"
begin

text \<open>Asking does not change anything.\<close>

lemma dir_exists:
  assumes "ok s" "canonical p"
  shows "returns (mist_dir_exists P s p) (\<lambda>(r, s'). r = is_dir s p \<and> ok s' \<and> is_dir s' = is_dir s \<and> cwd s' = cwd s)"
proof -
  obtain b s1 where 1: "chdir P p s = (b, s1)" by fastforce
  obtain c s2 where 2: "chdir P (cwd s) s1 = (c, s2)" by fastforce
  have "p \<noteq> []" using canonical_not_Nil [OF assms(2)] .
  then show ?thesis using chdir [OF assms 1] chdir [OF _ _ 2] getcwd [OF assms(1)] cwd [OF assms(1)] 1 2 by (auto simp: mist_dir_exists_def check_def)
qed

definition grown :: "'s \<Rightarrow> string set \<Rightarrow> 's \<Rightarrow> bool" where
  "grown s D s' \<longleftrightarrow> ok s' \<and> cwd s' = cwd s \<and> is_dir s' = (\<lambda>p. is_dir s p \<or> p \<in> D)"

lemma ensure_dir:
  assumes "ok s" "canonical p"
  shows "returns (do {
       (r, s) \<leftarrow> mist_dir_exists P s p;
       if \<not> r then do { (r, s) \<leftarrow> mist_create_directory P s p; Some (r, created \<or> r, s) } else Some (True, created, s) })
     (\<lambda>(r, created', s'). grown s (if r then {p} else {}) s' \<and> (is_dir s p \<longrightarrow> r) \<and> created' = (created \<or> r \<and> \<not> is_dir s p)
        \<and> (\<not> r \<longrightarrow> (\<exists>s0. ok s0 \<and> is_dir s0 = is_dir s \<and> \<not> fst (mkdir P p s0))))"
proof -
  obtain r s1 where 1: "mist_dir_exists P s p = Some (r, s1)" "r = is_dir s p" "ok s1" "is_dir s1 = is_dir s" "cwd s1 = cwd s"
    using dir_exists [OF assms] by (auto simp: returns_iff)
  obtain b s2 where 2: "mkdir P p s1 = (b, s2)" by fastforce
  have "p \<noteq> []" using canonical_not_Nil [OF assms(2)] .
  then show ?thesis using 1 2 mkdir [OF 1(3) assms(2) 2] by (auto simp: mist_create_directory_def grown_def check_def intro!: exI [of _ s1])
qed

text \<open>A call of \<open>mkdir\<close> that fails although the parent is a directory.\<close>

definition refused :: bool where
  "refused \<longleftrightarrow> (\<exists>s cs c. ok s \<and> list_all proper (cs @ [c]) \<and> is_dir s (dir_path cs) \<and> \<not> is_dir s (path_of (cs @ [c])) \<and> \<not> fst (mkdir P (path_of (cs @ [c])) s))"

lemma create_loop_step:
  assumes "ok s" "list_all proper (pre @ c # post)" "length (path_of pre) \<le> pos" "pos \<le> length (path_of pre) + length c"
  obtains r s' where "create_path_loop P s (path_of (pre @ c # post)) pos created =
      (if post = [] \<or> \<not> r then Some (created \<or> r \<and> \<not> is_dir s (path_of (pre @ [c])), \<not> r, s')
       else create_path_loop P s' (path_of (pre @ c # post)) (length (path_of (pre @ [c]))) (created \<or> \<not> is_dir s (path_of (pre @ [c]))))"
    "grown s (if r then {path_of (pre @ [c])} else {}) s'" "is_dir s (path_of (pre @ [c])) \<longrightarrow> r" "\<not> r \<and> is_dir s (dir_path pre) \<longrightarrow> refused"
proof -
  let ?path = "path_of (pre @ c # post)" and ?p = "path_of (pre @ [c])"
  have can: "canonical ?p" using canonical_dir_path [of "pre @ [c]"] assms(2) by (simp add: dir_path_def)
  have ns: "strstr_from ?path (pos + 1) [slash] = (if post = [] then None else Some (length ?p))" using next_slash [of c pre pos post] assms(2-4) by simp
  have dir: "(case if post = [] then None else Some (length ?p) of None \<Rightarrow> ?path | Some k \<Rightarrow> take k ?path) = ?p" by simp
  have len: "\<not> length ?path < pos + 1" using assms(4) by simp
  obtain r0 s0 where 0: "mist_dir_exists P s ?p = Some (r0, s0)" using dir_exists [OF assms(1) can] by (auto simp: returns_iff)
  obtain r s' where 1: "(if \<not> r0 then do { (r, s) \<leftarrow> mist_create_directory P s0 ?p; Some (r, created \<or> r, s) } else Some (True, created, s0))
        = Some (r, created \<or> r \<and> \<not> is_dir s ?p, s')" "grown s (if r then {?p} else {}) s'" "is_dir s ?p \<longrightarrow> r"
      "\<not> r \<longrightarrow> (\<exists>s0. ok s0 \<and> is_dir s0 = is_dir s \<and> \<not> fst (mkdir P ?p s0))"
    using ensure_dir [OF assms(1) can, of created] unfolding 0 bind.bind_lunit prod.case returns_iff by blast
  have "create_path_loop P s ?path pos created = (if post = [] \<or> \<not> r then Some (created \<or> r \<and> \<not> is_dir s ?p, \<not> r, s')
       else create_path_loop P s' ?path (length ?p) (created \<or> r \<and> \<not> is_dir s ?p))"
    by (subst create_path_loop.simps) (simp only: if_not_P [OF len] ns dir Let_def 0 1(1) bind.bind_lunit prod.case, cases "post = []", simp_all)
  moreover have "list_all proper (pre @ [c])" using assms(2) by simp
  then have "\<not> r \<and> is_dir s (dir_path pre) \<longrightarrow> refused" unfolding refused_def using 1(3,4) by metis
  ultimately show ?thesis using that [of r s'] 1 by (cases r) simp_all
qed

lemma dirs_grown_trans: "grown s D s1 \<Longrightarrow> grown s1 E s2 \<Longrightarrow> grown s (D \<union> E) s2"
  by (auto simp: grown_def)

lemma create_loop:
  assumes "ok s" "list_all proper (pre @ c # post)" "length (path_of pre) \<le> pos" "pos \<le> length (path_of pre) + length c" "is_dir s (dir_path pre)"
  shows "returns (create_path_loop P s (path_of (pre @ c # post)) pos created) (\<lambda>(created', err, s'). \<exists>D. D \<subseteq> set (dirs_to pre (c # post))
     \<and> grown s D s' \<and> created' = (created \<or> (\<exists>p \<in> D. \<not> is_dir s p)) \<and> (if err then refused else D = set (dirs_to pre (c # post))))"
  using assms
proof (induction post arbitrary: s pre c pos created)
  case Nil
  obtain r s' where "create_path_loop P s (path_of (pre @ [c])) pos created = Some (created \<or> r \<and> \<not> is_dir s (path_of (pre @ [c])), \<not> r, s')"
      "grown s (if r then {path_of (pre @ [c])} else {}) s'" "\<not> r \<longrightarrow> refused"
    by (rule create_loop_step [OF Nil(1-4), of created]) (use Nil(5) in auto)
  then show ?case by (cases r) (auto intro!: exI [of _ "if r then {path_of (pre @ [c])} else {}"])
next
  case (Cons d post)
  let ?p = "path_of (pre @ [c])" and ?cr = "created \<or> \<not> is_dir s (path_of (pre @ [c]))"
  obtain r s' where "create_path_loop P s (path_of (pre @ c # d # post)) pos created =
        (if d # post = [] \<or> \<not> r then Some (created \<or> r \<and> \<not> is_dir s ?p, \<not> r, s') else create_path_loop P s' (path_of (pre @ c # d # post)) (length ?p) ?cr)"
      "grown s (if r then {?p} else {}) s'" "\<not> r \<and> is_dir s (dir_path pre) \<longrightarrow> refused"
    by (rule create_loop_step [OF Cons.prems(1-4), of created])
  moreover have "pre @ c # d # post = (pre @ [c]) @ d # post" by simp
  ultimately have r: "create_path_loop P s (path_of (pre @ c # d # post)) pos created =
        (if \<not> r then Some (created \<or> r \<and> \<not> is_dir s ?p, \<not> r, s') else create_path_loop P s' (path_of ((pre @ [c]) @ d # post)) (length ?p) ?cr)"
      "grown s (if r then {?p} else {}) s'" "\<not> r \<longrightarrow> refused"
    using Cons.prems(5) by (simp_all only: list.distinct simp_thms)
  show ?case
  proof (cases r)
    case False
    then show ?thesis using r by (auto intro!: exI [of _ "{}"])
  next
    case True
    have s': "ok s'" "is_dir s' (dir_path (pre @ [c]))" using r(2) True by (auto simp: grown_def dir_path_def)
    obtain cr err s2 D where l: "create_path_loop P s' (path_of ((pre @ [c]) @ d # post)) (length ?p) ?cr = Some (cr, err, s2)"
        "D \<subseteq> set (dirs_to (pre @ [c]) (d # post))" "grown s' D s2" "cr = (?cr \<or> (\<exists>p \<in> D. \<not> is_dir s' p))"
        "if err then refused else D = set (dirs_to (pre @ [c]) (d # post))"
      using Cons.IH [OF s'(1), of "pre @ [c]" d "length ?p" ?cr] s'(2) Cons.prems(2) by (auto simp: returns_iff)
    have g: "grown s (insert ?p D) s2" using dirs_grown_trans [OF r(2) l(3)] True by simp
    have eq: "cr = (created \<or> (\<exists>p \<in> insert ?p D. \<not> is_dir s p))" using l(4) r(2) True by (auto simp: grown_def)
    have sub: "insert ?p D \<subseteq> set (dirs_to pre (c # d # post))" using l(2) by auto
    have all: "if err then refused else insert ?p D = set (dirs_to pre (c # d # post))" using l(5) by (auto split: if_splits)
    have run: "create_path_loop P s (path_of (pre @ c # d # post)) pos created = Some (cr, err, s2)" using r(1) True l(1) by simp
    show ?thesis unfolding run returns_simps prod.case by (intro exI [of _ "insert ?p D"] conjI sub g eq all)
  qed
qed

text \<open>The absolute path that is meant in the current directory.\<close>

definition full :: "'s \<Rightarrow> string \<Rightarrow> string" where
  "full s path = absolute_path (if mist_path_is_absolute path then path else path_join (cwd s) path)"

lemma absolute:
  assumes "ok s" "path \<noteq> []" "no_nul path" "CHR '':'' \<notin> set path" "hd path \<noteq> CHR ''~''"
  shows "returns (mist_path_absolute P s m path) (\<lambda>(r, m'). live m' = live m + of_bool (r \<noteq> None) \<and> (r = None \<or> r = Some (full s path) \<and> canonical (full s path))
     \<and> (never_fails m \<and> length (cwd s) + length path < 2 ^ 48 \<longrightarrow> never_fails m' \<and> r \<noteq> None))"
proof -
  have c: "no_nul (cwd s)" "cwd s \<noteq> []" "hd (cwd s) = slash" using cwd [OF assms(1)] canonical_no_nul by (auto simp: canonical_def neq_Nil_conv)
  show ?thesis
    by (rule returns_mono [OF path_absolute_returns [OF assms(2-5) getcwd [OF assms(1)] c, of m], folded full_def]) auto
qed

lemma create_path:
  assumes "ok s" "path \<noteq> []" "no_nul path" "CHR '':'' \<notin> set path" "hd path \<noteq> CHR ''~''" "full s path \<noteq> [slash]"
  defines "all \<equiv> set (dirs_to [] (components (full s path)))"
  shows "returns (mist_create_path P s m path) (\<lambda>(r, s', m'). live m' = live m
     \<and> (\<exists>D \<subseteq> all. grown s D s' \<and> (r \<longrightarrow> D = all)
         \<and> (never_fails m \<and> length (cwd s) + length path < 2 ^ 48 \<longrightarrow> never_fails m' \<and> (\<not> refused \<longrightarrow> D = all \<and> r = (\<exists>p \<in> all. \<not> is_dir s p)))))"
proof -
  let ?p = "full s path"
  obtain f m1 where f: "mist_path_absolute P s m path = Some (f, m1)" "live m1 = live m + of_bool (f \<noteq> None)" "f = None \<or> f = Some ?p \<and> canonical ?p"
      "never_fails m \<and> length (cwd s) + length path < 2 ^ 48 \<longrightarrow> never_fails m1 \<and> f \<noteq> None"
    using absolute [OF assms(1-5), of m] unfolding returns_iff by blast
  show ?thesis
  proof (cases f)
    case None
    then have "mist_create_path P s m path = Some (False, s, m1)" using f(1) assms(2) by (simp add: mist_create_path_def check_def)
    then show ?thesis using None f assms(1) by (auto simp: grown_def intro!: exI [of _ "{}"])
  next
    case (Some q)
    then have q: "q = ?p" "canonical ?p" using f(3) by auto
    then obtain c cs where c: "list_all proper ([] @ c # cs)" "?p = path_of ([] @ c # cs)" using assms(6) by (auto simp: canonical_def neq_Nil_conv)
    have all: "all = set (dirs_to [] (c # cs))" using components_path_of [OF c(1)] unfolding all_def c(2) by simp
    obtain cr err s' D where l: "create_path_loop P s ?p 1 False = Some (cr, err, s')" "D \<subseteq> all" "grown s D s'" "cr = (\<exists>p \<in> D. \<not> is_dir s p)"
        "if err then refused else D = all"
      using create_loop [OF assms(1) c(1), of 1 False] c root [OF assms(1)] unfolding all by (auto simp: returns_iff dir_path_def proper_def Suc_le_eq)
    have "1 < length ?p" "?p ! 1 \<noteq> slash" "hd ?p = slash" using c by (auto simp: proper_def nth_append) (cases c; auto)+
    then have "mist_create_path P s m path = Some (\<not> err \<and> cr, s', free m1)"
      using f(1) Some q(1) l(1) assms(2) unfolding mist_create_path_def Let_def by (auto simp: check_def)
    then show ?thesis using Some f l by (auto intro!: exI [of _ D] split: if_splits)
  qed
qed

lemma full_canonical: "ok s \<Longrightarrow> canonical p \<Longrightarrow> full s p = p"
  using absolute_path_id [of p] by (auto simp: full_def canonical_def mist_path_is_absolute_def neq_Nil_conv)

text \<open>The directory of a file that is not in the root directory.\<close>

lemma create_path_for_file:
  assumes "ok s" "path \<noteq> []" "no_nul path" "CHR '':'' \<notin> set path" "hd path \<noteq> CHR ''~''"
    and f: "full s path = path_of (cs @ [c])" "list_all proper (cs @ [c])" "cs \<noteq> []" "CHR '':'' \<notin> set (path_of cs)"
  shows "returns (mist_create_path_for_file P s m path) (\<lambda>(r, s', m'). live m' = live m
     \<and> (\<exists>D \<subseteq> set (dirs_to [] cs). grown s D s') \<and> (r \<longrightarrow> is_dir s' (path_of cs))
     \<and> (never_fails m \<and> length (cwd s) + length path < 2 ^ 48 \<and> length (cwd s) + length (path_of cs) < 2 ^ 48 \<longrightarrow> never_fails m' \<and> (r \<or> refused)))"
proof -
  let ?p = "full s path" and ?d = "path_of cs"
  obtain r m1 where a: "mist_path_absolute P s m path = Some (r, m1)" "live m1 = live m + of_bool (r \<noteq> None)" "r = None \<or> r = Some ?p"
      "never_fails m \<and> length (cwd s) + length path < 2 ^ 48 \<longrightarrow> never_fails m1 \<and> r \<noteq> None"
    using absolute [OF assms(1-5), of m] unfolding returns_iff by blast
  show ?thesis
  proof (cases r)
    case None
    then show ?thesis using a assms(1) by (auto simp: mist_create_path_for_file_def grown_def intro!: exI [of _ "{}"])
  next
    case (Some q)
    then have q: "r = Some (path_of (cs @ [c]))" using a(3) f(1) by simp
    have cn: "slash \<notin> set c" "c \<noteq> []" and pcs: "list_all proper cs" using f(2) by (auto simp: proper_def)
    have sp: "path_of (cs @ [c]) = ?d @ slash # c" by simp
    have pos: "strrchr (path_of (cs @ [c])) slash = Some (length ?d)" unfolding sp using cn(1) by (rule strrchr_last)
    have ne: "?d \<noteq> []" "hd ?d = slash" "canonical ?d" using f(3) pcs canonical_dir_path [OF pcs] by (cases cs; simp add: dir_path_def)+
    obtain x y where xy: "?d = slash # x # y" using f(3) pcs by (cases cs) (auto simp: proper_def neq_Nil_conv)
    then have "x \<noteq> CHR '':''" using f(4) by auto
    then have root: "mist_dir_is_root (path_of (cs @ [c])) = Some False" unfolding sp xy by (simp add: mist_dir_is_root_def check_def)
    obtain b s1 where e: "mist_dir_exists P s ?d = Some (b, s1)" "b = is_dir s ?d" "ok s1" "is_dir s1 = is_dir s" "cwd s1 = cwd s"
      using dir_exists [OF assms(1) ne(3)] unfolding returns_iff by auto
    show ?thesis
    proof (cases b)
      case True
      have "mist_create_path_for_file P s m path = Some (True, s1, free m1)"
        unfolding mist_create_path_for_file_def a(1) q using root pos e(1) True by simp
      then show ?thesis using a q e True by (auto simp: grown_def intro!: exI [of _ "{}"])
    next
      case False
      have nr: "full s1 ?d \<noteq> [slash]" "full s1 ?d = ?d" "components ?d = cs" "no_nul ?d" "hd ?d \<noteq> CHR ''~''"
        using full_canonical [OF e(3) ne(3)] components_path_of [OF pcs] f(3) ne pcs canonical_no_nul [OF ne(3)] by (auto simp: neq_Nil_conv proper_def)
      obtain r2 s2 m2 D where c: "mist_create_path P s1 m1 ?d = Some (r2, s2, m2)" "live m2 = live m1" "D \<subseteq> set (dirs_to [] cs)" "grown s1 D s2" "r2 \<longrightarrow> D = set (dirs_to [] cs)"
          "never_fails m1 \<and> length (cwd s1) + length ?d < 2 ^ 48 \<longrightarrow> never_fails m2 \<and> (\<not> refused \<longrightarrow> D = set (dirs_to [] cs) \<and> r2 = (\<exists>p \<in> set (dirs_to [] cs). \<not> is_dir s1 p))"
        using create_path [OF e(3) ne(1) nr(4) f(4) nr(5,1), of m1] unfolding returns_iff nr(2,3) by blast
      have last: "?d \<in> set (dirs_to [] cs)" using last_dir_to [OF f(3), of "[]"] by simp
      have "mist_create_path_for_file P s m path = Some (r2, s2, free m2)"
        unfolding mist_create_path_for_file_def a(1) q using root pos e(1) False c(1) by simp
      moreover have "grown s D s2" using c(4) e(4,5) by (simp add: grown_def)
      moreover have "r2 \<longrightarrow> is_dir s2 ?d" using c(4,5) last by (auto simp: grown_def)
      ultimately show ?thesis using a(2,4) q c(2,3,6) e False last by auto
    qed
  qed
qed

end

text \<open>Nothing forbids to make a directory.\<close>

locale posix_writable = posix_dirs +
  assumes allowed: "ok s \<Longrightarrow> list_all proper (cs @ [c]) \<Longrightarrow> is_dir s (dir_path cs) \<Longrightarrow> \<not> is_dir s (path_of (cs @ [c])) \<Longrightarrow> fst (mkdir P (path_of (cs @ [c])) s)"
begin

lemma not_refused: "\<not> refused"
  using allowed by (auto simp: refused_def)

end

section \<open>A file system\<close>

text \<open>
  The current directory and the directories there are, as lists of components; the root is always there. A path is taken
  relative to the current directory unless it starts with a slash.
\<close>

record file_system =
  fs_cwd :: "string list"
  fs_dirs :: "string list list"

definition fs_resolve :: "'a file_system_scheme \<Rightarrow> string \<Rightarrow> string list" where
  "fs_resolve s path = resolve ((if path \<noteq> [] \<and> hd path = slash then [] else fs_cwd s) @ components path)"

definition fs_has :: "'a file_system_scheme \<Rightarrow> string list \<Rightarrow> bool" where
  "fs_has s cs \<longleftrightarrow> cs = [] \<or> cs \<in> set (fs_dirs s)"

definition fs_posix :: "'a file_system_scheme posix" where
  "fs_posix = \<lparr>getcwd = (\<lambda>s. Some (dir_path (fs_cwd s))),
     chdir = (\<lambda>path s. let cs = fs_resolve s path in if path \<noteq> [] \<and> fs_has s cs then (True, s\<lparr>fs_cwd := cs\<rparr>) else (False, s)),
     mkdir = (\<lambda>path s. let cs = fs_resolve s path in
       if path \<noteq> [] \<and> cs \<noteq> [] \<and> fs_has s (butlast cs) \<and> \<not> fs_has s cs then (True, s\<lparr>fs_dirs := cs # fs_dirs s\<rparr>) else (False, s))\<rparr>"

definition fs_is_dir :: "'a file_system_scheme \<Rightarrow> string \<Rightarrow> bool" where
  "fs_is_dir s path \<longleftrightarrow> path = [slash] \<or> path \<in> path_of ` set (fs_dirs s)"

definition fs_ok :: "'a file_system_scheme \<Rightarrow> bool" where
  "fs_ok s \<longleftrightarrow> list_all (\<lambda>cs. cs \<noteq> [] \<and> list_all proper cs) (fs_dirs s) \<and> fs_has s (fs_cwd s)"

lemma fs_resolve_canonical:
  assumes "canonical p"
  shows "list_all proper (fs_resolve s p)" "dir_path (fs_resolve s p) = p"
proof -
  obtain cs where cs: "list_all proper cs" "p = dir_path cs"
  proof (cases "p = [slash]")
    case True
    then show ?thesis using that [of "[]"] by (simp add: dir_path_def)
  next
    case False
    then show ?thesis using that assms by (auto simp: canonical_def dir_path_def)
  qed
  have "p \<noteq> [] \<and> hd p = slash" using cs(2) by (cases cs) (auto simp: dir_path_def)
  moreover have "components p = cs" using cs components_path_of [of cs] by (auto simp: dir_path_def components_def)
  ultimately have "fs_resolve s p = cs" using resolve_id [OF cs(1), of "[]"] by (simp add: fs_resolve_def resolve_def)
  then show "list_all proper (fs_resolve s p)" "dir_path (fs_resolve s p) = p" using cs by simp_all
qed

lemma path_of_inj: "list_all proper cs \<Longrightarrow> list_all proper ds \<Longrightarrow> path_of cs = path_of ds \<Longrightarrow> cs = ds"
  using components_path_of by metis

lemma fs_has_dir: "fs_ok s \<Longrightarrow> list_all proper cs \<Longrightarrow> fs_has s cs \<longleftrightarrow> fs_is_dir s (dir_path cs)"
proof (cases "cs = []")
  case False
  assume a: "fs_ok s" "list_all proper cs"
  have "path_of cs \<noteq> [slash]" using False a(2) by (cases cs) (auto simp: proper_def)
  moreover have "cs \<in> set (fs_dirs s)" if "path_of cs \<in> path_of ` set (fs_dirs s)"
    using that a path_of_inj [OF a(2)] by (auto simp: fs_ok_def list_all_iff [of _ "fs_dirs s"])
  ultimately show ?thesis using False by (auto simp: fs_has_def fs_is_dir_def dir_path_def)
qed (simp add: fs_has_def fs_is_dir_def dir_path_def)

interpretation fs: posix_writable fs_posix fs_is_dir "\<lambda>s. dir_path (fs_cwd s)" fs_ok
proof (unfold_locales, goal_cases)
  case (1 s)
  then show ?case by (simp add: fs_is_dir_def)
next
  case (2 s)
  then show ?case by (simp add: fs_posix_def)
next
  case (3 s)
  have "list_all proper (fs_cwd s)" using 3 by (auto simp: fs_ok_def fs_has_def list_all_iff [of _ "fs_dirs s"])
  then show ?case using 3 fs_has_dir canonical_dir_path by (auto simp: fs_ok_def)
next
  case (4 s p b s')
  note r = fs_resolve_canonical [OF 4(2), of s]
  have "p \<noteq> []" using 4(2) canonical_not_Nil by blast
  then show ?case using 4 r fs_has_dir [OF 4(1) r(1)] by (auto simp: fs_posix_def Let_def fs_ok_def fs_has_def fs_is_dir_def fun_eq_iff split: if_splits)
next
  case (5 s p b s')
  note r = fs_resolve_canonical [OF 5(2), of s]
  have "p = path_of (fs_resolve s p)" if "fs_resolve s p \<noteq> []" using r(2) that by (simp add: dir_path_def)
  then show ?case using 5 r by (auto simp: fs_posix_def Let_def fs_ok_def fs_has_def fs_is_dir_def fun_eq_iff split: if_splits)
next
  case (6 s cs c)
  have p: "canonical (path_of (cs @ [c]))" using canonical_dir_path [OF 6(2)] by (simp add: dir_path_def)
  note r = fs_resolve_canonical [OF p, of s]
  have "fs_resolve s (path_of (cs @ [c])) \<noteq> []" using r(2) 6(2) by (cases cs) (auto simp: dir_path_def proper_def)
  then have "fs_resolve s (path_of (cs @ [c])) = cs @ [c]" using r 6(2) path_of_inj by (simp add: dir_path_def)
  then show ?case using fs_has_dir [OF 6(1), of cs] fs_has_dir [OF 6(1) 6(2)] 6 by (simp add: fs_posix_def dir_path_def)
qed

text \<open>
  The asserts of the code rule two paths out that its comments allow: a file in the root directory, whose directory would be the
  empty string, and the root itself, where the search for the next separator starts behind the end of the string.
\<close>

lemma mist_path_absolute_root:
  assumes "never_fails m" "path = ''/f'' \<or> path = ''/''"
  obtains m' where "mist_path_absolute P s m path = Some (Some path, m')"
proof -
  have "no_nul path" "path \<noteq> []" "mist_path_is_absolute path" "absolute_path path = path" "hd path = slash"
    using assms(2) by (auto simp: mist_path_is_absolute_def no_nul_def NUL_def absolute_path_def mist_path_to_unix_slashes_def resolve_def resolve_step_def components_def path_of_def)
  then show ?thesis using that mist_path_absolute_returns [of path P s m] assms
    by (auto simp: returns_iff raw_path_def no_nul_def)
qed

lemma mist_create_path_for_file_in_root: "never_fails m \<Longrightarrow> mist_create_path_for_file P s m ''/f'' = None"
  by (rule mist_path_absolute_root [of m "''/f''" P s]) (auto simp: mist_create_path_for_file_def mist_dir_is_root_def mist_dir_exists_def check_def)

lemma mist_create_path_root: "never_fails m \<Longrightarrow> mist_create_path P s m ''/'' = None"
  by (rule mist_path_absolute_root [of m "''/''" P s]) (auto simp: mist_create_path_def create_path_loop.simps check_def)

text \<open>An example.\<close>

definition home_fs :: file_system where
  "home_fs = \<lparr>fs_cwd = [''home'', ''me''], fs_dirs = [[''home''], [''home'', ''me'']]\<rparr>"

lemma home_fs_cwd: "getcwd fs_posix home_fs = Some ''/home/me''" "dir_path (fs_cwd home_fs) = ''/home/me''"
  by (simp_all add: fs_posix_def home_fs_def dir_path_def)

lemma home_fs_ok: "fs_ok home_fs"
  by (simp add: fs_ok_def fs_has_def home_fs_def proper_def no_nul_def NUL_def)

section \<open>Properties\<close>

text \<open>
  C18: \<open>mist_path_absolute\<close> on a Unix system: where the current directory is known (it is an absolute path) and memory
  suffices, the result is the canonical form of the path, taken relative to the current directory unless it is absolute: its
  components resolved like a stack, \<open>.\<close> dropped and \<open>..\<close> removing what stands before it, joined by single slashes. The
  result resolves to itself. Out of memory gives NULL and frees what was allocated.
\<close>

theorem mist_path_absolute_correct:
  assumes "path \<noteq> []" "no_nul path" "CHR '':'' \<notin> set path" "hd path \<noteq> CHR ''~''" "getcwd P s = Some cwd" "no_nul cwd" "cwd \<noteq> []" "hd cwd = slash"
  shows "returns (mist_path_absolute P s m path) (\<lambda>(r, m'). live m' = live m + of_bool (r \<noteq> None)
     \<and> (\<forall>p. r = Some p \<longrightarrow> p = absolute_path (if mist_path_is_absolute path then path else path_join cwd path) \<and> canonical p \<and> absolute_path p = p)
     \<and> (never_fails m \<and> length cwd + length path < 2 ^ 48 \<longrightarrow> never_fails m' \<and> r \<noteq> None))"
  using path_absolute_returns [OF assms] .

theorem mist_path_absolute_correct_witness:
  "returns (mist_path_absolute fs_posix home_fs mem0 ''.././a//x/../b'') (\<lambda>(r, m). r = Some ''/home/a/b'')"
proof -
  have r: "absolute_path (if mist_path_is_absolute ''.././a//x/../b'' then ''.././a//x/../b'' else path_join ''/home/me'' ''.././a//x/../b'') = ''/home/a/b''"
    by code_simp
  show ?thesis
    by (rule returns_mono [OF mist_path_absolute_correct [OF _ _ _ _ home_fs_cwd(1)]]) (auto simp only: r, auto simp: NUL_def no_nul_def never_fails_def)
qed



end
