(* ===== verification/Mist_Group_Conf.thy ===== *)
theory Mist_Group_Conf
  imports Mist_Group_Files Mist_Config_File Mist_Dirs Mist_Engine_Correct
begin

text \<open>
  The configuration of a group of templates, as \<open>mist_tg_load_conf\<close> takes it from the definitions of a configuration file: the
  path of the file to be generated, which must be there, and the two markers, which have defaults.
\<close>

section \<open>Messages\<close>

lemma message_returns:
  "returns (message m fmt args) (\<lambda>(d, m'). live m' = live m + of_bool (d \<noteq> None) \<and> (d = None \<or> d = Some (format_string fmt (map ArgS args)))
     \<and> (never_fails m \<and> length fmt + sum_list (map length args) < 2 ^ 60 \<longrightarrow> never_fails m' \<and> d \<noteq> None))"
proof -
  have "arg_length \<circ> ArgS = length" by (simp add: fun_eq_iff)
  then show ?thesis unfolding message_def by (intro returns_mono [OF alloc_message_returns]) (auto simp: PTRDIFF_MAX_def)
qed

section \<open>The configuration of definitions\<close>

definition given :: "(string \<times> string) list \<Rightarrow> string \<Rightarrow> string \<Rightarrow> string" where
  "given defs k v = (case map_of defs k of None \<Rightarrow> v | Some w \<Rightarrow> w)"

definition conf_code :: "(string \<times> string) list \<Rightarrow> EMistErrorCode" where
  "conf_code defs = (if \<not> distinct (map fst defs) then MIST_DUP_PARAM
     else if map_of defs beg_name = Some [] \<or> map_of defs end_name = Some [] \<or> given defs fpt_name [] = [] then MIST_MISSING_PARAM
     else MIST_OK)"

definition conf_of :: "(string \<times> string) list \<Rightarrow> conf" where
  "conf_of defs = \<lparr>tpath = Some (given defs fpt_name []), begm = Some (given defs beg_name def_beg), endm = Some (given defs end_name def_end)\<rparr>"

definition small_defs :: "(string \<times> string) list \<Rightarrow> bool" where
  "small_defs defs \<longleftrightarrow> (\<forall>p \<in> set defs. small (fst p) \<and> small (snd p))"

definition conf_result :: "(string \<times> string) list \<Rightarrow> string \<Rightarrow> mem \<Rightarrow> EMistErrorCode \<times> conf \<times> string option \<times> mem \<Rightarrow> bool" where
  "conf_result defs dir m res \<longleftrightarrow> (case res of (ec, c, d, m') \<Rightarrow>
     (ec = MIST_OK \<and> conf_code defs = MIST_OK \<and> c = conf_of defs \<and> d = None \<and> live m' = live m + 3
        \<or> ec \<noteq> MIST_OK \<and> c = no_conf \<and> live m' = live m + of_bool (d \<noteq> None))
     \<and> (never_fails m \<and> small dir \<and> small_defs defs \<longrightarrow> never_fails m' \<and> ec = conf_code defs \<and> (ec \<noteq> MIST_OK \<longrightarrow> d \<noteq> None)))"

text \<open>The map of parameters, in any order.\<close>

definition params_of :: "(string \<times> string) list \<Rightarrow> CStringMap \<Rightarrow> bool" where
  "params_of defs sm \<longleftrightarrow> smap_inv sm \<and> mset (elems (container sm)) = mset (map pair_of defs)"

lemma params_keys: "params_of defs sm \<Longrightarrow> distinct (smap_keys sm) = distinct (map fst defs)"
proof -
  assume p: "params_of defs sm"
  have "mset (smap_keys sm) = image_mset sp_key (mset (map pair_of defs))" using p by (simp add: params_of_def smap_keys_def)
  also have "\<dots> = mset (map fst defs)" by (simp add: multiset.map_comp comp_def pair_of_def)
  finally show ?thesis by (rule mset_eq_imp_distinct_iff)
qed

lemma params_map: "params_of defs sm \<Longrightarrow> distinct (map fst defs) \<Longrightarrow> smap_map sm = map_of defs"
proof -
  assume p: "params_of defs sm" "distinct (map fst defs)"
  have "mset (map (\<lambda>p. (sp_key p, sp_val p)) (elems (container sm))) = image_mset (\<lambda>p. (sp_key p, sp_val p)) (mset (map pair_of defs))"
    using p(1) by (simp add: params_of_def)
  also have "\<dots> = mset defs" by (simp add: multiset.map_comp comp_def pair_of_def)
  finally have eq: "mset (map (\<lambda>p. (sp_key p, sp_val p)) (elems (container sm))) = mset defs" .
  have "distinct (map fst (map (\<lambda>p. (sp_key p, sp_val p)) (elems (container sm))))" using params_keys [OF p(1)] p(2) by (simp add: smap_keys_def comp_def)
  then show ?thesis unfolding smap_map_def using map_of_inject_set p(2) mset_eq_setD [OF eq] by blast
qed

lemma params_blocks: "params_of defs sm \<Longrightarrow> smap_blocks sm = 2 + 3 * int (length defs)"
  using mset_eq_length [of "elems (container sm)" "map pair_of defs"] by (simp add: params_of_def smap_blocks_def smap_inv_def)

lemma params_sort: "libc_search qs bs \<Longrightarrow> params_of defs sm \<Longrightarrow> params_of defs (smap_sort qs sm)"
  using smap_libc.smap_sort_inv(1) [OF smap_libcI, of qs bs sm] smap_libc.smap_sort_mset [OF smap_libcI, of qs bs sm] by (simp add: params_of_def)

lemma params_lookup:
  assumes "libc_search qs bs" "params_of defs sm" "distinct (map fst defs)" "smap_lookup qs bs sm k = (r, sm')"
  shows "r = map_of defs k" "params_of defs sm'"
proof -
  note l = smap_libcI [OF assms(1)]
  have inv: "smap_inv sm" using assms(2) by (simp add: params_of_def)
  show "params_of defs sm'" using smap_libc.smap_lookup_any(1) [OF l inv assms(4)] params_sort [OF assms(1,2)] by simp
  show "r = map_of defs k"
    using smap_libc.smap_lookup_map [OF l inv, of k] params_keys [OF assms(2)] params_map [OF assms(2,3)] assms(3,4) by simp
qed

text \<open>A copy of a string that is not long.\<close>

lemma strdup_case:
  obtains (full) m' where "strdup m v = (None, m')" "live m' = live m" "never_fails m \<longrightarrow> \<not> small v"
  | (copy) m' where "strdup m v = (Some v, m')" "live m' = live m + 1" "never_fails m \<and> small v \<longrightarrow> never_fails m'"
proof -
  obtain r m' where r: "strdup m v = (r, m')" by fastforce
  note e = strdup_effect [OF r]
  have n: "never_fails m \<and> small v \<longrightarrow> r = Some v \<and> never_fails m'" using strdup_never_fails [OF _ _ r] by (auto simp: small_def PTRDIFF_MAX_def)
  show ?thesis using e n r by (cases r) (auto intro: full copy)
qed

lemma given_small: "small_defs defs \<Longrightarrow> small v \<Longrightarrow> small (given defs k v)"
  by (auto simp: given_def small_defs_def dest!: map_of_SomeD split: option.splits)

lemma default_markers: "small def_beg" "small def_end"
  by (simp_all add: def_beg_def def_end_def small_def)

lemma conf_names_short: "length errEmptyParam + length beg_name < 200" "length errEmptyParam + length end_name < 200" "length errMissingParam + length fpt_name < 200"
  by (simp_all add: errEmptyParam_def errMissingParam_def beg_name_def end_name_def fpt_name_def)

lemma conf_failed:
  assumes "live m1 = live m + k" "never_fails m \<and> small dir \<and> small_defs defs \<longrightarrow> never_fails m1" "small dir \<and> small_defs defs \<longrightarrow> length fmt + sum_list (map length args) < 2 ^ 60"
    "conf_code defs = ec" "ec \<noteq> MIST_OK" "\<And>m. live (f m) = live m - k" "\<And>m. never_fails (f m) = never_fails m"
  shows "returns (do { (d, m) \<leftarrow> message m1 fmt args; Some (ec, no_conf, d, f m) }) (conf_result defs dir m)"
proof -
  obtain d m' where d: "message m1 fmt args = Some (d, m')" "live m' = live m1 + of_bool (d \<noteq> None)"
      "never_fails m1 \<and> length fmt + sum_list (map length args) < 2 ^ 60 \<longrightarrow> never_fails m' \<and> d \<noteq> None"
    using message_returns [of m1 fmt args] unfolding returns_iff by blast
  then show ?thesis using assms by (simp add: conf_result_def)
qed

lemma conf_full: "live m' = live m \<Longrightarrow> \<not> (never_fails m \<and> small dir \<and> small_defs defs) \<Longrightarrow> conf_result defs dir m (MIST_OUT_OF_MEMORY, no_conf, None, m')"
  by (auto simp: conf_result_def)

lemma conf_values_returns:
  assumes lib: "libc_search qsp bsp" and sm: "params_of defs sm" and d: "distinct (map fst defs)" and m0: "live m = live m0 + smap_blocks sm" "never_fails m0 \<and> small dir \<and> small_defs defs \<longrightarrow> never_fails m"
  shows "returns (conf_values qsp bsp m dir sm) (conf_result defs dir m0)"
proof -
  have live: "live (smap_destroy m' sm') = live m' - smap_blocks sm" if "params_of defs sm'" for m' sm'
    using params_blocks [OF that] params_blocks [OF sm] by (simp add: smap_destroy_effect)
  obtain v1 sm1 where l1: "smap_lookup qsp bsp sm beg_name = (v1, sm1)" by fastforce
  note p1 = params_lookup [OF lib sm d l1]
  obtain v2 sm2 where l2: "smap_lookup qsp bsp sm1 end_name = (v2, sm2)" by fastforce
  note p2 = params_lookup [OF lib p1(2) d l2]
  obtain v3 sm3 where l3: "smap_lookup qsp bsp sm2 fpt_name = (v3, sm3)" by fastforce
  note p3 = params_lookup [OF lib p2(2) d l3]
  have g1: "(case v1 of Some v \<Rightarrow> v | None \<Rightarrow> def_beg) = given defs beg_name def_beg" and g2: "(case v2 of Some v \<Rightarrow> v | None \<Rightarrow> def_end) = given defs end_name def_end"
    by (auto simp: given_def p1(1) p2(1) split: option.splits)
  note gs = given_small [OF _ default_markers(1)] given_small [OF _ default_markers(2)] given_small [OF _ small_Nil]
  show ?thesis
  proof (cases "v1 = Some []")
    case True
    have "conf_code defs = MIST_MISSING_PARAM" using True p1(1) d by (simp add: conf_code_def)
    then show ?thesis unfolding conf_values_def l1 prod.case if_P [OF True]
      by (intro conf_failed [where k = 0 and f = id, unfolded id_apply]) (use m0 live [OF p1(2)] conf_names_short in \<open>auto simp: small_def\<close>)
  next
    case f1: False
    show ?thesis
    proof (cases rule: strdup_case [of m "given defs beg_name def_beg"])
      case (full m1)
      have "conf_result defs dir m0 (MIST_OUT_OF_MEMORY, no_conf, None, smap_destroy m1 sm1)"
        by (rule conf_full) (use full m0 live [OF p1(2)] gs in auto)
      then show ?thesis unfolding conf_values_def l1 prod.case if_not_P [OF f1] g1 full(1) by simp
    next
      case c1: (copy m1)
      show ?thesis
      proof (cases "v2 = Some []")
        case True
        have "conf_code defs = MIST_MISSING_PARAM" using True p2(1) d by (simp add: conf_code_def)
        then show ?thesis unfolding conf_values_def l1 prod.case if_not_P [OF f1] g1 c1(1) option.case l2 if_P [OF True]
          by (intro conf_failed [where k = 0 and f = id, unfolded id_apply]) (use m0 live [OF p2(2)] conf_names_short c1 gs in \<open>auto simp: small_def\<close>)
      next
        case f2: False
        show ?thesis
        proof (cases rule: strdup_case [of m1 "given defs end_name def_end"])
          case (full m2)
          have "conf_result defs dir m0 (MIST_OUT_OF_MEMORY, no_conf, None, smap_destroy (free m2) sm2)"
            by (rule conf_full) (use full c1 m0 live [OF p2(2)] gs in auto)
          then show ?thesis unfolding conf_values_def l1 prod.case if_not_P [OF f1] g1 c1(1) option.case l2 if_not_P [OF f2] g2 full(1) by simp
        next
          case c2: (copy m2)
          have m2: "live m2 = live m0 + (smap_blocks sm + 2)" "never_fails m0 \<and> small dir \<and> small_defs defs \<longrightarrow> never_fails m2" using c1 c2 m0 gs by auto
          show ?thesis
          proof (cases "given defs fpt_name []")
            case Nil
            have "conf_code defs = MIST_MISSING_PARAM" using Nil d by (simp add: conf_code_def)
            then have "returns (do { (d, m) \<leftarrow> message m2 errMissingParam [fpt_name, dir]; Some (MIST_MISSING_PARAM, no_conf, d, smap_destroy (free (free m)) sm3) }) (conf_result defs dir m0)"
              by (intro conf_failed [OF m2]) (use live [OF p3(2)] conf_names_short in \<open>auto simp: small_def\<close>)
            moreover have "v3 = None \<or> v3 = Some []" using Nil p3(1) by (auto simp: given_def split: option.splits)
            ultimately show ?thesis unfolding conf_values_def l1 prod.case if_not_P [OF f1] g1 c1(1) option.case l2 if_not_P [OF f2] g2 c2(1) l3 by auto
          next
            case (Cons x xs)
            then have v3: "v3 = Some (x # xs)" using p3(1) by (auto simp: given_def split: option.splits)
            have ok: "conf_code defs = MIST_OK" using Cons d f1 f2 p1(1) p2(1) by (simp add: conf_code_def)
            show ?thesis
            proof (cases rule: strdup_case [of m2 "x # xs"])
              case (full m3)
              have "conf_result defs dir m0 (MIST_OUT_OF_MEMORY, no_conf, None, smap_destroy (free (free m3)) sm3)"
                by (rule conf_full) (use full m2 live [OF p3(2)] gs(3) [of defs fpt_name] Cons in auto)
              then show ?thesis unfolding conf_values_def l1 prod.case if_not_P [OF f1] g1 c1(1) option.case l2 if_not_P [OF f2] g2 c2(1) l3 v3 list.case full(1) by simp
            next
              case c3: (copy m3)
              have "conf_result defs dir m0 (MIST_OK, conf_of defs, None, smap_destroy m3 sm3)"
                using ok c3 m2 live [OF p3(2)] gs(3) [of defs fpt_name] Cons by (auto simp: conf_result_def)
              then show ?thesis unfolding conf_values_def l1 prod.case if_not_P [OF f1] g1 c1(1) option.case l2 if_not_P [OF f2] g2 c2(1) l3 v3 list.case c3(1)
                by (simp add: conf_of_def Cons)
            qed
          qed
        qed
      qed
    qed
  qed
qed

section \<open>The configuration file of a directory\<close>

definition cfg_path :: "string \<Rightarrow> string \<Rightarrow> string" where
  "cfg_path dir name = dir @ (if last dir = slash then [] else [slash]) @ name @ cfg_ext"

definition base_name :: "string \<Rightarrow> string" where
  "base_name name = (if length name > 4 \<and> drop (length name - 4) name = ''-t2c'' then take (length name - 4) name else name)"

text \<open>The configuration of the directory \<open>.../name\<close> or \<open>.../name-t2c\<close> is in its file \<open>name.cfg\<close>.\<close>

definition conf_path :: "string \<Rightarrow> string" where
  "conf_path dir = cfg_path dir (base_name (last (components dir)))"

lemma write_here: "length p = i \<Longrightarrow> length bs \<le> length r \<Longrightarrow> write_at (p @ r) i bs = Some (p @ bs @ drop (length bs) r)"
  by (simp add: write_at_def)

lemma strncpy_with_nul: "no_nul s \<Longrightarrow> strncpy_bytes (s @ [NUL]) (Suc (length s)) = s @ [NUL]"
proof -
  assume s: "no_nul s"
  have "takeWhile (\<lambda>c. c \<noteq> NUL) (s @ [NUL]) = s" using s by (subst takeWhile_append2) (auto simp: no_nul_def)
  then show ?thesis by (simp add: strncpy_bytes_def c_str_def)
qed

lemma string_at_start: "no_nul s \<Longrightarrow> string_at (s @ NUL # q) 0 = Some s"
  using string_at_intro [of s "[]" q] by simp

lemma unix_slashes_id: "CHR 0x5C \<notin> set s \<Longrightarrow> mist_path_to_unix_slashes s = s"
  by (auto simp: mist_path_to_unix_slashes_def intro: map_idI)

lemma config_for_name_eq:
  assumes dir: "dir \<noteq> []" "no_nul dir" "CHR 0x5C \<notin> set dir" and name: "name \<noteq> []" "no_nul name"
  shows "mist_load_config_file_for_name P s m dir name sm err = (case malloc m (length dir + length name + 6) of (b, m) \<Rightarrow>
     if \<not> b then Some (MIST_OUT_OF_MEMORY, sm, err, s, m)
     else do { (res, sm, err, s, m) \<leftarrow> mist_load_config_file P s m (cfg_path dir name) sm err; Some (res, sm, err, s, free m) })"
proof -
  have ext: "no_nul cfg_ext" "length cfg_ext = 4" by (simp_all add: cfg_ext_def NUL_def)
  define r0 where "r0 m = fresh m 0 (length dir + length name + 6)" for m
  have r0: "length (r0 m) = length dir + length name + 6" for m by (simp add: r0_def fresh_def)
  define q where "q = (if last dir = slash then [] else [slash])"
  have q: "no_nul q" "length q \<le> 1" by (auto simp: q_def NUL_def)
  define r1 where "r1 m = drop (length dir + 1) (r0 m)" for m
  have w1: "write_at (r0 m) 0 (strncpy_bytes (dir @ [NUL]) (length dir + 1)) = Some (dir @ NUL # r1 m)" for m
    using write_here [of "[]" 0 "dir @ [NUL]" "r0 m"] strncpy_with_nul [OF dir(2)] r0 [of m] by (simp add: r1_def)
  have w2: "write_at (dir @ NUL # r1 m) 0 (mist_path_to_unix_slashes dir) = Some (dir @ NUL # r1 m)" for m
    using write_here [of "[]" 0 dir "dir @ NUL # r1 m"] unix_slashes_id [OF dir(3)] by simp
  define r2 where "r2 m = drop (length q) (NUL # r1 m)" for m
  have w3: "(if (dir @ NUL # r1 m) ! (length dir - 1) \<noteq> slash
        then do { path \<leftarrow> write_at (dir @ NUL # r1 m) (length dir - 1 + 1) [slash]; Some (path, length dir - 1 + 1) }
        else Some (dir @ NUL # r1 m, length dir - 1)) = Some (dir @ q @ r2 m, length dir + length q - 1)" for m
  proof -
    have "(dir @ NUL # r1 m) ! (length dir - 1) = last dir" using dir(1) by (simp add: nth_append last_conv_nth)
    then show ?thesis using write_here [of dir "length dir" "[slash]" "NUL # r1 m"] dir(1) by (auto simp: q_def r2_def)
  qed
  define r3 where "r3 m = drop (length name + 1) (r2 m)" for m
  have l2: "length (r2 m) = length name + 6 - length q" for m using r0 [of m] q(2) by (simp add: r2_def r1_def)
  have w4: "write_at (dir @ q @ r2 m) (length dir + length q) (strncpy_bytes (name @ [NUL]) (length name + 1)) = Some (dir @ q @ name @ NUL # r3 m)" for m
    using write_here [of "dir @ q" "length dir + length q" "name @ [NUL]" "r2 m"] strncpy_with_nul [OF name(2)] l2 [of m] q(2) by (simp add: r3_def)
  define r4 where "r4 m = drop 5 (NUL # r3 m)" for m
  have w5: "write_at (dir @ q @ name @ NUL # r3 m) (length dir + length q + length name) (strncpy_bytes (cfg_ext @ [NUL]) (length cfg_ext + 1))
      = Some (dir @ q @ name @ cfg_ext @ NUL # r4 m)" for m
    using write_here [of "dir @ q @ name" "length dir + length q + length name" "cfg_ext @ [NUL]" "NUL # r3 m"] strncpy_with_nul [OF ext(1)] ext(2) l2 [of m] q(2)
    by (simp add: r3_def r4_def)
  have path: "string_at (dir @ q @ name @ cfg_ext @ NUL # r4 m) 0 = Some (cfg_path dir name)" for m
    using string_at_start [of "dir @ q @ name @ cfg_ext" "r4 m"] dir(2) q(1) name(2) ext(1) by (simp add: cfg_path_def q_def)
  have pos: "length dir + length q - 1 + 1 = length dir + length q" using dir(1) by (cases dir) auto
  have n: "length dir + length name + length cfg_ext + 2 = length dir + length name + 6" using ext(2) by simp
  show ?thesis
    unfolding mist_load_config_file_for_name_def Let_def n r0_def [symmetric]
    using dir(1) name(1) by (simp only: bind_check if_True simp_thms w1 bind.bind_lunit string_at_start [OF dir(2)] w2 w3 prod.case pos w4 w5 path)
qed

lemma cfg_result_within:
  assumes "cfg_result (ps, e) sm err m1 fine1 (ec, sm', err', m2)" "live m1 = live m + k" "live m' = live m2 - k" "never_fails m' = never_fails m2"
    "fine \<and> never_fails m \<longrightarrow> fine1 \<and> never_fails m1"
  shows "cfg_result (ps, e) sm err m fine (ec, sm', err', m')"
  using assms unfolding cfg_result_def prod.case by (auto split: option.splits)

lemma components_last:
  assumes "no_nul dir" "\<exists>c \<in> set dir. c \<noteq> slash"
  shows "last (components dir) \<noteq> []" "no_nul (last (components dir))" "length (last (components dir)) \<le> length dir"
proof -
  obtain pre c n where p: "dir = pre @ c @ replicate n slash" "pre = [] \<or> last pre = slash" "slash \<notin> set c" "c \<noteq> []" using path_parts [OF assms(2)] .
  have cc: "components c = [c]" using p by (simp add: components_def split_on_single)
  have "last (components dir) = c"
  proof (cases "pre = []")
    case True
    then show ?thesis using p(1) cc by simp
  next
    case False
    then obtain q where "pre = q @ [slash]" using p(2) by (metis append_butlast_last_id)
    then show ?thesis using cc p(1) components_mid [of q "c @ replicate n slash"] by simp
  qed
  then show "last (components dir) \<noteq> []" "no_nul (last (components dir))" "length (last (components dir)) \<le> length dir" using p assms(1) by simp_all
qed

text \<open>A path of a directory the loader takes.\<close>

definition dir_name :: "string \<Rightarrow> bool" where
  "dir_name dir \<longleftrightarrow> no_nul dir \<and> CHR 0x5C \<notin> set dir \<and> (\<exists>c \<in> set dir. c \<noteq> slash)"

lemma base_name_facts:
  assumes "dir_name dir"
  shows "base_name (last (components dir)) \<noteq> []" "no_nul (base_name (last (components dir)))" "length (base_name (last (components dir))) \<le> length dir"
  using components_last [of dir] assms by (auto simp: base_name_def dir_name_def no_nul_def dest: in_set_takeD)

lemma suffix_test:
  "(if length t > length ''-t2c'' \<and> strncmp (drop (length t - length ''-t2c'') t) ''-t2c'' (length ''-t2c'') = 0 then take (length t - length ''-t2c'') t else t) = base_name t"
  by (simp add: base_name_def strncmp_def eval_nat_numeral)

lemma config_from_dir_returns:
  assumes dir: "dir_name dir" and f: "fopen P (conf_path dir) s = (Some fs, s1)" "f_pos fs = 0" "\<not> f_err fs" "reads_ok fs" "no_nul (f_data fs)" "length (f_data fs) + 2 < 2 ^ 31"
    and sm: "smap_inv sm" "elems (container sm) = []" and cfg: "config 0 (file_lines (f_data fs)) = (defs, e)"
  shows "returns (mist_load_config_file_from_dir P s m dir sm (Some None)) (\<lambda>(ec, sm', err', s', m').
     (s' = s \<or> s' = fclose P s1) \<and> cfg_result (defs, e) sm (Some None) m (small dir) (ec, sm', err', m'))"
proof -
  have d: "no_nul dir" "CHR 0x5C \<notin> set dir" "\<exists>c \<in> set dir. c \<noteq> slash" "dir \<noteq> []" using dir by (auto simp: dir_name_def)
  note b = base_name_facts [OF dir]
  have oom: "cfg_result (defs, e) sm (Some None) m (small dir) (MIST_OUT_OF_MEMORY, sm, Some None, m')" if "live m' = live m" "\<not> (small dir \<and> never_fails m)" for m'
    by (rule cfg_result_stop [OF sm(1)]) (use that in \<open>auto simp: err_blocks_def\<close>)
  obtain t m1 where t: "mist_path_get_last m dir = Some (t, m1)" "live m1 = live m + of_bool (t \<noteq> None)" "t = None \<or> t = Some (last (components dir))"
      "never_fails m \<and> small dir \<longrightarrow> never_fails m1 \<and> t \<noteq> None"
    using mist_path_get_last_correct [OF d(1,3), of m] by (auto simp: returns_iff)
  have chk: "check (dir \<noteq> [] \<and> strchr dir (CHR 0x5C) = None) = Some ()" using d by (simp add: check_def strchr_None)
  show ?thesis
  proof (cases t)
    case None
    then show ?thesis using t oom [of m1] chk by (auto simp: mist_load_config_file_from_dir_def)
  next
    case (Some x)
    then have x: "x = last (components dir)" using t(3) by simp
    let ?n = "length dir + length (base_name x) + 6"
    obtain ok m2 where a: "malloc m1 ?n = (ok, m2)" by fastforce
    have m2: "live m2 = live m1 + of_bool ok" "never_fails m1 \<and> small dir \<longrightarrow> never_fails m2 \<and> ok"
      using malloc_effect [OF a] malloc_never_fails [OF _ _ a] b(3) x by (auto simp: small_def PTRDIFF_MAX_def)
    have eq: "mist_load_config_file_from_dir P s m dir sm (Some None) = do {
        (res, sm, err, s, m) \<leftarrow> (if \<not> ok then Some (MIST_OUT_OF_MEMORY, sm, Some None, s, m2)
          else do { (res, sm, err, s, m) \<leftarrow> mist_load_config_file P s m2 (conf_path dir) sm (Some None); Some (res, sm, err, s, free m) });
        Some (res, sm, err, s, free m) }"
      unfolding mist_load_config_file_from_dir_def chk t(1) Some bind.bind_lunit prod.case option.case Let_def suffix_test conf_path_def
      using config_for_name_eq [OF d(4,1,2) b(1,2), folded x, of P s m1 sm "Some None"] a by (simp only: prod.case x)
    show ?thesis
    proof (cases ok)
      case False
      have "cfg_result (defs, e) sm (Some None) m (small dir) (MIST_OUT_OF_MEMORY, sm, Some None, free m2)" by (rule oom) (use False m2 t(2,4) Some in auto)
      then show ?thesis unfolding eq using False by simp
    next
      case True
      obtain res where res: "mist_load_config_file P s m2 (conf_path dir) sm (Some None) = Some res" "case res of (ec, sm', err', s', m') \<Rightarrow> s' = fclose P s1
           \<and> (ec = MIST_OPEN_FILE_FAILED \<and> \<not> reads_ok fs \<and> sm' = sm \<and> live m' = live m2 + err_blocks err'
              \<or> cfg_result (defs, e) sm (Some None) m2 (reads_ok fs \<and> length (elems (container sm)) + length (f_data fs) < 2 ^ 50) (ec, sm', err', m'))"
        using load_config_file_returns [OF f(1,2,3,5,6) sm(1), of m2 "Some None", unfolded cfg] unfolding returns_iff by auto
      obtain ec sm' err' s' m3 where r: "res = (ec, sm', err', s', m3)" by (cases res)
      have "s' = fclose P s1" "cfg_result (defs, e) sm (Some None) m2 (reads_ok fs \<and> length (elems (container sm)) + length (f_data fs) < 2 ^ 50) (ec, sm', err', m3)"
        using res(2) f(4) unfolding r by auto
      moreover have "cfg_result (defs, e) sm (Some None) m (small dir) (ec, sm', err', free (free m3))"
        by (rule cfg_result_within [OF calculation(2), of _ 2]) (use m2 True t Some f(4,6) sm(2) in auto)
      ultimately show ?thesis unfolding eq using True res(1) r by simp
    qed
  qed
qed

section \<open>Loading the configuration\<close>

text \<open>
  All outcomes of \<open>mist_tg_load_conf\<close> for a file with the definitions \<open>defs\<close> up to the error \<open>e\<close>: the three strings it hands out are
  new blocks, and a failure leaves the description and nothing else, except for the name \<open>mist_load_config_file\<close> loses.
\<close>

definition load_conf_result ::
  "(string \<times> string) list \<Rightarrow> cfg_error option \<Rightarrow> string \<Rightarrow> mem \<Rightarrow> EMistErrorCode \<times> conf \<times> string option \<times> mem \<Rightarrow> bool" where
  "load_conf_result defs e dir m res \<longleftrightarrow> (case res of (ec, c, d, m') \<Rightarrow>
     (ec = MIST_OK \<and> e = None \<and> conf_code defs = MIST_OK \<and> c = conf_of defs \<and> d = None \<and> live m' = live m + 3
        \<or> ec \<noteq> MIST_OK \<and> c = no_conf \<and> live m' = live m + of_bool (d \<noteq> None) + of_bool (\<exists>x. ec = MIST_SYNTAX_ERROR \<and> e = Some x \<and> is_No_name x))
     \<and> (never_fails m \<and> small dir \<and> small_defs defs \<longrightarrow> (case e of
          None \<Rightarrow> never_fails m' \<and> ec = conf_code defs \<and> (ec \<noteq> MIST_OK \<longrightarrow> d \<noteq> None) | Some e \<Rightarrow> ec = MIST_SYNTAX_ERROR)))"

lemma conf_load_result: "conf_result defs dir m res \<Longrightarrow> load_conf_result defs None dir m res"
  by (auto simp: conf_result_def load_conf_result_def small_def)

text \<open>The message for a configuration that could not be loaded.\<close>

lemma unable_to_load:
  assumes "live m1 = live m + smap_blocks sm + err_blocks err + of_bool (\<exists>x. ec = MIST_SYNTAX_ERROR \<and> e = Some x \<and> is_No_name x)" "ec \<noteq> MIST_OK"
    "never_fails m \<and> small dir \<and> small_defs defs \<longrightarrow> ec = MIST_SYNTAX_ERROR \<and> e \<noteq> None"
  shows "returns (case (case err of Some (Some e) \<Rightarrow> (Some e, m1) | _ \<Rightarrow> strdup m1 errUnspecifiedError) of
       (None, m) \<Rightarrow> Some (ec, no_conf, None, s, smap_destroy m sm)
     | (Some err, m) \<Rightarrow> do { (d, m) \<leftarrow> message m errUnableToLoadConf [dir, err]; Some (ec, no_conf, d, s, smap_destroy (free m) sm) })
     (\<lambda>(ec, c, d, s', m'). s' = s \<and> load_conf_result defs e dir m (ec, c, d, m'))"
proof -
  obtain t m2 where t: "(case err of Some (Some e) \<Rightarrow> (Some e, m1) | _ \<Rightarrow> strdup m1 errUnspecifiedError) = (t, m2)" by fastforce
  have m2: "live m2 = live m1 - err_blocks err + of_bool (t \<noteq> None)"
    using t strdup_effect [of m1 errUnspecifiedError t m2] by (auto simp: err_blocks_def split: option.splits)
  show ?thesis
  proof (cases t)
    case None
    then show ?thesis unfolding t using m2 assms by (auto simp: load_conf_result_def smap_destroy_effect split: option.splits)
  next
    case (Some e')
    obtain d m3 where d: "message m2 errUnableToLoadConf [dir, e'] = Some (d, m3)" "live m3 = live m2 + of_bool (d \<noteq> None)"
      using message_returns [of m2 errUnableToLoadConf "[dir, e']"] unfolding returns_iff by blast
    then show ?thesis unfolding t Some using m2 assms Some by (auto simp: load_conf_result_def smap_destroy_effect split: option.splits)
  qed
qed

lemma load_conf_returns:
  assumes lib: "libc_search qsp bsp" and dir: "dir_name dir" "mist_dir_exists P s dir = Some (True, s0)" "mist_dir_is_special dir = Some False"
    and f: "fopen P (conf_path dir) s0 = (Some fs, s1)" "f_pos fs = 0" "\<not> f_err fs" "reads_ok fs" "no_nul (f_data fs)" "length (f_data fs) + 2 < 2 ^ 31"
    and cfg: "config 0 (file_lines (f_data fs)) = (defs, e)"
  shows "returns (mist_tg_load_conf qsp bsp P s m dir) (\<lambda>(ec, c, d, s', m'). (s' = s0 \<or> s' = fclose P s1) \<and> load_conf_result defs e dir m (ec, c, d, m'))"
proof -
  note sl = smap_libcI [OF lib]
  obtain t m1 where t: "smap_create m = (t, m1)" by fastforce
  show ?thesis
  proof (cases t)
    case None
    then show ?thesis unfolding mist_tg_load_conf_def dir(2,3) t
      using smap_create_effect [OF t] smap_create_enough [OF t] by (auto simp: load_conf_result_def)
  next
    case (Some sm)
    have sm: "smap_inv sm" "elems (container sm) = []" "live m1 = live m + smap_blocks sm" "never_fails m \<longrightarrow> never_fails m1"
      using smap_create_effect [OF t] smap_create_enough [OF t] Some by auto
    obtain res where res: "mist_load_config_file_from_dir P s0 m1 dir sm (Some None) = Some res"
        "case res of (ec, sm', err', s', m') \<Rightarrow> (s' = s0 \<or> s' = fclose P s1) \<and> cfg_result (defs, e) sm (Some None) m1 (small dir) (ec, sm', err', m')"
      using config_from_dir_returns [OF dir(1) f sm(1,2) cfg, of m1] unfolding returns_iff by blast
    obtain ec sm' err' s' m2 where r: "res = (ec, sm', err', s', m2)" by (cases res)
    have s': "s' = s0 \<or> s' = fclose P s1" and c: "smap_inv sm'" "live m2 = live m + smap_blocks sm' + err_blocks err' + of_bool (\<exists>x. ec = MIST_SYNTAX_ERROR \<and> e = Some x \<and> is_No_name x)"
        "ec = MIST_OK \<longrightarrow> e = None \<and> err' = Some None \<and> elems (container sm') = map pair_of defs"
        "never_fails m \<and> small dir \<longrightarrow> never_fails m2 \<and> (case e of None \<Rightarrow> ec = MIST_OK | Some e \<Rightarrow> ec = MIST_SYNTAX_ERROR)"
      using res(2) sm unfolding r cfg_result_def by (cases e; auto split: option.splits)+
    note start = mist_tg_load_conf_def dir(2,3) bind.bind_lunit prod.case bind_check simp_thms if_True t Some option.case res(1) r
    show ?thesis
    proof (cases "ec = MIST_OK")
      case False
      have "never_fails m \<and> small dir \<and> small_defs defs \<longrightarrow> ec = MIST_SYNTAX_ERROR \<and> e \<noteq> None" using c(4) False by (auto split: option.splits)
      then have "returns (mist_tg_load_conf qsp bsp P s m dir) (\<lambda>(ec, c, d, t, m'). t = s' \<and> load_conf_result defs e dir m (ec, c, d, m'))"
        unfolding start if_P [OF False] by (rule unable_to_load [OF c(2) False])
      then show ?thesis by (rule returns_mono) (use s' in auto)
    next
      case True
      then have e: "e = None" "params_of defs sm'" "live m2 = live m + smap_blocks sm'" using c by (auto simp: params_of_def err_blocks_def)
      obtain key sm2 where k: "smap_check_duplicate_keys qsp sm' = (key, sm2)" by fastforce
      have sm2: "params_of defs sm2" using k params_sort [OF lib e(2)] by (simp add: smap_check_duplicate_keys_def Let_def)
      have bl: "smap_blocks sm2 = smap_blocks sm'" using params_blocks [OF sm2] params_blocks [OF e(2)] by simp
      note dup = smap_libc.smap_check_duplicate_keys_any [OF sl c(1) k]
      show ?thesis
      proof (cases key)
        case (Some key')
        then have "2 \<le> count_list (smap_keys sm') key'" using dup by simp
        then have cnt: "2 \<le> count (mset (smap_keys sm')) key'" by (simp add: count_mset)
        then have in_keys: "key' \<in> set (smap_keys sm')" by (metis count_mset_0_iff not_numeral_le_zero)
        then have nd: "\<not> distinct (smap_keys sm')" using cnt by (force simp: distinct_count_atmost_1)
        have "smap_keys sm' = map fst defs" using c(3) True by (simp add: smap_keys_def pair_of_def comp_def)
        then have key: "conf_code defs = MIST_DUP_PARAM" "small_defs defs \<longrightarrow> small key'" using nd in_keys by (auto simp: conf_code_def small_defs_def)
        have "returns (do { (d, m) \<leftarrow> message m2 errDupParam [key', dir]; Some (MIST_DUP_PARAM, no_conf, d, smap_destroy m sm2) }) (conf_result defs dir m)"
          by (rule conf_failed [OF e(3)]) (use c(4) e(1) key bl in \<open>auto simp: small_def errDupParam_def smap_destroy_effect\<close>)
        then show ?thesis unfolding start using True k Some s' e(1) conf_load_result by (cases "message m2 errDupParam [key', dir]") auto
      next
        case None
        then have "distinct (map fst defs)" using dup params_keys [OF e(2)] by simp
        then have "returns (conf_values qsp bsp m2 dir sm2) (conf_result defs dir m)"
          by (intro conf_values_returns [OF lib sm2]) (use e bl c(4) in auto)
        then show ?thesis unfolding start using True k None s' e(1) conf_load_result by (auto simp: returns_iff)
      qed
    qed
  qed
qed

end
