(* ===== verification/Mist_Group_Dir.thy ===== *)
theory Mist_Group_Dir
  imports Mist_Group_Conf
begin

text \<open>
  Loading the groups of a directory. The locale \<open>dir_files\<close> states what is relied on of the operating system: the files that can be
  opened for reading have contents, which reading yields, a directory has a list of entries, and opening, reading and closing files and
  directories, or entering a directory and coming back, changes nothing of this. It is interpreted on a disk with files and directories.
\<close>

section \<open>What is relied on\<close>

locale dir_files =
  fixes P :: "('s, 'x) filesys_scheme" and ok :: "'s \<Rightarrow> bool" and content :: "'s \<Rightarrow> string \<Rightarrow> string option" and listing :: "'s \<Rightarrow> string \<Rightarrow> string list option"
  assumes entered: "ok s \<Longrightarrow> listing s d \<noteq> None \<Longrightarrow> \<exists>w s1 s2. getcwd P s = Some w \<and> chdir P d s = (True, s1) \<and> chdir P w s1 = (True, s2)
        \<and> ok s2 \<and> content s2 = content s \<and> listing s2 = listing s"
    and opened: "ok s \<Longrightarrow> fopen P p s = (r, s') \<Longrightarrow> ok s' \<and> content s' = content s \<and> listing s' = listing s
        \<and> (case r of None \<Rightarrow> content s p = None | Some fs \<Rightarrow> content s p = Some (f_data fs) \<and> f_pos fs = 0 \<and> \<not> f_err fs \<and> reads_ok fs)"
    and closed: "ok s \<Longrightarrow> ok (fclose P s) \<and> content (fclose P s) = content s \<and> listing (fclose P s) = listing s"
    and listed: "ok s \<Longrightarrow> opendir P d s = (es, s') \<Longrightarrow> es = listing s d \<and> ok s' \<and> content s' = content s \<and> listing s' = listing s"
    and left: "ok s \<Longrightarrow> ok (closedir P s) \<and> content (closedir P s) = content s \<and> listing (closedir P s) = listing s"
begin

definition same :: "'s \<Rightarrow> 's \<Rightarrow> bool" where
  "same s s' \<longleftrightarrow> ok s' \<and> content s' = content s \<and> listing s' = listing s"

lemma same_trans: "same s s1 \<Longrightarrow> same s1 s2 \<Longrightarrow> same s s2"
  by (simp add: same_def)

lemma file_exists: "ok s \<Longrightarrow> p \<noteq> [] \<Longrightarrow> returns (mist_file_exists P s p) (\<lambda>(r, s'). r = (content s p \<noteq> None) \<and> same s s')"
proof -
  assume s: "ok s" "p \<noteq> []"
  obtain r s1 where r: "fopen P p s = (r, s1)" by fastforce
  show ?thesis using opened [OF s(1) r] closed [of s1] s r by (cases r) (auto simp: mist_file_exists_def same_def)
qed

lemma read_all:
  assumes s: "ok s" "p \<noteq> []" "content s p = Some txt"
  shows "returns (mist_file_read_all P s m p) (\<lambda>(ec, r, s', m'). same s s'
     \<and> (ec = MIST_OK \<and> r = Some (c_str txt) \<and> live m' = live m + 1 \<or> ec = MIST_OUT_OF_MEMORY \<and> r = None \<and> live m' = live m)
     \<and> (never_fails m \<and> small txt \<longrightarrow> never_fails m' \<and> ec = MIST_OK))"
proof -
  obtain s0 where s0: "mist_file_exists P s p = Some (True, s0)" "ok s0" "content s0 = content s" "listing s0 = listing s"
    using file_exists [OF s(1,2)] s(3) by (auto simp: returns_iff same_def)
  obtain r s1 where r: "fopen P p s0 = (r, s1)" by fastforce
  obtain fd where fd: "r = Some fd" "f_data fd = txt" "f_pos fd = 0" "\<not> f_err fd" "reads_ok fd" "ok s1" "content s1 = content s" "listing s1 = listing s"
    using opened [OF s0(2) r] s0 s(3) by (cases r) auto
  obtain sz fd1 where z: "mist_file_get_size fd = (sz, fd1)" by fastforce
  have fd1: "sz = int (length txt)" "sz \<noteq> - 1" "f_data fd1 = txt" "f_pos fd1 = 0" "\<not> f_err fd1" "reads_ok fd1" using file_get_size_effect [OF z] fd(2-5) by auto
  obtain fd2 where rd: "fread fd1 (length txt) = (txt, fd2)" "\<not> f_err fd2"
    using fd1(3-6) by (cases "f_script fd1") (auto simp: fread_def file_answer_def reads_ok_def Let_def)
  obtain b m1 where a: "malloc m (length txt + 1) = (b, m1)" by fastforce
  have m1: "live m1 = live m + of_bool b" "never_fails m \<and> small txt \<longrightarrow> never_fails m1 \<and> b"
    using malloc_effect [OF a] malloc_never_fails [OF _ _ a] by (auto simp: small_def PTRDIFF_MAX_def)
  have w: "write_at (fresh m1 0 (length txt + 1)) 0 txt = Some (txt @ drop (length txt) (fresh m1 0 (length txt + 1)))"
      "write_at (txt @ drop (length txt) (fresh m1 0 (length txt + 1))) (length txt) [NUL] = Some (txt @ [NUL])"
    by (simp_all add: write_at_def fresh_def)
  have st: "string_at (txt @ [NUL]) 0 = Some (c_str txt)"
    by (auto simp: string_at_def c_str_def takeWhile_append takeWhile_eq_all_conv [THEN iffD2])
  note cl = closed [OF fd(6)]
  show ?thesis
    unfolding mist_file_read_all_def s0(1) bind.bind_lunit prod.case
    using r fd(1) z fd1(1,2) a rd m1 w st cl fd(7,8) by (auto simp: same_def)
qed

end

section \<open>The templates of a directory\<close>

definition is_tpl :: "string \<Rightarrow> bool" where
  "is_tpl e \<longleftrightarrow> length e > 4 \<and> drop (length e - 4) e = ''.tpl''"

definition tpl_path :: "string \<Rightarrow> string \<Rightarrow> string" where
  "tpl_path dir e = (if mist_path_is_absolute e then e else path_join dir e)"

text \<open>The names and the texts of the templates: of the entries with the extension, those that can be opened.\<close>

fun tpl_files :: "(string \<Rightarrow> string option) \<Rightarrow> string \<Rightarrow> string list \<Rightarrow> (string \<times> string) list" where
  "tpl_files C dir [] = []"
| "tpl_files C dir (e # es) = (case (if is_tpl e then C (tpl_path dir e) else None) of
     None \<Rightarrow> tpl_files C dir es | Some txt \<Rightarrow> (take (length e - 4) e, c_str txt) # tpl_files C dir es)"

text \<open>Entries and contents of sensible sizes.\<close>

definition entries_fit :: "(string \<Rightarrow> string option) \<Rightarrow> string \<Rightarrow> string list \<Rightarrow> bool" where
  "entries_fit C dir es \<longleftrightarrow> (\<forall>e \<in> set es. length dir + length e < 2 ^ 50 \<and> (\<forall>txt. C (tpl_path dir e) = Some txt \<longrightarrow> small txt))"

lemma tpl_test: "(length e > length tpl_ext \<and> strncmp (drop (length e - length tpl_ext) e) tpl_ext (length tpl_ext) = 0) = is_tpl e"
  by (simp add: is_tpl_def tpl_ext_def strncmp_def eval_nat_numeral)

lemma name_copied:
  assumes "is_tpl e" "no_nul e"
  shows "write_at (fresh m 0 (length e - length tpl_ext + 1)) 0 (strncpy_bytes e (length e - length tpl_ext)) = Some (take (length e - 4) e @ [junk m (length e - 4)])"
    "write_at (take (length e - 4) e @ [junk m (length e - 4)]) (length e - length tpl_ext) [NUL] = Some (take (length e - 4) e @ [NUL])"
    "string_at (take (length e - 4) e @ [NUL]) 0 = Some (take (length e - 4) e)"
proof -
  have l: "length tpl_ext = 4" by (simp add: tpl_ext_def)
  have t: "strncpy_bytes e (length e - 4) = take (length e - 4) e" using strncpy_bytes_exact [OF assms(2)] by simp
  have f: "drop (length e - 4) (fresh m 0 (length e - 4 + 1)) = [junk m (length e - 4)]" by (simp add: fresh_def drop_map)
  show "write_at (fresh m 0 (length e - length tpl_ext + 1)) 0 (strncpy_bytes e (length e - length tpl_ext)) = Some (take (length e - 4) e @ [junk m (length e - 4)])"
    using write_here [of "[]" 0 "take (length e - 4) e" "fresh m 0 (length e - 4 + 1)"] f by (simp add: l t fresh_def)
  show "write_at (take (length e - 4) e @ [junk m (length e - 4)]) (length e - length tpl_ext) [NUL] = Some (take (length e - 4) e @ [NUL])"
    using write_here [of "take (length e - 4) e" "length e - 4" "[NUL]" "[junk m (length e - 4)]"] by (simp add: l)
  show "string_at (take (length e - 4) e @ [NUL]) 0 = Some (take (length e - 4) e)"
    using string_at_start [of "take (length e - 4) e" "[]"] assms(2) by (auto simp: no_nul_def dest: in_set_takeD)
qed

text \<open>What one template, or all of them, do to the two arrays.\<close>

definition arrays_result ::
  "(string \<times> string) list \<Rightarrow> bool \<Rightarrow> string grar \<Rightarrow> string grar \<Rightarrow> mem \<Rightarrow> int \<Rightarrow> EMistErrorCode \<times> string option \<times> string grar \<times> string grar \<times> mem \<Rightarrow> bool" where
  "arrays_result ts fine ns ss m k res \<longleftrightarrow> (case res of (ec, d, ns', ss', m') \<Rightarrow> grar_ok ns' \<and> grar_ok ss'
     \<and> (\<exists>xs ys. elems ns' = elems ns @ xs \<and> elems ss' = elems ss @ ys \<and> live m' = live m + k + int (length xs) + int (length ys) + of_bool (d \<noteq> None)
          \<and> (ec = MIST_OK \<longrightarrow> d = None \<and> xs = map fst ts \<and> ys = map snd ts \<and> (\<forall>n \<in> set xs. \<not> mist_name_is_bad n)))
     \<and> (never_fails m \<and> fine \<longrightarrow> never_fails m' \<and> ec = (if \<forall>n \<in> set (map fst ts). \<not> mist_name_is_bad n then MIST_OK else MIST_BAD_NAME) \<and> (ec \<noteq> MIST_OK \<longrightarrow> d \<noteq> None)))"

lemma arrays_stop:
  assumes "grar_ok ns" "grar_ok ss" "live m' = live m + k + of_bool (d \<noteq> None)" "ec \<noteq> MIST_OK"
    "never_fails m \<and> fine \<longrightarrow> never_fails m' \<and> ec = MIST_BAD_NAME \<and> d \<noteq> None \<and> (\<exists>n \<in> set (map fst ts). mist_name_is_bad n)"
  shows "arrays_result ts fine ns ss m k (ec, d, ns, ss, m')"
  using assms unfolding arrays_result_def prod.case by auto

lemma arrays_step:
  assumes "arrays_result [t] fine1 ns ss m1 k (MIST_OK, d1, ns1, ss1, m2)" "arrays_result ts fine2 ns1 ss1 m2 0 res" "live m1 + k = live m"
    "never_fails m \<and> fine \<longrightarrow> never_fails m1 \<and> fine1" "elems ns1 = elems ns @ [fst t] \<and> elems ss1 = elems ss @ [snd t] \<and> fine \<longrightarrow> fine2"
  shows "arrays_result (t # ts) fine ns ss m 0 res"
proof -
  obtain ec d ns' ss' m' where res: "res = (ec, d, ns', ss', m')" by (cases res)
  have t: "elems ns1 = elems ns @ [fst t]" "elems ss1 = elems ss @ [snd t]" "live m2 = live m + 2" "\<not> mist_name_is_bad (fst t)" "never_fails m \<and> fine \<longrightarrow> never_fails m2"
    using assms(1,3,4) by (auto simp: arrays_result_def)
  obtain xs ys where r: "elems ns' = elems ns1 @ xs" "elems ss' = elems ss1 @ ys" "live m' = live m2 + int (length xs) + int (length ys) + of_bool (d \<noteq> None)"
      "ec = MIST_OK \<longrightarrow> d = None \<and> xs = map fst ts \<and> ys = map snd ts \<and> (\<forall>n \<in> set xs. \<not> mist_name_is_bad n)"
    using assms(2) unfolding res arrays_result_def by auto
  have ok: "grar_ok ns'" "grar_ok ss'" and nf: "never_fails m2 \<and> fine2 \<longrightarrow> never_fails m' \<and> ec = (if \<forall>n \<in> set (map fst ts). \<not> mist_name_is_bad n then MIST_OK else MIST_BAD_NAME) \<and> (ec \<noteq> MIST_OK \<longrightarrow> d \<noteq> None)"
    using assms(2) by (simp_all add: res arrays_result_def)
  have "\<exists>xs ys. elems ns' = elems ns @ xs \<and> elems ss' = elems ss @ ys \<and> live m' = live m + 0 + int (length xs) + int (length ys) + of_bool (d \<noteq> None)
      \<and> (ec = MIST_OK \<longrightarrow> d = None \<and> xs = map fst (t # ts) \<and> ys = map snd (t # ts) \<and> (\<forall>n \<in> set xs. \<not> mist_name_is_bad n))"
    by (rule exI [of _ "fst t # xs"], rule exI [of _ "snd t # ys"]) (use t r in auto)
  moreover have "never_fails m \<and> fine \<longrightarrow> never_fails m' \<and> ec = (if \<forall>n \<in> set (map fst (t # ts)). \<not> mist_name_is_bad n then MIST_OK else MIST_BAD_NAME) \<and> (ec \<noteq> MIST_OK \<longrightarrow> d \<noteq> None)"
    using nf t assms(5) by simp
  ultimately show ?thesis unfolding res arrays_result_def prod.case using ok by blast
qed

lemma arrays_skip:
  "arrays_result ts fine1 ns ss m1 0 res \<Longrightarrow> live m1 = live m \<Longrightarrow> never_fails m \<and> fine \<longrightarrow> never_fails m1 \<and> fine1 \<Longrightarrow> arrays_result ts fine ns ss m 0 res"
  unfolding arrays_result_def by (cases res) simp

lemma arrays_fail:
  "arrays_result [t] fine1 ns ss m1 k (ec, d, ns', ss', m') \<Longrightarrow> ec \<noteq> MIST_OK \<Longrightarrow> live m1 + k = live m \<Longrightarrow> never_fails m \<and> fine \<longrightarrow> never_fails m1 \<and> fine1
     \<Longrightarrow> arrays_result (t # ts) fine ns ss m 0 (ec, d, ns', ss', m')"
  unfolding arrays_result_def prod.case by (auto split: if_splits)

context dir_files
begin

lemma process_file_returns:
  assumes s: "ok s" "p \<noteq> []" "content s p = Some txt" and e: "is_tpl e" "no_nul e" and g: "grar_ok ns" "grar_ok ss"
  shows "returns (process_file P s m p e ns ss) (\<lambda>(ec, d, ns', ss', s', m'). same s s'
     \<and> arrays_result [(take (length e - 4) e, c_str txt)] (small txt \<and> length p + length e < 2 ^ 51 \<and> small (elems ns) \<and> small (elems ss)) ns ss m (- 1) (ec, d, ns', ss', m'))"
proof -
  let ?n = "take (length e - 4) e" and ?fine = "small txt \<and> length p + length e < 2 ^ 51 \<and> small (elems ns) \<and> small (elems ss)"
  let ?R = "arrays_result [(?n, c_str txt)] ?fine ns ss m (- 1)"
  have s0: "same s s" using s(1) by (simp add: same_def)
  note w = name_copied [OF e]
  obtain b m1 where a: "malloc m (length e - length tpl_ext + 1) = (b, m1)" by fastforce
  have sz: "length e - length tpl_ext + 1 \<le> PTRDIFF_MAX" if "length p + length e < 2 ^ 51"
  proof -
    have "length e - length tpl_ext \<le> length e" by simp
    also have "\<dots> \<le> 2251799813685248" using that by simp
    finally show ?thesis unfolding PTRDIFF_MAX_def by linarith
  qed
  have m1: "live m1 = live m + of_bool b" "never_fails m \<and> ?fine \<longrightarrow> never_fails m1 \<and> b"
    using malloc_effect [OF a] malloc_never_fails [OF _ sz a] by blast+
  show ?thesis
  proof (cases b)
    case False
    have "?R (MIST_OUT_OF_MEMORY, None, ns, ss, free m1)" by (rule arrays_stop [OF g]) (use False m1 in auto)
    then show ?thesis using False a s0 by (simp add: process_file_def)
  next
    case True
    note start = process_file_def Let_def a prod.case True simp_thms if_False w(1,2) [of m1] w(3) bind.bind_lunit
    show ?thesis
    proof (cases "mist_name_is_bad ?n")
      case bad: True
      obtain d m2 where d: "message m1 errBadTemplateName [?n, p] = Some (d, m2)" "live m2 = live m1 + of_bool (d \<noteq> None)"
          "never_fails m1 \<and> length errBadTemplateName + (length ?n + length p) < 2 ^ 60 \<longrightarrow> never_fails m2 \<and> d \<noteq> None"
        using message_returns [of m1 errBadTemplateName "[?n, p]"] by (auto simp: returns_iff)
      have "length errBadTemplateName < 100" by (simp add: errBadTemplateName_def)
      then have "?R (MIST_BAD_NAME, d, ns, ss, free (free m2))" by (intro arrays_stop [OF g]) (use d m1 True bad in auto)
      then show ?thesis unfolding start if_P [OF bad] d(1) using s0 True by simp
    next
      case good: False
      obtain ec r s1 m2 where rd: "mist_file_read_all P s m1 p = Some (ec, r, s1, m2)" "same s s1"
          "ec = MIST_OK \<and> r = Some (c_str txt) \<and> live m2 = live m1 + 1 \<or> ec = MIST_OUT_OF_MEMORY \<and> r = None \<and> live m2 = live m1"
          "never_fails m1 \<and> small txt \<longrightarrow> never_fails m2 \<and> ec = MIST_OK"
        using read_all [OF s, of m1] unfolding returns_iff by blast
      show ?thesis
      proof (cases "ec = MIST_OK")
        case False
        then have "?R (MIST_OUT_OF_MEMORY, None, ns, ss, free (free m2))" by (intro arrays_stop [OF g]) (use rd m1 True in auto)
        then show ?thesis unfolding start if_not_P [OF good] rd(1) using rd(2,3) False True by simp
      next
        case okec: True
        then have r: "r = Some (c_str txt)" "live m2 = live m + 2" "never_fails m \<and> ?fine \<longrightarrow> never_fails m2" using rd(3,4) m1 True by auto
        obtain b1 ns' m3 where n: "grar_add_element m2 ns ?n = Some (b1, ns', m3)" "grar_ok ns'" "live m3 = live m2"
            "if b1 then elems ns' = elems ns @ [?n] else ns' = ns" "never_fails m2 \<and> small (elems ns) \<longrightarrow> b1 \<and> never_fails m3"
          using grar_add_element_ok [OF g(1), of m2 ?n] unfolding returns_iff by blast
        obtain b2 ss' m4 where n2: "grar_add_element m3 ss (c_str txt) = Some (b2, ss', m4)" "grar_ok ss'" "live m4 = live m3"
            "if b2 then elems ss' = elems ss @ [c_str txt] else ss' = ss" "never_fails m3 \<and> small (elems ss) \<longrightarrow> b2 \<and> never_fails m4"
          using grar_add_element_ok [OF g(2), of m3 "c_str txt"] unfolding returns_iff by blast
        have "?R (MIST_OUT_OF_MEMORY, None, ns, ss, free (free (free m3)))" if "\<not> b1" by (rule arrays_stop [OF g]) (use that n r in auto)
        moreover have "?R (if b2 then MIST_OK else MIST_OUT_OF_MEMORY, None, ns', ss', if b2 then free m4 else free (free m4))" if "b1"
          using that n n2 r good g unfolding arrays_result_def prod.case by (cases b2) auto
        ultimately show ?thesis unfolding start if_not_P [OF good] rd(1) using okec r(1) n(1,4) n2(1) rd(2) True by (cases b1; cases b2) auto
      qed
    qed
  qed
qed

lemma process_entries_returns:
  "ok s \<Longrightarrow> no_nul dir \<Longrightarrow> \<forall>e \<in> set es. no_nul e \<Longrightarrow> grar_ok ns \<Longrightarrow> grar_ok ss \<Longrightarrow>
     returns (process_entries P s m dir ns ss es) (\<lambda>(ec, d, ns', ss', s', m'). same s s'
       \<and> arrays_result (tpl_files (content s) dir es) (entries_fit (content s) dir es \<and> length (elems ns) + length es < 2 ^ 50 \<and> length (elems ss) + length es < 2 ^ 50) ns ss m 0
           (ec, d, ns', ss', m'))"
proof (induction es arbitrary: s m ns ss)
  case Nil
  then show ?case by (simp add: same_def arrays_result_def)
next
  case (Cons e es)
  let ?fine = "entries_fit (content s) dir (e # es) \<and> length (elems ns) + length (e # es) < 2 ^ 50 \<and> length (elems ss) + length (e # es) < 2 ^ 50"
  let ?R = "arrays_result (tpl_files (content s) dir (e # es)) ?fine ns ss m 0"
  have next_entry: "returns (process_entries P s1 m1 dir ns1 ss1 es) (\<lambda>(ec, d, ns', ss', s', m'). same s s'
        \<and> arrays_result (tpl_files (content s) dir es) (entries_fit (content s) dir es \<and> length (elems ns1) + length es < 2 ^ 50 \<and> length (elems ss1) + length es < 2 ^ 50) ns1 ss1 m1 0
            (ec, d, ns', ss', m'))" if "same s s1" "grar_ok ns1" "grar_ok ss1" for s1 m1 ns1 ss1
    by (rule returns_mono [OF Cons.IH [of s1 ns1 ss1 m1]]) (use that Cons.prems in \<open>auto simp: same_def\<close>)
  have skip: "returns (process_entries P s1 m1 dir ns ss es) (\<lambda>(ec, d, ns', ss', s', m'). same s s' \<and> ?R (ec, d, ns', ss', m'))"
    if "same s s1" "live m1 = live m" "never_fails m \<and> ?fine \<longrightarrow> never_fails m1" "(if is_tpl e then content s (tpl_path dir e) else None) = None" for s1 m1
  proof -
    have "tpl_files (content s) dir (e # es) = tpl_files (content s) dir es" using that(4) by simp
    moreover have "?fine \<longrightarrow> entries_fit (content s) dir es \<and> length (elems ns) + length es < 2 ^ 50 \<and> length (elems ss) + length es < 2 ^ 50" by (auto simp: entries_fit_def)
    ultimately have "?R res" if "arrays_result (tpl_files (content s) dir es) (entries_fit (content s) dir es \<and> length (elems ns) + length es < 2 ^ 50 \<and> length (elems ss) + length es < 2 ^ 50)
        ns ss m1 0 res" for res
      using arrays_skip [OF that] \<open>live m1 = live m\<close> \<open>never_fails m \<and> ?fine \<longrightarrow> never_fails m1\<close> by metis
    then show ?thesis using next_entry [OF that(1) Cons.prems(4,5), of m1] unfolding returns_iff by blast
  qed
  have s0: "same s s" using Cons.prems(1) by (simp add: same_def)
  have eq: "process_entries P s m dir ns ss (e # es) = (if is_tpl e then do {
       (pfile, m) \<leftarrow> mist_path_sum m dir e;
       (case pfile of
          None \<Rightarrow> Some (MIST_OUT_OF_MEMORY, None, ns, ss, s, m)
        | Some pfile \<Rightarrow> do {
            (r, s) \<leftarrow> mist_file_exists P s pfile;
            if \<not> r then process_entries P s (free m) dir ns ss es
            else do {
              (ec, d, ns, ss, s, m) \<leftarrow> process_file P s m pfile e ns ss;
              if ec \<noteq> MIST_OK then Some (ec, d, ns, ss, s, m) else process_entries P s m dir ns ss es
            }
          })
     } else process_entries P s m dir ns ss es)"
    by (simp only: process_entries.simps Let_def tpl_test)
  show ?case
  proof (cases "is_tpl e")
    case False
    then show ?thesis unfolding eq using skip [OF s0] by simp
  next
    case True
    let ?p = "tpl_path dir e"
    have p: "?p \<noteq> []" "length ?p \<le> length dir + length e + 1" using True by (auto simp: tpl_path_def path_join_def is_tpl_def)
    obtain r m1 where r: "mist_path_sum m dir e = Some (r, m1)" "live m1 = live m + of_bool (r \<noteq> None)" "r = None \<or> r = Some ?p"
        "never_fails m \<and> length dir + length e < 2 ^ 50 \<longrightarrow> never_fails m1 \<and> r \<noteq> None"
      using path_sum_returns [of dir e m] Cons.prems(2,3) by (auto simp: returns_iff tpl_path_def)
    have fe: "?fine \<longrightarrow> length dir + length e < 2 ^ 50" by (simp add: entries_fit_def)
    show ?thesis
    proof (cases r)
      case None
      have "?R (MIST_OUT_OF_MEMORY, None, ns, ss, m1)" by (rule arrays_stop [OF Cons.prems(4,5)]) (use None r fe in auto)
      then show ?thesis unfolding eq using True None r(1) s0 by simp
    next
      case (Some q)
      then have q: "q = ?p" using r(3) by simp
      obtain s1 where s1: "mist_file_exists P s q = Some (content s ?p \<noteq> None, s1)" "same s s1" using file_exists [OF Cons.prems(1) p(1)] q by (auto simp: returns_iff)
      show ?thesis
      proof (cases "content s ?p")
        case c: None
        have "returns (process_entries P s1 (free m1) dir ns ss es) (\<lambda>(ec, d, ns', ss', s', m'). same s s' \<and> ?R (ec, d, ns', ss', m'))"
          by (rule skip [OF s1(2)]) (use r Some c fe in auto)
        then show ?thesis unfolding eq using True Some r(1) s1(1) c by simp
      next
        case (Some text0)
        let ?t = "(take (length e - 4) e, c_str text0)" and ?f1 = "small text0 \<and> length q + length e < 2 ^ 51 \<and> small (elems ns) \<and> small (elems ss)"
        have ts: "tpl_files (content s) dir (e # es) = ?t # tpl_files (content s) dir es" using True Some by simp
        have ok1: "ok s1" "content s1 q = Some text0" using s1(2) Some q by (auto simp: same_def)
        have fine: "never_fails m \<and> ?fine \<longrightarrow> never_fails m1 \<and> ?f1"
          using r(4) fe p(2) Some q by (auto simp: entries_fit_def small_def)
        obtain ec d ns1 ss1 s2 m2 where f: "process_file P s1 m1 q e ns ss = Some (ec, d, ns1, ss1, s2, m2)" "same s1 s2"
            "arrays_result [?t] ?f1 ns ss m1 (- 1) (ec, d, ns1, ss1, m2)"
          using process_file_returns [OF ok1(1) p(1) [folded q] ok1(2) True _ Cons.prems(4,5), of m1] Cons.prems(3) unfolding returns_iff by auto
        have l: "live m1 + - 1 = live m" using r(2) \<open>r = Some q\<close> by simp
        have run: "process_entries P s m dir ns ss (e # es) = (if ec \<noteq> MIST_OK then Some (ec, d, ns1, ss1, s2, m2) else process_entries P s2 m2 dir ns1 ss1 es)"
          unfolding eq using True \<open>r = Some q\<close> r(1) s1(1) Some f(1) by simp
        show ?thesis
        proof (cases "ec = MIST_OK")
          case False
          have "?R (ec, d, ns1, ss1, m2)" unfolding ts by (rule arrays_fail [OF f(3) False l fine])
          then show ?thesis unfolding run using False same_trans [OF s1(2) f(2)] by simp
        next
          case ok: True
          have g: "grar_ok ns1" "grar_ok ss1" using f(3) by (simp_all add: arrays_result_def)
          have "returns (process_entries P s2 m2 dir ns1 ss1 es) (\<lambda>(ec, d, ns', ss', s', m'). same s s' \<and> ?R (ec, d, ns', ss', m'))"
          proof -
            have "?R res" if a: "arrays_result (tpl_files (content s) dir es) (entries_fit (content s) dir es \<and> length (elems ns1) + length es < 2 ^ 50 \<and> length (elems ss1) + length es < 2 ^ 50)
                ns1 ss1 m2 0 res" for res
              unfolding ts by (rule arrays_step [OF f(3) [unfolded ok] a l fine]) (auto simp: entries_fit_def)
            then show ?thesis using next_entry [OF same_trans [OF s1(2) f(2)] g, of m2] unfolding returns_iff by blast
          qed
          then show ?thesis unfolding run using ok by simp
        qed
      qed
    qed
  qed
qed

end

section \<open>The directory\<close>

definition dir_code :: "(string \<times> string) list \<Rightarrow> EMistErrorCode" where
  "dir_code ts = (if \<exists>n \<in> set (map fst ts). mist_name_is_bad n then MIST_BAD_NAME else if ts = [] then MIST_NO_TPL_FILES else MIST_OK)"

definition dir_result ::
  "(string \<times> string) list \<Rightarrow> bool \<Rightarrow> mem \<Rightarrow> EMistErrorCode \<times> (string grar \<times> string grar) option \<times> string option \<times> mem \<Rightarrow> bool" where
  "dir_result ts fine m res \<longleftrightarrow> (case res of (ec, arrays, d, m') \<Rightarrow>
     (case arrays of
        None \<Rightarrow> ec \<noteq> MIST_OK \<and> live m' = live m + of_bool (d \<noteq> None)
      | Some (ns, ss) \<Rightarrow> ec = MIST_OK \<and> dir_code ts = MIST_OK \<and> d = None \<and> grar_ok ns \<and> grar_ok ss \<and> elems ns = map fst ts \<and> elems ss = map snd ts
          \<and> live m' = live m + 2 + 2 * int (length ts))
     \<and> (never_fails m \<and> fine \<longrightarrow> never_fails m' \<and> ec = dir_code ts \<and> (ec \<noteq> MIST_OK \<longrightarrow> d \<noteq> None)))"

lemma dir_full: "live m' = live m \<Longrightarrow> \<not> never_fails m \<Longrightarrow> dir_result ts fine m (MIST_OUT_OF_MEMORY, None, None, m')"
  by (simp add: dir_result_def)

text \<open>The end of \<open>mist_tg_process_dir\<close>, for the arrays the loop leaves.\<close>

lemma dir_end:
  assumes a: "arrays_result ts fine1 ns0 ss0 m1 0 (ec, d, ns, ss, m2)" and e: "elems ns0 = []" "elems ss0 = []"
    and m1: "live m1 = live m + 2" "never_fails m \<and> fine \<longrightarrow> never_fails m1 \<and> fine1 \<and> length dir < 2 ^ 50"
  shows "returns (if ec \<noteq> MIST_OK then
        Some (ec, None, d, s, snd (grar_destroy_with_elements (snd (grar_destroy_with_elements m2 ns None)) ss None))
      else if grar_get_size ns = 0 then do {
        (d, m) \<leftarrow> message (snd (grar_destroy (snd (grar_destroy m2 ns)) ss)) errNoTplFiles [dir];
        Some (MIST_NO_TPL_FILES, None, d, s, m)
      } else Some (MIST_OK, Some (ns, ss), None, s, m2))
      (\<lambda>(ec, arrays, d, s', m'). s' = s \<and> dir_result ts fine m (ec, arrays, d, m'))"
proof -
  have g: "grar_ok ns" "grar_ok ss" using a by (simp_all add: arrays_result_def)
  obtain xs ys where x: "elems ns = xs" "elems ss = ys" "live m2 = live m1 + int (length xs) + int (length ys) + of_bool (d \<noteq> None)"
      "ec = MIST_OK \<longrightarrow> d = None \<and> xs = map fst ts \<and> ys = map snd ts \<and> (\<forall>n \<in> set xs. \<not> mist_name_is_bad n)"
    using a e by (auto simp: arrays_result_def)
  have nf: "never_fails m \<and> fine \<longrightarrow> never_fails m2 \<and> ec = (if \<forall>n \<in> set (map fst ts). \<not> mist_name_is_bad n then MIST_OK else MIST_BAD_NAME) \<and> (ec \<noteq> MIST_OK \<longrightarrow> d \<noteq> None)"
    using a m1(2) by (simp add: arrays_result_def)
  show ?thesis
  proof (cases "ec = MIST_OK")
    case False
    then show ?thesis using g x m1 nf by (auto simp: dir_result_def dir_code_def)
  next
    case True
    show ?thesis
    proof (cases "ts = []")
      case False
      then show ?thesis using True g x m1(1) nf by (auto simp: dir_result_def dir_code_def grar_get_size_def)
    next
      case empty: True
      let ?m = "snd (grar_destroy (snd (grar_destroy m2 ns)) ss)"
      obtain d1 m3 where d1: "message ?m errNoTplFiles [dir] = Some (d1, m3)" "live m3 = live ?m + of_bool (d1 \<noteq> None)"
          "never_fails ?m \<and> length errNoTplFiles + sum_list (map length [dir]) < 2 ^ 60 \<longrightarrow> never_fails m3 \<and> d1 \<noteq> None"
        using message_returns [of ?m errNoTplFiles "[dir]"] unfolding returns_iff by blast
      have "live m3 = live m + of_bool (d1 \<noteq> None)" using d1(2) g x m1(1) True empty by simp
      moreover have "never_fails m \<and> fine \<longrightarrow> never_fails m3 \<and> d1 \<noteq> None" using d1(3) nf m1(2) by (auto simp: errNoTplFiles_def)
      ultimately show ?thesis using True empty x d1(1) nf by (auto simp: dir_result_def dir_code_def grar_get_size_def)
    qed
  qed
qed

context dir_files
begin

lemma process_dir_returns:
  assumes s: "ok s" "listing s dir = Some es" and dir: "no_nul dir" "\<forall>e \<in> set es. no_nul e"
  shows "returns (mist_tg_process_dir P s m dir) (\<lambda>(ec, arrays, d, s', m'). same s s' \<and> dir_result (tpl_files (content s) dir es) (entries_fit (content s) dir es \<and> length es < 2 ^ 50 \<and> length dir < 2 ^ 50) m (ec, arrays, d, m'))"
proof -
  let ?ts = "tpl_files (content s) dir es" and ?fine = "entries_fit (content s) dir es \<and> length es < 2 ^ 50 \<and> length dir < 2 ^ 50"
  obtain g1 :: "string grar option" and m1 where g1: "grar_create m = (g1, m1)" by fastforce
  show ?thesis
  proof (cases g1)
    case None
    then show ?thesis using g1 grar_create_ok [OF g1] by (auto simp: mist_tg_process_dir_def same_def s(1) intro: dir_full)
  next
    case (Some ns)
    obtain g2 :: "string grar option" and m2 where g2: "grar_create m1 = (g2, m2)" by fastforce
    have ns: "grar_ok ns" "elems ns = []" "live m1 = live m + 1" "never_fails m \<longrightarrow> never_fails m1" using grar_create_ok [OF g1] Some by auto
    show ?thesis
    proof (cases g2)
      case None
      then show ?thesis using g1 g2 Some ns grar_create_ok [OF g2] by (auto simp: mist_tg_process_dir_def same_def s(1) intro!: dir_full)
    next
      case ss: (Some ss)
      have m2: "grar_ok ss" "elems ss = []" "live m2 = live m + 2" "never_fails m \<longrightarrow> never_fails m2" using grar_create_ok [OF g2] ss ns by auto
      obtain es' s1 where o: "opendir P dir s = (es', s1)" by fastforce
      have o1: "es' = Some es" "ok s1" "content s1 = content s" "listing s1 = listing s" using listed [OF s(1) o] s(2) by auto
      obtain ec d ns' ss' s2 m3 where p: "process_entries P s1 m2 dir ns ss es = Some (ec, d, ns', ss', s2, m3)" "same s1 s2"
          "arrays_result ?ts (entries_fit (content s) dir es \<and> length (elems ns) + length es < 2 ^ 50 \<and> length (elems ss) + length es < 2 ^ 50) ns ss m2 0 (ec, d, ns', ss', m3)"
        using process_entries_returns [OF o1(2) dir ns(1) m2(1), of m2] unfolding returns_iff o1(3) by blast
      have cl: "same s (closedir P s2)" using left [of s2] p(2) o1 by (simp add: same_def)
      have "returns (mist_tg_process_dir P s m dir) (\<lambda>(ec, arrays, d, s', m'). s' = closedir P s2 \<and> dir_result ?ts ?fine m (ec, arrays, d, m'))"
        unfolding mist_tg_process_dir_def g1 Some g2 ss o o1(1) prod.case option.case p(1) bind.bind_lunit Let_def
        by (rule dir_end [OF p(3) ns(2) m2(2,3)]) (use m2 ns in auto)
      then show ?thesis by (rule returns_mono) (use cl in auto)
    qed
  qed
qed

end

end
