(* ===== verification/Mist_Config_Sizes.thy ===== *)
theory Mist_Config_Sizes
  imports Mist_Config_Correct
begin

text \<open>
  The definitions of a configuration file are C strings that are not longer than the file.
\<close>

definition line_total :: "string list \<Rightarrow> nat" where
  "line_total ls = sum_list (map length ls)"

lemma line_total_simps [simp]: "line_total [] = 0" "line_total (l # ls) = length l + line_total ls"
  by (simp_all add: line_total_def)

lemma rtrim_plain: "length (rtrim s) \<le> length s" "no_nul s \<Longrightarrow> no_nul (rtrim s)"
proof -
  show "length (rtrim s) \<le> length s" using length_dropWhile_le [of is_ws "rev s"] by (simp add: rtrim_def)
  show "no_nul (rtrim s)" if "no_nul s" using that unfolding rtrim_def no_nul_def by (metis set_dropWhileD set_rev)
qed

lemma butlast_plain: "no_nul s \<Longrightarrow> no_nul (butlast s)"
  by (auto simp: no_nul_def dest: in_set_butlastD)

lemma merge_lines_plain:
  "merge_lines acc seg ls = Some (v, ls') \<Longrightarrow> no_nul acc \<Longrightarrow> no_nul seg \<Longrightarrow> list_all no_nul ls
     \<Longrightarrow> no_nul v \<and> list_all no_nul ls' \<and> length v + line_total ls' \<le> length acc + length seg + line_total ls"
proof (induction acc seg ls rule: merge_lines.induct)
  case (1 acc seg)
  then show ?case by (auto split: if_splits)
next
  case (2 acc seg l ls)
  let ?acc = "acc @ rtrim (butlast seg)"
  show ?case
  proof (cases "seg \<noteq> [] \<and> last seg = CHR 0x5C")
    case False
    then show ?thesis using 2 by auto
  next
    case True
    have acc: "no_nul ?acc" "Suc (length ?acc) \<le> length acc + length seg"
      using 2 True rtrim_plain [of "butlast seg"] butlast_plain [of seg] by (auto simp: Suc_le_eq) (metis One_nat_def Suc_pred le_imp_less_Suc length_greater_0_conv)
    show ?thesis
    proof (cases "trim l = []")
      case empty: True
      then show ?thesis using 2(2,5) True acc by (auto simp: Let_def)
    next
      case line: False
      have "merge_lines (?acc @ '' '') (trim l) ls = Some (v, ls')" using 2(2) True line by (simp add: Let_def)
      moreover have "no_nul (?acc @ '' '')" "no_nul (trim l)" "list_all no_nul ls" using acc(1) 2(5) by (auto simp: NUL_def)
      ultimately have "no_nul v \<and> list_all no_nul ls' \<and> length v + line_total ls' \<le> length (?acc @ '' '') + length (trim l) + line_total ls"
        using 2(1) [OF True refl line] by blast
      then show ?thesis using acc(2) length_trim [of l] by simp
    qed
  qed
qed

lemma multi_lines_plain:
  "multi_lines acc ls = Some (v, ls') \<Longrightarrow> no_nul acc \<Longrightarrow> list_all no_nul ls \<Longrightarrow> no_nul v \<and> list_all no_nul ls' \<and> length v + line_total ls' \<le> length acc + line_total ls"
  by (induction acc ls rule: multi_lines.induct) (force split: if_splits)+

lemma line_kind_plain: "line_kind t = (mlt, name, v) \<Longrightarrow> no_nul t \<Longrightarrow> no_nul name \<and> no_nul v \<and> length name \<le> length t \<and> length v \<le> length t"
proof -
  assume k: "line_kind t = (mlt, name, v)" and t: "no_nul t"
  let ?n = "takeWhile (\<lambda>c. c \<notin> {CHR '' '', CHR 0x09, CHR ''=''}) t"
  let ?r = "dropWhile is_ws (drop (length ?n) t)"
  have n: "no_nul ?n" "length ?n \<le> length t" using t by (auto simp: no_nul_def length_takeWhile_le dest: set_takeWhileD)
  have "set (dropWhile is_ws (tl ?r)) \<subseteq> set (tl ?r)" by (auto dest: set_dropWhileD)
  also have "\<dots> \<subseteq> set ?r" by (metis list.set_sel(2) subsetI tl_Nil)
  also have "\<dots> \<subseteq> set t" by (auto dest: set_dropWhileD in_set_dropD)
  finally have r: "no_nul (dropWhile is_ws (tl ?r))" using t by (auto simp: no_nul_def)
  have "length (dropWhile is_ws (tl ?r)) \<le> length (tl ?r)" by (rule length_dropWhile_le)
  also have "\<dots> \<le> length ?r" by simp
  also have "\<dots> \<le> length t" using length_dropWhile_le [of is_ws "drop (length ?n) t"] by simp
  finally show ?thesis using k n r by (auto simp: line_kind_def Let_def split: if_splits)
qed

lemma config_step_plain:
  assumes "config_step n l ls = Inr (d, ls')" "no_nul l" "list_all no_nul ls"
  shows "list_all no_nul ls' \<and> line_total ls' \<le> length l + line_total ls
     \<and> (\<forall>p. d = Some p \<longrightarrow> no_nul (fst p) \<and> no_nul (snd p) \<and> length (fst p) \<le> length l \<and> length (snd p) + line_total ls' \<le> length l + line_total ls)"
proof -
  obtain mlt name v where k: "line_kind (trim l) = (mlt, name, v)" by (metis prod_cases3)
  note p = line_kind_plain [OF k no_nul_trim [OF assms(2)]] and lt = length_trim [of l]
  have m: "no_nul w \<and> list_all no_nul ls' \<and> length w + line_total ls' \<le> length l + line_total ls" if "merge_lines [] v ls = Some (w, ls')" for w ls'
    using merge_lines_plain [OF that _ _ assms(3)] p lt by auto
  have u: "no_nul (trim w) \<and> list_all no_nul ls' \<and> length (trim w) + line_total ls' \<le> length l + line_total ls" if "multi_lines [] ls = Some (w, ls')" for w ls'
    using multi_lines_plain [OF that _ assms(3)] length_trim [of w] by auto
  show ?thesis using assms p lt by (auto simp: config_step_def define_step_def k dest!: m u split: EMistLineType.splits option.splits if_splits)
qed

lemma config_plain:
  "config n ls = (defs, e) \<Longrightarrow> list_all no_nul ls \<Longrightarrow> \<forall>p \<in> set defs. no_nul (fst p) \<and> no_nul (snd p) \<and> length (fst p) \<le> line_total ls \<and> length (snd p) \<le> line_total ls"
proof (induction n ls arbitrary: defs e rule: config.induct)
  case (2 n l ls)
  show ?case
  proof (cases "config_step (n + 1) l ls")
    case (Inl x)
    then show ?thesis using 2(2) by simp
  next
    case (Inr y)
    obtain d ls' where y: "y = (d, ls')" by (cases y)
    obtain ps e' where c: "config (n + 1 + (length ls - length ls')) ls' = (ps, e')" by fastforce
    have pl: "no_nul l" "list_all no_nul ls" using 2(3) by simp_all
    note st = config_step_plain [OF Inr [unfolded y] pl]
    have s: "list_all no_nul ls'" "line_total ls' \<le> line_total (l # ls)" using st by simp_all
    have sd: "no_nul (fst p) \<and> no_nul (snd p) \<and> length (fst p) \<le> line_total (l # ls) \<and> length (snd p) \<le> line_total (l # ls)" if "d = Some p" for p
    proof -
      have "no_nul (fst p) \<and> no_nul (snd p) \<and> length (fst p) \<le> length l \<and> length (snd p) + line_total ls' \<le> length l + line_total ls" using st that by blast
      then show ?thesis by simp
    qed
    show ?thesis
    proof
      fix p
      assume "p \<in> set defs"
      then consider "p \<in> set ps" | "d = Some p" using 2(2) Inr y c by (auto split: option.splits)
      then show "no_nul (fst p) \<and> no_nul (snd p) \<and> length (fst p) \<le> line_total (l # ls) \<and> length (snd p) \<le> line_total (l # ls)"
      proof cases
        case 1
        then show ?thesis using 2(1) [OF Inr y [symmetric] c s(1)] order_trans [OF _ s(2)] by blast
      next
        case 2
        then show ?thesis by (rule sd)
      qed
    qed
  qed
qed simp

lemma file_lines_plain: "no_nul s \<Longrightarrow> list_all no_nul (file_lines s) \<and> line_total (file_lines s) = length s"
proof (induction s rule: file_lines.induct)
  case (1 s)
  show ?case
  proof (cases "s = []")
    case False
    let ?l = "take_line (length s) s"
    have s: "s = ?l @ drop (length ?l) s" by (rule take_line_prefix)
    then have "no_nul ?l" "no_nul (drop (length ?l) s)" using 1(2) by (metis no_nul_simps(3))+
    moreover have "length s = length ?l + length (drop (length ?l) s)" using s by (metis length_append)
    ultimately show ?thesis using 1(1) [OF False] False by (simp add: file_lines.simps [of s])
  qed simp
qed

end
