(* ===== verification/Mist_Group_Load.thy ===== *)
theory Mist_Group_Load
  imports Mist_Group_Dir Mist_Config_Sizes
begin

text \<open>
  The groups of a directory, as \<open>mist_tg_load_from_dir_impl\<close> makes them: every outcome is a function of the configuration file and of
  the files of the directory.
\<close>

section \<open>A group of one template\<close>

lemma create_result_within:
  assumes "create_result names strings bm em name m1 (tg, bad, d, m2)" "live m1 = live m + k" "live m' = live m2 - k" "never_fails m \<longrightarrow> never_fails m1"
    "never_fails m' = never_fails m2"
  shows "create_result names strings bm em name m (tg, bad, d, m')"
  using assms unfolding create_result_def prod.case by (cases tg) simp_all

lemma create_result_full: "live m' = live m \<Longrightarrow> \<not> never_fails m \<Longrightarrow> create_result names strings bm em name m (None, None, None, m')"
  by (simp add: create_result_def)

lemma create_single_returns:
  assumes lib: "libc_search qs bs" "libc_search qstr bstr" and ne: "name \<noteq> []" "bm \<noteq> []" "em \<noteq> []" and str: "no_nul str" "small name"
  shows "returns (mist_tg_create_single_impl qs qstr bs m name str bm em) (\<lambda>(tg, d, m'). \<exists>bad. create_result [name] [str] bm em name m (tg, bad, d, m'))"
proof -
  have chk: "check (name \<noteq> [] \<and> bm \<noteq> [] \<and> em \<noteq> []) = Some ()" using ne by (simp add: check_def)
  have full: "\<exists>bad. create_result [name] [str] bm em name m (None, bad, None, m')" if "live m' = live m" "\<not> never_fails m" for m'
    using create_result_full [OF that] by blast
  obtain g1 :: "string grar option" and m1 where g1: "grar_create m = (g1, m1)" by fastforce
  note e1 = grar_create_ok [OF g1]
  show ?thesis
  proof (cases g1)
    case None
    then show ?thesis using g1 e1 chk by (auto simp: mist_tg_create_single_impl_def intro!: full)
  next
    case (Some ns0)
    then have ns0: "grar_ok ns0" "elems ns0 = []" "live m1 = live m + 1" "never_fails m \<longrightarrow> never_fails m1" using e1 by auto
    obtain b1 ns m2 where n: "grar_add_element m1 ns0 name = Some (b1, ns, m2)" "grar_ok ns" "live m2 = live m1"
        "if b1 then elems ns = elems ns0 @ [name] else ns = ns0" "never_fails m1 \<and> small (elems ns0) \<longrightarrow> b1 \<and> never_fails m2"
      using grar_add_element_ok [OF ns0(1), of m1 name] unfolding returns_iff by blast
    note start = mist_tg_create_single_impl_def chk bind.bind_lunit g1 Some prod.case option.case n(1)
    obtain g2 :: "string grar option" and m3 where g2: "grar_create m2 = (g2, m3)" by fastforce
    note e2 = grar_create_ok [OF g2]
    consider (no) "\<not> b1" | (none) "b1" "g2 = None" | (some) ss0 where "b1" "g2 = Some ss0" by (cases g2) auto
    then show ?thesis
    proof cases
      case no
      then show ?thesis unfolding start using n ns0 by (auto intro!: full)
    next
      case none
      then show ?thesis unfolding start using n ns0 g2 e2 by (auto intro!: full)
    next
      case some
      then have ss0: "grar_ok ss0" "elems ss0 = []" "live m3 = live m + 2" "never_fails m \<longrightarrow> never_fails m3" using e2 n ns0 by auto
      obtain b2 ss m4 where s: "grar_add_element m3 ss0 str = Some (b2, ss, m4)" "grar_ok ss" "live m4 = live m3"
          "if b2 then elems ss = elems ss0 @ [str] else ss = ss0" "never_fails m3 \<and> small (elems ss0) \<longrightarrow> b2 \<and> never_fails m4"
        using grar_add_element_ok [OF ss0(1), of m3 str] unfolding returns_iff by blast
      show ?thesis
      proof (cases b2)
        case False
        then show ?thesis unfolding start using n ns0 g2 some s ss0 by (auto intro!: full)
      next
        case True
        have el: "elems ns = [name]" "elems ss = [str]" using some(1) True n(4) s(4) ns0(2) ss0(2) by simp_all
        obtain tg bad d m5 where c: "mist_tg_create_impl qs qstr bs m4 name ns ss bm em = Some (tg, bad, d, m5)" "create_result [name] [str] bm em name m4 (tg, bad, d, m5)"
          using create_impl_returns [OF lib ne, of ns ss m4] el str unfolding returns_iff by auto
        have "create_result [name] [str] bm em name m (tg, bad, d, snd (grar_destroy (snd (grar_destroy m5 ss)) ns))"
          by (rule create_result_within [OF c(2), of _ 2]) (use s ss0 n True in auto)
        then show ?thesis unfolding start using some g2 s(1) True c(1) by auto
      qed
    qed
  qed
qed

section \<open>The two groups\<close>

definition readable :: "string \<Rightarrow> string \<Rightarrow> string list \<Rightarrow> tmpl list \<Rightarrow> bool" where
  "readable bm em strings Ts \<longleftrightarrow> list_all2 (\<lambda>s T. reads s bm em (Inr T)) strings Ts"

text \<open>The path and all the templates can be read, and there is something to generate.\<close>

definition loadable :: "string \<Rightarrow> string \<Rightarrow> string \<Rightarrow> string \<Rightarrow> (string \<times> string) list \<Rightarrow> bool" where
  "loadable name_main path bm em ts \<longleftrightarrow> (\<exists>T. reads path bm em (Inr T))
     \<and> (\<exists>Ts. readable bm em (map snd ts) Ts \<and> name_main \<in> set (map fst ts) \<union> \<Union> (set ` tree_names ` set Ts))"

definition groups_of :: "string \<Rightarrow> string \<Rightarrow> string \<Rightarrow> string \<Rightarrow> (string \<times> string) list \<Rightarrow> CMistTemplateGroup \<Rightarrow> CMistTemplateGroup \<Rightarrow> bool" where
  "groups_of name_main path bm em ts main_tg path_tg \<longleftrightarrow> (\<exists>Ts. readable bm em (map snd ts) Ts \<and> group_spec (map fst ts) Ts name_main main_tg)
     \<and> (\<exists>T. reads path bm em (Inr T) \<and> group_spec [fp_tpl_name] [T] fp_tpl_name path_tg)"

lemma groups_loadable: "groups_of name_main path bm em ts main_tg path_tg \<Longrightarrow> loadable name_main path bm em ts"
proof -
  assume g: "groups_of name_main path bm em ts main_tg path_tg"
  obtain Ts where Ts: "readable bm em (map snd ts) Ts" "group_spec (map fst ts) Ts name_main main_tg" using g unfolding groups_of_def by blast
  obtain attrs where "set attrs = \<Union> (set ` tree_names ` set Ts) - set (map fst ts)" "name_main \<in> set (map fst ts) \<union> set attrs"
    using Ts(2) unfolding group_spec_def Let_def by blast
  then have "name_main \<in> set (map fst ts) \<union> \<Union> (set ` tree_names ` set Ts)" by blast
  then show ?thesis using Ts(1) g unfolding groups_of_def loadable_def by blast
qed

definition groups_result ::
  "string \<Rightarrow> string \<Rightarrow> string \<Rightarrow> string \<Rightarrow> (string \<times> string) list \<Rightarrow> bool \<Rightarrow> mem \<Rightarrow> EMistErrorCode \<times> (CMistTemplateGroup \<times> CMistTemplateGroup) option \<times> string option \<times> mem \<Rightarrow> bool" where
  "groups_result name_main path bm em ts fine m res \<longleftrightarrow> (case res of (ec, tgs, d, m') \<Rightarrow>
     (case tgs of
        None \<Rightarrow> ec = MIST_FAILED_TO_LOAD_TEMPLATE \<and> live m + of_bool (d \<noteq> None) \<le> live m'
      | Some (main_tg, path_tg) \<Rightarrow> ec = MIST_OK \<and> d = None \<and> groups_of name_main path bm em ts main_tg path_tg
          \<and> live m' = live m + tg_blocks main_tg + tg_blocks path_tg)
     \<and> (never_fails m \<and> fine \<longrightarrow> (if loadable name_main path bm em ts then tgs \<noteq> None \<and> never_fails m' else tgs = None \<and> live m' = live m + of_bool (d \<noteq> None))))"

lemma failed_to_load_returns:
  "returns (failed_to_load m bad err) (\<lambda>(d, m'). live m' = live m + of_bool (d \<noteq> None) - of_bool (err \<noteq> None) \<and> (err = None \<longrightarrow> d = None))"
proof (cases err)
  case (Some e)
  obtain d m' where "message m errFailedToLoadTpl [bad, e] = Some (d, m')" "live m' = live m + of_bool (d \<noteq> None)"
    using message_returns [of m errFailedToLoadTpl "[bad, e]"] unfolding returns_iff by blast
  then show ?thesis using Some by (simp add: failed_to_load_def)
qed (simp add: failed_to_load_def)

lemma destroy_impl_live: "grar_inv tpl \<Longrightarrow> live (mist_tg_destroy_impl m tpl) = live m - (2 + gblocks (elems tpl))"
  using grar_destroy_with_elements_effect [of mist_template_destroy tpl_blocks m tpl] destroy_live
  by (simp add: mist_tg_destroy_impl_def gblocks_def)

text \<open>Where the memory suffices, only what cannot be read, or a missing main template, is refused.\<close>

lemma refused_unreadable:
  assumes "create_result names strings bm em name m (None, bad, d, m')" "never_fails m" "small name" "length names + sum_list (map length strings) < 2 ^ 50"
    "length strings = length names" "\<forall>n \<in> set names. \<not> mist_name_is_bad n" "bm \<noteq> []" "em \<noteq> []"
  shows "live m' = live m + 1" "d \<noteq> None" "\<not> (\<exists>Ts. readable bm em strings Ts \<and> name \<in> set names \<union> \<Union> (set ` tree_names ` set Ts))"
proof -
  have c: "live m' = live m + 1" "(\<exists>k < length names. bad = Some k \<and> refused (names ! k) (strings ! k) bm em d)
      \<or> d = Some (format_string errNoMainTemplate [ArgS name]) \<and> (\<exists>Ts. readable bm em strings Ts \<and> name \<notin> set names \<union> \<Union> (set ` tree_names ` set Ts))"
    using assms(1-4) unfolding create_result_def readable_def prod.case option.case by blast+
  show "live m' = live m + 1" by (rule c(1))
  from c(2) show "d \<noteq> None" by (auto simp: refused_def split: if_splits)
  from c(2) show "\<not> (\<exists>Ts. readable bm em strings Ts \<and> name \<in> set names \<union> \<Union> (set ` tree_names ` set Ts))"
  proof (elim disjE exE conjE)
    fix k
    assume k: "k < length names" "refused (names ! k) (strings ! k) bm em d"
    then have "\<not> reads (strings ! k) bm em (Inr T)" for T using refused_no_tree [OF k(2) _ assms(7,8)] assms(6) by simp
    then show ?thesis using k(1) assms(5) unfolding readable_def by (metis list_all2_conv_all_nth)
  next
    fix Us
    assume "readable bm em strings Us" "name \<notin> set names \<union> \<Union> (set ` tree_names ` set Us)"
    then show ?thesis using reads_list_unique [OF _ _ assms(7,8)] unfolding readable_def by metis
  qed
qed


text \<open>The index that is handed out is one of a name.\<close>

lemma load_templates_bad_index: "load_templates m tpl i names strings bm em = Some (r, Some k, d, tpl', m') \<Longrightarrow> k < i + length names"
proof (induction names arbitrary: m tpl i strings)
  case (Cons name names)
  show ?case
  proof (cases strings)
    case Nil
    then show ?thesis using Cons.prems by simp
  next
    case (Cons str strings')
    show ?thesis using Cons.prems unfolding Cons
      by (auto simp: check_def split: if_splits option.splits prod.splits Option.bind_splits dest!: Cons.IH)
  qed
qed simp

lemma create_impl_bad_index: "mist_tg_create_impl qs qstr bs m name ns ss bm em = Some (tg, Some k, d, m') \<Longrightarrow> k < length (elems ns)"
  by (auto simp: mist_tg_create_impl_def split: if_splits option.splits prod.splits Option.bind_splits dest: load_templates_bad_index)

lemma make_groups_returns:
  assumes lib: "libc_search qs bs" "libc_search qstr bstr" and ne: "name_main \<noteq> []" "bm \<noteq> []" "em \<noteq> []" and path: "no_nul path"
    and arr: "elems ns = map fst ts" "elems ss = map snd ts" "ts \<noteq> []" and ts: "\<forall>t \<in> set ts. small (fst t) \<and> no_nul (snd t) \<and> \<not> mist_name_is_bad (fst t)"
    and fine: "fine \<longrightarrow> small name_main \<and> length path + 1 < 2 ^ 50 \<and> length ts + sum_list (map (length \<circ> snd) ts) < 2 ^ 50"
  shows "returns (make_groups qs qstr bs m name_main path bm em ns ss) (groups_result name_main path bm em ts fine m)"
proof -
  let ?R = "groups_result name_main path bm em ts fine m"
  have fp: "fp_tpl_name \<noteq> []" "small fp_tpl_name" "\<not> mist_name_is_bad fp_tpl_name" by (simp_all add: fp_tpl_name_def small_def mist_name_is_bad_def char_is_bad_iff name_char_def)
  have sizes: "grar_get_size ns = grar_get_size ss" using arr by (simp add: grar_get_size_def)
  obtain ptg err m1 bad where p: "mist_tg_create_single_impl qs qstr bs m fp_tpl_name path bm em = Some (ptg, err, m1)" "create_result [fp_tpl_name] [path] bm em fp_tpl_name m (ptg, bad, err, m1)"
    using create_single_returns [OF lib fp(1) ne(2,3) path fp(2), of m] unfolding returns_iff by blast
  note start = make_groups_def sizes check_def if_True bind.bind_lunit p(1) prod.case option.case
  show ?thesis
  proof (cases ptg)
    case None
    obtain d m2 where d: "failed_to_load m1 fp_tpl_name err = Some (d, m2)" "live m2 = live m1 + of_bool (d \<noteq> None) - of_bool (err \<noteq> None)" "err = None \<longrightarrow> d = None"
      using failed_to_load_returns [of m1 fp_tpl_name err] unfolding returns_iff by blast
    have low: "live m + of_bool (err \<noteq> None) \<le> live m1" using p(2) None by (simp add: create_result_def)
    have "live m1 = live m + 1 \<and> err \<noteq> None \<and> \<not> (\<exists>T. reads path bm em (Inr T))" if "never_fails m" fine
    proof -
      have len: "length [fp_tpl_name] + sum_list (map length [path]) < 2 ^ 50" using fine that(2) by simp
      note r = refused_unreadable [OF p(2) [unfolded None] that(1) fp(2) len _ _ ne(2,3)]
      have "\<not> (\<exists>Ts. readable bm em [path] Ts \<and> fp_tpl_name \<in> set [fp_tpl_name] \<union> \<Union> (set ` tree_names ` set Ts))" by (rule r(3)) (use fp(3) in simp_all)
      then have "\<not> readable bm em [path] [T]" for T by simp
      then show ?thesis using r(1,2) fp(3) by (simp add: readable_def)
    qed
    then have "?R (MIST_FAILED_TO_LOAD_TEMPLATE, None, d, m2)" using d(2,3) low by (auto simp: groups_result_def loadable_def)
    then show ?thesis unfolding start None d(1) by simp
  next
    case (Some path_tg)
    obtain Us where u: "err = None" "live m1 = live m + tg_blocks path_tg" "list_all2 (\<lambda>s T. reads s bm em (Inr T)) [path] Us" "group_spec [fp_tpl_name] Us fp_tpl_name path_tg"
      using p(2) unfolding create_result_def Some prod.case option.case tg_blocks_def by (auto simp del: list_all2_Cons1)
    obtain T where T: "Us = [T]" "reads path bm em (Inr T)" using u(3) by (auto simp: list_all2_Cons1)
    have m1: "never_fails m \<and> fine \<longrightarrow> never_fails m1" using p(2) fine fp(2) by (simp add: create_result_def)
    have inv: "grar_inv (tg_tpl path_tg)" using group_spec_inv [OF u(4)] by (simp add: tg_inv_def)
    have ns: "elems ns \<noteq> []" "length (elems ss) = length (elems ns)" "\<forall>s \<in> set (elems ss). no_nul s" "\<forall>n \<in> set (elems ns). small n" "\<forall>n \<in> set (elems ns). \<not> mist_name_is_bad n"
      using arr ts by auto
    obtain tg bad2 err2 m2 where c: "mist_tg_create_impl qs qstr bs m1 name_main ns ss bm em = Some (tg, bad2, err2, m2)"
        "create_result (map fst ts) (map snd ts) bm em name_main m1 (tg, bad2, err2, m2)"
      using create_impl_returns [OF lib ne ns(1-4), of m1] unfolding returns_iff arr(1,2) by (metis prod_cases4)
    have fits: "small name_main" "length (map fst ts) + sum_list (map length (map snd ts)) < 2 ^ 50" if fine using fine that by simp_all
    show ?thesis
    proof (cases tg)
      case tg: (Some main_tg)
      then obtain Ts where t: "live m2 = live m1 + 2 + gblocks (elems (tg_tpl main_tg))" "readable bm em (map snd ts) Ts" "group_spec (map fst ts) Ts name_main main_tg"
        using c(2) unfolding create_result_def tg prod.case option.case readable_def by blast
      have g: "groups_of name_main path bm em ts main_tg path_tg" using t(2,3) T u(4) unfolding groups_of_def by blast
      have "never_fails m \<and> fine \<longrightarrow> never_fails m2" using m1 c(2) fits by (simp add: create_result_def)
      then have "?R (MIST_OK, Some (main_tg, path_tg), None, m2)" using g groups_loadable [OF g] t(1) u(2) by (simp add: groups_result_def tg_blocks_def)
      then show ?thesis unfolding start Some c(1) tg by simp
    next
      case None
      obtain bn where bn: "(case bad2 of None \<Rightarrow> Some name_main | Some i \<Rightarrow> grar_get_element ns i) = Some bn"
        using create_impl_bad_index [of qs qstr bs m1 name_main ns ss bm em tg _ err2 m2] c(1) by (cases bad2) (auto simp: grar_get_element_def)
      obtain d m3 where d: "failed_to_load m2 bn err2 = Some (d, m3)" "live m3 = live m2 + of_bool (d \<noteq> None) - of_bool (err2 \<noteq> None)" "err2 = None \<longrightarrow> d = None"
        using failed_to_load_returns [of m2 bn err2] unfolding returns_iff by blast
      have low: "live m1 + of_bool (err2 \<noteq> None) \<le> live m2" using c(2) None by (simp add: create_result_def)
      have l: "live (mist_tg_destroy_impl m3 (tg_tpl path_tg)) = live m3 - (live m1 - live m)" using destroy_impl_live [OF inv] u(2) by (simp add: tg_blocks_def)
      have "live m2 = live m1 + 1 \<and> err2 \<noteq> None \<and> \<not> loadable name_main path bm em ts" if "never_fails m" fine
        using refused_unreadable [OF c(2) [unfolded None] _ fits _ _ ne(2,3)] m1 that ns(5) arr(1) by (auto simp: loadable_def)
      then have "?R (MIST_FAILED_TO_LOAD_TEMPLATE, None, d, mist_tg_destroy_impl m3 (tg_tpl path_tg))" using d(2,3) low l by (auto simp: groups_result_def)
      then show ?thesis unfolding start Some c(1) None bn d(1) by simp
    qed
  qed
qed


section \<open>The whole directory\<close>

text \<open>
  The code that is returned where the memory suffices: \<open>defs\<close> and \<open>e\<close> are what the configuration file defines, up to a first error,
  \<open>ts\<close> are the names and texts of the templates.
\<close>

definition load_code :: "string \<Rightarrow> (string \<times> string) list \<Rightarrow> cfg_error option \<Rightarrow> (string \<times> string) list \<Rightarrow> EMistErrorCode" where
  "load_code dir defs e ts =
     (if mist_name_is_bad (last (components dir)) then MIST_BAD_NAME
      else if e \<noteq> None then MIST_SYNTAX_ERROR
      else if conf_code defs \<noteq> MIST_OK then conf_code defs
      else if dir_code ts \<noteq> MIST_OK then dir_code ts
      else if loadable (last (components dir)) (given defs fpt_name []) (given defs beg_name def_beg) (given defs end_name def_end) ts then MIST_OK
      else MIST_FAILED_TO_LOAD_TEMPLATE)"

definition load_dir_result ::
  "string \<Rightarrow> (string \<times> string) list \<Rightarrow> cfg_error option \<Rightarrow> (string \<times> string) list \<Rightarrow> mem
     \<Rightarrow> EMistErrorCode \<times> (CMistTemplateGroup \<times> CMistTemplateGroup) option \<times> string option \<times> mem \<Rightarrow> bool" where
  "load_dir_result dir defs e ts m res \<longleftrightarrow> (case res of (ec, tgs, d, m') \<Rightarrow>
     (case tgs of
        None \<Rightarrow> ec \<noteq> MIST_OK \<and> live m + of_bool (d \<noteq> None) \<le> live m'
      | Some (main_tg, path_tg) \<Rightarrow> ec = MIST_OK \<and> d = None \<and> e = None \<and> conf_code defs = MIST_OK
          \<and> groups_of (last (components dir)) (given defs fpt_name []) (given defs beg_name def_beg) (given defs end_name def_end) ts main_tg path_tg
          \<and> live m' = live m + tg_blocks main_tg + tg_blocks path_tg)
     \<and> (never_fails m \<longrightarrow> ec = load_code dir defs e ts \<and> (ec = MIST_OK \<longrightarrow> never_fails m')))"

text \<open>A directory with entries and files of sensible sizes.\<close>

definition dir_fits :: "(string \<Rightarrow> string option) \<Rightarrow> string \<Rightarrow> string list \<Rightarrow> bool" where
  "dir_fits C dir es \<longleftrightarrow> entries_fit C dir es \<and> length es < 2 ^ 50 \<and> length dir < 2 ^ 50 \<and> list_all no_nul es
     \<and> length (tpl_files C dir es) + sum_list (map (length \<circ> snd) (tpl_files C dir es)) < 2 ^ 50"

lemma tpl_files_plain: "entries_fit C dir es \<Longrightarrow> \<forall>t \<in> set (tpl_files C dir es). small (fst t) \<and> no_nul (snd t)"
  by (induction es) (auto simp: entries_fit_def small_def split: option.splits)

lemma load_failed:
  assumes "ec \<noteq> MIST_OK" "live m + of_bool (d \<noteq> None) \<le> live m'" "never_fails m \<longrightarrow> ec = load_code dir defs e ts"
  shows "load_dir_result dir defs e ts m (ec, None, d, m')"
  using assms by (auto simp: load_dir_result_def)

lemma conf_ok_values:
  assumes "conf_code defs = MIST_OK"
  shows "given defs fpt_name [] \<noteq> []" "given defs beg_name def_beg \<noteq> []" "given defs end_name def_end \<noteq> []"
  using assms by (auto simp: conf_code_def given_def def_beg_def def_end_def split: if_splits option.splits)

lemma given_plain: "\<forall>p \<in> set defs. no_nul (snd p) \<and> length (snd p) \<le> n \<Longrightarrow> no_nul (given defs k []) \<and> length (given defs k []) \<le> n"
  by (auto simp: given_def dest!: map_of_SomeD split: option.splits)

context dir_files
begin

lemma dir_entered: "ok s \<Longrightarrow> listing s d \<noteq> None \<Longrightarrow> d \<noteq> [] \<Longrightarrow> \<exists>s'. mist_dir_exists P s d = Some (True, s') \<and> same s s'"
  using entered [of s d] by (auto simp: mist_dir_exists_def check_def same_def)

lemma load_conf_in_dir:
  assumes lib: "libc_search qsp bsp" and dir: "dir_name dir" "mist_dir_is_special dir = Some False" and s: "ok s" "listing s dir \<noteq> None"
    and cf: "content s (conf_path dir) = Some cfg" "no_nul cfg" "length cfg + 2 < 2 ^ 31" and defs: "config 0 (file_lines cfg) = (defs, e)"
  shows "returns (mist_tg_load_conf qsp bsp P s m dir) (\<lambda>(ec, c, d, s', m'). same s s' \<and> load_conf_result defs e dir m (ec, c, d, m'))"
proof -
  have ne: "dir \<noteq> []" using dir(1) by (auto simp: dir_name_def)
  obtain s0 where s0: "mist_dir_exists P s dir = Some (True, s0)" "same s s0" using dir_entered [OF s ne] by blast
  obtain r s1 where r: "fopen P (conf_path dir) s0 = (r, s1)" by fastforce
  obtain fs where fs: "r = Some fs" "f_data fs = cfg" "f_pos fs = 0" "\<not> f_err fs" "reads_ok fs" "same s0 s1"
    using opened [OF _ r] s0(2) cf(1) by (cases r) (auto simp: same_def)
  have cl: "same s (fclose P s1)" using closed [of s1] fs(6) s0(2) by (simp add: same_def)
  have "returns (mist_tg_load_conf qsp bsp P s m dir) (\<lambda>(ec, c, d, s', m'). (s' = s0 \<or> s' = fclose P s1) \<and> load_conf_result defs e dir m (ec, c, d, m'))"
    by (rule load_conf_returns [OF lib dir(1) s0(1) dir(2) r [unfolded fs(1)] fs(3-5)]) (use fs(2) cf defs in auto)
  then show ?thesis by (rule returns_mono) (use s0(2) cl in auto)
qed

lemma load_from_dir_returns:
  assumes lib: "libc_search qs bs" "libc_search qstr bstr" "libc_search qsp bsp" and dir: "dir_name dir" "mist_dir_is_special dir = Some False"
    and s: "ok s" "listing s dir = Some es" "dir_fits (content s) dir es"
    and cf: "content s (conf_path dir) = Some cfg" "no_nul cfg" "length cfg + 2 < 2 ^ 31" and defs: "config 0 (file_lines cfg) = (defs, e)"
  shows "returns (mist_tg_load_from_dir_impl qs qstr bs qsp bsp P s m dir)
     (\<lambda>(ec, tgs, d, s', m'). same s s' \<and> load_dir_result dir defs e (tpl_files (content s) dir es) m (ec, tgs, d, m'))"
proof -
  let ?ts = "tpl_files (content s) dir es" and ?main = "last (components dir)"
  let ?R = "load_dir_result dir defs e ?ts m"
  have d: "no_nul dir" "\<exists>c \<in> set dir. c \<noteq> slash" "small dir" using dir(1) s(3) by (auto simp: dir_name_def dir_fits_def small_def)
  note main = components_last [OF d(1,2)]
  have s0: "same s s" using s(1) by (simp add: same_def)
  obtain t m1 where t: "mist_path_get_last m dir = Some (t, m1)" "live m1 = live m + of_bool (t \<noteq> None)" "t = None \<or> t = Some ?main"
      "never_fails m \<longrightarrow> never_fails m1 \<and> t \<noteq> None"
    using mist_path_get_last_correct [OF d(1,2), of m] d(3) unfolding returns_iff by blast
  show ?thesis
  proof (cases t)
    case None
    have "?R (MIST_OUT_OF_MEMORY, None, None, m1)" by (rule load_failed) (use t None in auto)
    then show ?thesis unfolding mist_tg_load_from_dir_impl_def using t(1) None s0 by simp
  next
    case (Some t')
    then have t': "t = Some ?main" using t(3) by simp
    note start = mist_tg_load_from_dir_impl_def t(1) t' bind.bind_lunit prod.case option.case
    show ?thesis
    proof (cases "mist_name_is_bad ?main")
      case True
      obtain d1 m2 where d1: "message m1 errBadGroupName [?main, dir] = Some (d1, m2)" "live m2 = live m1 + of_bool (d1 \<noteq> None)"
        using message_returns [of m1 errBadGroupName "[?main, dir]"] unfolding returns_iff by blast
      have "?R (MIST_BAD_NAME, None, d1, free m2)" by (rule load_failed) (use t(2) t' d1 True in \<open>auto simp: load_code_def\<close>)
      then show ?thesis unfolding start using True d1(1) s0 by simp
    next
      case good: False
      obtain ec c d1 s1 m2 where c: "mist_tg_load_conf qsp bsp P s m1 dir = Some (ec, c, d1, s1, m2)" "same s s1" "load_conf_result defs e dir m1 (ec, c, d1, m2)"
        using load_conf_in_dir [OF lib(3) dir s(1) _ cf defs, of m1] s(2) unfolding returns_iff by auto
      note plain = config_plain [OF defs] file_lines_plain [OF cf(2)]
      have defs_ok: "\<forall>p \<in> set defs. no_nul (snd p) \<and> length (fst p) \<le> length cfg \<and> length (snd p) \<le> length cfg" using plain by simp
      have sd: "small_defs defs" using defs_ok cf(3) by (fastforce simp: small_defs_def small_def)
      show ?thesis
      proof (cases "ec = MIST_OK")
        case False
        have "never_fails m \<longrightarrow> ec = load_code dir defs e ?ts" using c(3) False t(4) d(3) sd good by (auto simp: load_conf_result_def load_code_def split: option.splits)
        then have "?R (ec, None, d1, free m2)" by (intro load_failed) (use c(3) False t(2) t' in \<open>auto simp: load_conf_result_def\<close>)
        then show ?thesis unfolding start using good c(1,2) False by simp
      next
        case okc: True
        have k: "e = None" "conf_code defs = MIST_OK" "c = conf_of defs" "live m2 = live m + 4" "never_fails m \<longrightarrow> never_fails m2"
          using c(3) okc t(2,4) t' d(3) sd by (auto simp: load_conf_result_def)
        have es: "listing s1 dir = Some es" "content s1 = content s" "ok s1" using c(2) s(2) by (simp_all add: same_def)
        obtain ec2 arrays d2 s2 m3 where p: "mist_tg_process_dir P s1 m2 dir = Some (ec2, arrays, d2, s2, m3)" "same s1 s2"
            "dir_result ?ts (entries_fit (content s) dir es \<and> length es < 2 ^ 50 \<and> length dir < 2 ^ 50) m2 (ec2, arrays, d2, m3)"
          using process_dir_returns [OF es(3,1) d(1), of m2] s(3) unfolding returns_iff es(2) by (auto simp: dir_fits_def list_all_iff)
        have s2: "same s s2" by (rule same_trans [OF c(2) p(2)])
        have fit: "entries_fit (content s) dir es" "length es < 2 ^ 50 \<and> length dir < 2 ^ 50" "length ?ts + sum_list (map (length \<circ> snd) ?ts) < 2 ^ 50" using s(3) by (auto simp: dir_fits_def)
        show ?thesis
        proof (cases arrays)
          case None
          then have "?R (ec2, None, d2, free (free (free (free m3))))"
            by (intro load_failed) (use p(3) k fit good in \<open>auto simp: dir_result_def load_code_def\<close>)
          moreover have "ec2 \<noteq> MIST_OK" using p(3) None by (simp add: dir_result_def)
          ultimately show ?thesis unfolding start using good c(1) okc p(1) s2 k(3) by (simp add: conf_of_def)
        next
          case (Some a)
          obtain ns ss where a: "a = (ns, ss)" by (cases a)
          have q: "ec2 = MIST_OK" "dir_code ?ts = MIST_OK" "grar_ok ns" "grar_ok ss" "elems ns = map fst ?ts" "elems ss = map snd ?ts" "live m3 = live m + 6 + 2 * int (length ?ts)"
              "never_fails m \<longrightarrow> never_fails m3"
            using p(3) k fit unfolding Some a by (auto simp: dir_result_def)
          have ts: "?ts \<noteq> []" "\<forall>t \<in> set ?ts. small (fst t) \<and> no_nul (snd t) \<and> \<not> mist_name_is_bad (fst t)"
            using q(2) tpl_files_plain [OF fit(1)] by (auto simp: dir_code_def split: if_splits)
          note vals = conf_ok_values [OF k(2)]
          have path: "no_nul (given defs fpt_name [])" "length (given defs fpt_name []) \<le> length cfg" using given_plain [of defs "length cfg"] defs_ok by blast+
          obtain ec3 tgs d3 m4 where g: "make_groups qs qstr bs m3 ?main (given defs fpt_name []) (given defs beg_name def_beg) (given defs end_name def_end) ns ss = Some (ec3, tgs, d3, m4)"
              "groups_result ?main (given defs fpt_name []) (given defs beg_name def_beg) (given defs end_name def_end) ?ts True m3 (ec3, tgs, d3, m4)"
            using make_groups_returns [OF lib(1,2) main(1) vals(2,3) path(1) q(5,6) ts, of True m3] path(2) cf(3) main(3) d(3) fit(3)
            unfolding returns_iff by (auto simp: small_def)
          let ?m = "free (free (free (free (snd (grar_destroy_with_elements (snd (grar_destroy_with_elements m4 ns None)) ss None)))))"
          have m: "live ?m = live m4 - (live m3 - live m)" "never_fails ?m = never_fails m4" using q by simp_all
          have "?R (ec3, tgs, d3, ?m)"
            using g(2) m q(2,8) k(1,2) good unfolding load_dir_result_def groups_result_def prod.case load_code_def
            by (auto split: option.splits if_splits)
          then show ?thesis unfolding start using good c(1) okc k(3) p(1) q(1) Some a g(1) s2 by (simp add: conf_of_def Let_def)
        qed
      qed
    qed
  qed
qed

end

end
