(* ===== verification/Mist_Group_Out.thy ===== *)
theory Mist_Group_Out
  imports Mist_Group_Conf
begin

text \<open>
  Writing the generated file. The locale \<open>file_output\<close> adds to the laws of directories what is relied on of files: one that has been
  opened for writing, written and closed without an error has the text as its content, and nothing else has changed. In
  \<open>file_output_free\<close> nothing is refused: a file may be opened in a directory that exists, and there is space.
\<close>

lemma dirs_to_shorter: "p \<in> set (dirs_to pre cs) \<Longrightarrow> length p \<le> length (path_of (pre @ cs))"
proof (induction cs arbitrary: pre)
  case (Cons c cs)
  then show ?case using Cons.IH [of "pre @ [c]"] by auto
qed simp

text \<open>Paths that mean the same to the program and to a Unix system.\<close>

definition plain_path :: "string \<Rightarrow> bool" where
  "plain_path p \<longleftrightarrow> p \<noteq> [] \<and> no_nul p \<and> CHR '':'' \<notin> set p \<and> CHR 0x5C \<notin> set p \<and> hd p \<noteq> CHR ''~''"

lemma plain_pathD: "plain_path p \<Longrightarrow> p \<noteq> []" "plain_path p \<Longrightarrow> no_nul p" "plain_path p \<Longrightarrow> CHR '':'' \<notin> set p" "plain_path p \<Longrightarrow> hd p \<noteq> CHR ''~''"
  by (simp_all add: plain_path_def)

section \<open>What is relied on\<close>

locale file_output = posix_dirs P is_dir cwd ok
  for P :: "('s, 'x) filesys_scheme" and is_dir :: "'s \<Rightarrow> string \<Rightarrow> bool" and cwd :: "'s \<Rightarrow> string" and ok :: "'s \<Rightarrow> bool" +
  fixes files :: "'s \<Rightarrow> string \<Rightarrow> string option"
  assumes made: "ok s \<Longrightarrow> canonical p \<Longrightarrow> files (snd (mkdir P p s)) = files s"
    and moved: "ok s \<Longrightarrow> canonical p \<Longrightarrow> files (snd (chdir P p s)) = files s"
    and unopened: "ok s \<Longrightarrow> fopen_write P p s = (False, s') \<Longrightarrow> ok s' \<and> is_dir s' = is_dir s \<and> cwd s' = cwd s \<and> files s' = files s"
    and written: "ok s \<Longrightarrow> plain_path p \<Longrightarrow> fopen_write P p s = (True, s1) \<Longrightarrow> fwrite P t s1 = (b, s2) \<Longrightarrow>
        ok (fclose P s2) \<and> is_dir (fclose P s2) = is_dir s \<and> cwd (fclose P s2) = cwd s
        \<and> (\<forall>q. q \<noteq> full s p \<longrightarrow> files (fclose P s2) q = files s q) \<and> (b \<longrightarrow> files (fclose P s2) (full s p) = Some t)"
begin

text \<open>Making directories leaves the files alone.\<close>

lemma dirs_with_files: "posix_dirs P is_dir cwd (\<lambda>s. ok s \<and> files s = F)"
proof (unfold_locales, goal_cases)
  case (1 s)
  then show ?case using root by blast
next
  case (2 s)
  then show ?case using getcwd by blast
next
  case (3 s)
  then show ?case using cwd by blast
next
  case (4 s p b s')
  then show ?case using chdir [of s p b s'] moved [of s p] by auto
next
  case (5 s p b s')
  then show ?case using mkdir [of s p b s'] made [of s p] by auto
qed

lemma path_made:
  assumes "ok s" "plain_path path"
    and f: "full s path = path_of (cs @ [c])" "list_all proper (cs @ [c])" "cs \<noteq> []" "CHR '':'' \<notin> set (path_of cs)"
    and fit: "never_fails m" "length (cwd s) + length path < 2 ^ 48" "length (cwd s) + length (path_of cs) < 2 ^ 48"
  obtains r s' m' D where "mist_create_path_for_file P s m path = Some (r, s', m')" "live m' = live m" "D \<subseteq> set (dirs_to [] cs)" "grown s D s'" "files s' = files s"
    "r \<longrightarrow> is_dir s' (path_of cs)" "r \<or> refused" "never_fails m'"
proof -
  let ?ok = "\<lambda>t. ok t \<and> files t = files s"
  note w = dirs_with_files [of "files s"]
  have ok: "?ok s" using assms(1) by simp
  have "posix_dirs.refused P is_dir ?ok \<Longrightarrow> refused" unfolding refused_def posix_dirs.refused_def [OF w] by blast
  moreover obtain r s' m' D where "mist_create_path_for_file P s m path = Some (r, s', m')" "live m' = live m" "D \<subseteq> set (dirs_to [] cs)" "posix_dirs.grown is_dir cwd ?ok s D s'"
      "r \<longrightarrow> is_dir s' (path_of cs)" "never_fails m'" "r \<or> posix_dirs.refused P is_dir ?ok"
    using posix_dirs.create_path_for_file [OF w ok plain_pathD [OF assms(2)] f, of m] fit unfolding returns_iff by blast
  ultimately show ?thesis using that [of r s' m' D] unfolding posix_dirs.grown_def [OF w] grown_def by blast
qed

definition write_refused :: "'s \<Rightarrow> string list \<Rightarrow> string \<Rightarrow> string \<Rightarrow> bool" where
  "write_refused s cs path t \<longleftrightarrow> (\<exists>s0. (\<exists>D \<subseteq> set (dirs_to [] cs). grown s D s0) \<and> is_dir s0 (path_of cs)
     \<and> (case fopen_write P path s0 of (b, s1) \<Rightarrow> b \<longrightarrow> \<not> fst (fwrite P t s1)))"

text \<open>The outcome for a value \<open>t\<close> that is to be written.\<close>

definition file_result :: "'s \<Rightarrow> string \<Rightarrow> string list \<Rightarrow> string \<Rightarrow> EMistErrorCode \<Rightarrow> 's \<Rightarrow> bool" where
  "file_result s path cs t ec s' \<longleftrightarrow> (\<exists>D \<subseteq> set (dirs_to [] cs). grown s D s') \<and> (\<forall>q. q \<noteq> full s path \<longrightarrow> files s' q = files s q)
     \<and> (ec = MIST_OK \<and> files s' (full s path) = Some t \<and> is_dir s' (path_of cs)
        \<or> ec = MIST_CREATE_DIR_FAILED \<and> refused \<and> files s' = files s \<or> ec = MIST_WRITE_FILE_FAILED \<and> write_refused s cs path t)"

lemma write_returns:
  assumes "ok s" "plain_path path"
    and f: "full s path = path_of (cs @ [c])" "list_all proper (cs @ [c])" "cs \<noteq> []" "CHR '':'' \<notin> set (path_of cs)"
    and fit: "never_fails m" "length (cwd s) + length path < 2 ^ 48" "length (cwd s) + length (path_of cs) < 2 ^ 48"
  shows "returns (do {
       (r, s, m) \<leftarrow> mist_create_path_for_file P s m path;
       if \<not> r then do { (d, m) \<leftarrow> message m errCreateDirFailed [path]; Some (MIST_CREATE_DIR_FAILED, d, tg, s, m) }
       else (case fopen_write P path s of (b, s) \<Rightarrow>
         if \<not> b then do { (d, m) \<leftarrow> message m errWriteFileFailed [path]; Some (MIST_WRITE_FILE_FAILED, d, tg, s, m) }
         else (case fwrite P t s of (b, s) \<Rightarrow>
           if \<not> b then do { (d, m) \<leftarrow> message m errWriteFileFailed [path]; Some (MIST_WRITE_FILE_FAILED, d, tg, fclose P s, m) }
           else Some (MIST_OK, None, tg, fclose P s, m)))
     }) (\<lambda>(ec, d, tg', s', m'). tg' = tg \<and> file_result s path cs t ec s' \<and> live m' = live m + of_bool (d \<noteq> None) \<and> (d = None \<longleftrightarrow> ec = MIST_OK))"
proof -
  obtain r s0 m1 D where r: "mist_create_path_for_file P s m path = Some (r, s0, m1)" "live m1 = live m" "D \<subseteq> set (dirs_to [] cs)" "grown s D s0" "files s0 = files s"
      "r \<longrightarrow> is_dir s0 (path_of cs)" "r \<or> refused" "never_fails m1"
    using path_made [OF assms] .
  have msg: "returns (message m1 fmt [path]) (\<lambda>(d, m'). d \<noteq> None \<and> live m' = live m + of_bool (d \<noteq> None))" if "length fmt < 100" for fmt
    by (rule returns_mono [OF message_returns]) (use r(2,8) fit(2) that in auto)
  have errs: "length errCreateDirFailed < 100" "length errWriteFileFailed < 100" by (simp_all add: errCreateDirFailed_def errWriteFileFailed_def)
  obtain d1 m2 where d1: "message m1 errCreateDirFailed [path] = Some (d1, m2)" "d1 \<noteq> None" "live m2 = live m + of_bool (d1 \<noteq> None)"
    using msg [OF errs(1)] unfolding returns_iff by blast
  obtain d2 m3 where d2: "message m1 errWriteFileFailed [path] = Some (d2, m3)" "d2 \<noteq> None" "live m3 = live m + of_bool (d2 \<noteq> None)"
    using msg [OF errs(2)] unfolding returns_iff by blast
  have s0: "ok s0" "cwd s0 = cwd s" "\<forall>p. is_dir s p \<longrightarrow> is_dir s0 p" "full s0 path = full s path" using r(4) by (auto simp: grown_def full_def)
  obtain b s1 where o: "fopen_write P path s0 = (b, s1)" by fastforce
  obtain b2 s2 where w: "fwrite P t s1 = (b2, s2)" by fastforce
  have res: "file_result s path cs t ec s'" if "grown s0 {} s'" "\<forall>q. q \<noteq> full s path \<longrightarrow> files s' q = files s0 q"
      "ec = MIST_OK \<and> files s' (full s path) = Some t \<and> is_dir s0 (path_of cs)
        \<or> ec = MIST_CREATE_DIR_FAILED \<and> refused \<and> files s' = files s0 \<or> ec = MIST_WRITE_FILE_FAILED \<and> write_refused s cs path t" for ec s'
  proof -
    have "grown s D s'" using dirs_grown_trans [OF r(4) that(1)] by simp
    moreover have "is_dir s' = is_dir s0" using that(1) by (simp add: grown_def)
    ultimately show ?thesis unfolding file_result_def using that(2,3) r(3,5) by metis
  qed
  show ?thesis
  proof (cases r)
    case False
    have "file_result s path cs t MIST_CREATE_DIR_FAILED s0" by (rule res) (use False r(7) s0(1) in \<open>auto simp: grown_def\<close>)
    then show ?thesis using r(1) False d1 by simp
  next
    case True
    have refuse: "write_refused s cs path t" if "b \<longrightarrow> \<not> b2" unfolding write_refused_def using r(3,4,6) True o w that by (intro exI [of _ s0] conjI) auto
    show ?thesis
    proof (cases b)
      case False
      have "ok s1 \<and> is_dir s1 = is_dir s0 \<and> cwd s1 = cwd s0 \<and> files s1 = files s0" by (rule unopened [OF s0(1)]) (use o False in simp)
      then have "file_result s path cs t MIST_WRITE_FILE_FAILED s1"
        by (intro res) (use s0 o False refuse in \<open>auto simp: grown_def\<close>)
      then show ?thesis using r(1) True o False d2 by simp
    next
      case opened: True
      then have o1: "fopen_write P path s0 = (True, s1)" using o by simp
      note wr = written [OF s0(1) assms(2) o1 w]
      have "file_result s path cs t (if b2 then MIST_OK else MIST_WRITE_FILE_FAILED) (fclose P s2)"
        by (rule res) (use wr s0 o w opened refuse r(6) True in \<open>auto simp: grown_def\<close>)
      then show ?thesis using r(1,2) True o opened w d2 by (cases b2) simp_all
    qed
  qed
qed

lemma generate_file_returns:
  assumes lib: "libc_search qs bs" and tg: "tg_inv tg" "distinct (map t_name (elems (tg_tpl tg)))" "tg_main tg = Ref k" and fit: "pairs_fit tg (smap_as_array sm)"
    and val: "tval value_limit (map (sem_with (smap_as_array sm)) (elems (tg_tpl tg))) h (sem_with (smap_as_array sm) (elems (tg_tpl tg) ! k)) = Some vs" "h \<le> n"
    and nf: "never_fails m" and s: "ok s" "plain_path path"
    and f: "full s path = path_of (cs @ [c])" "list_all proper (cs @ [c])" "cs \<noteq> []" "CHR '':'' \<notin> set (path_of cs)"
    and len: "length (cwd s) + length path < 2 ^ 48" "length (cwd s) + length (path_of cs) < 2 ^ 48"
  shows "returns (mist_tg_generate_file_impl bs n P s m tg path sm) (\<lambda>(ec, d, tg', s', m'). tg_inv tg'
     \<and> live m' = live m + (tg_blocks tg' - tg_blocks tg) + of_bool (d \<noteq> None) \<and> (ec = MIST_OK \<longrightarrow> d = None)
     \<and> (if length vs = 1 then file_result s path cs (hd vs) ec s' else ec = MIST_MAIN_TPL_MULTIVALUED \<and> s' = s))"
proof -
  obtain tg1 m1 g tg2 m2 t where e: "mist_tg_set_values_impl bs m tg sm = Some (MIST_OK, tg1, m1)" "mist_tg_evaluate_impl n m1 tg1 = Some (Some g, tg2, m2)" "elems g = vs"
      and inv: "tg_inv tg2" and t: "deref (elems (tg_tpl tg2)) (tg_main tg2) = Some t" and l: "live m2 - live m = tg_blocks tg2 - tg_blocks tg" "never_fails m2" and ne: "vs \<noteq> []"
    using set_and_evaluate [OF lib tg fit val nf] by metis
  have g: "grar_get_size g = length vs" "vs \<noteq> []" using e(3) ne by (simp_all add: grar_get_size_def)
  show ?thesis
  proof (cases "length vs = 1")
    case False
    obtain d m3 where d: "message m2 errMainTplMultivalued [t_name t] = Some (d, m3)" "live m3 = live m2 + of_bool (d \<noteq> None)"
      using message_returns [of m2 errMainTplMultivalued "[t_name t]"] unfolding returns_iff by blast
    show ?thesis using e t d g inv l False by (simp add: mist_tg_generate_file_impl_def check_def)
  next
    case True
    have v: "grar_get_element g 0 = Some (hd vs)" using True e(3) by (cases vs) (auto simp: grar_get_element_def)
    note w = write_returns [OF s f l(2) len, of tg2 "hd vs"]
    have c: "check (0 < (1::nat)) = Some ()" by (simp add: check_def)
    have "returns (mist_tg_generate_file_impl bs n P s m tg path sm) (\<lambda>(ec, d, tg', s', m'). tg' = tg2 \<and> file_result s path cs (hd vs) ec s'
        \<and> live m' = live m2 + of_bool (d \<noteq> None) \<and> (d = None \<longleftrightarrow> ec = MIST_OK))"
      unfolding mist_tg_generate_file_impl_def e(1,2) bind.bind_lunit prod.case option.case g(1) v True c simp_thms if_False by (rule w)
    then show ?thesis by (rule returns_mono) (use True inv l in auto)
  qed
qed

end

text \<open>Nothing is refused.\<close>

locale file_output_free = file_output +
  assumes allowed: "ok s \<Longrightarrow> list_all proper (cs @ [c]) \<Longrightarrow> is_dir s (dir_path cs) \<Longrightarrow> \<not> is_dir s (path_of (cs @ [c])) \<Longrightarrow> fst (mkdir P (path_of (cs @ [c])) s)"
    and opens: "ok s \<Longrightarrow> plain_path p \<Longrightarrow> full s p = path_of (cs @ [c]) \<Longrightarrow> list_all proper (cs @ [c]) \<Longrightarrow> is_dir s (dir_path cs) \<Longrightarrow> \<not> is_dir s (full s p) \<Longrightarrow> fst (fopen_write P p s)"
    and space: "ok s \<Longrightarrow> fopen_write P p s = (True, s1) \<Longrightarrow> fst (fwrite P t s1)"
begin

lemma dirs_not_refused: "\<not> refused"
  using allowed by (auto simp: refused_def)

lemma write_not_refused:
  assumes "plain_path path" "full s path = path_of (cs @ [c])" "list_all proper (cs @ [c])" "cs \<noteq> []" "\<not> is_dir s (full s path)"
  shows "\<not> write_refused s cs path t"
proof
  assume "write_refused s cs path t"
  then obtain s0 D where s0: "D \<subseteq> set (dirs_to [] cs)" "grown s D s0" "is_dir s0 (path_of cs)" "case fopen_write P path s0 of (b, s1) \<Rightarrow> b \<longrightarrow> \<not> fst (fwrite P t s1)"
    unfolding write_refused_def by (elim exE conjE)
  have f: "ok s0" "full s0 path = full s path" "is_dir s0 = (\<lambda>p. is_dir s p \<or> p \<in> D)" using s0(2) by (auto simp: grown_def full_def)
  have "full s path \<notin> D"
  proof
    assume "full s path \<in> D"
    then have "path_of (cs @ [c]) \<in> set (dirs_to [] cs)" using s0(1) unfolding assms(2) by blast
    from dirs_to_shorter [OF this] show False by simp
  qed
  then have o: "fst (fopen_write P path s0)" using opens [OF f(1) assms(1), of cs c] assms f s0(3) by (auto simp: dir_path_def)
  then obtain s1 where "fopen_write P path s0 = (True, s1)" by (metis prod.collapse)
  then show False using space [OF f(1)] s0(4) by auto
qed

end

end
