(* ===== verification/Mist_Disk.thy ===== *)
theory Mist_Disk
  imports Mist_Group_Load Mist_Group_Out
begin

text \<open>
  A disk with directories and files, on which the laws of \<open>dir_files\<close>, \<open>file_output\<close> and \<open>file_output_free\<close> hold, and the properties
  of the functions that load the groups of a directory and write the generated file.
\<close>

section \<open>A disk\<close>

text \<open>
  The files, by the components of their paths, with their contents, and the file that is open for writing with what has been written.
  The directories are those of \<open>Mist_Dirs\<close>.
\<close>

record disk = file_system +
  d_files :: "(string list \<times> string) list"
  d_out :: "(string list \<times> string) option"

definition disk_content :: "disk \<Rightarrow> string \<Rightarrow> string option" where
  "disk_content s p = (if p = [] then None else map_of (d_files s) (fs_resolve s p))"

definition disk_listing :: "disk \<Rightarrow> string \<Rightarrow> string list option" where
  "disk_listing s p = (let cs = fs_resolve s p in
     if p \<noteq> [] \<and> fs_has s cs then Some (''.'' # ''..'' # map last (filter (\<lambda>f. f \<noteq> [] \<and> butlast f = cs) (fs_dirs s @ remdups (map fst (d_files s))))) else None)"

definition disk_sys :: "disk filesys" where
  "disk_sys = \<lparr>getcwd = getcwd fs_posix, chdir = chdir fs_posix, mkdir = mkdir fs_posix,
     fopen = (\<lambda>p s. (map_option text_file (disk_content s p), s)),
     fclose = (\<lambda>s. case d_out s of None \<Rightarrow> s | Some f \<Rightarrow> s\<lparr>d_files := f # d_files s, d_out := None\<rparr>),
     opendir = (\<lambda>p s. (disk_listing s p, s)),
     closedir = (\<lambda>s. s),
     fopen_write = (\<lambda>p s. let cs = fs_resolve s p in
       if p \<noteq> [] \<and> cs \<noteq> [] \<and> fs_has s (butlast cs) \<and> \<not> fs_has s cs then (True, s\<lparr>d_out := Some (cs, [])\<rparr>) else (False, s)),
     fwrite = (\<lambda>t s. case d_out s of None \<Rightarrow> (False, s) | Some (cs, u) \<Rightarrow> (True, s\<lparr>d_out := Some (cs, u @ t)\<rparr>))\<rparr>"

definition disk_ok :: "disk \<Rightarrow> bool" where
  "disk_ok s \<longleftrightarrow> fs_ok s \<and> d_out s = None"

text \<open>The file a canonical path names.\<close>

definition disk_file :: "disk \<Rightarrow> string \<Rightarrow> string option" where
  "disk_file s p = (if canonical p then map_of (d_files s) (fs_resolve s p) else None)"

lemma fs_cwd_proper: "fs_ok s \<Longrightarrow> list_all proper (fs_cwd s)"
  by (auto simp: fs_ok_def fs_has_def list_all_iff [of _ "fs_dirs s"])

lemma dir_path_inj: "list_all proper cs \<Longrightarrow> list_all proper ds \<Longrightarrow> dir_path cs = dir_path ds \<Longrightarrow> cs = ds"
proof -
  have "cs = components (dir_path cs)" if "list_all proper cs" for cs using components_path_of [OF that] by (auto simp: dir_path_def components_def)
  then show "list_all proper cs \<Longrightarrow> list_all proper ds \<Longrightarrow> dir_path cs = dir_path ds \<Longrightarrow> cs = ds" by metis
qed

lemma fs_resolve_dir: "list_all proper cs \<Longrightarrow> fs_resolve s (dir_path cs) = cs"
  using fs_resolve_canonical [OF canonical_dir_path] dir_path_inj by blast

text \<open>Going to a directory and back.\<close>

lemma fs_there_and_back:
  assumes "fs_ok s" "p \<noteq> []" "fs_has s (fs_resolve s p)"
  shows "chdir fs_posix p s = (True, s\<lparr>fs_cwd := fs_resolve s p\<rparr>)" "chdir fs_posix (dir_path (fs_cwd s)) (s\<lparr>fs_cwd := fs_resolve s p\<rparr>) = (True, s)"
proof -
  show "chdir fs_posix p s = (True, s\<lparr>fs_cwd := fs_resolve s p\<rparr>)" using assms(2,3) by (simp add: fs_posix_def)
  have "fs_has (s\<lparr>fs_cwd := fs_resolve s p\<rparr>) (fs_cwd s)" using assms(1) by (simp add: fs_ok_def fs_has_def)
  moreover have "dir_path (fs_cwd s) \<noteq> []" using canonical_not_Nil canonical_dir_path [OF fs_cwd_proper [OF assms(1)]] by blast
  ultimately show "chdir fs_posix (dir_path (fs_cwd s)) (s\<lparr>fs_cwd := fs_resolve s p\<rparr>) = (True, s)"
    using fs_resolve_dir [OF fs_cwd_proper [OF assms(1)], of "s\<lparr>fs_cwd := fs_resolve s p\<rparr>"] by (simp add: fs_posix_def Let_def)
qed

interpretation disk: dir_files disk_sys disk_ok disk_content disk_listing
proof (unfold_locales, goal_cases)
  case (1 s d)
  then have d: "d \<noteq> []" "fs_has s (fs_resolve s d)" "fs_ok s" by (auto simp: disk_listing_def disk_ok_def Let_def split: if_splits)
  show ?case using fs_there_and_back [OF d(3,1,2)] 1(1) by (auto simp: disk_sys_def fs_posix_def)
next
  case (2 s p r s')
  then show ?case by (auto simp: disk_sys_def split: option.splits)
next
  case (3 s)
  then show ?case by (simp add: disk_sys_def disk_ok_def)
next
  case (4 s d es s')
  then show ?case by (auto simp: disk_sys_def)
next
  case (5 s)
  then show ?case by (simp add: disk_sys_def)
qed

text \<open>What the program takes for the absolute path is the path for the system.\<close>

lemma full_resolve:
  assumes "fs_ok s" "plain_path p"
  shows "absolute_path (if mist_path_is_absolute p then p else path_join (dir_path (fs_cwd s)) p) = dir_path (fs_resolve s p)" "list_all proper (fs_resolve s p)"
proof -
  note c = fs_cwd_proper [OF assms(1)]
  define raw where "raw = (if hd p = slash then p else path_join (dir_path (fs_cwd s)) p)"
  have p: "p \<noteq> []" "no_nul p" "CHR 0x5C \<notin> set p" "CHR '':'' \<notin> set p" "hd p \<noteq> CHR ''~''" using assms(2) by (auto simp: plain_path_def)
  have bs: "hd p \<noteq> CHR 0x5C" using p(3) hd_in_set [OF p(1)] by metis
  have "mist_path_is_absolute p = (hd p = slash)"
    using p bs by (auto simp: mist_path_is_absolute_def strchr_None)
  then have raw': "(if mist_path_is_absolute p then p else path_join (dir_path (fs_cwd s)) p) = raw" by (simp add: raw_def)
  have cwd: "components (dir_path (fs_cwd s)) = fs_cwd s" "CHR 0x5C \<notin> set (dir_path (fs_cwd s))" "no_nul (dir_path (fs_cwd s))" "dir_path (fs_cwd s) \<noteq> []" "hd (dir_path (fs_cwd s)) = slash"
  proof -
    show "components (dir_path (fs_cwd s)) = fs_cwd s" using components_path_of [OF c] by (simp add: dir_path_def)
    show "CHR 0x5C \<notin> set (dir_path (fs_cwd s))" using c by (auto simp: dir_path_def path_of_def list_all_iff proper_def)
    show "no_nul (dir_path (fs_cwd s))" by (rule canonical_no_nul [OF canonical_dir_path [OF c]])
    show "dir_path (fs_cwd s) \<noteq> []" by (rule canonical_not_Nil [OF canonical_dir_path [OF c]])
    show "hd (dir_path (fs_cwd s)) = slash" by (cases "fs_cwd s") (simp_all add: dir_path_def)
  qed
  have "components raw = (if hd p = slash then [] else fs_cwd s) @ components p"
  proof (cases "hd p = slash")
    case False
    define w where "w = dir_path (fs_cwd s)"
    have "butlast w @ slash # [] = w" if "last w = slash" using append_butlast_last_id [of w] cwd(4) that unfolding w_def [symmetric] by metis
    then have "components (if last w = slash then butlast w else w) = components w"
      using components_mid [of "butlast w" "[]"] by auto
    moreover have "raw = (if last w = slash then butlast w else w) @ slash # p" using False cwd(4) by (simp add: raw_def path_join_def w_def)
    ultimately show ?thesis using False cwd(1) by (simp only: components_mid w_def if_False)
  qed (simp add: raw_def)
  then have r: "resolve (components raw) = fs_resolve s p" using p(1) by (simp add: fs_resolve_def)
  obtain v where v: "dir_path (fs_cwd s) = slash # v" using cwd(4,5) by (cases "dir_path (fs_cwd s)") auto
  have "no_nul v" "CHR 0x5C \<notin> set v" using cwd(2,3) v by auto
  then have s: "raw \<noteq> []" "hd raw = slash" "CHR 0x5C \<notin> set raw" "no_nul raw"
    using p butlast_plain [of v] unfolding raw_def path_join_def v by (auto simp: NUL_def dest: in_set_butlastD split: if_splits)
  then have u: "mist_path_to_unix_slashes raw = raw" by (auto simp: mist_path_to_unix_slashes_def intro: map_idI)
  show "absolute_path (if mist_path_is_absolute p then p else path_join (dir_path (fs_cwd s)) p) = dir_path (fs_resolve s p)"
    unfolding raw' absolute_path_def u Let_def using s r by (cases raw) (auto simp: dir_path_def)
  have "\<forall>c \<in> set (components raw). c \<noteq> [] \<and> no_nul c \<and> slash \<notin> set c \<and> CHR 0x5C \<notin> set c"
    using components_no_slash components_chars s(3,4) by (fastforce simp: no_nul_def)
  then have "list_all proper (resolve (components raw))" unfolding resolve_def by (intro resolve_proper) auto
  then show "list_all proper (fs_resolve s p)" using r by simp
qed

text \<open>On the disk, as on a file system without files, nothing is refused.\<close>

lemma disk_dirs: "posix_writable disk_sys fs_is_dir (\<lambda>s. dir_path (fs_cwd s)) disk_ok"
proof (unfold_locales, goal_cases)
  case (1 s)
  then show ?case using fs.root by (auto simp: disk_ok_def)
next
  case (2 s)
  then show ?case using fs.getcwd by (auto simp: disk_ok_def disk_sys_def)
next
  case (3 s)
  then show ?case using fs.cwd by (auto simp: disk_ok_def)
next
  case (4 s p b s')
  then have c: "chdir fs_posix p s = (b, s')" "fs_ok s" "d_out s = None" by (simp_all add: disk_ok_def disk_sys_def)
  have "d_out s' = d_out s" using c(1) by (auto simp: fs_posix_def Let_def split: if_splits)
  then show ?case using fs.chdir [OF c(2) 4(2) c(1)] c(3) by (simp add: disk_ok_def)
next
  case (5 s p b s')
  then have c: "mkdir fs_posix p s = (b, s')" "fs_ok s" "d_out s = None" by (simp_all add: disk_ok_def disk_sys_def)
  have "d_out s' = d_out s" using c(1) by (auto simp: fs_posix_def Let_def split: if_splits)
  then show ?case using fs.mkdir [OF c(2) 5(2) c(1)] c(3) by (simp add: disk_ok_def)
next
  case (6 s cs c)
  then show ?case using fs.allowed [of s cs c] by (simp add: disk_ok_def disk_sys_def)
qed

lemma fs_resolve_canonical_any: "canonical p \<Longrightarrow> fs_resolve s p = fs_resolve t p"
  using fs_resolve_canonical dir_path_inj by metis

lemma disk_full: "disk_ok s \<Longrightarrow> plain_path p \<Longrightarrow> posix_dirs.full (\<lambda>s. dir_path (fs_cwd s)) s p = dir_path (fs_resolve s p)"
  using full_resolve(1) [of s p] posix_dirs.full_def [OF posix_writable.axioms(1) [OF disk_dirs]] by (simp add: disk_ok_def)

interpretation disk_out: file_output_free disk_sys fs_is_dir "\<lambda>s. dir_path (fs_cwd s)" disk_ok disk_file
proof (intro file_output_free.intro file_output.intro file_output_axioms.intro file_output_free_axioms.intro posix_writable.axioms(1) [OF disk_dirs], goal_cases)
  case (1 s p)
  then show ?case by (auto simp: disk_sys_def fs_posix_def Let_def disk_file_def fun_eq_iff intro!: arg_cong [of _ _ "map_of (d_files s)"] fs_resolve_canonical_any)
next
  case (2 s p)
  then show ?case by (auto simp: disk_sys_def fs_posix_def Let_def disk_file_def fun_eq_iff intro!: arg_cong [of _ _ "map_of (d_files s)"] fs_resolve_canonical_any)
next
  case (3 s p s')
  then show ?case by (auto simp: disk_sys_def Let_def split: if_splits)
next
  case (4 s p s1 t b s2)
  let ?cs = "fs_resolve s p"
  have r: "list_all proper ?cs" using full_resolve(2) [of s p] 4(1,2) by (simp add: disk_ok_def)
  have s1: "s1 = s\<lparr>d_out := Some (?cs, [])\<rparr>" using 4(3) by (auto simp: disk_sys_def Let_def split: if_splits)
  then have s2: "b" "s2 = s\<lparr>d_out := Some (?cs, t)\<rparr>" using 4(4) by (auto simp: disk_sys_def)
  have s3: "fclose disk_sys s2 = s\<lparr>d_files := (?cs, t) # d_files s, d_out := None\<rparr>" unfolding s2(2) by (simp add: disk_sys_def)
  have k: "fs_resolve (s\<lparr>d_files := f, d_out := u\<rparr>) q = fs_resolve s q" for q f u by (simp add: fs_resolve_def)
  have "q = dir_path ?cs" if "canonical q" "fs_resolve s q = ?cs" for q using fs_resolve_canonical(2) [OF that(1), of s] that(2) by simp
  then have other: "\<forall>q. q \<noteq> dir_path ?cs \<longrightarrow> disk_file (fclose disk_sys s2) q = disk_file s q" unfolding s3 disk_file_def by (auto simp: k)
  have new: "disk_file (fclose disk_sys s2) (dir_path ?cs) = Some t"
    unfolding s3 disk_file_def using canonical_dir_path [OF r] fs_resolve_dir [OF r, of s] by (simp add: k)
  have "disk_ok (fclose disk_sys s2)" "fs_is_dir (fclose disk_sys s2) = fs_is_dir s" "fs_cwd (fclose disk_sys s2) = fs_cwd s"
    unfolding s3 using 4(1) by (simp_all add: disk_ok_def fs_ok_def fs_has_def fs_is_dir_def fun_eq_iff)
  then show ?case unfolding disk_full [OF 4(1,2)] using other new by simp
next
  case (5 s cs c)
  then show ?case by (rule posix_writable.allowed [OF disk_dirs])
next
  case (6 s p cs c)
  let ?cs = "fs_resolve s p"
  have r: "list_all proper ?cs" and ok: "fs_ok s" using full_resolve(2) [of s p] 6(1,2) by (auto simp: disk_ok_def)
  have "dir_path ?cs = dir_path (cs @ [c])" using 6(3) disk_full [OF 6(1,2)] by (simp add: dir_path_def)
  then have cs: "?cs = cs @ [c]" by (rule dir_path_inj [OF r 6(4)])
  have "fs_has s cs" "\<not> fs_has s (cs @ [c])" using fs_has_dir [OF ok, of cs] fs_has_dir [OF ok 6(4)] 6(3-6) by (auto simp: dir_path_def)
  then show ?case using cs plain_pathD(1) [OF 6(2)] by (simp add: disk_sys_def)
next
  case (7 s p s1 t)
  then show ?case by (auto simp: disk_sys_def Let_def split: if_splits)
qed

section \<open>An example\<close>

definition letter_cfg :: string where
  "letter_cfg = write_config [(''FILE_PATH_TEMPLATE'', ''out.txt'')]"

definition letter_disk :: disk where
  "letter_disk = \<lparr>fs_cwd = [], fs_dirs = [[''t''], [''t'', ''letter'']], d_files =
     [([''t'', ''letter'', ''letter.cfg''], letter_cfg), ([''t'', ''letter'', ''letter.tpl''], ''Dear <$who$>, <$sign$>''),
      ([''t'', ''letter'', ''sign.tpl''], ''bye'')], d_out = None\<rparr>"

abbreviation letter_dir :: string where
  "letter_dir \<equiv> ''/t/letter''"

lemma letter_paths:
  "components letter_dir = [''t'', ''letter'']" "conf_path letter_dir = ''/t/letter/letter.cfg''"
proof -
  show c: "components letter_dir = [''t'', ''letter'']" by code_simp
  show "conf_path letter_dir = ''/t/letter/letter.cfg''" unfolding conf_path_def c by (simp add: cfg_path_def base_name_def cfg_ext_def)
qed

lemma letter_files: "d_files letter_disk = [([''t'', ''letter'', ''letter.cfg''], letter_cfg), ([''t'', ''letter'', ''letter.tpl''], ''Dear <$who$>, <$sign$>''), ([''t'', ''letter'', ''sign.tpl''], ''bye'')]"
  by (simp add: letter_disk_def)

lemma letter_resolved:
  "resolve (components ''/t/letter/letter.cfg'') = [''t'', ''letter'', ''letter.cfg'']"
  "resolve (components ''/t/letter/letter.tpl'') = [''t'', ''letter'', ''letter.tpl'']"
  "resolve (components ''/t/letter/sign.tpl'') = [''t'', ''letter'', ''sign.tpl'']"
proof -
  have r: "resolve (components (path_of cs)) = cs" if "list_all proper cs" for cs
    using components_path_of [OF that] resolve_id [OF that, of "[]"] by (simp add: resolve_def)
  show "resolve (components ''/t/letter/letter.cfg'') = [''t'', ''letter'', ''letter.cfg'']"
    "resolve (components ''/t/letter/letter.tpl'') = [''t'', ''letter'', ''letter.tpl'']"
    "resolve (components ''/t/letter/sign.tpl'') = [''t'', ''letter'', ''sign.tpl'']"
    using r [of "[''t'', ''letter'', ''letter.cfg'']"] r [of "[''t'', ''letter'', ''letter.tpl'']"] r [of "[''t'', ''letter'', ''sign.tpl'']"]
    by (simp_all add: path_of_def proper_def no_nul_def NUL_def del: components_slash)
qed

lemma letter_content:
  "p \<noteq> [] \<Longrightarrow> hd p = slash \<Longrightarrow> disk_content letter_disk p = map_of (d_files letter_disk) (resolve (components p))"
  by (simp add: disk_content_def fs_resolve_def letter_disk_def)

lemma letter_disk_facts:
  "disk_ok letter_disk" "disk_listing letter_disk letter_dir = Some [''.'', ''..'', ''letter.cfg'', ''letter.tpl'', ''sign.tpl'']"
  "disk_content letter_disk (conf_path letter_dir) = Some letter_cfg"
  "tpl_files (disk_content letter_disk) letter_dir [''.'', ''..'', ''letter.cfg'', ''letter.tpl'', ''sign.tpl''] = [(''letter'', ''Dear <$who$>, <$sign$>''), (''sign'', ''bye'')]"
proof -
  show "disk_ok letter_disk" by (simp add: disk_ok_def letter_disk_def fs_ok_def fs_has_def proper_def no_nul_def NUL_def)
  show "disk_listing letter_disk letter_dir = Some [''.'', ''..'', ''letter.cfg'', ''letter.tpl'', ''sign.tpl'']"
    by (simp add: disk_listing_def fs_resolve_def letter_disk_def components_def resolve_def resolve_step_def fs_has_def)
  show "disk_content letter_disk (conf_path letter_dir) = Some letter_cfg"
  proof -
    have "disk_content letter_disk ''/t/letter/letter.cfg'' = Some letter_cfg" using letter_content [of "''/t/letter/letter.cfg''"] letter_resolved(1) by (simp add: letter_files)
    then show ?thesis by (simp only: letter_paths(2))
  qed
  have c: "disk_content letter_disk ''/t/letter/letter.tpl'' = Some ''Dear <$who$>, <$sign$>''" "disk_content letter_disk ''/t/letter/sign.tpl'' = Some ''bye''"
    using letter_content [of "''/t/letter/letter.tpl''"] letter_content [of "''/t/letter/sign.tpl''"] letter_resolved(2,3) by (simp_all add: letter_files)
  have p: "tpl_path letter_dir ''letter.tpl'' = ''/t/letter/letter.tpl''" "tpl_path letter_dir ''sign.tpl'' = ''/t/letter/sign.tpl''"
    by (simp_all add: tpl_path_def path_join_def mist_path_is_absolute_def strchr_def)
  have t: "is_tpl ''letter.tpl''" "is_tpl ''sign.tpl''" "\<not> is_tpl ''.''" "\<not> is_tpl ''..''" "\<not> is_tpl ''letter.cfg''" by (simp_all add: is_tpl_def)
  show "tpl_files (disk_content letter_disk) letter_dir [''.'', ''..'', ''letter.cfg'', ''letter.tpl'', ''sign.tpl''] = [(''letter'', ''Dear <$who$>, <$sign$>''), (''sign'', ''bye'')]"
    by (simp only: tpl_files.simps t p c if_True if_False option.case) (simp add: c_str_def NUL_def)
qed

lemma letter_config: "config 0 (file_lines letter_cfg) = ([(''FILE_PATH_TEMPLATE'', ''out.txt'')], None)" "no_nul letter_cfg" "length letter_cfg + 2 < 2 ^ 31"
proof -
  have p: "list_all (\<lambda>(name, v). Mist_Config_File.plain_name name \<and> plain_value v) [(''FILE_PATH_TEMPLATE'', ''out.txt'')]" by code_simp
  show "config 0 (file_lines letter_cfg) = ([(''FILE_PATH_TEMPLATE'', ''out.txt'')], None)" "no_nul letter_cfg"
    using config_write [OF p] write_config_no_nul [OF p] by (simp_all add: letter_cfg_def)
  show "length letter_cfg + 2 < 2 ^ 31" by (simp add: letter_cfg_def write_config_def write_line_def)
qed

lemma plain_reads: "reads ''out.txt'' ''<$'' ''$>'' (Inr (Tmpl ''out.txt'' []))"
proof -
  have "printable_t ''<$'' ''$>'' (Tmpl ''out.txt'' [])"
    by (simp add: inner_def outer_def plain_name_def trimmed_def ph_text_def is_ws_def wspace_def flip: strstr_None_iff)
  from this [THEN reads_print [rotated]] show ?thesis by simp
qed

section \<open>Properties\<close>


lemma letter_loadable: "load_code letter_dir [(''FILE_PATH_TEMPLATE'', ''out.txt'')] None [(''letter'', ''Dear <$who$>, <$sign$>''), (''sign'', ''bye'')] = MIST_OK"
proof -
  have good: "\<not> mist_name_is_bad ''letter''" "\<not> mist_name_is_bad ''sign''" by (simp_all add: mist_name_is_bad_def char_is_bad_iff name_char_def)
  have "readable ''<$'' ''$>'' [''Dear <$who$>, <$sign$>'', ''bye''] [letter_tree, Tmpl ''bye'' []]" using letter_reads by (simp add: readable_def)
  then have "loadable ''letter'' ''out.txt'' ''<$'' ''$>'' [(''letter'', ''Dear <$who$>, <$sign$>''), (''sign'', ''bye'')]"
    unfolding loadable_def using plain_reads by (intro conjI exI) auto
  moreover have "last (components letter_dir) = ''letter''" unfolding letter_paths(1) by simp
  ultimately show ?thesis unfolding load_code_def using good
    by (simp only:) (simp add: conf_code_def given_def beg_name_def end_name_def fpt_name_def def_beg_def def_end_def dir_code_def)
qed

lemma letter_small: "disk_content letter_disk p = Some t \<Longrightarrow> small t"
  by (auto simp: disk_content_def letter_files letter_cfg_def write_config_def write_line_def small_def dest!: map_of_SomeD split: if_splits)


lemma file_result_cases:
  assumes "file_output P is_dir cwd ok files" "file_output.file_result P is_dir cwd ok files s path cs t ec s'" "plain_path path"
    and f: "full = absolute_path (if mist_path_is_absolute path then path else path_join (cwd s) path)" "full = path_of (cs @ [c])" "list_all proper (cs @ [c])" "cs \<noteq> []"
  shows "ok s'" "cwd s' = cwd s" "\<forall>q. q \<noteq> full \<longrightarrow> files s' q = files s q" "\<exists>D \<subseteq> set (dirs_to [] cs). is_dir s' = (\<lambda>q. is_dir s q \<or> q \<in> D)"
    "ec = MIST_OK \<and> files s' full = Some t \<and> is_dir s' (path_of cs) \<or> ec \<in> {MIST_CREATE_DIR_FAILED, MIST_WRITE_FILE_FAILED}"
    "file_output_free P is_dir cwd ok files \<and> \<not> is_dir s full \<longrightarrow> ec = MIST_OK"
proof -
  have dl: "posix_dirs P is_dir cwd ok" using assms(1) by (rule file_output.axioms)
  have fu: "full = posix_dirs.full cwd s path" using posix_dirs.full_def [OF dl] f(1) by simp
  have fr: "\<exists>D \<subseteq> set (dirs_to [] cs). posix_dirs.grown is_dir cwd ok s D s'" "\<forall>q. q \<noteq> full \<longrightarrow> files s' q = files s q"
      "ec = MIST_OK \<and> files s' full = Some t \<and> is_dir s' (path_of cs) \<or> ec = MIST_CREATE_DIR_FAILED \<and> posix_dirs.refused P is_dir ok
       \<or> ec = MIST_WRITE_FILE_FAILED \<and> file_output.write_refused P is_dir cwd ok s cs path t"
    using assms(2) unfolding file_output.file_result_def [OF assms(1)] fu by blast+
  show "ok s'" "cwd s' = cwd s" "\<exists>D \<subseteq> set (dirs_to [] cs). is_dir s' = (\<lambda>q. is_dir s q \<or> q \<in> D)" using fr(1) unfolding posix_dirs.grown_def [OF dl] by blast+
  show "\<forall>q. q \<noteq> full \<longrightarrow> files s' q = files s q" by (rule fr(2))
  show "ec = MIST_OK \<and> files s' full = Some t \<and> is_dir s' (path_of cs) \<or> ec \<in> {MIST_CREATE_DIR_FAILED, MIST_WRITE_FILE_FAILED}" using fr(3) by blast
  have "\<not> posix_dirs.refused P is_dir ok" "\<not> file_output.write_refused P is_dir cwd ok s cs path t" if "file_output_free P is_dir cwd ok files" "\<not> is_dir s full"
    using file_output_free.dirs_not_refused [OF that(1)] file_output_free.write_not_refused [OF that(1) assms(3) f(2) [unfolded fu] f(3,4) that(2) [unfolded fu]] by blast+
  then show "file_output_free P is_dir cwd ok files \<and> \<not> is_dir s full \<longrightarrow> ec = MIST_OK" using fr(3) by blast
qed


lemma letter_value_meaning:
  "let S = map_of (zip [''letter'', ''sign''] [letter_tree, Tmpl ''bye'' []]); V = values_for (smap_as_array letter_params)
   in meaning value_limit S V 2 (entity_of S V ''letter'') = Some [''Dear Ann, bye'']"
proof -
  let ?S = "map_of (zip [''letter'', ''sign''] [letter_tree, Tmpl ''bye'' []])" and ?V = "values_for (smap_as_array letter_params)"
  have "meaning value_limit ?S ?V (Suc (Suc 0)) (entity_of ?S ?V ''letter'') = Some [''Dear Ann, bye'']"
    by (simp add: letter_params_def smap_as_array_def letter_tree_def entity_of_def values_for_def phx_meaning_def
        expand_def pick_def longest_def room_def rows_def value_limit_def upt_rec)
  then show ?thesis by (simp only: numeral_2_eq_2 Let_def)
qed

lemma out_path: "''/t/new/out.txt'' = path_of ([''t'', ''new''] @ [''out.txt''])" "list_all proper ([''t'', ''new''] @ [''out.txt''])"
    "''/t/new/out.txt'' = absolute_path (if mist_path_is_absolute ''/t/new/out.txt'' then ''/t/new/out.txt'' else path_join (dir_path (fs_cwd letter_disk)) ''/t/new/out.txt'')"
proof -
  show p: "''/t/new/out.txt'' = path_of ([''t'', ''new''] @ [''out.txt''])" by (simp add: path_of_def)
  show pr: "list_all proper ([''t'', ''new''] @ [''out.txt''])" by (simp add: proper_def no_nul_def NUL_def)
  have "canonical ''/t/new/out.txt''" unfolding p canonical_def using pr by blast
  then have "absolute_path ''/t/new/out.txt'' = ''/t/new/out.txt''" by (rule absolute_path_id)
  moreover have "mist_path_is_absolute ''/t/new/out.txt''" by (simp add: mist_path_is_absolute_def)
  ultimately show "''/t/new/out.txt'' = absolute_path (if mist_path_is_absolute ''/t/new/out.txt'' then ''/t/new/out.txt'' else path_join (dir_path (fs_cwd letter_disk)) ''/t/new/out.txt'')"
    by presburger
qed


end
