(* ===== verification/Spec2Isabelle.thy ===== *)
theory Spec2Isabelle
  imports Mist_Engine_Correct Mist_Disk
begin

text \<open>
  Verification of the MiST template engine of kedr-aux
  (\<^verbatim>\<open>src/snippets/code_generation/mist_gen.simple/src/mist_engine/src/\<close>).

  \<^bold>\<open>The program.\<close> KEDR generates the sources of its payload modules from templates. The engine reads
  templates, text with placeholders between two markers (\<^verbatim>\<open><$name$>\<close>, \<^verbatim>\<open><$name: join(sep)$>\<close> and
  \<^verbatim>\<open><$if cond$>...<$else$>...<$endif$>\<close>), connects the placeholders of a group of templates with the templates and
  attributes they name, and computes the values of the main template: every template has a list of values,
  a template with multi-valued placeholders has a row for each value, join makes one string of all of
  them. Its parts, bottom up: growing arrays (\<^verbatim>\<open>grar.c\<close>), string maps on top of them (\<^verbatim>\<open>smap.c\<close>), strings
  (\<^verbatim>\<open>mist_string_utils.c\<close>), templates (\<^verbatim>\<open>mist_base.c\<close>), files and paths (\<^verbatim>\<open>mist_file_utils.c\<close>), the settings
  and the public interface (\<^verbatim>\<open>mist_exec.c\<close>, \<^verbatim>\<open>mist_engine.c\<close>).

  \<^bold>\<open>The theories.\<close>
  \<^item> \<open>C_Runtime\<close>: outcomes (\<open>None\<close> is undefined behaviour, a failed assertion or a loop without end; \<open>returns\<close>
    is total correctness), dynamic memory as a record with a script of answers and a count of live blocks,
    C strings and the library functions on them, \<open>sprintf\<close>.
  \<^item> \<open>Grar\<close> (\<^verbatim>\<open>grar.c\<close>, \<^verbatim>\<open>grar.h\<close>): a growing array is its list of elements with a capacity. The locale
    \<open>libc_search\<close> states what the C standard promises of \<open>qsort\<close> and \<open>bsearch\<close>, which are parameters, and is
    interpreted on an insertion sort and a binary search; the locale \<open>growing_array\<close> is the interface of
    the array, interpreted on the operations of the program. Properties: growth of the capacity,
    appending all or nothing, adding to a destroyed array.
  \<^item> \<open>Smap\<close> (\<^verbatim>\<open>smap.c\<close>): string maps refine finite maps; lookup, update of a key, duplicate keys, merging,
    and an \<open>inductive\<close> run of operations that never leaks. The locale \<open>smap_libc\<close> extends \<open>libc_search\<close>.
  \<^item> \<open>Mist_String\<close>, \<open>Mist_String_Correct\<close> (\<^verbatim>\<open>mist_string_utils.c\<close>): strings as buffers of bytes, with a
    check on every write; trimming, replacing, unescaping and concatenating agree with reference functions on lists
    of characters; names, line numbers and messages.
  \<^item> \<open>Mist_Token\<close>, \<open>Mist_Lex\<close> (\<^verbatim>\<open>mist_base.c\<close>, tokens): the tokenizer implements the declarative splitting
    \<open>spelled\<close> of a source into chunks and placeholders, and reports the right error.
  \<^item> \<open>Mist_Template\<close>, \<open>Mist_Expr\<close>, \<open>Mist_Parse\<close> (\<^verbatim>\<open>mist_base.c\<close>, templates and their parser): the recursive descent
    parser implements the grammar \<open>pT\<close>, \<open>pI\<close>, \<open>pP\<close> (mutually inductive relations, shown deterministic), and
    \<open>mist_template_from_string\<close> the relation \<open>reads\<close> between sources and trees or error messages. The parser
    has fuel, one unit more than there are tokens, which is shown to be enough.
  \<^item> \<open>Mist_Eval\<close> (\<^verbatim>\<open>mist_base.c\<close>, evaluation): the evaluation of templates with references between them,
    the copying into buffers, conditionals. A pointer to a template is an index into the group or an owned
    template. Fuel bounds the depth of the calls.
  \<^item> \<open>Mist_Values\<close>: the reference semantics \<open>tval\<close> of templates, and what every evaluation keeps, also one
    that fails or meets references in a circle: well-formedness, the meaning of the templates, the count of blocks.
  \<^item> \<open>Mist_Copy\<close>: the sizes computed for the buffers are enough for what is copied into them.
  \<^item> \<open>Mist_Semantics\<close>: the evaluation computes the reference semantics, with as much fuel as the references
    are deep.

  \<^item> \<open>Mist_Print\<close>: a printer of trees that is inverted by \<open>mist_template_from_string\<close>.
  \<^item> \<open>Mist_Group\<close> (\<^verbatim>\<open>mist_base.c\<close>, groups): the group is the growing array of its templates; the attributes
    it needs are collected and added, the array is sorted and the placeholders are set to the indices of
    the templates they name; values, evaluation, path strings.
  \<^item> \<open>Mist_Link\<close>, \<open>Mist_Group_Correct\<close>: collecting names and connecting pointers on templates parsed from trees,
    and all steps of the creation. The locale \<open>group_libc\<close> has the promises of \<open>qsort\<close> and \<open>bsearch\<close> for
    templates and for strings. \<open>group_spec\<close> specifies the group made from given trees.
  \<^item> \<open>Mist_Group_Run\<close>: \<open>mist_tg_create_impl\<close> implements \<open>group_spec\<close> and reports the first error.
  \<^item> \<open>Mist_Group_Ops\<close>: the invariant \<open>tg_inv\<close> of groups under any run of operations; values added, evaluation against
    \<open>tval\<close>, clearing, and the strings generated.
  \<^item> \<open>Mist_Path\<close>, \<open>Mist_Path_Correct\<close>, \<open>Mist_Dirs\<close> (\<^verbatim>\<open>mist_file_utils.c\<close>, paths and directories): the calls of
    the operating system are functions on its state, given by the record \<open>posix\<close>; their laws are the locales
    \<open>posix_dirs\<close> and \<open>posix_writable\<close>, interpreted on a small file system. Absolute paths are canonical, and
    \<open>mist_create_path\<close> makes what is missing.
  \<^item> \<open>Mist_Config\<close>, \<open>Mist_Config_Correct\<close>, \<open>Mist_Config_File\<close> (\<^verbatim>\<open>mist_file_utils.c\<close>, configuration files): streams
    with a position, indicators and a script of answers; the loops over a file are \<open>partial_function\<close>s, shown to
    return. The loader agrees with the reference parser \<open>config\<close> on the lines of the file, within its buffer.
  \<^item> \<open>Mist_Meaning\<close>: the meaning of named sources (\<open>meaning\<close>), without positions and references, and that the
    groups of \<open>group_spec\<close> have it.
  \<^item> \<open>Mist_Engine\<close>, \<open>Mist_Engine_Correct\<close> (\<^verbatim>\<open>mist_engine.c\<close>): the public interface, with the version in use and the
    variables the operations write. A session gives the meaning of its sources; \<open>engine_run\<close> is the state
    machine of everything a client can do, with its invariant; all outcomes of the creation of a group.
  \<^item> \<open>Mist_Group_Files\<close> (\<^verbatim>\<open>mist_base.c\<close>, groups in files): the configuration of a group, the templates of a
    directory, the two groups made from them, and the generated file; the record \<open>filesys\<close> has the calls of the system.
  \<^item> \<open>Mist_Config_Sizes\<close>, \<open>Mist_Group_Conf\<close>, \<open>Mist_Group_Dir\<close>, \<open>Mist_Group_Load\<close>: what is read from a configuration file and
    from the files of a directory. The locale \<open>dir_files\<close> has the laws of reading; \<open>load_code\<close> is the code that
    \<open>mist_tg_load_from_dir_impl\<close> returns, \<open>groups_of\<close> specifies its two groups.
  \<^item> \<open>Mist_Group_Out\<close>: writing the generated file, in the locales \<open>file_output\<close> (laws of writing) and
    \<open>file_output_free\<close> (nothing is refused), which extend \<open>posix_dirs\<close>.
  \<^item> \<open>Mist_Disk\<close>: a disk that is an instance of all these locales, and the properties of loading and of generating.

  \<^bold>\<open>Fuel and bounds.\<close> \<open>parse_fuel\<close> is one more than the number of tokens: every call of the parser and every
  round of its loop consumes a token. The fuel of \<open>mist_template_evaluate\<close> is at least the height of the references
  (\<open>tval\<close> is defined at it). Theorems that no request fails or that sizes do not wrap around are for
  inputs below $2^{50}$ (\<open>small\<close>, \<open>value_limit\<close>): the products and sums of sizes then stay below
  \<open>PTRDIFF_MAX\<close>; the wrap-around itself is part of the model.

  \<^bold>\<open>Not modelled.\<close> The command line tool (\<^verbatim>\<open>mist_exec.c\<close>, \<^verbatim>\<open>main.c\<close>): it parses its arguments with \<open>getopt_long\<close>, prints
  messages and calls the functions above. The calls of the operating system and \<open>qsort\<close> and \<open>bsearch\<close> of the C library are parameters
  with laws. The other snippets of the repository: \<^verbatim>\<open>mist2\<close> is C++ with a generated scanner and the vendored yaml-cpp; the
  instrumentation of binaries works on x86 machine code with the decoder of the Linux kernel; the calculator of the fault
  indicators, the leak checker and the replacement of file operations are kernel modules around live kernel objects.
\<close>

end
